(* ===== verification/Prelude.thy ===== *)
theory Prelude
  imports Main "HOL-Library.Word" "HOL-Library.Monad_Syntax"
begin

text \<open>
  Shared vocabulary of the development: the C integer types of \<^verbatim>\<open>student-distrib/types.h\<close>
  as words, byte buffers as functions of a 32-bit offset, the views that turn a pointer into
  a flat memory into such a buffer and back, and the generic lemmas on words, buffers and
  counted loops that the component theories use.
\<close>

unbundle bit_operations_syntax

named_theorems view_simps \<open>pointer views of a flat memory\<close>

section \<open>C types\<close>

type_synonym u8 = "8 word"
type_synonym u16 = "16 word"
type_synonym u32 = "32 word"

text \<open>
  An \<^verbatim>\<open>int32_t\<close> is kept as its 32-bit pattern; \<^const>\<open>sint\<close> reads it, and \<open>-1\<close> is the
  pattern the kernel returns for failure.
\<close>

type_synonym i32 = "32 word"

text \<open>
  A buffer: what \<^verbatim>\<open>p[i]\<close> reads for a pointer \<open>p\<close> and an unsigned 32-bit offset \<open>i\<close>.
  A flat memory maps addresses to bytes.
\<close>

type_synonym str = "u32 \<Rightarrow> u8"
type_synonym addr = u32
type_synonym mem = "u32 \<Rightarrow> u8"

text \<open>One byte written to an I/O port by \<^verbatim>\<open>outb(data, port)\<close>: the port and the data.\<close>

type_synonym port_write = "u32 \<times> u8"

section \<open>Views of memory\<close>

definition view :: "mem \<Rightarrow> addr \<Rightarrow> str" where
  "view m p = (\<lambda>i. m (p + i))"

definition unview :: "addr \<Rightarrow> str \<Rightarrow> mem" where
  "unview p b = (\<lambda>a. b (a - p))"

lemma unview_view [simp, view_simps]: "unview p (view m p) = m"
  by (simp add: view_def unview_def)

lemma view_unview [simp, view_simps]: "view (unview p b) p = b"
  by (simp add: view_def unview_def)

lemma view_apply [view_simps]: "view m p i = m (p + i)"
  by (simp add: view_def)

lemma unview_apply [view_simps]: "unview p b a = b (a - p)"
  by (simp add: unview_def)

section \<open>Words as counters\<close>

lemma unat_of_nat32 [simp]: "n < 4294967296 \<Longrightarrow> unat (of_nat n :: u32) = n"
  by (simp add: unat_of_nat take_bit_nat_eq_self)

lemma of_nat32_eq_iff:
  "i < 4294967296 \<Longrightarrow> j < 4294967296 \<Longrightarrow> (of_nat i :: u32) = of_nat j \<longleftrightarrow> i = j"
  by (metis unat_of_nat32)

lemma unat_lt32: "unat (x :: u32) < 4294967296"
  using unsigned_less [of x, where ?'a=nat] by simp

lemma unat_eq_iff32: "n < 4294967296 \<Longrightarrow> unat (x :: u32) = n \<longleftrightarrow> x = of_nat n"
  by auto

lemma uint_less_int_iff: "uint (x :: u32) < int n \<longleftrightarrow> unat x < n"
  by (metis of_nat_less_iff uint_nat)

lemma uint_le_int_iff: "uint (x :: u32) \<le> int n - 1 \<longleftrightarrow> unat x < n"
  using uint_less_int_iff [of x n] by linarith

lemma sint_of_nat32: "n < 2147483648 \<Longrightarrow> sint (of_nat n :: u32) = int n"
  by (simp add: sint_uint uint_nat signed_take_bit_int_eq_self)

section \<open>Buffers filled by counted loops\<close>

text \<open>
  \<open>fill d g i n\<close>: the buffer \<open>d\<close> after the elements at offsets \<open>i\<close> to \<open>n - 1\<close> have been set to
  those of \<open>g\<close>. A loop that writes one element and goes on with the next index is one
  \<open>fill_step\<close> from the closed form.
\<close>

definition fill :: "(u32 \<Rightarrow> 'a) \<Rightarrow> (u32 \<Rightarrow> 'a) \<Rightarrow> nat \<Rightarrow> nat \<Rightarrow> u32 \<Rightarrow> 'a" where
  "fill d g i n = (\<lambda>x. if i \<le> unat x \<and> unat x < n then g x else d x)"

lemma fill_apply: "fill d g i n x = (if i \<le> unat x \<and> unat x < n then g x else d x)"
  by (simp add: fill_def)

lemma fill_empty [simp]: "n \<le> i \<Longrightarrow> fill d g i n = d"
  by (auto simp: fill_def fun_eq_iff)

lemma fill_step:
  assumes "i < n" "n \<le> 4294967296"
  shows "fill (d(of_nat i := g (of_nat i))) g (Suc i) n = fill d g i n"
proof (rule ext)
  fix x :: u32
  show "fill (d(of_nat i := g (of_nat i))) g (Suc i) n x = fill d g i n x"
  proof (cases "unat x = i")
    case True
    then show ?thesis using assms by (auto simp: fill_apply)
  next
    case False
    then have "x \<noteq> of_nat i" using assms by (auto simp: unat_eq_iff32)
    then show ?thesis using False by (auto simp: fill_apply)
  qed
qed

lemma fill_of_nat:
  "k < 4294967296 \<Longrightarrow> fill d g i n (of_nat k) = (if i \<le> k \<and> k < n then g (of_nat k) else d (of_nat k))"
  by (simp add: fill_apply)

section \<open>Regions of memory\<close>

text \<open>The \<open>l\<close> bytes at \<open>p\<close> lie outside the \<open>n\<close> bytes at \<open>b\<close>.\<close>

definition far :: "addr \<Rightarrow> nat \<Rightarrow> addr \<Rightarrow> nat \<Rightarrow> bool" where
  "far b n p l \<longleftrightarrow> n \<le> unat (p - b) \<and> unat (p - b) + l \<le> 4294967296"

lemma far_at: "far b n p l \<Longrightarrow> i < l \<Longrightarrow> n \<le> unat (p + of_nat i - b)"
proof -
  assume a: "far b n p l" "i < l"
  have "p + of_nat i - b = of_nat (unat (p - b) + i)" by (simp add: algebra_simps)
  moreover have "unat (p - b) + i < 4294967296" using a by (simp add: far_def)
  ultimately have "unat (p + of_nat i - b) = unat (p - b) + i" by (simp only: unat_of_nat32)
  then show ?thesis using a(1) by (simp add: far_def)
qed

section \<open>Busy waiting\<close>

text \<open>
  A loop that spins until a variable changed by interrupt handlers satisfies \<open>P\<close>. The list holds the
  handlers that run while the loop waits, in order; \<open>None\<close> means that it still waits after the last one.
\<close>

primrec spin :: "('s \<Rightarrow> bool) \<Rightarrow> ('s \<Rightarrow> 's) list \<Rightarrow> 's \<Rightarrow> 's option" where
  "spin P [] s = (if P s then Some s else None)"
| "spin P (f # fs) s = (if P s then Some s else spin P fs (f s))"

lemma spin_SomeD: "spin P fs s = Some t \<Longrightarrow> P t"
  by (induction fs arbitrary: s) (auto split: if_splits)

lemma spin_ready [simp]: "P s \<Longrightarrow> spin P fs s = Some s"
  by (cases fs) auto

text \<open>A handler in the list that makes \<open>P\<close> true ends the wait, whatever the others do.\<close>

lemma spin_ends: "(\<And>s. P (f s)) \<Longrightarrow> f \<in> set fs \<Longrightarrow> \<exists>t. spin P fs s = Some t \<and> P t"
  by (induction fs arbitrary: s) auto

lemma spin_keeps: "spin P fs s = Some t \<Longrightarrow> (\<And>f s. f \<in> set fs \<Longrightarrow> g (f s) = g s) \<Longrightarrow> g t = g s"
  by (induction fs arbitrary: s) (auto split: if_splits)

lemma spin_waits: "\<not> P s \<Longrightarrow> (\<And>g s. g \<in> set fs \<Longrightarrow> \<not> P s \<Longrightarrow> \<not> P (g s)) \<Longrightarrow> spin P fs s = None"
  by (induction fs arbitrary: s) auto

lemma unat_ucast8 [simp]: "unat (ucast (x :: u8) :: u32) = unat x"
  by transfer simp

end
