(* ===== verification/LibString.thy ===== *)
theory LibString
  imports Prelude
begin

text \<open>
  The string routines of \<^verbatim>\<open>student-distrib/lib.c\<close>: \<open>strlen\<close>, \<open>strrev\<close>, \<open>itoa\<close>, \<open>strncmp\<close>,
  \<open>strcpy\<close> and \<open>strncpy\<close>. A string argument is the buffer its pointer points at. A routine that
  searches for a NUL has an option result: \<^const>\<open>None\<close> means that it does not return (or, in
  \<open>itoa\<close>, that it divides by zero or reads outside its digit table). The lemmas give, for each
  routine, what it computes in terms of the list of characters before the first NUL.
\<close>

section \<open>Model\<close>

partial_function (option) strlen_loop :: "str \<Rightarrow> u32 \<Rightarrow> u32 option" where
  "strlen_loop s len = (if s len \<noteq> 0 then strlen_loop s (len + 1) else Some len)"

definition strlen :: "str \<Rightarrow> u32 option" where
  "strlen s = strlen_loop s 0"

function strrev_loop :: "str \<Rightarrow> int \<Rightarrow> int \<Rightarrow> str" where
  "strrev_loop s beg en =
     (if beg < en
      then let tmp = s (of_int en);
               s1 = s(of_int en := s (of_int beg));
               s2 = s1(of_int beg := tmp)
           in strrev_loop s2 (beg + 1) (en - 1)
      else s)"
  by pat_completeness auto
termination
  by (relation "measure (\<lambda>(s, beg, en). nat (en - beg))") auto

declare strrev_loop.simps [simp del]

definition strrev :: "str \<Rightarrow> str option" where
  "strrev s = do { n \<leftarrow> strlen s; Some (strrev_loop s 0 (sint (n - 1))) }"

definition lookup :: "u8 list" where
  "lookup = map (of_nat \<circ> of_char) ''0123456789ABCDEFGHIJKLMNOPQRSTUVWXYZ'' @ [0]"

partial_function (option) itoa_loop :: "str \<Rightarrow> u32 \<Rightarrow> u32 \<Rightarrow> i32 \<Rightarrow> (str \<times> u32) option" where
  "itoa_loop buf pos newval radix =
     (if newval > 0
      then if radix = 0 then None
           else let i = newval mod radix
                in if unat i < length lookup
                   then itoa_loop (buf(pos := lookup ! unat i)) (pos + 1) (newval div radix) radix
                   else None
      else Some (buf, pos))"

definition itoa :: "u32 \<Rightarrow> str \<Rightarrow> i32 \<Rightarrow> str option" where
  "itoa v buf radix =
     (if v = 0 then Some (buf(0 := 48, 1 := 0))
      else do { (b, pos) \<leftarrow> itoa_loop buf 0 v radix; strrev (b(pos := 0)) })"

function strncmp_loop :: "str \<Rightarrow> str \<Rightarrow> u32 \<Rightarrow> nat \<Rightarrow> i32" where
  "strncmp_loop s1 s2 n i =
     (if i < unat n
      then if s1 (of_nat i) \<noteq> s2 (of_nat i) \<or> s1 (of_nat i) = 0
           then of_int (sint (s1 (of_nat i)) - sint (s2 (of_nat i)))
           else strncmp_loop s1 s2 n (Suc i)
      else 0)"
  by pat_completeness auto
termination
  by (relation "measure (\<lambda>(s1, s2, n, i). unat n - i)") auto

declare strncmp_loop.simps [simp del]

definition strncmp :: "str \<Rightarrow> str \<Rightarrow> u32 \<Rightarrow> i32" where
  "strncmp s1 s2 n = strncmp_loop s1 s2 n 0"

partial_function (option) strcpy_loop :: "str \<Rightarrow> str \<Rightarrow> u32 \<Rightarrow> (str \<times> u32) option" where
  "strcpy_loop dest src i =
     (if src i \<noteq> 0 then strcpy_loop (dest(i := src i)) src (i + 1) else Some (dest, i))"

definition strcpy :: "str \<Rightarrow> str \<Rightarrow> str option" where
  "strcpy dest src = do { (d, i) \<leftarrow> strcpy_loop dest src 0; Some (d(i := 0)) }"

function strncpy_copy :: "str \<Rightarrow> str \<Rightarrow> u32 \<Rightarrow> nat \<Rightarrow> str \<times> nat" where
  "strncpy_copy dest src n i =
     (if src (of_nat i) \<noteq> 0 \<and> i < unat n
      then strncpy_copy (dest(of_nat i := src (of_nat i))) src n (Suc i)
      else (dest, i))"
  by pat_completeness auto
termination
  by (relation "measure (\<lambda>(dest, src, n, i). unat n - i)") auto

function strncpy_pad :: "str \<Rightarrow> u32 \<Rightarrow> nat \<Rightarrow> str" where
  "strncpy_pad dest n i =
     (if i < unat n then strncpy_pad (dest(of_nat i := 0)) n (Suc i) else dest)"
  by pat_completeness auto
termination
  by (relation "measure (\<lambda>(dest, n, i). unat n - i)") auto

declare strncpy_copy.simps [simp del] strncpy_pad.simps [simp del]

definition strncpy :: "str \<Rightarrow> str \<Rightarrow> u32 \<Rightarrow> str" where
  "strncpy dest src n = (let (d, i) = strncpy_copy dest src n 0 in strncpy_pad d n i)"

section \<open>C strings\<close>

text \<open>\<open>cstr s cs\<close>: the buffer holds the non-zero bytes \<open>cs\<close> followed by a NUL.\<close>

definition cstr :: "str \<Rightarrow> u8 list \<Rightarrow> bool" where
  "cstr s cs \<longleftrightarrow> length cs < 4294967296 \<and> (\<forall>i < length cs. s (of_nat i) = cs ! i \<and> cs ! i \<noteq> 0)
     \<and> s (of_nat (length cs)) = 0"

lemma cstrI:
  assumes "length cs < 4294967296" "\<And>i. i < length cs \<Longrightarrow> s (of_nat i) = cs ! i"
    "0 \<notin> set cs" "s (of_nat (length cs)) = 0"
  shows "cstr s cs"
  using assms by (auto simp: cstr_def in_set_conv_nth)

lemma cstr_unique:
  assumes "cstr s cs" "cstr s ds"
  shows "cs = ds"
proof -
  have "\<not> length cs < length ds" and "\<not> length ds < length cs"
    using assms by (auto simp: cstr_def)
  then have len: "length cs = length ds" by simp
  show ?thesis
    by (rule nth_equalityI [OF len]) (use assms len in \<open>auto simp: cstr_def\<close>)
qed

subsection \<open>strlen\<close>

lemma strlen_loop_upto:
  assumes "k \<le> n" "\<And>i. k \<le> i \<Longrightarrow> i < n \<Longrightarrow> s (of_nat i) \<noteq> 0" "s (of_nat n) = 0"
  shows "strlen_loop s (of_nat k) = Some (of_nat n)"
  using assms
proof (induction rule: inc_induct)
  case base
  then show ?case by (simp add: strlen_loop.simps)
next
  case (step k)
  have "s (of_nat k) \<noteq> 0" using step.prems(1) [of k] step.hyps by simp
  moreover have "strlen_loop s (of_nat (Suc k)) = Some (of_nat n)"
    using step.prems by (intro step.IH) auto
  ultimately show ?case
    by (subst strlen_loop.simps) (simp add: add.commute)
qed

lemma strlen_cstr: "cstr s cs \<Longrightarrow> strlen s = Some (of_nat (length cs))"
  using strlen_loop_upto [of 0 "length cs" s] by (simp add: strlen_def cstr_def)

lemma strlen_loop_Some_raw:
  assumes "strlen_loop s k = Some n"
  shows "s n = 0 \<and> (\<exists>j. n = k + of_nat j \<and> (\<forall>i<j. s (k + of_nat i) \<noteq> 0))"
proof (rule strlen_loop.raw_induct
    [where P = "\<lambda>s k n. s n = 0 \<and> (\<exists>j. n = k + of_nat j \<and> (\<forall>i<j. s (k + of_nat i) \<noteq> 0))", OF _ assms])
  fix f :: "str \<Rightarrow> u32 \<Rightarrow> u32 option" and s :: str and k n :: u32
  assume IH: "\<And>s k n. f s k = Some n \<Longrightarrow> s n = 0 \<and> (\<exists>j. n = k + of_nat j \<and> (\<forall>i<j. s (k + of_nat i) \<noteq> 0))"
    and eq: "(if s k \<noteq> 0 then f s (k + 1) else Some k) = Some n"
  show "s n = 0 \<and> (\<exists>j. n = k + of_nat j \<and> (\<forall>i<j. s (k + of_nat i) \<noteq> 0))"
  proof (cases "s k = 0")
    case True
    with eq show ?thesis by (intro conjI exI [of _ 0]) auto
  next
    case False
    with eq have "f s (k + 1) = Some n" by simp
    from IH [OF this] obtain j where "s n = 0" and n: "n = k + 1 + of_nat j"
      and nz: "\<forall>i<j. s (k + 1 + of_nat i) \<noteq> 0" by blast
    moreover have "\<forall>i<Suc j. s (k + of_nat i) \<noteq> 0"
      using nz False by (auto simp: less_Suc_eq_0_disj add.assoc)
    ultimately show ?thesis by (intro conjI exI [of _ "Suc j"]) (auto simp: add.assoc)
  qed
qed

lemma strlen_SomeD:
  assumes "strlen s = Some n"
  shows "cstr s (map (s \<circ> of_nat) [0..<unat n])"
proof -
  obtain j where "s n = 0" and n: "n = of_nat j" and nz: "\<And>i. i < j \<Longrightarrow> s (of_nat i) \<noteq> 0"
    using strlen_loop_Some_raw [of s 0 n] assms by (auto simp: strlen_def)
  have "unat n \<le> j" by (simp add: n unat_of_nat take_bit_nat_less_eq_self)
  then show ?thesis using \<open>s n = 0\<close> nz unat_lt32 [of n] by (intro cstrI) auto
qed

lemma strlen_iff_cstr: "strlen s = Some n \<longleftrightarrow> (\<exists>cs. cstr s cs \<and> n = of_nat (length cs))"
  using strlen_SomeD [of s n] by (fastforce simp: strlen_cstr)

subsection \<open>strrev\<close>

lemma uint_of_int32: "0 \<le> y \<Longrightarrow> y < 4294967296 \<Longrightarrow> uint (of_int y :: u32) = y"
  by (simp add: uint_word_of_int_eq take_bit_int_eq_self)

lemma of_int32_eq_iff:
  "0 \<le> y \<Longrightarrow> y < 4294967296 \<Longrightarrow> (of_int y :: u32) = x \<longleftrightarrow> y = uint x"
  using uint_of_int32 [of y] word_of_int_uint [of x] by auto

lemma strrev_loop_eq:
  assumes "0 \<le> b" "e < 4294967296" "b \<le> e + 1"
  shows "strrev_loop s b e =
    (\<lambda>x. if b \<le> uint x \<and> uint x \<le> e then s (of_int (b + e - uint x)) else s x)"
  using assms
proof (induction s b e rule: strrev_loop.induct)
  case (1 s b e)
  show ?case
  proof (cases "b < e")
    case False
    have "of_int (b + e - uint x) = x" if "b \<le> uint x" "uint x \<le> e" for x :: u32
    proof -
      have "b + e - uint x = uint x" using that False by linarith
      then show ?thesis by (simp only: word_of_int_uint)
    qed
    with False show ?thesis
      by (subst strrev_loop.simps) (auto simp: fun_eq_iff simp del: of_int_diff of_int_add)
  next
    case True
    define s2 where "s2 = s(of_int e := s (of_int b), of_int b := s (of_int e))"
    have s2: "s2 x = (if uint x = b then s (of_int e) else if uint x = e then s (of_int b) else s x)" for x
      using "1.prems" True of_int32_eq_iff [of b x] of_int32_eq_iff [of e x]
      by (auto simp: s2_def)
    have "strrev_loop s2 (b + 1) (e - 1) =
      (\<lambda>x. if b + 1 \<le> uint x \<and> uint x \<le> e - 1 then s2 (of_int (b + 1 + (e - 1) - uint x)) else s2 x)"
      using True "1.prems" unfolding s2_def by (intro "1.IH") auto
    moreover have "b + 1 + (e - 1) = b + e" by simp
    moreover have "strrev_loop s b e = strrev_loop s2 (b + 1) (e - 1)"
      using True by (subst strrev_loop.simps) (simp add: s2_def Let_def)
    ultimately have "strrev_loop s b e =
      (\<lambda>x. if b + 1 \<le> uint x \<and> uint x \<le> e - 1 then s2 (of_int (b + e - uint x)) else s2 x)"
      by (simp only:)
    also have "\<dots> = (\<lambda>x. if b \<le> uint x \<and> uint x \<le> e then s (of_int (b + e - uint x)) else s x)"
      using True "1.prems" by (auto simp: fun_eq_iff s2 uint_of_int32 simp del: of_int_diff of_int_add)
    finally show ?thesis .
  qed
qed

lemma sint_pred_len:
  "n < 2147483648 \<Longrightarrow> sint (of_nat n - 1 :: u32) = int n - 1"
proof (cases n)
  case (Suc k)
  moreover assume "n < 2147483648"
  ultimately show ?thesis by (simp add: sint_of_nat32)
qed simp

lemma strrev_apply:
  assumes "cstr s cs" "length cs < 2147483648"
  shows "strrev s = Some (\<lambda>x. if unat x < length cs then s (of_nat (length cs - 1 - unat x)) else s x)"
proof -
  have "strrev_loop s 0 (int (length cs) - 1) =
    (\<lambda>x. if unat x < length cs then s (of_nat (length cs - 1 - unat x)) else s x)"
  proof (subst strrev_loop_eq)
    have "of_int (0 + (int (length cs) - 1) - uint x) = (of_nat (length cs - 1 - unat x) :: u32)"
      if "unat x < length cs" for x :: u32
    proof -
      have "0 + (int (length cs) - 1) - int (unat x) = int (length cs - 1 - unat x)"
        using that by linarith
      then show "of_int (0 + (int (length cs) - 1) - uint x) = (of_nat (length cs - 1 - unat x) :: u32)"
        by (metis of_int_of_nat_eq uint_nat)
    qed
    then show "(\<lambda>x. if 0 \<le> uint x \<and> uint x \<le> int (length cs) - 1
             then s (of_int (0 + (int (length cs) - 1) - uint x)) else s x) =
      (\<lambda>x. if unat x < length cs then s (of_nat (length cs - 1 - unat x)) else s x)"
      by (simp add: fun_eq_iff uint_less_int_iff del: of_int_diff of_nat_diff)
  qed (use assms(2) in auto)
  with assms show ?thesis
    by (simp add: strrev_def strlen_cstr sint_pred_len)
qed

lemma strrev_cstr:
  assumes "cstr s cs" "length cs < 2147483648"
  shows "\<exists>s'. strrev s = Some s' \<and> cstr s' (rev cs) \<and> (\<forall>x. length cs \<le> unat x \<longrightarrow> s' x = s x)"
proof (intro exI conjI)
  show "strrev s = Some (\<lambda>x. if unat x < length cs then s (of_nat (length cs - 1 - unat x)) else s x)"
    by (rule strrev_apply [OF assms])
  show "cstr (\<lambda>x. if unat x < length cs then s (of_nat (length cs - 1 - unat x)) else s x) (rev cs)"
    using assms 
    by (intro cstrI) (auto simp: cstr_def rev_nth in_set_conv_nth simp del: of_nat_diff of_nat_Suc)
qed simp

subsection \<open>strncmp\<close>

text \<open>The characters of a buffer before the first NUL, looking at \<open>n\<close> bytes at most.\<close>

definition chars :: "str \<Rightarrow> nat \<Rightarrow> nat \<Rightarrow> u8 list" where
  "chars s i n = takeWhile (\<lambda>c. c \<noteq> 0) (map (s \<circ> of_nat) [i..<n])"

lemma chars_step:
  "i < n \<Longrightarrow> chars s i n = (if s (of_nat i) = 0 then [] else s (of_nat i) # chars s (Suc i) n)"
  by (simp add: chars_def upt_conv_Cons)

lemma chars_empty [simp]: "n \<le> i \<Longrightarrow> chars s i n = []"
  by (simp add: chars_def)

lemma length_chars: "length (chars s i n) \<le> n - i"
  using length_takeWhile_le [of _ "map (s \<circ> of_nat) [i..<n]"] by (simp add: chars_def)

lemma char_diff_0_iff: "(of_int (sint a - sint b) :: u32) = 0 \<longleftrightarrow> a = b" for a b :: u8
proof
  assume "(of_int (sint a - sint b) :: u32) = 0"
  then have "2 ^ LENGTH(32) dvd sint a - sint b"
    by (simp only: word_of_int_eq_0_iff)
  moreover have "\<bar>sint a - sint b\<bar> < 2 ^ LENGTH(32)"
    using sint_greater_eq [of a] sint_less [of a] sint_greater_eq [of b] sint_less [of b] by simp
  ultimately have "sint a = sint b"
    using dvd_imp_le_int [of "sint a - sint b" "2 ^ LENGTH(32)"] by fastforce
  then show "a = b" by (simp add: signed_word_eqI)
qed simp

lemma strncmp_loop_0_iff:
  "strncmp_loop s1 s2 n i = 0 \<longleftrightarrow> chars s1 i (unat n) = chars s2 i (unat n)"
proof (induction s1 s2 n i rule: strncmp_loop.induct)
  case (1 s1 s2 n i)
  show ?case
  proof (cases "i < unat n")
    case True
    with 1 show ?thesis
      by (subst strncmp_loop.simps) (auto simp: chars_step char_diff_0_iff
          char_diff_0_iff [of _ 0, simplified] char_diff_0_iff [of 0, simplified] simp del: of_int_diff)
  next
    case False
    then show ?thesis by (subst strncmp_loop.simps) simp
  qed
qed

lemma strncmp_0_iff: "strncmp s1 s2 n = 0 \<longleftrightarrow> chars s1 0 (unat n) = chars s2 0 (unat n)"
  by (simp add: strncmp_def strncmp_loop_0_iff)

subsection \<open>strcpy and strncpy\<close>

lemma strcpy_loop_upto:
  assumes "k \<le> n" "\<And>i. k \<le> i \<Longrightarrow> i < n \<Longrightarrow> src (of_nat i) \<noteq> 0" "src (of_nat n) = 0" "n < 4294967296"
  shows "strcpy_loop dest src (of_nat k) = Some (fill dest src k n, of_nat n)"
  using assms
proof (induction arbitrary: dest rule: inc_induct)
  case base
  then show ?case by (simp add: strcpy_loop.simps)
next
  case (step k)
  have "src (of_nat k) \<noteq> 0" using step.prems(1) [of k] step.hyps by simp
  moreover have "strcpy_loop (dest(of_nat k := src (of_nat k))) src (of_nat (Suc k)) =
    Some (fill (dest(of_nat k := src (of_nat k))) src (Suc k) n, of_nat n)"
    using step.prems by (intro step.IH) auto
  ultimately show ?case
    using step.hyps step.prems(3) by (subst strcpy_loop.simps) (simp add: add.commute fill_step)
qed

lemma strcpy_cstr:
  assumes "cstr src cs"
  shows "strcpy dest src = Some (fill dest src 0 (Suc (length cs)))"
proof -
  have "strcpy_loop dest src 0 = Some (fill dest src 0 (length cs), of_nat (length cs))"
    using strcpy_loop_upto [of 0 "length cs" src dest] assms by (simp add: cstr_def)
  moreover have "(fill dest src 0 (length cs))(of_nat (length cs) := 0) = fill dest src 0 (Suc (length cs))"
    using assms by (auto simp: fun_eq_iff cstr_def fill_apply less_Suc_eq unat_eq_iff32)
  ultimately show ?thesis by (simp add: strcpy_def)
qed

lemma strncpy_pad_eq: "strncpy_pad dest n i = fill dest (\<lambda>_. 0) i (unat n)"
proof (induction dest n i rule: strncpy_pad.induct)
  case (1 dest n i)
  show ?case
  proof (cases "i < unat n")
    case True
    with 1 fill_step [OF True, of dest "\<lambda>_. 0"] unat_lt32 [of n] show ?thesis
      by (subst strncpy_pad.simps) (simp add: fun_upd_def)
  qed (subst strncpy_pad.simps, simp)
qed

lemma strncpy_copy_eq:
  "strncpy_copy dest src n i =
     (let j = i + length (chars src i (unat n)) in (fill dest src i j, j))"
proof (induction dest src n i rule: strncpy_copy.induct)
  case (1 dest src n i)
  show ?case
  proof (cases "src (of_nat i) \<noteq> 0 \<and> i < unat n")
    case True
    define j where "j = Suc (i + length (chars src (Suc i) (unat n)))"
    have "i < j" "j \<le> 4294967296"
      using True length_chars [of src "Suc i" "unat n"] unat_lt32 [of n] by (auto simp: j_def)
    from fill_step [OF this, of dest src] show ?thesis
      using True 1 by (subst strncpy_copy.simps) (simp add: chars_step Let_def j_def fun_upd_def)
  next
    case False
    then have "chars src i (unat n) = []"
      by (cases "i < unat n") (auto simp: chars_step)
    with False show ?thesis by (subst strncpy_copy.simps) auto
  qed
qed

text \<open>
  \<open>strncpy\<close> writes exactly \<open>n\<close> bytes: the characters of the source before its first NUL, then
  NULs.
\<close>

lemma strncpy_eq:
  "strncpy dest src n =
     fill (fill dest src 0 (length (chars src 0 (unat n)))) (\<lambda>_. 0)
       (length (chars src 0 (unat n))) (unat n)"
  by (simp add: strncpy_def strncpy_copy_eq strncpy_pad_eq Let_def)

lemma nth_chars: "k < length (chars s i n) \<Longrightarrow> chars s i n ! k = s (of_nat (i + k))"
  using length_chars [of s i n] by (simp add: chars_def takeWhile_nth del: of_nat_add)

lemma chars_stop: "length (chars s i n) < n - i \<Longrightarrow> s (of_nat (i + length (chars s i n))) = 0"
  using nth_length_takeWhile [of "\<lambda>c. c \<noteq> 0" "map (s \<circ> of_nat) [i..<n]"]
  by (simp add: chars_def del: of_nat_add)

lemma chars_no_NUL: "0 \<notin> set (chars s i n)"
  by (auto simp: chars_def dest: set_takeWhileD)

lemma chars_eqI:
  assumes "length cs \<le> n" "n \<le> 4294967296" "\<And>k. k < length cs \<Longrightarrow> s (of_nat k) = cs ! k"
    "0 \<notin> set cs" "length cs < n \<Longrightarrow> s (of_nat (length cs)) = 0"
  shows "chars s 0 n = cs"
proof -
  have map: "map (s \<circ> of_nat) [0..<length cs] = cs"
    using assms(3) by (auto intro: nth_equalityI)
  have "[0..<n] = [0..<length cs] @ [length cs..<n]"
    using assms(1) by (metis le_add_diff_inverse plus_nat.add_0 upt_add_eq_append zero_le)
  moreover have "takeWhile (\<lambda>c. c \<noteq> 0) (map (s \<circ> of_nat) [length cs..<n]) = []"
    using assms(1,5) by (cases "length cs < n") (auto simp: upt_conv_Cons)
  moreover have "\<forall>c \<in> set cs. c \<noteq> 0"
    using assms(4) by auto
  ultimately show ?thesis
    by (simp add: chars_def map takeWhile_append2 del: map_map)
qed

lemma chars_cstr: "cstr s cs \<Longrightarrow> length cs \<le> n \<Longrightarrow> n \<le> 4294967296 \<Longrightarrow> chars s 0 n = cs"
  by (rule chars_eqI) (auto simp: cstr_def in_set_conv_nth)

lemma chars_strncpy: "chars (strncpy dest src n) 0 (unat n) = chars src 0 (unat n)"
  using length_chars [of src 0 "unat n"] unat_lt32 [of n]
  by (intro chars_eqI) (auto simp: strncpy_eq fill_of_nat nth_chars chars_no_NUL)

subsection \<open>itoa\<close>

text \<open>Reference: the digits of a number in base \<open>r\<close>, least significant first.\<close>

fun digs :: "nat \<Rightarrow> nat \<Rightarrow> nat list" where
  "digs r v = (if v = 0 \<or> r < 2 then [] else (v mod r) # digs r (v div r))"

declare digs.simps [simp del]

lemma digs_0 [simp]: "digs r 0 = []"
  by (simp add: digs.simps)

lemma digs_step: "0 < v \<Longrightarrow> 2 \<le> r \<Longrightarrow> digs r v = (v mod r) # digs r (v div r)"
  by (subst digs.simps) simp

lemma digs_less: "2 \<le> r \<Longrightarrow> \<forall>d \<in> set (digs r v). d < r"
proof (induction r v rule: digs.induct)
  case (1 r v)
  then show ?case by (cases "v = 0") (auto simp: digs_step [of v r])
qed

lemma length_digs: "2 \<le> r \<Longrightarrow> v < 2 ^ k \<Longrightarrow> length (digs r v) \<le> k"
proof (induction k arbitrary: v)
  case (Suc k)
  show ?case
  proof (cases "v = 0")
    case False
    have "v div r \<le> v div 2" using Suc.prems(1) by (simp add: div_le_mono2)
    then have "v div r < 2 ^ k" using Suc.prems(2) by simp
    then have "length (digs r (v div r)) \<le> k" using Suc.IH Suc.prems(1) by simp
    with False show ?thesis using Suc.prems(1) by (simp add: digs_step [of v r])
  qed simp
qed simp

lemma last_digs: "2 \<le> r \<Longrightarrow> 0 < v \<Longrightarrow> digs r v \<noteq> [] \<and> last (digs r v) \<noteq> 0"
proof (induction r v rule: digs.induct)
  case (1 r v)
  show ?case
  proof (cases "v < r")
    case True
    with "1.prems" show ?thesis by (simp add: digs_step [of v r])
  next
    case False
    with "1.prems" have "0 < v div r" by (simp add: div_greater_zero_iff)
    with 1 show ?thesis by (simp add: digs_step [of v r])
  qed
qed

lemma foldr_digs: "2 \<le> r \<Longrightarrow> foldr (\<lambda>d a. a * r + d) (digs r v) 0 = v"
proof (induction r v rule: digs.induct)
  case (1 r v)
  then show ?case by (cases "v = 0") (simp_all add: digs_step [of v r])
qed

text \<open>The value a digit character stands for, and the number a string of digits denotes.\<close>

definition digit_val :: "u8 \<Rightarrow> nat" where
  "digit_val c = (if c \<le> 57 then unat c - 48 else unat c - 55)"

definition num_of :: "nat \<Rightarrow> u8 list \<Rightarrow> nat" where
  "num_of r cs = foldl (\<lambda>a c. a * r + digit_val c) 0 cs"

lemma length_lookup [simp]: "length lookup = 37"
  by (simp add: lookup_def)

lemma lookup_digit: "d < 36 \<Longrightarrow> digit_val (lookup ! d) = d \<and> lookup ! d \<noteq> 0 \<and> (lookup ! d = 48 \<longleftrightarrow> d = 0)"
proof -
  have "\<forall>d \<in> set [0..<36]. digit_val (lookup ! d) = d \<and> lookup ! d \<noteq> 0 \<and> (lookup ! d = 48 \<longleftrightarrow> d = 0)"
    by (simp add: lookup_def digit_val_def upt_rec)
  then show "d < 36 \<Longrightarrow> ?thesis" by simp
qed

lemma itoa_loop_eq:
  assumes "2 \<le> unat radix" "unat radix \<le> 36"
  shows "p + length (digs (unat radix) (unat v)) < 4294967296 \<Longrightarrow>
    itoa_loop buf (of_nat p) v radix =
      Some (fill buf (\<lambda>x. lookup ! (digs (unat radix) (unat v) ! (unat x - p))) p
              (p + length (digs (unat radix) (unat v))),
            of_nat (p + length (digs (unat radix) (unat v))))"
proof (induction "unat v" arbitrary: v p buf rule: less_induct)
  case less
  show ?case
  proof (cases "v = 0")
    case True
    then show ?thesis by (simp add: itoa_loop.simps)
  next
    case False
    let ?r = "unat radix"
    define ds where "ds = digs ?r (unat (v div radix))"
    have v: "0 < unat v" using False by (simp add: unat_gt_0)
    have ds: "digs ?r (unat v) = unat (v mod radix) # ds"
      using v assms(1) by (simp add: digs_step [of "unat v"] ds_def unat_div_distrib unat_mod_distrib)
    have small: "unat (v div radix) < unat v"
      using v assms(1) by (simp add: unat_div_distrib)
    have i: "unat (v mod radix) < 36"
    proof -
      have "unat v mod unat radix < unat radix" using assms(1) by (intro mod_less_divisor) simp
      then show ?thesis using assms(2) by (simp add: unat_mod_distrib)
    qed
    let ?c = "lookup ! unat (v mod radix)"
    let ?g = "\<lambda>x::u32. lookup ! (digs ?r (unat v) ! (unat x - p))"
    have p: "p < 4294967296" "Suc p + length ds < 4294967296" using less.prems by (simp_all add: ds)
    from p(1) have up: "unat (of_nat p :: u32) = p" by simp
    have "itoa_loop buf (of_nat p) v radix = itoa_loop (buf(of_nat p := ?c)) (of_nat (Suc p)) (v div radix) radix"
      using False assms(1) i by (subst itoa_loop.simps) (auto simp: Let_def word_neq_0_conv add.commute)
    also have "\<dots> = Some (fill (buf(of_nat p := ?c)) (\<lambda>x. lookup ! (ds ! (unat x - Suc p))) (Suc p)
        (Suc p + length ds), of_nat (Suc p + length ds))"
      unfolding ds_def by (rule less.hyps [OF small]) (use p in \<open>simp add: ds_def\<close>)
    also have "fill (buf(of_nat p := ?c)) (\<lambda>x. lookup ! (ds ! (unat x - Suc p))) (Suc p) (Suc p + length ds)
      = fill (buf(of_nat p := ?g (of_nat p))) ?g (Suc p) (Suc p + length ds)"
      by (auto simp: fill_def fun_eq_iff ds nth_Cons' Suc_diff_Suc up)
    also have "\<dots> = fill buf ?g p (Suc p + length ds)"
      using p by (intro fill_step) auto
    finally show ?thesis by (simp add: ds)
  qed
qed

lemma num_of_rev_digs:
  assumes "2 \<le> r" "r \<le> 36"
  shows "num_of r (rev (map ((!) lookup) (digs r v))) = v"
proof -
  have "foldr (\<lambda>c a. a * r + digit_val c) (map ((!) lookup) ds) 0 = foldr (\<lambda>d a. a * r + d) ds 0"
    if "\<forall>d \<in> set ds. d < 36" for ds
    using that by (induction ds) (auto simp: lookup_digit)
  moreover have "\<forall>d \<in> set (digs r v). d < 36"
    using digs_less [OF assms(1), of v] assms(2) by auto
  ultimately show ?thesis
    using foldr_digs [OF assms(1), of v] by (simp add: num_of_def foldl_conv_foldr)
qed

lemma itoa_nonzero:
  assumes "2 \<le> unat radix" "unat radix \<le> 36" "v \<noteq> 0"
  shows "\<exists>buf'. itoa v buf radix = Some buf' \<and> cstr buf' (rev (map ((!) lookup) (digs (unat radix) (unat v))))
    \<and> (\<forall>x. length (digs (unat radix) (unat v)) < unat x \<longrightarrow> buf' x = buf x)"
proof -
  let ?ds = "digs (unat radix) (unat v)"
  let ?n = "length ?ds"
  let ?b = "(fill buf (\<lambda>x. lookup ! (?ds ! unat x)) 0 ?n)(of_nat ?n := 0)"
  have n: "?n \<le> 32"
    using length_digs [OF assms(1), of "unat v" 32] unat_lt32 [of v] by simp
  have small: "d < 36" if "d \<in> set ?ds" for d
    using that digs_less [OF assms(1), of "unat v"] assms(2) by fastforce
  have lp: "itoa_loop buf 0 v radix = Some (fill buf (\<lambda>x. lookup ! (?ds ! unat x)) 0 ?n, of_nat ?n)"
    using itoa_loop_eq [OF assms(1,2), of 0 v buf] n by simp
  have "cstr ?b (map ((!) lookup) ?ds)"
    using n small by (intro cstrI) (auto simp: fill_of_nat of_nat32_eq_iff lookup_digit)
  then obtain s' where "strrev ?b = Some s'" "cstr s' (rev (map ((!) lookup) ?ds))"
    "\<forall>x. ?n \<le> unat x \<longrightarrow> s' x = ?b x"
    using strrev_cstr [of ?b "map ((!) lookup) ?ds"] n by auto
  then show ?thesis using lp assms(3) n
    by (intro exI [of _ s']) (auto simp: itoa_def fill_apply unat_eq_iff32)
qed

text \<open>The digits of a number as characters, most significant first.\<close>

definition numeral_of :: "nat \<Rightarrow> nat \<Rightarrow> u8 list" where
  "numeral_of r v = (if v = 0 then [48] else rev (map ((!) lookup) (digs r v)))"

lemma length_digs_pow: "2 \<le> r \<Longrightarrow> v < r ^ k \<Longrightarrow> length (digs r v) \<le> k"
proof (induction k arbitrary: v)
  case (Suc k)
  show ?case
  proof (cases "v = 0")
    case False
    have "v div r < r ^ k" using Suc.prems by (simp add: less_mult_imp_div_less mult.commute)
    then have "length (digs r (v div r)) \<le> k" using Suc.IH Suc.prems(1) by simp
    with False show ?thesis using Suc.prems(1) by (simp add: digs_step [of v r])
  qed simp
qed simp

lemma length_numeral_of: "2 \<le> r \<Longrightarrow> v < r ^ k \<Longrightarrow> 0 < k \<Longrightarrow> length (numeral_of r v) \<le> k"
  using length_digs_pow [of r v k] by (simp add: numeral_of_def)

lemma itoa_numeral_of:
  assumes "2 \<le> unat radix" "unat radix \<le> 36"
  shows "\<exists>buf'. itoa v buf radix = Some buf' \<and> cstr buf' (numeral_of (unat radix) (unat v))
     \<and> (\<forall>x. length (numeral_of (unat radix) (unat v)) < unat x \<longrightarrow> buf' x = buf x)"
proof (cases "v = 0")
  case True
  have "cstr (buf(0 := 48, 1 := 0)) [48]" by (simp add: cstr_def)
  then show ?thesis using True by (auto simp: itoa_def numeral_of_def)
next
  case False
  then show ?thesis using itoa_nonzero [OF assms False] by (simp add: numeral_of_def unat_eq_0)
qed

lemma itoa_cases:
  assumes "2 \<le> unat radix" "unat radix \<le> 36"
  obtains buf' cs where "itoa v buf radix = Some buf'" "cstr buf' cs" "num_of (unat radix) cs = unat v"
    "0 < length cs" "length cs \<le> 32" "v \<noteq> 0 \<Longrightarrow> hd cs \<noteq> 48" "v = 0 \<Longrightarrow> cs = [48]"
    "\<And>x. length cs < unat x \<Longrightarrow> buf' x = buf x"
proof (cases "v = 0")
  case True
  have "cstr (buf(0 := 48, 1 := 0)) [48]" by (simp add: cstr_def)
  moreover have "num_of (unat radix) [48] = 0" by (simp add: num_of_def digit_val_def)
  ultimately show ?thesis
    using True by (intro that [of "buf(0 := 48, 1 := 0)" "[48]"]) (auto simp: itoa_def)
next
  case False
  let ?ds = "digs (unat radix) (unat v)"
  obtain buf' where b: "itoa v buf radix = Some buf'" "cstr buf' (rev (map ((!) lookup) ?ds))"
    "\<forall>x. length ?ds < unat x \<longrightarrow> buf' x = buf x"
    using itoa_nonzero [OF assms False] by blast
  have ds: "?ds \<noteq> []" "last ?ds \<noteq> 0"
    using last_digs [OF assms(1), of "unat v"] False by (auto simp: unat_gt_0)
  have "last ?ds < 36" using ds digs_less [OF assms(1), of "unat v"] assms(2)
    by (meson last_in_set le_trans not_le)
  then have "hd (rev (map ((!) lookup) ?ds)) \<noteq> 48"
    using ds by (simp add: hd_rev last_map lookup_digit)
  moreover have "length ?ds \<le> 32"
    using length_digs [OF assms(1), of "unat v" 32] unat_lt32 [of v] by simp
  ultimately show ?thesis
    using b ds False num_of_rev_digs [OF assms, of "unat v"]
    by (intro that [of buf' "rev (map ((!) lookup) ?ds)"]) auto
qed

section \<open>Properties\<close>

text \<open>
  in every base from 2 to 36, \<open>itoa\<close> returns, the buffer it fills is a C string of 1 to 32
  digits that denotes the number it was given, with no leading zero, and nothing beyond the
  terminating NUL is written.
\<close>

theorem itoa_roundtrip:
  assumes "2 \<le> unat radix" "unat radix \<le> 36"
  shows "\<exists>buf' cs. itoa v buf radix = Some buf' \<and> cstr buf' cs \<and> num_of (unat radix) cs = unat v
    \<and> 0 < length cs \<and> length cs \<le> 32 \<and> (hd cs = 48 \<longleftrightarrow> v = 0)
    \<and> (\<forall>x. length cs < unat x \<longrightarrow> buf' x = buf x)"
proof (rule itoa_cases [OF assms, of v buf])
  fix buf' cs
  assume "itoa v buf radix = Some buf'" "cstr buf' cs" "num_of (unat radix) cs = unat v"
    "0 < length cs" "length cs \<le> 32" "v \<noteq> 0 \<Longrightarrow> hd cs \<noteq> 48" "v = 0 \<Longrightarrow> cs = [48]"
    "\<And>x. length cs < unat x \<Longrightarrow> buf' x = buf x"
  then show ?thesis by (intro exI [of _ buf'] exI [of _ cs]) auto
qed

theorem itoa_roundtrip_witness:
  "\<exists>buf' cs. itoa 48879 (\<lambda>_. 7) 16 = Some buf' \<and> cstr buf' cs \<and> num_of 16 cs = 48879
    \<and> 0 < length cs \<and> length cs \<le> 32 \<and> hd cs \<noteq> 48 \<and> (\<forall>x. length cs < unat x \<longrightarrow> buf' x = 7)"
  using itoa_roundtrip [of 16 48879 "\<lambda>_. 7"] by simp

text \<open>
  \<open>strrev\<close> reverses a C string of fewer than \<open>2 ^ 31\<close> characters in place, and reversing twice
  gives the original buffer back.
\<close>

theorem strrev_involution:
  assumes "cstr s cs" "length cs < 2147483648"
  shows "\<exists>s'. strrev s = Some s' \<and> cstr s' (rev cs) \<and> strrev s' = Some s"
proof -
  obtain s' where s': "strrev s = Some s'" "cstr s' (rev cs)"
    using strrev_cstr [OF assms] by blast
  have eq: "s' = (\<lambda>x. if unat x < length cs then s (of_nat (length cs - 1 - unat x)) else s x)"
    using s'(1) strrev_apply [OF assms] by simp
  have "strrev s' = Some s"
    using strrev_apply [OF s'(2)] assms(2) by (auto simp: eq fun_eq_iff simp del: of_nat_diff)
  with s' show ?thesis by blast
qed

theorem strrev_involution_witness:
  "\<exists>s'. strrev ((\<lambda>_. 0)(0 := 97, 1 := 98)) = Some s' \<and> cstr s' [98, 97]
     \<and> strrev s' = Some ((\<lambda>_. 0)(0 := 97, 1 := 98))"
proof -
  have "cstr ((\<lambda>_. 0)(0 := 97, 1 := 98)) [97, 98]"
    by (auto simp: cstr_def less_Suc_eq)
  from strrev_involution [OF this] show ?thesis by simp
qed

text \<open>
  \<open>strncmp\<close> answers 0 exactly when the two strings have the same characters before their first
  NUL, looking at \<open>n\<close> characters at most, and \<open>strncpy\<close> makes such a copy: comparing the copy with
  its source over \<open>n\<close> gives 0.
\<close>

theorem strncmp_strncpy:
  "(strncmp s1 s2 n = 0 \<longleftrightarrow> chars s1 0 (unat n) = chars s2 0 (unat n)) \<and> strncmp (strncpy dest s1 n) s1 n = 0"
  by (simp add: strncmp_0_iff chars_strncpy)

end
