(* ===== verification/LibMem.thy ===== *)
theory LibMem
  imports Prelude
begin

text \<open>
  The block memory routines of \<^verbatim>\<open>student-distrib/lib.c\<close>: \<open>memset\<close>, \<open>memset_word\<close>, \<open>memset_dword\<close>,
  \<open>memcpy\<close> and \<open>memmove\<close>. They are written in inline assembly; the model follows the instructions:
  the byte loop up to the first 4-byte boundary, the \<open>rep stosl\<close> or \<open>rep movsl\<close> over whole double
  words, and the byte loop over the rest, on a flat memory with 32-bit addresses. The lemmas show
  that each equals the plain byte-by-byte specification.
\<close>

section \<open>Model\<close>

text \<open>Double-word stores and loads, little endian.\<close>

definition store32 :: "mem \<Rightarrow> addr \<Rightarrow> u32 \<Rightarrow> mem" where
  "store32 m a w = m(a := ucast w, a + 1 := ucast (drop_bit 8 w),
     a + 2 := ucast (drop_bit 16 w), a + 3 := ucast (drop_bit 24 w))"

definition load32 :: "mem \<Rightarrow> addr \<Rightarrow> u32" where
  "load32 m a = ucast (m a) OR push_bit 8 (ucast (m (a + 1)))
     OR push_bit 16 (ucast (m (a + 2))) OR push_bit 24 (ucast (m (a + 3)))"

definition store16 :: "mem \<Rightarrow> addr \<Rightarrow> u32 \<Rightarrow> mem" where
  "store16 m a w = m(a := ucast w, a + 1 := ucast (drop_bit 8 w))"

text \<open>\<open>rep stosl\<close>, \<open>rep stosw\<close> and \<open>rep movsl\<close> with the direction flag clear: \<open>ecx\<close> elements.\<close>

fun rep_stosl :: "mem \<Rightarrow> u32 \<Rightarrow> addr \<Rightarrow> nat \<Rightarrow> mem \<times> addr" where
  "rep_stosl m eax edi 0 = (m, edi)"
| "rep_stosl m eax edi (Suc ecx) = rep_stosl (store32 m edi eax) eax (edi + 4) ecx"

fun rep_stosw :: "mem \<Rightarrow> u32 \<Rightarrow> addr \<Rightarrow> nat \<Rightarrow> mem" where
  "rep_stosw m eax edi 0 = m"
| "rep_stosw m eax edi (Suc ecx) = rep_stosw (store16 m edi eax) eax (edi + 2) ecx"

fun rep_movsl :: "mem \<Rightarrow> addr \<Rightarrow> addr \<Rightarrow> nat \<Rightarrow> mem \<times> addr \<times> addr" where
  "rep_movsl m esi edi 0 = (m, esi, edi)"
| "rep_movsl m esi edi (Suc ecx) = rep_movsl (store32 m edi (load32 m esi)) (esi + 4) (edi + 4) ecx"

text \<open>\<open>rep movsb\<close> in the direction of the direction flag: \<open>step\<close> is 1 or -1.\<close>

fun rep_movsb :: "mem \<Rightarrow> addr \<Rightarrow> addr \<Rightarrow> u32 \<Rightarrow> nat \<Rightarrow> mem" where
  "rep_movsb m esi edi step 0 = m"
| "rep_movsb m esi edi step (Suc ecx) = rep_movsb (m(edi := m esi)) (esi + step) (edi + step) step ecx"

fun memset_bottom :: "mem \<Rightarrow> u32 \<Rightarrow> addr \<Rightarrow> nat \<Rightarrow> mem" where
  "memset_bottom m eax edi 0 = m"
| "memset_bottom m eax edi (Suc edx) = memset_bottom (m(edi := ucast eax)) eax (edi + 1) edx"

fun memset_top :: "mem \<Rightarrow> u32 \<Rightarrow> addr \<Rightarrow> nat \<Rightarrow> mem" where
  "memset_top m eax edi ecx =
     (if ecx = 0 then m
      else if edi AND 3 = 0
      then let (m', edi') = rep_stosl m eax edi (ecx div 4)
           in memset_bottom m' eax edi' (ecx mod 4)
      else memset_top (m(edi := ucast eax)) eax (edi + 1) (ecx - 1))"

declare memset_top.simps [simp del]

definition memset :: "mem \<Rightarrow> addr \<Rightarrow> i32 \<Rightarrow> u32 \<Rightarrow> mem" where
  "memset m s c n =
     (let c' = c AND 255
      in memset_top m (push_bit 24 c' OR push_bit 16 c' OR push_bit 8 c' OR c') s (unat n))"

definition memset_word :: "mem \<Rightarrow> addr \<Rightarrow> i32 \<Rightarrow> u32 \<Rightarrow> mem" where
  "memset_word m s c n = rep_stosw m c s (unat n)"

definition memset_dword :: "mem \<Rightarrow> addr \<Rightarrow> i32 \<Rightarrow> u32 \<Rightarrow> mem" where
  "memset_dword m s c n = fst (rep_stosl m c s (unat n))"

fun memcpy_bottom :: "mem \<Rightarrow> addr \<Rightarrow> addr \<Rightarrow> nat \<Rightarrow> mem" where
  "memcpy_bottom m esi edi 0 = m"
| "memcpy_bottom m esi edi (Suc edx) = memcpy_bottom (m(edi := m esi)) (esi + 1) (edi + 1) edx"

fun memcpy_top :: "mem \<Rightarrow> addr \<Rightarrow> addr \<Rightarrow> nat \<Rightarrow> mem" where
  "memcpy_top m esi edi ecx =
     (if ecx = 0 then m
      else if edi AND 3 = 0
      then let (m', esi', edi') = rep_movsl m esi edi (ecx div 4)
           in memcpy_bottom m' esi' edi' (ecx mod 4)
      else memcpy_top (m(edi := m esi)) (esi + 1) (edi + 1) (ecx - 1))"

declare memcpy_top.simps [simp del]

definition memcpy :: "mem \<Rightarrow> addr \<Rightarrow> addr \<Rightarrow> u32 \<Rightarrow> mem" where
  "memcpy m dest src n = memcpy_top m src dest (unat n)"

text \<open>\<open>memmove\<close> also says whether it leaves the direction flag set.\<close>

definition memmove :: "mem \<Rightarrow> addr \<Rightarrow> addr \<Rightarrow> u32 \<Rightarrow> mem \<times> bool" where
  "memmove m dest src n =
     (if dest \<le> src
      then (rep_movsb m src dest 1 (unat n), False)
      else (rep_movsb m (src + n - 1) (dest + n - 1) (-1) (unat n), True))"

section \<open>Byte-wise specifications\<close>

text \<open>\<open>within a s n\<close>: the address lies in the \<open>n\<close> bytes from \<open>s\<close>, counted modulo \<open>2 ^ 32\<close>.\<close>

definition within :: "addr \<Rightarrow> addr \<Rightarrow> nat \<Rightarrow> bool" where
  "within a s n \<longleftrightarrow> unat (a - s) < n"

definition set_bytes :: "mem \<Rightarrow> addr \<Rightarrow> u8 \<Rightarrow> nat \<Rightarrow> mem" where
  "set_bytes m s b n = (\<lambda>a. if within a s n then b else m a)"

definition copy_bytes :: "mem \<Rightarrow> addr \<Rightarrow> addr \<Rightarrow> nat \<Rightarrow> mem" where
  "copy_bytes m dest src n = (\<lambda>a. if within a dest n then m (src + (a - dest)) else m a)"

text \<open>A double word is read back as it was stored.\<close>

lemma load_store32: "load32 (store32 m p x) p = x"
proof -
  have "load32 (store32 m p x) p = ucast (ucast x :: u8) OR push_bit 8 (ucast (ucast (drop_bit 8 x) :: u8))
      OR push_bit 16 (ucast (ucast (drop_bit 16 x) :: u8)) OR push_bit 24 (ucast (ucast (drop_bit 24 x) :: u8))"
    by (simp add: load32_def store32_def)
  also have "\<dots> = x"
  proof (rule bit_word_eqI)
    fix n assume "n < LENGTH(32)"
    then consider "n < 8" | "8 \<le> n" "n < 16" | "16 \<le> n" "n < 24" | "24 \<le> n" "n < 32" by fastforce
    then show "bit ((ucast (ucast x :: u8) :: u32) OR push_bit 8 (ucast (ucast (drop_bit 8 x) :: u8))
      OR push_bit 16 (ucast (ucast (drop_bit 16 x) :: u8)) OR push_bit 24 (ucast (ucast (drop_bit 24 x) :: u8))) n = bit x n"
      by cases (auto simp: bit_simps)
  qed
  finally show ?thesis .
qed

lemma within_0 [simp]: "\<not> within a s 0"
  by (simp add: within_def)

lemma within_Suc: "within a s (Suc n) \<longleftrightarrow> a = s \<or> within a (s + 1) n"
proof (cases "a = s")
  case False
  then have "unat (a - s - 1) = unat (a - s) - 1" "0 < unat (a - s)"
    by (simp_all add: unat_minus_one unat_gt_0)
  then have "unat (a - s) < Suc n \<longleftrightarrow> unat (a - (s + 1)) < n"
    by (auto simp: diff_diff_eq)
  with False show ?thesis by (simp add: within_def)
qed (simp add: within_def)

lemma not_within_pred: "n < 4294967296 \<Longrightarrow> \<not> within s (s + 1) n"
  by (simp add: within_def unsigned_minus_1_eq_mask mask_eq_exp_minus_1)

lemma set_bytes_0 [simp]: "set_bytes m s b 0 = m"
  by (simp add: set_bytes_def)

lemma set_bytes_Suc: "set_bytes m s b (Suc n) = set_bytes (m(s := b)) (s + 1) b n"
  by (auto simp: set_bytes_def within_Suc fun_eq_iff)

lemma copy_bytes_0 [simp]: "copy_bytes m d s 0 = m"
  by (simp add: copy_bytes_def)

text \<open>One byte copied forwards is one step of the specification unless it hits a byte still to be read.\<close>

lemma copy_bytes_Suc:
  assumes "\<not> within d (s + 1) n" "n < 4294967296"
  shows "copy_bytes m d s (Suc n) = copy_bytes (m(d := m s)) (d + 1) (s + 1) n"
proof (rule ext)
  fix a
  have "s + (a - d) \<noteq> d" if "within a (d + 1) n"
  proof
    assume "s + (a - d) = d"
    moreover have "s + (a - d) - (s + 1) = a - (d + 1)" by (simp add: algebra_simps)
    ultimately have "d - (s + 1) = a - (d + 1)" by (simp only:)
    with that assms(1) show False by (simp add: within_def)
  qed
  then show "copy_bytes m d s (Suc n) a = copy_bytes (m(d := m s)) (d + 1) (s + 1) n a"
    using not_within_pred [OF assms(2), of d]
    by (auto simp: copy_bytes_def within_Suc)
qed

lemma within_mono: "within a s k \<Longrightarrow> k \<le> n \<Longrightarrow> within a s n"
  by (simp add: within_def)

section \<open>memset\<close>

lemma memset_bottom_eq: "memset_bottom m eax edi n = set_bytes m edi (ucast eax) n"
  by (induction m eax edi n rule: memset_bottom.induct) (simp_all add: set_bytes_Suc fun_upd_def)

text \<open>A byte repeated in the four bytes of a double word.\<close>

definition splat :: "u32 \<Rightarrow> bool" where
  "splat w \<longleftrightarrow> ucast (drop_bit 8 w) = (ucast w :: u8) \<and> ucast (drop_bit 16 w) = (ucast w :: u8)
     \<and> ucast (drop_bit 24 w) = (ucast w :: u8)"

lemma and_255: "c AND 255 = take_bit 8 c" for c :: u32
  by (simp add: take_bit_eq_mask mask_eq_exp_minus_1)

lemma splat_memset: "splat (push_bit 24 (c AND 255) OR push_bit 16 (c AND 255) OR push_bit 8 (c AND 255) OR (c AND 255))"
  unfolding splat_def by (intro conjI bit_word_eqI) (auto simp: bit_simps and_255)

lemma ucast_memset:
  "ucast (push_bit 24 (c AND 255) OR push_bit 16 (c AND 255) OR push_bit 8 (c AND 255) OR (c AND 255) :: u32) = (ucast c :: u8)"
  by (rule bit_word_eqI) (auto simp: bit_simps and_255)

lemma store32_splat: "splat w \<Longrightarrow> store32 m a w = set_bytes m a (ucast w) 4"
  by (simp add: store32_def splat_def set_bytes_Suc eval_nat_numeral add.assoc)

lemma set_bytes_add: "set_bytes (set_bytes m s b k) (s + of_nat k) b n = set_bytes m s b (k + n)"
  by (induction k arbitrary: m s) (simp_all add: set_bytes_Suc add.assoc [symmetric])

lemma rep_stosl_eq:
  "splat eax \<Longrightarrow> rep_stosl m eax edi n = (set_bytes m edi (ucast eax) (4 * n), edi + of_nat (4 * n))"
proof (induction n arbitrary: m edi)
  case (Suc n)
  then show ?case
    using set_bytes_add [of m edi "ucast eax" 4 "4 * n"]
    by (simp add: store32_splat add.assoc)
qed simp

lemma memset_top_eq: "splat eax \<Longrightarrow> memset_top m eax edi n = set_bytes m edi (ucast eax) n"
proof (induction m eax edi n rule: memset_top.induct)
  case (1 m eax edi n)
  show ?case
  proof (cases "n = 0 \<or> edi AND 3 = 0")
    case True
    then show ?thesis
      using set_bytes_add [of m edi "ucast eax" "4 * (n div 4)" "n mod 4"] "1.prems"
      by (subst memset_top.simps) (auto simp: rep_stosl_eq memset_bottom_eq)
  next
    case False
    then obtain k where "n = Suc k" by (cases n) auto
    with False 1 show ?thesis
      by (subst memset_top.simps) (auto simp: set_bytes_Suc fun_upd_def)
  qed
qed

lemma memset_eq: "memset m s c n = set_bytes m s (ucast c) (unat n)"
  unfolding memset_def Let_def by (simp only: memset_top_eq [OF splat_memset] ucast_memset)

section \<open>memcpy and memmove\<close>

text \<open>
  Copying upwards is safe when the destination does not start strictly inside the source, copying
  downwards when the source does not start strictly inside the destination.
\<close>

definition up_ok :: "addr \<Rightarrow> addr \<Rightarrow> nat \<Rightarrow> bool" where
  "up_ok d s n \<longleftrightarrow> \<not> within d (s + 1) (n - 1)"

lemma up_ok_mono: "up_ok d s n \<Longrightarrow> k \<le> n \<Longrightarrow> up_ok d s k"
  unfolding up_ok_def by (meson diff_le_mono within_mono)

lemma up_ok_shift [simp]: "up_ok (d + x) (s + x) n \<longleftrightarrow> up_ok d s n"
  by (simp add: up_ok_def within_def diff_diff_eq [symmetric])

lemma up_ok_SucD: "up_ok d s (Suc n) \<Longrightarrow> \<not> within d (s + 1) n"
  by (simp add: up_ok_def)

lemma copy_bytes_add:
  "up_ok d s (k + n) \<Longrightarrow> k + n \<le> 4294967296 \<Longrightarrow>
    copy_bytes (copy_bytes m d s k) (d + of_nat k) (s + of_nat k) n = copy_bytes m d s (k + n)"
proof (induction k arbitrary: m d s)
  case (Suc k)
  have *: "\<not> within d (s + 1) k" "\<not> within d (s + 1) (k + n)"
    using Suc.prems(1) within_mono [of d "s + 1" k "k + n"] by (auto simp: up_ok_def)
  have "up_ok (d + 1) (s + 1) (k + n)"
    using up_ok_mono [OF Suc.prems(1), of "k + n"] by simp
  from Suc.IH [OF this] show ?case
    using * Suc.prems(2) by (simp add: copy_bytes_Suc add.assoc)
qed simp

lemma bytes_load32:
  "ucast (load32 m a) = m a" "ucast (drop_bit 8 (load32 m a)) = m (a + 1)"
  "ucast (drop_bit 16 (load32 m a)) = m (a + 2)" "ucast (drop_bit 24 (load32 m a)) = m (a + 3)"
  unfolding load32_def by (rule bit_word_eqI; auto simp: bit_simps dest: bit_imp_le_length)+

lemma store32_load32: "store32 m d (load32 m s) = copy_bytes m d s 4"
proof -
  have "within a d 4 \<longleftrightarrow> a = d \<or> a = d + 1 \<or> a = d + 2 \<or> a = d + 3" for a
    by (simp add: eval_nat_numeral within_Suc add.assoc)
  then show ?thesis
    by (auto simp: store32_def bytes_load32 copy_bytes_def fun_eq_iff)
qed

lemma rep_movsl_eq:
  "up_ok edi esi (4 * n) \<Longrightarrow> 4 * n \<le> 4294967296 \<Longrightarrow>
    rep_movsl m esi edi n = (copy_bytes m edi esi (4 * n), esi + of_nat (4 * n), edi + of_nat (4 * n))"
proof (induction n arbitrary: m esi edi)
  case (Suc n)
  have "up_ok (edi + 4) (esi + 4) (4 * n)"
    using up_ok_mono [OF Suc.prems(1)] by simp
  from Suc.IH [OF this] show ?case
    using copy_bytes_add [of edi esi 4 "4 * n" m] Suc.prems by (simp add: store32_load32 add.assoc)
qed simp

lemma memcpy_bottom_eq:
  "up_ok edi esi n \<Longrightarrow> n \<le> 4294967296 \<Longrightarrow> memcpy_bottom m esi edi n = copy_bytes m edi esi n"
proof (induction n arbitrary: m esi edi)
  case (Suc n)
  have "up_ok (edi + 1) (esi + 1) n" using up_ok_mono [OF Suc.prems(1)] by simp
  with Suc show ?case by (simp add: copy_bytes_Suc up_ok_SucD)
qed simp

lemma memcpy_top_eq:
  "up_ok edi esi n \<Longrightarrow> n \<le> 4294967296 \<Longrightarrow> memcpy_top m esi edi n = copy_bytes m edi esi n"
proof (induction m esi edi n rule: memcpy_top.induct)
  case (1 m esi edi n)
  let ?k = "4 * (n div 4)"
  have split: "n = ?k + n mod 4" by simp
  show ?case
  proof (cases "n = 0 \<or> edi AND 3 = 0")
    case True
    have "up_ok edi esi ?k" "up_ok (edi + of_nat ?k) (esi + of_nat ?k) (n mod 4)"
      using up_ok_mono [OF "1.prems"(1), of ?k] up_ok_mono [OF "1.prems"(1), of "n mod 4"] split
      by (auto simp del: split)
    then show ?thesis
      using copy_bytes_add [of edi esi ?k "n mod 4" m] "1.prems" True
      by (subst memcpy_top.simps) (auto simp: rep_movsl_eq memcpy_bottom_eq)
  next
    case False
    then obtain j where j: "n = Suc j" by (cases n) auto
    have "up_ok (edi + 1) (esi + 1) j" using up_ok_mono [OF "1.prems"(1), of j] j by simp
    with False 1 j show ?thesis
      by (subst memcpy_top.simps) (simp add: copy_bytes_Suc up_ok_SucD fun_upd_def)
  qed
qed

lemma memcpy_eq: "up_ok dest src (unat n) \<Longrightarrow> memcpy m dest src n = copy_bytes m dest src (unat n)"
  using unat_lt32 [of n] by (simp add: memcpy_def memcpy_top_eq)

lemma rep_movsb_up:
  "up_ok edi esi n \<Longrightarrow> n \<le> 4294967296 \<Longrightarrow> rep_movsb m esi edi 1 n = copy_bytes m edi esi n"
proof (induction n arbitrary: m esi edi)
  case (Suc n)
  have "up_ok (edi + 1) (esi + 1) n" using up_ok_mono [OF Suc.prems(1)] by simp
  with Suc show ?case by (simp add: copy_bytes_Suc up_ok_SucD)
qed simp

lemma copy_bytes_Suc_last:
  assumes "\<not> within s (d + 1) n" "n < 4294967296"
  shows "copy_bytes m d s (Suc n) = copy_bytes (m(d + of_nat n := m (s + of_nat n))) d s n"
proof (rule ext)
  fix a
  define i where "i = unat (a - d)"
  have i: "a = d + of_nat i" "i < 4294967296" using unat_lt32 [of "a - d"] by (simp_all add: i_def)
  have last: "a = d + of_nat n \<longleftrightarrow> i = n" using i assms(2) by (simp add: of_nat32_eq_iff)
  have "s + of_nat i \<noteq> d + of_nat n" if "i < n"
  proof
    assume eq: "s + of_nat i = d + of_nat n"
    have "s - (d + 1) = s + of_nat i - (d + 1 + of_nat i)" by simp
    also have "\<dots> = of_nat n - (1 + of_nat i)" unfolding eq by (simp add: algebra_simps)
    also have "\<dots> = of_nat (n - Suc i)" using that by (simp add: of_nat_diff)
    finally have "unat (s - (d + 1)) = n - Suc i"
      using assms(2) by (metis less_imp_diff_less unat_of_nat32)
    with assms(1) that show False by (simp add: within_def)
  qed
  then show "copy_bytes m d s (Suc n) a = copy_bytes (m(d + of_nat n := m (s + of_nat n))) d s n a"
    using last i assms(2) by (auto simp: copy_bytes_def within_def less_Suc_eq)
qed

lemma rep_movsb_down:
  "up_ok s d n \<Longrightarrow> n \<le> 4294967296 \<Longrightarrow>
    rep_movsb m (s + of_nat n - 1) (d + of_nat n - 1) (-1) n = copy_bytes m d s n"
proof (induction n arbitrary: m)
  case (Suc n)
  have "up_ok s d n" using up_ok_mono [OF Suc.prems(1)] by simp
  with Suc show ?case
    using copy_bytes_Suc_last [OF up_ok_SucD [OF Suc.prems(1)]] by (simp add: algebra_simps)
qed simp

lemma up_ok_le:
  assumes "dest \<le> src" "unat src + n \<le> 4294967296"
  shows "up_ok dest src n"
proof -
  define j where "j = unat (dest - (src + 1))"
  have "dest = src + of_nat (Suc j)" by (simp add: j_def)
  moreover have "j < 4294967296" using unat_lt32 j_def by simp
  ultimately have d: "unat dest = (unat src + Suc j) mod 4294967296"
    by (simp add: unat_word_ariths mod_simps)
  have "\<not> j < n - 1"
  proof
    assume "j < n - 1"
    then have "unat dest = unat src + Suc j" using d assms(2) by simp
    then show False using assms(1) by (simp add: word_le_nat_alt)
  qed
  then show ?thesis by (simp add: up_ok_def within_def j_def)
qed

lemma memmove_eq:
  assumes "unat src + unat n \<le> 4294967296" "unat dest + unat n \<le> 4294967296"
  shows "memmove m dest src n = (copy_bytes m dest src (unat n), src < dest)"
proof (cases "dest \<le> src")
  case True
  then show ?thesis
    using rep_movsb_up [OF up_ok_le [OF True assms(1)], of m] assms by (simp add: memmove_def)
next
  case False
  then have "src \<le> dest" by simp
  then show ?thesis
    using rep_movsb_down [OF up_ok_le [OF _ assms(2)], of src m] assms False by (simp add: memmove_def)
qed

section \<open>Properties\<close>

text \<open>
  The optimised \<open>memset\<close>, aligned double-word stores and all, sets exactly the \<open>n\<close> bytes from
  \<open>s\<close> to the low byte of \<open>c\<close> and changes no other byte.
\<close>

theorem memset_correct: "memset m s c n = (\<lambda>a. if unat (a - s) < unat n then ucast c else m a)"
  by (simp add: memset_eq set_bytes_def within_def)

text \<open>
  The optimised \<open>memcpy\<close> copies \<open>n\<close> bytes and leaves every other byte unchanged, whenever the
  destination does not start strictly inside the source block.
\<close>

theorem memcpy_correct:
  assumes "\<not> within dest (src + 1) (unat n - 1)"
  shows "memcpy m dest src n = (\<lambda>a. if unat (a - dest) < unat n then m (src + (a - dest)) else m a)"
  using memcpy_eq [of dest src n m] assms by (simp add: up_ok_def copy_bytes_def within_def)

theorem memcpy_correct_witness:
  "memcpy (\<lambda>a. ucast a) 100 203 7 =
     (\<lambda>a. if unat (a - 100) < 7 then ucast (203 + (a - 100)) else ucast a) \<and> \<not> within 100 204 6"
  using memcpy_correct [of 100 203 7 "\<lambda>a. ucast a"] by (simp add: within_def)

text \<open>
  C31: \<open>memmove\<close> copies \<open>n\<close> bytes correctly for overlapping blocks in both directions, provided neither
  block wraps around the address space; when the destination lies above the source it returns with
  the direction flag still set.
\<close>

theorem memmove_correct:
  assumes "unat src + unat n \<le> 2 ^ 32" "unat dest + unat n \<le> 2 ^ 32"
  shows "memmove m dest src n =
    ((\<lambda>a. if unat (a - dest) < unat n then m (src + (a - dest)) else m a), src < dest)"
  using memmove_eq [of src n dest m] assms by (simp add: copy_bytes_def within_def)

theorem memmove_correct_witness:
  "memmove (\<lambda>a. ucast a) 12 10 4 =
     ((\<lambda>a. if unat (a - 12) < 4 then ucast (10 + (a - 12)) else ucast a), True)"
  using memmove_correct [of 10 4 12 "\<lambda>a. ucast a"] by simp

end
