(* ===== verification/Screen.thy ===== *)
theory Screen
  imports LibString
begin

text \<open>
  The text console of \<^verbatim>\<open>student-distrib/lib.c\<close>: \<open>update_cursor\<close>, \<open>clear\<close>, \<open>bksp\<close>, \<open>putc\<close>, \<open>puts\<close>,
  \<open>putc_at\<close>, \<open>switch_screen\<close> and \<open>test_interrupts\<close>. The static variables of the file are the fields of
  the record \<open>screen\<close> (the cursor is an \<open>int\<close>: it is proved to stay between 0 and 80 and 0 and 25, far from where C's wraps); video memory is a function of the byte offset from \<^verbatim>\<open>VIDEO\<close>, so that an access
  outside the 4000 bytes of the screen is visible; the bytes sent to the VGA ports are logged. The
  lemmas give the closed forms of the loops, an invariant of the cursor that every operation keeps,
  and that no operation touches a byte outside the screen.
\<close>

section \<open>Model\<close>

definition NUM_COLS :: int where "NUM_COLS = 80"
definition NUM_ROWS :: int where "NUM_ROWS = 25"
definition ATTRIB :: u8 where "ATTRIB = 7"
definition SCREEN_SIZE :: int where "SCREEN_SIZE = 4000"

lemmas screen_consts = NUM_COLS_def NUM_ROWS_def ATTRIB_def SCREEN_SIZE_def

record screen =
  screen_x :: int
  screen_y :: int
  video_mem :: "int \<Rightarrow> u8"
  screen_buf :: "nat \<Rightarrow> int \<Rightarrow> u8"
  screen_loc_buf :: "nat \<Rightarrow> u8 \<times> u8"
  vga :: "port_write list"

definition update_cursor :: "screen \<Rightarrow> screen" where
  "update_cursor s =
     (let pos = (of_int (screen_y s * NUM_COLS + screen_x s) :: u16)
      in s\<lparr>vga := vga s @ [(0x3d4, 0x0E), (0x3d5, ucast (drop_bit 8 pos AND 0xFF)),
                          (0x3d4, 0x0F), (0x3d5, ucast (pos AND 0xFF))]\<rparr>)"

text \<open>One character cell: the character byte and the attribute byte after it.\<close>

definition set_cell :: "(int \<Rightarrow> u8) \<Rightarrow> int \<Rightarrow> u8 \<Rightarrow> int \<Rightarrow> u8" where
  "set_cell v i c = v(2 * i := c, 2 * i + 1 := ATTRIB)"

definition blank_cells :: "int \<Rightarrow> int \<Rightarrow> (int \<Rightarrow> u8) \<Rightarrow> int \<Rightarrow> u8" where
  "blank_cells i j v = fold (\<lambda>k w. set_cell w k 32) [i..j - 1] v"

definition clear :: "screen \<Rightarrow> screen" where
  "clear s = update_cursor
     (s\<lparr>video_mem := blank_cells 0 (NUM_ROWS * NUM_COLS) (video_mem s), screen_x := 0, screen_y := 0\<rparr>)"

function bksp_skip :: "(int \<Rightarrow> u8) \<Rightarrow> int \<Rightarrow> int \<Rightarrow> int" where
  "bksp_skip v x y =
     (if 1 < x \<and> v (2 * (NUM_COLS * y + (x - 1))) = 32 then bksp_skip v (x - 1) y else x)"
  by pat_completeness auto
termination
  by (relation "measure (\<lambda>(v, x, y). nat x)") auto

declare bksp_skip.simps [simp del]

definition bksp :: "screen \<Rightarrow> screen" where
  "bksp s =
     (let x = screen_x s - 1;
          (x', y') = (if x < 0
                      then let y = screen_y s - 1
                           in if y < 0 then (0, 0)
                              else (bksp_skip (video_mem s) (NUM_COLS - 1) y, y)
                      else (x, screen_y s))
      in update_cursor
           (s\<lparr>screen_x := x', screen_y := y', video_mem := set_cell (video_mem s) (NUM_COLS * y' + x') 32\<rparr>))"

definition scroll :: "(int \<Rightarrow> u8) \<Rightarrow> int \<Rightarrow> u8" where
  "scroll v =
     (let v1 = fold (\<lambda>i w. let j = i + NUM_COLS
                          in (w(2 * i := w (2 * j)))(2 * i + 1 := (w(2 * i := w (2 * j))) (2 * j + 1)))
                 [0..(NUM_ROWS - 1) * NUM_COLS - 1] v
      in blank_cells ((NUM_ROWS - 1) * NUM_COLS) (NUM_ROWS * NUM_COLS) v1)"

definition newline_char :: "u8 \<Rightarrow> bool" where
  "newline_char c \<longleftrightarrow> c = 10 \<or> c = 13"

definition putc :: "u8 \<Rightarrow> screen \<Rightarrow> screen" where
  "putc c s =
     (if c = 0 then s
      else
        let s1 = (if newline_char c then s\<lparr>screen_y := screen_y s + 1, screen_x := 0\<rparr> else s);
            s2 = (if c = 9 then s1\<lparr>screen_x := screen_x s1 + 4\<rparr> else s1);
            s3 = (if screen_x s2 \<ge> NUM_COLS
                  then s2\<lparr>screen_y := screen_y s2 + 1, screen_x := 0\<rparr> else s2);
            s4 = (if screen_y s3 \<ge> NUM_ROWS
                  then s3\<lparr>video_mem := scroll (video_mem s3), screen_y := screen_y s3 - 1, screen_x := 0\<rparr>
                  else s3);
            s5 = (if \<not> (newline_char c \<or> c = 9)
                  then let t = s4\<lparr>video_mem := set_cell (video_mem s4) (NUM_COLS * screen_y s4 + screen_x s4) c,
                                 screen_x := screen_x s4 + 1\<rparr>
                       in if screen_x t = NUM_COLS then t\<lparr>screen_y := screen_y t + 1, screen_x := 0\<rparr> else t
                  else s4)
        in update_cursor s5)"

text \<open>\<open>puts\<close> returns the number of characters written and the screen.\<close>

partial_function (option) puts_loop :: "str \<Rightarrow> u32 \<Rightarrow> screen \<Rightarrow> (u32 \<times> screen) option" where
  "puts_loop str index s =
     (if str index \<noteq> 0 then puts_loop str (index + 1) (putc (str index) s) else Some (index, s))"

definition puts :: "str \<Rightarrow> screen \<Rightarrow> (u32 \<times> screen) option" where
  "puts str s = puts_loop str 0 s"

definition putc_at :: "u8 \<Rightarrow> int \<Rightarrow> int \<Rightarrow> screen \<Rightarrow> screen" where
  "putc_at c x y s = s\<lparr>video_mem := set_cell (video_mem s) (NUM_COLS * y + x) c\<rparr>"

text \<open>The 4000-byte copies between video memory and a saved screen (\<open>memcpy\<close> between distinct objects).\<close>

definition copy_screen :: "(int \<Rightarrow> u8) \<Rightarrow> (int \<Rightarrow> u8) \<Rightarrow> int \<Rightarrow> u8" where
  "copy_screen dest src = (\<lambda>i. if 0 \<le> i \<and> i < SCREEN_SIZE then src i else dest i)"

definition switch_screen :: "u8 \<Rightarrow> u8 \<Rightarrow> screen \<Rightarrow> screen" where
  "switch_screen active_tty new_tty s =
     (let a = unat active_tty; n = unat new_tty;
          s1 = s\<lparr>screen_buf := (screen_buf s)(a := copy_screen (screen_buf s a) (video_mem s)),
                 screen_loc_buf := (screen_loc_buf s)(a := (of_int (screen_x s), of_int (screen_y s)))\<rparr>;
          s2 = clear s1;
          s3 = s2\<lparr>video_mem := copy_screen (video_mem s2) (screen_buf s2 n),
                  screen_x := sint (fst (screen_loc_buf s2 n)),
                  screen_y := sint (snd (screen_loc_buf s2 n))\<rparr>
      in update_cursor s3)"

definition test_interrupts :: "screen \<Rightarrow> screen" where
  "test_interrupts s =
     s\<lparr>video_mem := fold (\<lambda>i w. w(2 * i := w (2 * i) + 1)) [0..NUM_ROWS * NUM_COLS - 1] (video_mem s)\<rparr>"

section \<open>Closed forms of the loops\<close>

lemma blank_cells_eq:
  assumes "i \<le> j"
  shows "blank_cells i j v =
    (\<lambda>k. if 2 * i \<le> k \<and> k < 2 * j then (if even k then 32 else ATTRIB) else v k)"
  using assms
proof (induction j rule: int_ge_induct)
  case base
  then show ?case by (auto simp: blank_cells_def fun_eq_iff)
next
  case (step j)
  have "[i..j] = [i..j - 1] @ [j]" using step.hyps by (rule upto_rec2)
  then have "blank_cells i (j + 1) v = set_cell (blank_cells i j v) j 32"
    by (simp add: blank_cells_def)
  then show ?case
    using step by (auto simp: fun_eq_iff set_cell_def)
qed

lemma scroll_loop_eq:
  assumes "0 \<le> n"
  shows "fold (\<lambda>i w. let j = i + 80
                    in (w(2 * i := w (2 * j)))(2 * i + 1 := (w(2 * i := w (2 * j))) (2 * j + 1)))
           [0..n - 1] v = (\<lambda>k. if 0 \<le> k \<and> k < 2 * n then v (k + 160) else v (k :: int))"
  using assms
proof (induction n rule: int_ge_induct)
  case base
  then show ?case by (auto simp: fun_eq_iff)
next
  case (step n)
  have "[0..n] = [0..n - 1] @ [n]" using step.hyps by (rule upto_rec2)
  then show ?case
    using step by (auto simp: fun_eq_iff Let_def algebra_simps)
qed

lemma scroll_eq:
  "scroll v = (\<lambda>k. if 0 \<le> k \<and> k < 3840 then v (k + 160)
     else if 3840 \<le> k \<and> k < 4000 then (if even k then 32 else ATTRIB) else v k)"
  using scroll_loop_eq [of 1920 v]
  by (auto simp: scroll_def blank_cells_eq NUM_COLS_def NUM_ROWS_def fun_eq_iff)

lemma test_interrupts_eq:
  "video_mem (test_interrupts s) =
     (\<lambda>k. if 0 \<le> k \<and> k < 4000 \<and> even k then video_mem s k + 1 else video_mem s k)"
proof -
  have "fold (\<lambda>i w. w(2 * i := w (2 * i) + 1)) [0..n - 1] v =
    (\<lambda>k. if 0 \<le> k \<and> k < 2 * n \<and> even k then v k + 1 else v k)" if "0 \<le> n"
    for n :: int and v :: "int \<Rightarrow> u8"
    using that
  proof (induction n rule: int_ge_induct)
    case (step n)
    have "[0..n] = [0..n - 1] @ [n]" using step.hyps by (rule upto_rec2)
    then show ?case using step by (auto simp: fun_eq_iff)
  qed (auto simp: fun_eq_iff)
  from this [of 2000] show ?thesis
    by (simp add: test_interrupts_def NUM_COLS_def NUM_ROWS_def)
qed

lemma bksp_skip_bounds: "1 \<le> x \<Longrightarrow> 1 \<le> bksp_skip v x y \<and> bksp_skip v x y \<le> x"
proof (induction v x y rule: bksp_skip.induct)
  case (1 v x y)
  then show ?case by (subst (1 2) bksp_skip.simps) force
qed

text \<open>The loop of \<open>bksp\<close> stops just after the last character of the line that is not a blank.\<close>

lemma bksp_skip_stop:
  "1 < bksp_skip v x y \<Longrightarrow> v (2 * (NUM_COLS * y + (bksp_skip v x y - 1))) \<noteq> 32"
proof (induction v x y rule: bksp_skip.induct)
  case (1 v x y)
  show ?case
  proof (cases "1 < x \<and> v (2 * (NUM_COLS * y + (x - 1))) = 32")
    case True
    with 1 show ?thesis by (simp add: bksp_skip.simps [of v x y])
  next
    case False
    then have "bksp_skip v x y = x" by (subst bksp_skip.simps) (simp only: if_False)
    with "1.prems" False show ?thesis by simp
  qed
qed

section \<open>The cursor invariant and the frame\<close>

text \<open>
  The cursor is on the screen, or at the start of the row just below it, which the next character
  scrolls into view.
\<close>

definition cursor_ok :: "int \<Rightarrow> int \<Rightarrow> bool" where
  "cursor_ok x y \<longleftrightarrow> 0 \<le> x \<and> x < NUM_COLS \<and> 0 \<le> y \<and> y \<le> NUM_ROWS \<and> (y = NUM_ROWS \<longrightarrow> x = 0)"

definition screen_ok :: "screen \<Rightarrow> bool" where
  "screen_ok s \<longleftrightarrow> cursor_ok (screen_x s) (screen_y s) \<and>
     (\<forall>n. cursor_ok (sint (fst (screen_loc_buf s n))) (sint (snd (screen_loc_buf s n))))"

definition same_outside :: "(int \<Rightarrow> u8) \<Rightarrow> (int \<Rightarrow> u8) \<Rightarrow> bool" where
  "same_outside v w \<longleftrightarrow> (\<forall>k. \<not> (0 \<le> k \<and> k < SCREEN_SIZE) \<longrightarrow> v k = w k)"

lemma update_cursor_sel [simp]:
  "screen_x (update_cursor s) = screen_x s" "screen_y (update_cursor s) = screen_y s"
  "video_mem (update_cursor s) = video_mem s" "screen_buf (update_cursor s) = screen_buf s"
  "screen_loc_buf (update_cursor s) = screen_loc_buf s"
  by (simp_all add: update_cursor_def Let_def)

lemma same_outside_refl [simp]: "same_outside v v"
  by (simp add: same_outside_def)

lemma same_outside_trans: "same_outside u v \<Longrightarrow> same_outside v w \<Longrightarrow> same_outside u w"
  by (simp add: same_outside_def)

lemma same_outside_set_cell:
  "0 \<le> i \<Longrightarrow> i < 2000 \<Longrightarrow> same_outside (set_cell v i c) w \<longleftrightarrow> same_outside v w"
  by (auto simp: same_outside_def set_cell_def SCREEN_SIZE_def)

lemma same_outside_scroll [simp]: "same_outside (scroll v) v"
  by (auto simp: same_outside_def scroll_eq SCREEN_SIZE_def)

text \<open>The three phases of \<open>putc\<close>: where the cursor goes, the scroll, and the character itself.\<close>

definition putc_move :: "u8 \<Rightarrow> int \<Rightarrow> int \<Rightarrow> int \<times> int" where
  "putc_move c x y =
     (if newline_char c then (0, y + 1)
      else if c = 9 then (if x + 4 \<ge> NUM_COLS then (0, y + 1) else (x + 4, y)) else (x, y))"

definition putc_scroll :: "int \<times> int \<Rightarrow> (int \<Rightarrow> u8) \<Rightarrow> int \<times> int \<times> (int \<Rightarrow> u8)" where
  "putc_scroll p v = (if snd p \<ge> NUM_ROWS then (0, snd p - 1, scroll v) else (fst p, snd p, v))"

lemma putc_phases:
  assumes "screen_x s < NUM_COLS" "c \<noteq> 0"
  shows "putc c s =
    (case putc_scroll (putc_move c (screen_x s) (screen_y s)) (video_mem s) of (x, y, v) \<Rightarrow>
       update_cursor
         (if newline_char c \<or> c = 9 then s\<lparr>screen_x := x, screen_y := y, video_mem := v\<rparr>
          else s\<lparr>screen_x := (if x + 1 = NUM_COLS then 0 else x + 1),
                 screen_y := (if x + 1 = NUM_COLS then y + 1 else y),
                 video_mem := set_cell v (NUM_COLS * y + x) c\<rparr>))"
proof -
  consider "newline_char c" | "\<not> newline_char c" "c = 9" | "\<not> newline_char c" "c \<noteq> 9" by blast
  then show ?thesis
  proof cases
    case 1
    then have "c \<noteq> 9" by (auto simp: newline_char_def)
    with 1 assms show ?thesis
      by (cases s) (simp add: putc_def putc_move_def putc_scroll_def Let_def NUM_COLS_def)
  next
    case 2
    with assms show ?thesis by (cases s) (simp add: putc_def putc_move_def putc_scroll_def Let_def)
  next
    case 3
    with assms show ?thesis by (cases s) (simp add: putc_def putc_move_def putc_scroll_def Let_def)
  qed
qed

lemma putc_scroll_ok:
  assumes "cursor_ok x y" "putc_scroll (putc_move c x y) v = (x', y', w)"
  shows "cursor_ok x' y' \<and> same_outside w v \<and> (newline_char c \<or> c = 9 \<or> y' < NUM_ROWS)"
  using assms
  by (auto simp: putc_move_def putc_scroll_def cursor_ok_def screen_consts split: if_splits)

lemma putc_ok:
  assumes "cursor_ok (screen_x s) (screen_y s)"
  shows "cursor_ok (screen_x (putc c s)) (screen_y (putc c s)) \<and>
    same_outside (video_mem (putc c s)) (video_mem s) \<and>
    screen_buf (putc c s) = screen_buf s \<and> screen_loc_buf (putc c s) = screen_loc_buf s"
proof (cases "c = 0")
  case True
  with assms show ?thesis by (simp add: putc_def)
next
  case False
  obtain x y v where p: "putc_scroll (putc_move c (screen_x s) (screen_y s)) (video_mem s) = (x, y, v)"
    by (cases "putc_scroll (putc_move c (screen_x s) (screen_y s)) (video_mem s)") auto
  have ok: "cursor_ok x y" "same_outside v (video_mem s)" "newline_char c \<or> c = 9 \<or> y < NUM_ROWS"
    using putc_scroll_ok [OF assms p] by auto
  have x: "screen_x s < NUM_COLS" using assms by (simp add: cursor_ok_def)
  show ?thesis
  proof (cases "newline_char c \<or> c = 9")
    case True
    with ok show ?thesis by (simp add: putc_phases [OF x False] p)
  next
    case cell: False
    then have "0 \<le> NUM_COLS * y + x \<and> NUM_COLS * y + x < 2000"
      using ok by (auto simp: cursor_ok_def screen_consts)
    then show ?thesis
      using cell ok by (auto simp: putc_phases [OF x False] p same_outside_set_cell cursor_ok_def screen_consts)
  qed
qed

lemma bksp_ok:
  assumes "cursor_ok (screen_x s) (screen_y s)"
  shows "cursor_ok (screen_x (bksp s)) (screen_y (bksp s)) \<and> screen_y (bksp s) < NUM_ROWS \<and>
    same_outside (video_mem (bksp s)) (video_mem s) \<and>
    screen_buf (bksp s) = screen_buf s \<and> screen_loc_buf (bksp s) = screen_loc_buf s"
  using assms bksp_skip_bounds [of 79 "video_mem s" "screen_y s - 1"]
  by (auto simp: bksp_def Let_def cursor_ok_def screen_consts same_outside_set_cell split: prod.splits if_splits)

lemma clear_sel:
  "screen_x (clear s) = 0" "screen_y (clear s) = 0"
  "video_mem (clear s) = (\<lambda>k. if 0 \<le> k \<and> k < 4000 then (if even k then 32 else ATTRIB) else video_mem s k)"
  "screen_buf (clear s) = screen_buf s" "screen_loc_buf (clear s) = screen_loc_buf s"
  by (simp_all add: clear_def blank_cells_eq NUM_COLS_def NUM_ROWS_def cong: if_cong)

lemma clear_ok:
  "cursor_ok (screen_x (clear s)) (screen_y (clear s)) \<and> same_outside (video_mem (clear s)) (video_mem s) \<and>
   screen_buf (clear s) = screen_buf s \<and> screen_loc_buf (clear s) = screen_loc_buf s"
  by (auto simp: clear_sel cursor_ok_def same_outside_def screen_consts)

section \<open>The interface to the console\<close>

text \<open>
  What the terminal driver and the kernel rely on: characters are emitted, the last one erased and the
  screen wiped, and each keeps the console in order and changes nothing but the visible screen.
\<close>

locale console =
  fixes ok :: "'s \<Rightarrow> bool"
    and frame :: "'s \<Rightarrow> 's \<Rightarrow> bool"
    and emit :: "u8 \<Rightarrow> 's \<Rightarrow> 's"
    and erase :: "'s \<Rightarrow> 's"
    and wipe :: "'s \<Rightarrow> 's"
  assumes frame_refl: "frame s s"
    and frame_trans: "frame u t \<Longrightarrow> frame t s \<Longrightarrow> frame u s"
    and emit_ok: "ok s \<Longrightarrow> ok (emit c s) \<and> frame (emit c s) s"
    and erase_ok: "ok s \<Longrightarrow> ok (erase s) \<and> frame (erase s) s"
    and wipe_ok: "ok s \<Longrightarrow> ok (wipe s) \<and> frame (wipe s) s"
begin

lemma emit_list_ok: "ok s \<Longrightarrow> ok (fold emit cs s) \<and> frame (fold emit cs s) s"
proof (induction cs arbitrary: s)
  case Nil
  then show ?case by (simp add: frame_refl)
next
  case (Cons c cs)
  then have "ok (emit c s)" "frame (emit c s) s" using emit_ok by auto
  with Cons.IH [of "emit c s"] show ?case by (auto intro: frame_trans)
qed

text \<open>Any sequence of console operations.\<close>

lemma run_ok:
  assumes "ok s" "\<And>f. f \<in> set fs \<Longrightarrow> f = erase \<or> f = wipe \<or> (\<exists>c. f = emit c)"
  shows "ok (fold (\<lambda>f. f) fs s) \<and> frame (fold (\<lambda>f. f) fs s) s"
  using assms
proof (induction fs arbitrary: s)
  case Nil
  then show ?case by (simp add: frame_refl)
next
  case (Cons f fs)
  then have "ok (f s) \<and> frame (f s) s" using emit_ok erase_ok wipe_ok by fastforce
  with Cons show ?case by (auto intro: frame_trans)
qed

end

definition screen_frame :: "screen \<Rightarrow> screen \<Rightarrow> bool" where
  "screen_frame t s \<longleftrightarrow> same_outside (video_mem t) (video_mem s) \<and> screen_buf t = screen_buf s
     \<and> screen_loc_buf t = screen_loc_buf s"

interpretation con: console screen_ok screen_frame putc bksp clear
  using putc_ok bksp_ok clear_ok
  by unfold_locales (auto simp: screen_ok_def screen_frame_def intro: same_outside_trans)

subsection \<open>puts\<close>

lemma puts_loop_upto:
  assumes "k \<le> n" "\<And>i. k \<le> i \<Longrightarrow> i < n \<Longrightarrow> str (of_nat i) \<noteq> 0" "str (of_nat n) = 0"
  shows "puts_loop str (of_nat k) s = Some (of_nat n, fold putc (map (str \<circ> of_nat) [k..<n]) s)"
  using assms
proof (induction arbitrary: s rule: inc_induct)
  case base
  then show ?case by (simp add: puts_loop.simps)
next
  case (step k)
  have "str (of_nat k) \<noteq> 0" using step.prems(1) [of k] step.hyps by simp
  moreover have "puts_loop str (of_nat (Suc k)) (putc (str (of_nat k)) s) =
    Some (of_nat n, fold putc (map (str \<circ> of_nat) [Suc k..<n]) (putc (str (of_nat k)) s))"
    using step.prems by (intro step.IH) auto
  ultimately show ?case
    using step.hyps by (subst puts_loop.simps) (simp add: add.commute upt_conv_Cons)
qed

lemma puts_cstr: "cstr str cs \<Longrightarrow> puts str s = Some (of_nat (length cs), fold putc cs s)"
proof -
  assume c: "cstr str cs"
  then have "map (str \<circ> of_nat) [0..<length cs] = cs"
    by (auto simp: cstr_def intro: nth_equalityI)
  with puts_loop_upto [of 0 "length cs" str s] c show ?thesis by (simp add: puts_def cstr_def)
qed

section \<open>Properties\<close>

text \<open>
  C33: printing a string, erasing a character and clearing the screen write no byte outside the 4000 bytes of video memory and no
  saved screen, and keep the cursor in a cell of the screen or at the start of row 25, which is the row below the last. It really goes
  there: a character printed in the last cell leaves the cursor, the hardware's included, below the screen until the next character scrolls.
\<close>

theorem console_safe:
  assumes "screen_ok s" "cstr str cs"
  shows "(\<exists>t. puts str s = Some (of_nat (length cs), t) \<and> screen_ok t \<and> screen_frame t s \<and>
      screen_ok (bksp t) \<and> screen_frame (bksp t) s \<and> screen_ok (clear t) \<and> screen_frame (clear t) s)
    \<and> (screen_x s = 79 \<and> screen_y s = 24 \<and> c \<notin> {0, 9, 10, 13} \<longrightarrow>
        screen_x (putc c s) = 0 \<and> screen_y (putc c s) = 25
        \<and> vga (putc c s) = vga s @ [(0x3d4, 0x0E), (0x3d5, 7), (0x3d4, 0x0F), (0x3d5, 0xD0)])"
proof
  have t: "screen_ok (fold putc cs s) \<and> screen_frame (fold putc cs s) s"
    by (rule con.emit_list_ok [OF assms(1)])
  with puts_cstr [OF assms(2), of s] show "\<exists>t. puts str s = Some (of_nat (length cs), t) \<and> screen_ok t \<and> screen_frame t s \<and>
      screen_ok (bksp t) \<and> screen_frame (bksp t) s \<and> screen_ok (clear t) \<and> screen_frame (clear t) s"
    using con.erase_ok con.wipe_ok con.frame_trans by blast
qed (simp add: putc_def newline_char_def screen_consts update_cursor_def Let_def)

theorem console_safe_witness:
  "\<exists>t. puts ((\<lambda>_. 0)(0 := 72, 1 := 105)) \<lparr>screen_x = 79, screen_y = 24, video_mem = (\<lambda>_. 0),
      screen_buf = (\<lambda>_ _. 0), screen_loc_buf = (\<lambda>_. (0, 0)), vga = []\<rparr> = Some (2, t) \<and> screen_ok t"
proof -
  have "screen_ok \<lparr>screen_x = 79, screen_y = 24, video_mem = (\<lambda>_. 0),
      screen_buf = (\<lambda>_ _. 0), screen_loc_buf = (\<lambda>_. (0, 0)), vga = []\<rparr>"
    by (simp add: screen_ok_def cursor_ok_def screen_consts)
  moreover have "cstr ((\<lambda>_. 0)(0 := 72, 1 := 105)) [72, 105]"
    by (auto simp: cstr_def less_Suc_eq)
  ultimately show ?thesis
    using console_safe [of _ "(\<lambda>_. 0)(0 := 72, 1 := 105)" "[72, 105]" 0] by fastforce
qed

text \<open>
  A printable character is written at the cursor, in the row below after a scroll, and the
  cursor moves to the next cell in reading order.
\<close>

theorem putc_prints:
  assumes "cursor_ok (screen_x s) (screen_y s)" "c \<notin> {0, 9, 10, 13}"
  shows "\<exists>y v. (if screen_y s < NUM_ROWS then y = screen_y s \<and> v = video_mem s
                else y = NUM_ROWS - 1 \<and> v = scroll (video_mem s))
    \<and> video_mem (putc c s) = set_cell v (NUM_COLS * y + screen_x s) c
    \<and> NUM_COLS * screen_y (putc c s) + screen_x (putc c s) = NUM_COLS * y + screen_x s + 1"
proof -
  have "screen_x s < NUM_COLS" "c \<noteq> 0" using assms by (auto simp: cursor_ok_def)
  note p = putc_phases [OF this]
  show ?thesis
    using assms by (auto simp: p putc_scroll_def putc_move_def newline_char_def cursor_ok_def screen_consts)
qed

theorem putc_prints_witness:
  "\<exists>y v. (y = 24 \<and> v = scroll (\<lambda>_. 3)) \<and>
     video_mem (putc 65 \<lparr>screen_x = 0, screen_y = 25, video_mem = (\<lambda>_. 3), screen_buf = (\<lambda>_ _. 0),
        screen_loc_buf = (\<lambda>_. (0, 0)), vga = []\<rparr>) = set_cell v (80 * y) 65"
  using putc_prints [of "\<lparr>screen_x = 0, screen_y = 25, video_mem = (\<lambda>_. 3), screen_buf = (\<lambda>_ _. 0),
        screen_loc_buf = (\<lambda>_. (0, 0)), vga = []\<rparr>" 65]
  by (simp add: cursor_ok_def screen_consts)

text \<open>
  Switching from one terminal's screen to another and back shows the same 4000 bytes and puts the
  cursor where it was, and a saved screen that is neither of the two is not touched.
\<close>

theorem switch_screen_roundtrip:
  assumes "screen_ok s" "a \<noteq> b"
  shows "let t = switch_screen b a (switch_screen a b s) in
    screen_x t = screen_x s \<and> screen_y t = screen_y s \<and>
    (\<forall>k. 0 \<le> k \<and> k < SCREEN_SIZE \<longrightarrow> video_mem t k = video_mem s k) \<and> screen_ok t \<and>
    (\<forall>n. n \<noteq> unat a \<and> n \<noteq> unat b \<longrightarrow> screen_buf t n = screen_buf s n)"
proof -
  have ab: "unat a \<noteq> unat b" using assms(2) by (simp add: word_unat_eq_iff)
  have sx: "sint (of_int z :: u8) = z" if "0 \<le> z" "z < 128" for z
    using that by (simp add: signed_of_int signed_take_bit_int_eq_self)
  have "sint (of_int (screen_x s) :: u8) = screen_x s" "sint (of_int (screen_y s) :: u8) = screen_y s"
    using assms(1) by (auto intro!: sx simp: screen_ok_def cursor_ok_def screen_consts)
  with assms(1) ab show ?thesis
    by (auto simp: switch_screen_def Let_def clear_sel copy_screen_def screen_ok_def)
qed

theorem switch_screen_roundtrip_witness:
  "let s = \<lparr>screen_x = 12, screen_y = 3, video_mem = (\<lambda>k. of_int k), screen_buf = (\<lambda>_ _. 0),
        screen_loc_buf = (\<lambda>_. (0, 0)), vga = []\<rparr>; t = switch_screen 2 0 (switch_screen 0 2 s)
   in screen_x t = 12 \<and> screen_y t = 3 \<and> (\<forall>k. 0 \<le> k \<and> k < 4000 \<longrightarrow> video_mem t k = of_int k)"
proof -
  have "screen_ok \<lparr>screen_x = 12, screen_y = 3, video_mem = (\<lambda>k. of_int k), screen_buf = (\<lambda>_ _. 0),
        screen_loc_buf = (\<lambda>_. (0, 0)), vga = []\<rparr>"
    by (simp add: screen_ok_def cursor_ok_def screen_consts)
  from switch_screen_roundtrip [OF this, of 0 2] show ?thesis
    by (simp add: Let_def SCREEN_SIZE_def)
qed

text \<open>
  The two bytes that \<open>update_cursor\<close> sends to the VGA data port after selecting the cursor
  registers are the high and the low byte of the cell number of the cursor.
\<close>

theorem update_cursor_position:
  assumes "cursor_ok (screen_x s) (screen_y s)"
  shows "\<exists>hi lo. vga (update_cursor s) = vga s @ [(0x3d4, 0x0E), (0x3d5, hi), (0x3d4, 0x0F), (0x3d5, lo)]
    \<and> 256 * uint hi + uint lo = NUM_COLS * screen_y s + screen_x s"
proof -
  define p where "p = screen_y s * NUM_COLS + screen_x s"
  have p: "0 \<le> p" "p < 65536" using assms by (auto simp: p_def cursor_ok_def screen_consts)
  have u: "uint (of_int p :: u16) = p"
    using p by (simp add: uint_word_of_int_eq take_bit_int_eq_self)
  have m: "(255 :: u16) = mask 8" by (simp add: mask_eq_exp_minus_1)
  have hi: "uint (ucast (drop_bit 8 (of_int p :: u16) AND 0xFF) :: u8) = p div 256"
    using p by (simp add: m take_bit_eq_mask [symmetric] unsigned_ucast_eq unsigned_take_bit_eq
        u drop_bit_eq_div uint_div_distrib take_bit_int_eq_self)
  have lo: "uint (ucast ((of_int p :: u16) AND 0xFF) :: u8) = p mod 256"
    by (simp add: m take_bit_eq_mask [symmetric] unsigned_ucast_eq uint_mod_distrib u take_bit_eq_mod)
  have "vga (update_cursor s) = vga s @ [(0x3d4, 0x0E), (0x3d5, ucast (drop_bit 8 (of_int p :: u16) AND 0xFF)),
      (0x3d4, 0x0F), (0x3d5, ucast ((of_int p :: u16) AND 0xFF))]"
    by (simp add: update_cursor_def Let_def p_def del: of_int_add of_int_mult)
  moreover have "NUM_COLS * screen_y s + screen_x s = p" by (simp add: p_def)
  ultimately show ?thesis using hi lo by (intro exI conjI) (assumption, simp)
qed

theorem update_cursor_position_witness:
  "\<exists>hi lo. vga (update_cursor \<lparr>screen_x = 3, screen_y = 20, video_mem = (\<lambda>_. 0), screen_buf = (\<lambda>_ _. 0),
        screen_loc_buf = (\<lambda>_. (0, 0)), vga = []\<rparr>) = [(0x3d4, 0x0E), (0x3d5, hi), (0x3d4, 0x0F), (0x3d5, lo)]
    \<and> 256 * uint hi + uint lo = 1603"
  using update_cursor_position [of "\<lparr>screen_x = 3, screen_y = 20, video_mem = (\<lambda>_. 0), screen_buf = (\<lambda>_ _. 0),
        screen_loc_buf = (\<lambda>_. (0, 0)), vga = []\<rparr>"]
  by (simp add: cursor_ok_def screen_consts)

end
