(* ===== verification/Filesys.thy ===== *)
theory Filesys
  imports LibString LibMem
begin

text \<open>
  The read-only file system of \<^verbatim>\<open>student-distrib/filesys.c\<close> and \<^verbatim>\<open>filesys.h\<close>: \<open>read_dentry_by_name\<close>,
  \<open>read_dentry_by_index\<close> and \<open>read_data\<close> on the image that the boot loader puts in memory. The image is
  the buffer at \<open>boot_block\<close>, read byte by byte at the offsets of the C structures, so that a read
  past the end of an array of the image is the read the code makes. The lemmas relate the three
  routines to the abstract contents of the image: the names in the directory and the bytes of each file.
\<close>

section \<open>Model\<close>

definition FILE_NAME_SIZE :: u32 where "FILE_NAME_SIZE = 32"
definition NUM_DIR :: u32 where "NUM_DIR = 63"
definition DATA_BLOCK_SIZE :: u32 where "DATA_BLOCK_SIZE = 4096"

lemmas fs_consts = FILE_NAME_SIZE_def NUM_DIR_def DATA_BLOCK_SIZE_def

record dentry =
  file_name :: str
  file_type :: u32
  inode_num :: u32
  reserved :: str

text \<open>The fields of \<^verbatim>\<open>boot_block_t\<close>, \<^verbatim>\<open>inode_t\<close> and \<^verbatim>\<open>data_block_t\<close> as loads from the image.\<close>

definition num_dir :: "str \<Rightarrow> u32" where "num_dir img = load32 img 0"
definition num_inodes :: "str \<Rightarrow> u32" where "num_inodes img = load32 img 4"
definition num_db :: "str \<Rightarrow> u32" where "num_db img = load32 img 8"

definition directory_offset :: "u32 \<Rightarrow> u32" where
  "directory_offset i = 64 + i * 64"

definition directory_name :: "str \<Rightarrow> u32 \<Rightarrow> str" where
  "directory_name img i = view img (directory_offset i)"

definition inode_offset :: "u32 \<Rightarrow> u32" where
  "inode_offset inode = (inode + 1) * DATA_BLOCK_SIZE"

definition inode_length :: "str \<Rightarrow> u32 \<Rightarrow> u32" where
  "inode_length img inode = load32 img (inode_offset inode)"

definition data_block_num :: "str \<Rightarrow> u32 \<Rightarrow> u32 \<Rightarrow> u32" where
  "data_block_num img inode k = load32 img (inode_offset inode + 4 + k * 4)"

text \<open>A null \<^verbatim>\<open>dentry\<close> pointer is \<^const>\<open>None\<close>.\<close>

definition read_dentry_by_index :: "str \<Rightarrow> u32 \<Rightarrow> dentry option \<Rightarrow> i32 \<times> dentry option" where
  "read_dentry_by_index img index dentry =
     (case dentry of
        None \<Rightarrow> (-1, None)
      | Some d \<Rightarrow>
          if index > NUM_DIR then (-1, Some d)
          else (0, Some (d\<lparr>file_name := strncpy (file_name d) (directory_name img index) FILE_NAME_SIZE,
                          file_type := load32 img (directory_offset index + 32),
                          inode_num := load32 img (directory_offset index + 36)\<rparr>)))"

function search_dentry :: "str \<Rightarrow> str \<Rightarrow> u32 \<Rightarrow> dentry option \<Rightarrow> nat \<Rightarrow> (i32 \<times> dentry option) option" where
  "search_dentry img fname name_length dentry i =
     (if i < unat (num_dir img)
      then do {
        file_name_length \<leftarrow> strlen (directory_name img (of_nat i));
        let file_name_length = (if name_length > file_name_length then name_length else file_name_length);
        let file_name_length = (if file_name_length > FILE_NAME_SIZE then FILE_NAME_SIZE else file_name_length);
        if strncmp fname (directory_name img (of_nat i)) file_name_length = 0
        then Some (read_dentry_by_index img (of_nat i) dentry)
        else search_dentry img fname name_length dentry (Suc i)
      }
      else Some (-1, dentry))"
  by pat_completeness auto
termination
  by (relation "measure (\<lambda>(img, fname, name_length, dentry, i). unat (num_dir img) - i)") auto

declare search_dentry.simps [simp del]

text \<open>
  A null \<^verbatim>\<open>fname\<close> faults in \<open>strlen\<close> before it is tested: \<^const>\<open>None\<close>, as when a string has no NUL.
\<close>

definition read_dentry_by_name :: "str \<Rightarrow> str option \<Rightarrow> dentry option \<Rightarrow> (i32 \<times> dentry option) option" where
  "read_dentry_by_name img fname dentry =
     do {
       f \<leftarrow> fname;
       name_length \<leftarrow> strlen f;
       if name_length > FILE_NAME_SIZE \<or> dentry = None then Some (-1, dentry)
       else search_dentry img f name_length dentry 0
     }"

text \<open>The byte of the file at \<open>offset\<close>: the block number from the inode, then the byte in the block.\<close>

definition data_byte :: "str \<Rightarrow> u32 \<Rightarrow> u32 \<Rightarrow> u8" where
  "data_byte img inode offset =
     (let block_index = data_block_num img inode (offset div DATA_BLOCK_SIZE);
          block_offset = 1 + num_inodes img + block_index
      in img (block_offset * DATA_BLOCK_SIZE + offset mod DATA_BLOCK_SIZE))"

function read_data_loop :: "str \<Rightarrow> u32 \<Rightarrow> u32 \<Rightarrow> str \<Rightarrow> u32 \<Rightarrow> nat \<Rightarrow> nat \<times> str" where
  "read_data_loop img inode offset buf nbytes i =
     (if offset < inode_length img inode \<and> i < unat nbytes
      then read_data_loop img inode (offset + 1) (buf(of_nat i := data_byte img inode offset)) nbytes (Suc i)
      else (i, buf))"
  by pat_completeness auto
termination
  by (relation "measure (\<lambda>(img, inode, offset, buf, nbytes, i). unat nbytes - i)") auto

declare read_data_loop.simps [simp del]

definition read_data :: "str \<Rightarrow> u32 \<Rightarrow> u32 \<Rightarrow> str \<Rightarrow> u32 \<Rightarrow> i32 \<times> str" where
  "read_data img inode offset buf nbytes =
     (if inode > num_inodes img then (-1, buf)
      else let (i, buf') = read_data_loop img inode offset buf nbytes 0 in (of_nat i, buf'))"

section \<open>The abstract contents of an image\<close>

text \<open>The name of a directory entry, and the bytes of a file.\<close>

definition dir_name :: "str \<Rightarrow> nat \<Rightarrow> u8 list" where
  "dir_name img i = chars (directory_name img (of_nat i)) 0 32"

text \<open>
  The format of an image, apart from the code: it is a sequence of blocks of 4096 bytes, the boot block, then the inodes, as many
  as the second word of the boot block says, then the data blocks. An inode holds the length of its file and the
  numbers of its data blocks; the file is the first bytes of these blocks put one behind the other.
\<close>

definition image_block :: "str \<Rightarrow> nat \<Rightarrow> u8 list" where
  "image_block img b = map (\<lambda>j. img (of_nat (4096 * b + j))) [0..<4096]"

definition file_length :: "str \<Rightarrow> nat \<Rightarrow> nat" where
  "file_length img inode = unat (load32 img (of_nat (4096 * (1 + inode))))"

definition file_blocks :: "str \<Rightarrow> nat \<Rightarrow> nat list" where
  "file_blocks img inode =
     map (\<lambda>k. unat (load32 img (of_nat (4096 * (1 + inode) + 4 + 4 * k)))) [0..<(file_length img inode + 4095) div 4096]"

definition file_bytes :: "str \<Rightarrow> u32 \<Rightarrow> u8 list" where
  "file_bytes img inode =
     take (file_length img (unat inode))
       (concat (map (\<lambda>d. image_block img (1 + unat (load32 img 4) + d)) (file_blocks img (unat inode))))"

text \<open>How many bytes \<open>read_data\<close> delivers.\<close>

definition avail :: "str \<Rightarrow> u32 \<Rightarrow> u32 \<Rightarrow> u32 \<Rightarrow> nat" where
  "avail img inode offset nbytes = min (unat nbytes) (unat (inode_length img inode) - unat offset)"

lemma nth_concat_blocks:
  "\<forall>xs \<in> set xss. length xs = n \<Longrightarrow> i < n * length xss \<Longrightarrow> concat xss ! i = xss ! (i div n) ! (i mod n)"
proof (induction xss arbitrary: i)
  case (Cons xs xss)
  show ?case
  proof (cases "i < n")
    case True
    then show ?thesis using Cons.prems by (simp add: nth_append)
  next
    case False
    then have n: "0 < n" "n \<le> i" using Cons.prems(2) by (auto intro: ccontr)
    then have "i div n = Suc ((i - n) div n)" "i mod n = (i - n) mod n" by (simp_all add: le_div_geq le_mod_geq)
    then show ?thesis using Cons n by (auto simp: nth_append)
  qed
qed simp

lemma length_concat_blocks: "\<forall>xs \<in> set xss. length xs = n \<Longrightarrow> length (concat xss) = n * length xss"
  by (induction xss) auto

lemma length_image_block [simp]: "length (image_block img b) = 4096"
  by (simp add: image_block_def del: upt_rec_numeral)

lemma nth_image_block [simp]: "j < 4096 \<Longrightarrow> image_block img b ! j = img (of_nat (4096 * b + j))"
  by (simp add: image_block_def del: upt_rec_numeral)

lemma blocks_enough: "n \<le> 4096 * ((n + 4095) div 4096)" for n :: nat
  using mult_div_mod_eq [of 4096 "n + 4095"] mod_less_divisor [of 4096 "n + 4095"] by linarith

text \<open>The block lookup of the code finds the bytes that the format puts there.\<close>

lemma file_length_eq: "file_length img (unat inode) = unat (inode_length img inode)"
  by (simp add: file_length_def inode_length_def inode_offset_def DATA_BLOCK_SIZE_def algebra_simps)

lemma length_file_bytes [simp]: "length (file_bytes img inode) = unat (inode_length img inode)"
proof -
  let ?xss = "map (\<lambda>d. image_block img (1 + unat (load32 img 4) + d)) (file_blocks img (unat inode))"
  have "length (concat ?xss) = 4096 * ((file_length img (unat inode) + 4095) div 4096)"
    using length_concat_blocks [of ?xss 4096] by (simp add: file_blocks_def)
  then show ?thesis using blocks_enough [of "file_length img (unat inode)"] unfolding file_bytes_def length_take file_length_eq by linarith
qed

lemma nth_file_bytes:
  assumes "k < unat (inode_length img inode)"
  shows "file_bytes img inode ! k = data_byte img inode (of_nat k)"
proof -
  let ?n = "(file_length img (unat inode) + 4095) div 4096"
  let ?xss = "map (\<lambda>d. image_block img (1 + unat (load32 img 4) + d)) (file_blocks img (unat inode))"
  have k: "k < file_length img (unat inode)" "k < 4294967296"
    using assms unat_lt32 [of "inode_length img inode"] by (simp_all add: file_length_eq)
  have "k < 4096 * ?n" using k(1) blocks_enough [of "file_length img (unat inode)"] by linarith
  then have b: "k div 4096 < ?n" "k < 4096 * length ?xss" by (simp_all add: file_blocks_def less_mult_imp_div_less mult.commute)
  have "file_bytes img inode ! k = concat ?xss ! k" using k(1) by (simp add: file_bytes_def)
  also have "\<dots> = ?xss ! (k div 4096) ! (k mod 4096)" by (rule nth_concat_blocks) (use b in auto)
  also have "\<dots> = img (of_nat (4096 * (1 + unat (load32 img 4) + file_blocks img (unat inode) ! (k div 4096)) + k mod 4096))"
    using b by (simp add: file_blocks_def)
  also have "file_blocks img (unat inode) ! (k div 4096) = unat (data_block_num img inode (of_nat (k div 4096)))"
    using b(1) by (simp add: file_blocks_def data_block_num_def inode_offset_def DATA_BLOCK_SIZE_def algebra_simps)
  also have "img (of_nat (4096 * (1 + unat (load32 img 4) + unat (data_block_num img inode (of_nat (k div 4096)))) + k mod 4096)) =
      data_byte img inode (of_nat k)"
  proof -
    have dm: "(of_nat k :: u32) div 4096 = of_nat (k div 4096)" "(of_nat k :: u32) mod 4096 = of_nat (k mod 4096)"
      using k(2) by (simp_all add: word_unat_eq_iff unat_div_distrib unat_mod_distrib)
    show ?thesis unfolding data_byte_def DATA_BLOCK_SIZE_def dm Let_def num_inodes_def by (simp add: algebra_simps)
  qed
  finally show ?thesis .
qed

lemma file_bytes_eq: "file_bytes img inode = map (data_byte img inode \<circ> of_nat) [0..<unat (inode_length img inode)]"
  by (rule nth_equalityI) (simp_all add: nth_file_bytes)

section \<open>read\_data\<close>

lemma read_data_loop_eq:
  "read_data_loop img inode offset buf nbytes i =
     (let n = i + min (unat nbytes - i) (unat (inode_length img inode) - unat offset)
      in (n, fill buf (\<lambda>x. data_byte img inode (offset + (x - of_nat i))) i n))"
proof (induction img inode offset buf nbytes i rule: read_data_loop.induct)
  case (1 img inode offset buf nbytes i)
  show ?case
  proof (cases "offset < inode_length img inode \<and> i < unat nbytes")
    case False
    then show ?thesis
      by (subst read_data_loop.simps) (auto simp: Let_def word_less_nat_alt min_def)
  next
    case True
    let ?g = "\<lambda>x. data_byte img inode (offset + (x - of_nat i))"
    define n where "n = i + min (unat nbytes - i) (unat (inode_length img inode) - unat offset)"
    have "Suc (unat offset) < 4294967296"
      using True unat_lt32 [of "inode_length img inode"] by (simp add: word_less_nat_alt)
    then have off: "unat (offset + 1) = Suc (unat offset)"
      by (simp add: unat_word_ariths)
    have n: "n = Suc i + min (unat nbytes - Suc i) (unat (inode_length img inode) - unat (offset + 1))"
      using True by (auto simp: n_def off word_less_nat_alt)
    have "i < n" "n \<le> 4294967296"
      using True unat_lt32 [of nbytes] by (auto simp: n_def word_less_nat_alt)
    have "read_data_loop img inode offset buf nbytes i =
      read_data_loop img inode (offset + 1) (buf(of_nat i := ?g (of_nat i))) nbytes (Suc i)"
      using True by (subst read_data_loop.simps) simp
    also have "\<dots> = (n, fill (buf(of_nat i := ?g (of_nat i)))
        (\<lambda>x. data_byte img inode (offset + 1 + (x - of_nat (Suc i)))) (Suc i) n)"
      using 1 [OF True] by (simp add: n Let_def fun_upd_def)
    also have "(\<lambda>x. data_byte img inode (offset + 1 + (x - of_nat (Suc i)))) = ?g"
      by (simp add: algebra_simps)
    also have "fill (buf(of_nat i := ?g (of_nat i))) ?g (Suc i) n = fill buf ?g i n"
      using fill_step [OF \<open>i < n\<close> \<open>n \<le> 4294967296\<close>, of buf ?g] .
    finally show ?thesis by (simp add: n_def Let_def)
  qed
qed

lemma read_data_eq:
  assumes "inode \<le> num_inodes img"
  shows "read_data img inode offset buf nbytes =
    (of_nat (avail img inode offset nbytes),
     fill buf (\<lambda>x. data_byte img inode (offset + x)) 0 (avail img inode offset nbytes))"
  using assms by (simp add: read_data_def read_data_loop_eq avail_def Let_def)

lemma read_data_invalid: "inode > num_inodes img \<Longrightarrow> read_data img inode offset buf nbytes = (-1, buf)"
  by (simp add: read_data_def)

lemma avail_bounds:
  "avail img inode offset nbytes \<le> unat nbytes" "avail img inode offset nbytes < 4294967296"
  "unat offset < unat (inode_length img inode) \<Longrightarrow>
     unat offset + avail img inode offset nbytes \<le> unat (inode_length img inode)"
  using unat_lt32 [of nbytes] by (auto simp: avail_def)

text \<open>What \<open>read_data\<close> delivers, as a list.\<close>

definition data_read :: "str \<Rightarrow> u32 \<Rightarrow> nat \<Rightarrow> nat \<Rightarrow> u8 list" where
  "data_read img inode offset n =
     (case read_data img inode (of_nat offset) (\<lambda>_. 0) (of_nat n) of
        (r, b) \<Rightarrow> map (b \<circ> of_nat) [0..<unat r])"

lemma data_read_eq:
  assumes "inode \<le> num_inodes img" "offset < 4294967296" "n < 4294967296"
  shows "data_read img inode offset n = take n (drop offset (file_bytes img inode))"
proof (rule nth_equalityI)
  let ?a = "avail img inode (of_nat offset) (of_nat n)"
  have a: "?a = min n (unat (inode_length img inode) - offset)"
    using assms by (simp add: avail_def)
  have r: "data_read img inode offset n =
    map (fill (\<lambda>_. 0) (\<lambda>x. data_byte img inode (of_nat offset + x)) 0 ?a \<circ> of_nat) [0..<?a]"
    using avail_bounds(2) [of img inode "of_nat offset" "of_nat n"]
    by (simp add: data_read_def read_data_eq [OF assms(1)])
  show "length (data_read img inode offset n) = length (take n (drop offset (file_bytes img inode)))"
    by (simp add: r a)
  fix k assume "k < length (data_read img inode offset n)"
  then have k: "k < ?a" by (simp add: r)
  then have "k < 4294967296" using avail_bounds(2) less_trans by blast
  then show "data_read img inode offset n ! k = take n (drop offset (file_bytes img inode)) ! k"
    using k a nth_file_bytes [of "offset + k" img inode] by (auto simp: r fill_of_nat nth_drop)
qed

section \<open>Reading in pieces\<close>

text \<open>
  The interface that file descriptors, the program loader and the user programs rely on: a source of
  bytes that answers a request for \<open>n\<close> bytes at an offset with what the contents hold there. Reading
  on from where the last request ended loses and repeats nothing, makes progress before the end and
  is empty from the end on.
\<close>

locale byte_source =
  fixes valid :: "'k \<Rightarrow> bool"
    and content :: "'k \<Rightarrow> u8 list"
    and fetch :: "'k \<Rightarrow> nat \<Rightarrow> nat \<Rightarrow> u8 list"
    and bound :: nat
  assumes fetch: "valid k \<Longrightarrow> offset < bound \<Longrightarrow> n < bound \<Longrightarrow> fetch k offset n = take n (drop offset (content k))"
    and small: "valid k \<Longrightarrow> length (content k) < bound"
begin

lemma fetch_end: "valid k \<Longrightarrow> length (content k) \<le> offset \<Longrightarrow> offset < bound \<Longrightarrow> n < bound \<Longrightarrow> fetch k offset n = []"
  by (simp add: fetch)

lemma fetch_progress:
  "valid k \<Longrightarrow> offset < length (content k) \<Longrightarrow> 0 < n \<Longrightarrow> n < bound \<Longrightarrow> fetch k offset n \<noteq> []"
  using small [of k] by (simp add: fetch)

lemma fetch_length:
  "valid k \<Longrightarrow> offset < bound \<Longrightarrow> n < bound \<Longrightarrow> length (fetch k offset n) = min n (length (content k) - offset)"
  by (simp add: fetch)

lemma fetch_append:
  assumes "valid k" "offset \<le> length (content k)" "n < bound" "m < bound"
  shows "take offset (content k) @ fetch k offset n = take (offset + length (fetch k offset n)) (content k)"
proof -
  have "offset < bound" using assms(2) small [OF assms(1)] by simp
  then show ?thesis
    using assms by (auto simp: fetch take_add min_def)
qed

text \<open>Any sequence of requests, each starting where the one before ended, delivers a prefix.\<close>

lemma fetch_seq:
  assumes "valid k" "\<And>n. n \<in> set ns \<Longrightarrow> n < bound" "offset \<le> length (content k)"
  shows "foldl (\<lambda>acc n. acc @ fetch k (length acc) n) (take offset (content k)) ns =
    take (offset + sum_list ns) (content k)"
  using assms(2,3)
proof (induction ns arbitrary: offset)
  case Nil
  then show ?case by simp
next
  case (Cons n ns)
  have len: "length (take offset (content k)) = offset" using Cons.prems(2) by simp
  have b: "offset < bound" "n < bound" using Cons.prems small [OF assms(1)] by auto
  define o' where "o' = offset + length (fetch k offset n)"
  have o': "o' = min (offset + n) (length (content k))"
    using Cons.prems(2) b assms(1) by (simp add: o'_def fetch_length)
  have "take offset (content k) @ fetch k offset n = take o' (content k)"
    unfolding o'_def by (rule fetch_append [OF assms(1) Cons.prems(2) b(2) b(2)])
  then have "foldl (\<lambda>acc n. acc @ fetch k (length acc) n) (take offset (content k)) (n # ns) =
    foldl (\<lambda>acc n. acc @ fetch k (length acc) n) (take o' (content k)) ns"
    by (simp only: foldl.simps len)
  also have "\<dots> = take (o' + sum_list ns) (content k)"
    using Cons.prems o' by (intro Cons.IH) auto
  also have "\<dots> = take (offset + sum_list (n # ns)) (content k)"
    by (simp add: o' min_def add.assoc)
  finally show ?case .
qed

end

interpretation fs: byte_source "\<lambda>inode. inode \<le> num_inodes img" "file_bytes img" "data_read img" 4294967296 for img
  by unfold_locales (auto simp: data_read_eq unat_lt32)

section \<open>Directory lookup\<close>

text \<open>Every name in the directory is followed by a NUL somewhere, so that \<open>strlen\<close> returns.\<close>

definition names_end :: "str \<Rightarrow> bool" where
  "names_end img \<longleftrightarrow> (\<forall>i < unat (num_dir img). \<exists>ds. cstr (directory_name img (of_nat i)) ds)"

lemma name_compare:
  assumes "cstr f cs" "length cs \<le> 32" "cstr (directory_name img (of_nat i)) ds"
    "L = min 32 (max (of_nat (length ds)) (of_nat (length cs)))"
  shows "strncmp f (directory_name img (of_nat i)) L = 0 \<longleftrightarrow> dir_name img i = cs"
proof -
  have len: "length ds < 4294967296" using assms(3) by (simp add: cstr_def)
  have L: "unat L = min 32 (max (length ds) (length cs))"
    using assms(2,4) len by (auto simp: min_def max_def word_le_nat_alt split: if_splits)
  have "chars f 0 (unat L) = cs"
    using assms(1,2) L by (intro chars_cstr) auto
  moreover have "chars (directory_name img (of_nat i)) 0 (unat L) = dir_name img i"
  proof (cases "length ds \<le> 32")
    case True
    then have "chars (directory_name img (of_nat i)) 0 (unat L) = ds"
      using assms(3) L by (intro chars_cstr) auto
    moreover have "dir_name img i = ds"
      unfolding dir_name_def using assms(3) True by (intro chars_cstr) auto
    ultimately show ?thesis by simp
  next
    case False
    then show ?thesis using L by (simp add: dir_name_def)
  qed
  ultimately show ?thesis by (auto simp: strncmp_0_iff)
qed

lemma search_dentry_eq:
  assumes "cstr f cs" "length cs \<le> 32" "names_end img"
  shows "search_dentry img f (of_nat (length cs)) d i =
    Some (case find (\<lambda>j. dir_name img j = cs) [i..<unat (num_dir img)] of
            None \<Rightarrow> (-1, d) | Some j \<Rightarrow> read_dentry_by_index img (of_nat j) d)"
proof (induction "unat (num_dir img) - i" arbitrary: i)
  case 0
  then show ?case by (subst search_dentry.simps) simp
next
  case (Suc n)
  then have i: "i < unat (num_dir img)" by simp
  then obtain ds where ds: "cstr (directory_name img (of_nat i)) ds"
    using assms(3) by (auto simp: names_end_def)
  define L :: u32 where "L = min 32 (max (of_nat (length ds)) (of_nat (length cs)))"
  have L: "(if (if of_nat (length cs) > (of_nat (length ds) :: u32) then of_nat (length cs) else of_nat (length ds)) > FILE_NAME_SIZE
      then FILE_NAME_SIZE
      else if of_nat (length cs) > (of_nat (length ds) :: u32) then of_nat (length cs) else of_nat (length ds)) = L"
    by (auto simp: L_def min_def max_def FILE_NAME_SIZE_def)
  have "search_dentry img f (of_nat (length cs)) d i =
    (if strncmp f (directory_name img (of_nat i)) L = 0 then Some (read_dentry_by_index img (of_nat i) d)
     else search_dentry img f (of_nat (length cs)) d (Suc i))"
    using i by (subst search_dentry.simps) (simp only: strlen_cstr [OF ds] Option.bind.simps Let_def L if_True)
  also have "\<dots> = (if dir_name img i = cs then Some (read_dentry_by_index img (of_nat i) d)
     else search_dentry img f (of_nat (length cs)) d (Suc i))"
    by (simp only: name_compare [OF assms(1,2) ds L_def])
  also have "search_dentry img f (of_nat (length cs)) d (Suc i) =
    Some (case find (\<lambda>j. dir_name img j = cs) [Suc i..<unat (num_dir img)] of
            None \<Rightarrow> (-1, d) | Some j \<Rightarrow> read_dentry_by_index img (of_nat j) d)"
    using Suc by (intro Suc.hyps) simp
  finally show ?case using i by (simp add: upt_conv_Cons)
qed

lemma read_dentry_by_name_eq:
  assumes "cstr f cs" "names_end img"
  shows "read_dentry_by_name img (Some f) (Some d) =
    Some (if length cs \<le> 32
          then case find (\<lambda>j. dir_name img j = cs) [0..<unat (num_dir img)] of
                 None \<Rightarrow> (-1, Some d) | Some j \<Rightarrow> read_dentry_by_index img (of_nat j) (Some d)
          else (-1, Some d))"
proof -
  have "(of_nat (length cs) :: u32) > FILE_NAME_SIZE \<longleftrightarrow> \<not> length cs \<le> 32"
    using assms(1) by (simp add: word_less_nat_alt FILE_NAME_SIZE_def cstr_def not_le)
  then show ?thesis
    using assms by (simp add: read_dentry_by_name_def strlen_cstr search_dentry_eq)
qed

section \<open>Properties\<close>

text \<open>
  C12: \<open>read_data\<close> refuses an inode number above the number of inodes with -1 and leaves the buffer alone. For any other
  inode it returns the number of bytes between the offset and the end of the file, at most the number asked for, puts exactly those
  bytes of the file in the buffer and leaves the rest of the buffer alone. What the file holds is defined
  from the format of the image, by its blocks.
\<close>

theorem read_data_correct:
  "let (r, buf') = read_data img inode offset buf nbytes in
   if inode > num_inodes img then r = -1 \<and> buf' = buf
   else let n = min (unat nbytes) (length (file_bytes img inode) - unat offset) in
     r = of_nat n \<and> (\<forall>k < n. buf' (of_nat k) = file_bytes img inode ! (unat offset + k))
     \<and> (\<forall>x. n \<le> unat x \<longrightarrow> buf' x = buf x)"
proof (cases "inode > num_inodes img")
  case True
  then show ?thesis by (simp add: read_data_invalid)
next
  case False
  have "file_bytes img inode ! (unat offset + k) = data_byte img inode (offset + of_nat k)"
    if "k < unat (inode_length img inode) - unat offset" for k
    using that nth_file_bytes [of "unat offset + k" img inode] by simp
  then show ?thesis
    using False avail_bounds(1,2) [of img inode offset nbytes]
    by (auto simp: read_data_eq avail_def fill_apply Let_def not_less)
qed

text \<open>
  A file read in pieces, each \<open>read_data\<close> starting where the one before ended, gives the file's bytes
  in order without loss or repetition, whatever the sizes of the pieces.
\<close>

theorem read_data_sequential:
  assumes "inode \<le> num_inodes img" "\<And>n. n \<in> set ns \<Longrightarrow> n < 2 ^ 32"
  shows "foldl (\<lambda>acc n. acc @ data_read img inode (length acc) n) [] ns = take (sum_list ns) (file_bytes img inode)"
  using fs.fetch_seq [of inode img ns 0] assms by simp

text \<open>
  C22: \<open>read_dentry_by_name\<close> finds the first directory entry whose name, up to 32 characters, is exactly
  the name asked for; it fails on a name of more than 32 characters and on one that is not there.
\<close>

theorem read_dentry_by_name_correct:
  assumes "cstr f cs" "names_end img" "num_dir img \<le> NUM_DIR"
  shows "(\<exists>d'. read_dentry_by_name img (Some f) (Some d) = Some (0, Some d')
      \<and> (\<exists>i < unat (num_dir img). dir_name img i = cs \<and> (\<forall>j < i. dir_name img j \<noteq> cs)
           \<and> chars (file_name d') 0 32 = cs
           \<and> file_type d' = load32 img (directory_offset (of_nat i) + 32)
           \<and> inode_num d' = load32 img (directory_offset (of_nat i) + 36)))
    \<or> read_dentry_by_name img (Some f) (Some d) = Some (-1, Some d)
      \<and> (length cs > 32 \<or> (\<forall>i < unat (num_dir img). dir_name img i \<noteq> cs))"
proof (cases "length cs \<le> 32")
  case False
  then show ?thesis by (simp add: read_dentry_by_name_eq [OF assms(1,2)])
next
  case True
  show ?thesis
  proof (cases "find (\<lambda>j. dir_name img j = cs) [0..<unat (num_dir img)]")
    case None
    then have "\<forall>i < unat (num_dir img). dir_name img i \<noteq> cs" by (auto simp: find_None_iff)
    with None True show ?thesis by (simp add: read_dentry_by_name_eq [OF assms(1,2)])
  next
    case (Some i)
    then have i: "i < unat (num_dir img)" "dir_name img i = cs" "\<forall>j < i. dir_name img j \<noteq> cs"
      by (auto simp: find_Some_iff)
    have "\<not> NUM_DIR < (of_nat i :: u32)"
      using i(1) assms(3) by (simp add: word_less_nat_alt word_le_nat_alt NUM_DIR_def)
    moreover have "chars (strncpy (file_name d) (directory_name img (of_nat i)) FILE_NAME_SIZE) 0 32 = cs"
      using chars_strncpy [of "file_name d" "directory_name img (of_nat i)" FILE_NAME_SIZE] i(2)
      by (simp add: FILE_NAME_SIZE_def dir_name_def)
    ultimately show ?thesis
      using True Some i by (auto simp: read_dentry_by_name_eq [OF assms(1,2)] read_dentry_by_index_def)
  qed
qed

text \<open>
  A small image for the witnesses: one entry \<^verbatim>\<open>"a"\<close> of type 2 with inode 0, one inode with a file of three
  bytes, one data block.
\<close>

definition tiny_image :: str where
  "tiny_image = (\<lambda>_. 0)(0 := 1, 4 := 1, 8 := 1, 64 := 97, 96 := 2,
     4096 := 3, 8192 := 120, 8193 := 121, 8194 := 122)"

lemma tiny_image_fields:
  "num_dir tiny_image = 1" "num_inodes tiny_image = 1" "inode_length tiny_image 0 = 3"
  by (simp_all add: num_dir_def num_inodes_def inode_length_def inode_offset_def load32_def
      tiny_image_def DATA_BLOCK_SIZE_def)

lemma tiny_image_name: "cstr (directory_name tiny_image 0) [97]"
  by (simp add: cstr_def directory_name_def directory_offset_def view_def tiny_image_def)

lemma tiny_image_names_end: "names_end tiny_image"
  using tiny_image_name by (auto simp: names_end_def tiny_image_fields)

lemma tiny_image_bytes: "file_bytes tiny_image 0 = [120, 121, 122]"
  by (simp add: file_bytes_eq tiny_image_fields upt_rec data_byte_def data_block_num_def inode_offset_def
      load32_def DATA_BLOCK_SIZE_def Let_def) (simp add: tiny_image_def num_inodes_def load32_def)

theorem read_data_correct_witness:
  "case read_data tiny_image 0 1 (\<lambda>_. 0) 9 of (r, b) \<Rightarrow> r = 2 \<and> b 0 = 121 \<and> b 1 = 122 \<and> b 2 = 0"
  using read_data_correct [of tiny_image 0 1 "\<lambda>_. 0" 9]
  by (auto simp: tiny_image_fields tiny_image_bytes Let_def split: prod.splits dest: spec [of _ 0] spec [of _ 1])

theorem read_data_sequential_witness:
  "foldl (\<lambda>acc n. acc @ data_read tiny_image 0 (length acc) n) [] [2, 5] = [120, 121, 122]"
proof -
  have "n < 2 ^ 32" if "n \<in> set [2, 5]" for n :: nat using that by auto
  from read_data_sequential [of 0 tiny_image "[2, 5]", OF _ this] show ?thesis
    by (simp add: tiny_image_fields tiny_image_bytes)
qed

theorem read_dentry_by_name_correct_witness:
  "\<exists>d'. read_dentry_by_name tiny_image (Some ((\<lambda>_. 0)(0 := 97)))
        (Some \<lparr>file_name = (\<lambda>_. 0), file_type = 0, inode_num = 0, reserved = (\<lambda>_. 0)\<rparr>) = Some (0, Some d')
     \<and> chars (file_name d') 0 32 = [97]"
proof -
  have "cstr ((\<lambda>_. 0)(0 := 97)) [97]" by (simp add: cstr_def)
  moreover have "num_dir tiny_image \<le> NUM_DIR" by (simp add: tiny_image_fields NUM_DIR_def)
  moreover have "dir_name tiny_image 0 = [97]"
    unfolding dir_name_def using tiny_image_name by (simp add: chars_cstr)
  ultimately show ?thesis
    using read_dentry_by_name_correct [of "(\<lambda>_. 0)(0 := 97)" "[97]" tiny_image
        "\<lparr>file_name = (\<lambda>_. 0), file_type = 0, inode_num = 0, reserved = (\<lambda>_. 0)\<rparr>"] tiny_image_names_end
    by (auto simp: tiny_image_fields)
qed

text \<open>
  C39: the bounds tests of \<open>read_dentry_by_index\<close> and \<open>read_data\<close> let one index too many through. Entry 63 of the directory, which
  has 63, is delivered from the block of inode 0: its name is the 32 bytes there, its type and inode number two of the numbers of data blocks. Inode
  number \<open>num_inodes\<close>, one more than the last, is read too, for any offset and size: the first word of the first data block counts as
  its length, the words behind it as its blocks. The next index is refused, for any offset and size.
\<close>

theorem index_bounds_off_by_one:
  "(\<exists>d'. read_dentry_by_index img 63 (Some d) = (0, Some d')
      \<and> chars (file_name d') 0 32 = chars (view img 4096) 0 32
      \<and> file_type d' = load32 img (4096 + 32) \<and> inode_num d' = load32 img (4096 + 36))
   \<and> (\<forall>i > 63. read_dentry_by_index img i (Some d) = (-1, Some d))
   \<and> fst (read_data img (num_inodes img) offset buf nbytes)
       = of_nat (min (unat nbytes) (unat (load32 img (4096 * (1 + num_inodes img))) - unat offset))
   \<and> (\<forall>k < min (unat nbytes) (unat (load32 img (4096 * (1 + num_inodes img))) - unat offset).
        snd (read_data img (num_inodes img) offset buf nbytes) (of_nat k) =
          img (4096 * (1 + num_inodes img + load32 img (4096 * (1 + num_inodes img) + 4 + 4 * ((offset + of_nat k) div 4096))) + (offset + of_nat k) mod 4096))
   \<and> (\<forall>i > num_inodes img. read_data img i offset buf nbytes = (-1, buf))"
proof (intro conjI allI impI)
  have "chars (strncpy (file_name d) (view img 4096) FILE_NAME_SIZE) 0 32 = chars (view img 4096) 0 32"
    using chars_strncpy [of "file_name d" "view img 4096" FILE_NAME_SIZE] by (simp add: FILE_NAME_SIZE_def)
  then show "\<exists>d'. read_dentry_by_index img 63 (Some d) = (0, Some d')
      \<and> chars (file_name d') 0 32 = chars (view img 4096) 0 32
      \<and> file_type d' = load32 img (4096 + 32) \<and> inode_num d' = load32 img (4096 + 36)"
    by (simp add: read_dentry_by_index_def directory_name_def directory_offset_def NUM_DIR_def)
  show "read_dentry_by_index img i (Some d) = (-1, Some d)" if "63 < i" for i
    using that by (simp add: read_dentry_by_index_def NUM_DIR_def)
  show "read_data img i offset buf nbytes = (-1, buf)" if "num_inodes img < i" for i
    using that by (rule read_data_invalid)
  have len: "inode_length img (num_inodes img) = load32 img (4096 * (1 + num_inodes img))"
    by (simp add: inode_length_def inode_offset_def DATA_BLOCK_SIZE_def algebra_simps)
  show "fst (read_data img (num_inodes img) offset buf nbytes)
       = of_nat (min (unat nbytes) (unat (load32 img (4096 * (1 + num_inodes img))) - unat offset))"
    by (simp add: read_data_eq avail_def len)
  fix k assume k: "k < min (unat nbytes) (unat (load32 img (4096 * (1 + num_inodes img))) - unat offset)"
  then have "k < 4294967296" using unat_lt32 [of nbytes] by simp
  then show "snd (read_data img (num_inodes img) offset buf nbytes) (of_nat k) =
      img (4096 * (1 + num_inodes img + load32 img (4096 * (1 + num_inodes img) + 4 + 4 * ((offset + of_nat k) div 4096))) + (offset + of_nat k) mod 4096)"
    using k by (simp add: read_data_eq avail_def len fill_of_nat data_byte_def data_block_num_def inode_offset_def DATA_BLOCK_SIZE_def Let_def algebra_simps)
qed

text \<open>In the small image the first data block starts with the word 0x007A7978, so the inode behind the last counts as a file of that length.\<close>

theorem index_bounds_off_by_one_witness:
  "(\<exists>d'. read_dentry_by_index tiny_image 63 (Some \<lparr>file_name = (\<lambda>_. 0), file_type = 0, inode_num = 0, reserved = (\<lambda>_. 0)\<rparr>) = (0, Some d')
      \<and> file_type d' = 0) \<and> fst (read_data tiny_image 1 0 (\<lambda>_. 0) 5) = 5 \<and> fst (read_data tiny_image 2 0 (\<lambda>_. 0) 5) = -1"
proof -
  let ?d = "\<lparr>file_name = (\<lambda>_. 0), file_type = 0, inode_num = 0, reserved = (\<lambda>_. 0)\<rparr> :: dentry"
  have "load32 tiny_image (4096 + 32) = 0" "load32 tiny_image (4096 * (1 + 1)) = 0x007A7978" by (simp_all add: load32_def tiny_image_def)
  then show ?thesis
    using index_bounds_off_by_one [of tiny_image ?d 0 "\<lambda>_. 0" 5] unfolding tiny_image_fields by auto
qed

end
