(* ===== verification/I8259.thy ===== *)
theory I8259
  imports Prelude
begin

text \<open>
  The interrupt controller driver of \<^verbatim>\<open>student-distrib/i8259.c\<close>: \<open>i8259_init\<close>, \<open>enable_irq\<close>,
  \<open>disable_irq\<close> and \<open>send_eoi\<close>. The state is the cached mask and the bytes written to the ports of the
  two controllers. A small model of the controller's mask registers, which load the byte last written
  to their data port once the initialisation words are in, states what the driver achieves.
\<close>

section \<open>Model\<close>

definition MASTER_8259_PORT :: u32 where "MASTER_8259_PORT = 0x20"
definition SLAVE_8259_PORT :: u32 where "SLAVE_8259_PORT = 0xA0"
definition MASTER_8259_PORT_CONFIG :: u32 where "MASTER_8259_PORT_CONFIG = 0x21"
definition SLAVE_8259_PORT_CONFIG :: u32 where "SLAVE_8259_PORT_CONFIG = 0xA1"

lemmas pic_ports = MASTER_8259_PORT_def SLAVE_8259_PORT_def MASTER_8259_PORT_CONFIG_def SLAVE_8259_PORT_CONFIG_def

record pic =
  master_mask :: u8
  slave_mask :: u8
  cached_irq_mask :: u32
  pic_log :: "port_write list"

definition pic_boot :: pic where
  "pic_boot = \<lparr>master_mask = 0xff, slave_mask = 0xff, cached_irq_mask = 0xffff, pic_log = []\<rparr>"

definition pic_outb :: "u8 \<Rightarrow> u32 \<Rightarrow> pic \<Rightarrow> pic" where
  "pic_outb data port p = p\<lparr>pic_log := pic_log p @ [(port, data)]\<rparr>"

text \<open>The two low bytes of the cached mask.\<close>

definition cached_21 :: "pic \<Rightarrow> u8" where
  "cached_21 p = ucast (cached_irq_mask p)"

definition cached_A1 :: "pic \<Rightarrow> u8" where
  "cached_A1 p = ucast (drop_bit 8 (cached_irq_mask p))"

definition i8259_init :: "pic \<Rightarrow> pic" where
  "i8259_init p =
     (pic_outb 0x01 SLAVE_8259_PORT_CONFIG \<circ> pic_outb 0x02 SLAVE_8259_PORT_CONFIG
      \<circ> pic_outb 0x28 SLAVE_8259_PORT_CONFIG \<circ> pic_outb 0x11 SLAVE_8259_PORT
      \<circ> pic_outb 0x01 MASTER_8259_PORT_CONFIG \<circ> pic_outb 0x04 MASTER_8259_PORT_CONFIG
      \<circ> pic_outb 0x20 MASTER_8259_PORT_CONFIG \<circ> pic_outb 0x11 MASTER_8259_PORT
      \<circ> pic_outb (slave_mask p) SLAVE_8259_PORT_CONFIG \<circ> pic_outb (master_mask p) MASTER_8259_PORT_CONFIG) p"

definition enable_irq :: "u32 \<Rightarrow> pic \<Rightarrow> pic" where
  "enable_irq irq_num p =
     (if irq_num > 15 then p
      else let mask = NOT (push_bit (unat irq_num) 1);
               q = p\<lparr>cached_irq_mask := cached_irq_mask p AND mask\<rparr>
           in if irq_num AND 8 \<noteq> 0 then pic_outb (cached_A1 q) SLAVE_8259_PORT_CONFIG q
              else pic_outb (cached_21 q) MASTER_8259_PORT_CONFIG q)"

definition disable_irq :: "u32 \<Rightarrow> pic \<Rightarrow> pic" where
  "disable_irq irq_num p =
     (if irq_num > 15 then p
      else let mask = push_bit (unat irq_num) 1;
               q = p\<lparr>cached_irq_mask := cached_irq_mask p OR mask\<rparr>
           in if irq_num AND 8 \<noteq> 0 then pic_outb (cached_A1 q) SLAVE_8259_PORT_CONFIG q
              else pic_outb (cached_21 q) MASTER_8259_PORT_CONFIG q)"

definition send_eoi :: "u32 \<Rightarrow> pic \<Rightarrow> pic" where
  "send_eoi irq_num p =
     (if irq_num \<ge> 8
      then pic_outb (ucast (0x60 OR (irq_num - 8) :: u32)) SLAVE_8259_PORT (pic_outb (0x60 + 2) MASTER_8259_PORT p)
      else pic_outb (ucast (0x60 OR irq_num :: u32)) MASTER_8259_PORT p)"

section \<open>The mask registers of the controllers\<close>

text \<open>Whether the cached mask lets an interrupt request through.\<close>

definition irq_enabled :: "pic \<Rightarrow> nat \<Rightarrow> bool" where
  "irq_enabled p irq \<longleftrightarrow> \<not> bit (cached_irq_mask p) irq"

text \<open>
  The mask register of a controller: the byte last written to its data port, \<open>init\<close> when none was.
\<close>

definition mask_register :: "u32 \<Rightarrow> u8 \<Rightarrow> port_write list \<Rightarrow> u8" where
  "mask_register port init log = foldl (\<lambda>r (p, d). if p = port then d else r) init log"

definition hw_enabled :: "u8 \<Rightarrow> u8 \<Rightarrow> port_write list \<Rightarrow> nat \<Rightarrow> bool" where
  "hw_enabled m s log irq \<longleftrightarrow>
     (if irq < 8 then \<not> bit (mask_register MASTER_8259_PORT_CONFIG m log) irq
      else \<not> bit (mask_register SLAVE_8259_PORT_CONFIG s log) (irq - 8))"

lemma mask_register_snoc [simp]:
  "mask_register port i (log @ [(p, d)]) = (if p = port then d else mask_register port i log)"
  by (simp add: mask_register_def)

lemma irq_slave_iff: "irq \<le> 15 \<Longrightarrow> irq AND 8 \<noteq> 0 \<longleftrightarrow> 8 \<le> unat irq" for irq :: u32
proof -
  assume "irq \<le> 15"
  then have "unat irq \<in> set [0..<16]" by (simp add: word_le_nat_alt)
  moreover have "irq = of_nat (unat irq)" by simp
  ultimately have "irq \<in> of_nat ` set [0..<16]" by blast
  then show ?thesis by (auto simp: upt_rec)
qed

lemma unat_irq_le: "irq \<le> 15 \<Longrightarrow> unat irq \<le> 15" for irq :: u32
  by (simp add: word_le_nat_alt)

lemma irq_enabled_enable:
  "irq \<le> 15 \<Longrightarrow> irq_enabled (enable_irq irq p) k \<longleftrightarrow> k = unat irq \<or> irq_enabled p k"
  by (auto simp: enable_irq_def Let_def irq_enabled_def pic_outb_def bit_simps not_less [symmetric]
      dest: bit_imp_le_length)

lemma irq_enabled_disable:
  "irq \<le> 15 \<Longrightarrow> irq_enabled (disable_irq irq p) k \<longleftrightarrow> k \<noteq> unat irq \<and> irq_enabled p k"
  using unat_irq_le [of irq]
  by (auto simp: disable_irq_def Let_def irq_enabled_def pic_outb_def bit_simps not_less [symmetric]
      dest: bit_imp_le_length)

text \<open>After a write to a controller's data port its mask register agrees with the cached mask.\<close>

lemma hw_enabled_outb:
  assumes "irq < 8 \<Longrightarrow> port = MASTER_8259_PORT_CONFIG \<and> d = cached_21 q"
    "8 \<le> irq \<Longrightarrow> port = SLAVE_8259_PORT_CONFIG \<and> d = cached_A1 q" "irq < 16"
  shows "hw_enabled m s (pic_log (pic_outb d port q)) irq \<longleftrightarrow> irq_enabled q irq"
  using assms
  by (cases "irq < 8")
    (auto simp: hw_enabled_def pic_outb_def irq_enabled_def cached_21_def cached_A1_def bit_simps)

lemma irq_enabled_outb [simp]: "irq_enabled (pic_outb d port q) k = irq_enabled q k"
  by (simp add: irq_enabled_def pic_outb_def)

lemma enable_irq_hw:
  "irq \<le> 15 \<Longrightarrow> k < 16 \<Longrightarrow> (k < 8 \<longleftrightarrow> unat irq < 8) \<Longrightarrow>
    hw_enabled m s (pic_log (enable_irq irq p)) k = irq_enabled (enable_irq irq p) k"
  using irq_slave_iff [of irq]
  by (auto simp: enable_irq_def Let_def hw_enabled_outb word_less_nat_alt word_le_nat_alt)

lemma disable_irq_hw:
  "irq \<le> 15 \<Longrightarrow> k < 16 \<Longrightarrow> (k < 8 \<longleftrightarrow> unat irq < 8) \<Longrightarrow>
    hw_enabled m s (pic_log (disable_irq irq p)) k = irq_enabled (disable_irq irq p) k"
  using irq_slave_iff [of irq]
  by (auto simp: disable_irq_def Let_def hw_enabled_outb word_less_nat_alt word_le_nat_alt)

section \<open>The interface to the interrupt controller\<close>

locale irq_controller =
  fixes enabled :: "'p \<Rightarrow> nat \<Rightarrow> bool"
    and enable :: "u32 \<Rightarrow> 'p \<Rightarrow> 'p"
    and disable :: "u32 \<Rightarrow> 'p \<Rightarrow> 'p"
  assumes enable: "i \<le> 15 \<Longrightarrow> enabled (enable i p) k \<longleftrightarrow> k = unat i \<or> enabled p k"
    and disable: "i \<le> 15 \<Longrightarrow> enabled (disable i p) k \<longleftrightarrow> k \<noteq> unat i \<and> enabled p k"
begin

text \<open>A line that was masked for a critical section and unmasked after it.\<close>

lemma critical_section:
  assumes "i \<le> 15" "enabled p (unat i)"
  shows "\<not> enabled (disable i p) (unat i)" "enabled (enable i (disable i p)) k = enabled p k"
  using assms by (auto simp: enable disable)

lemma enable_all: "\<forall>i \<in> set is. i \<le> 15 \<Longrightarrow> enabled (fold enable is p) k \<longleftrightarrow> k \<in> unat ` set is \<or> enabled p k"
  by (induction "is" arbitrary: p) (auto simp: enable)

end

interpretation irq: irq_controller irq_enabled enable_irq disable_irq
  by unfold_locales (simp_all add: irq_enabled_enable irq_enabled_disable)

section \<open>Properties\<close>

text \<open>
  Enabling or disabling an interrupt request line 0 to 15 changes that line in the cached mask and
  no other, and leaves the mask register of the controller that serves it equal to the cached mask;
  a line number above 15 does nothing.
\<close>

theorem irq_mask_correct:
  "(irq \<le> 15 \<longrightarrow>
      (\<forall>k. irq_enabled (enable_irq irq p) k \<longleftrightarrow> k = unat irq \<or> irq_enabled p k)
      \<and> (\<forall>k. irq_enabled (disable_irq irq p) k \<longleftrightarrow> k \<noteq> unat irq \<and> irq_enabled p k)
      \<and> (\<forall>k < 16. (k < 8 \<longleftrightarrow> unat irq < 8) \<longrightarrow>
           hw_enabled m s (pic_log (enable_irq irq p)) k = irq_enabled (enable_irq irq p) k
           \<and> hw_enabled m s (pic_log (disable_irq irq p)) k = irq_enabled (disable_irq irq p) k))
   \<and> (irq > 15 \<longrightarrow> enable_irq irq p = p \<and> disable_irq irq p = p)"
proof (cases "irq \<le> 15")
  case True
  then show ?thesis
    using irq.enable [OF True] irq.disable [OF True] enable_irq_hw [OF True] disable_irq_hw [OF True] by auto
next
  case False
  then show ?thesis by (simp add: enable_irq_def disable_irq_def)
qed

theorem irq_mask_correct_witness:
  "irq_enabled (enable_irq 8 pic_boot) 8 \<and> \<not> irq_enabled (enable_irq 8 pic_boot) 1
   \<and> hw_enabled 0 0 (pic_log (enable_irq 8 pic_boot)) 8 \<and> \<not> hw_enabled 0 0 (pic_log (enable_irq 8 pic_boot)) 9"
proof -
  have "\<not> irq_enabled pic_boot 1" "\<not> irq_enabled pic_boot 9"
    by (simp_all add: irq_enabled_def pic_boot_def)
  then show ?thesis using irq_mask_correct [of 8 pic_boot 0 0] by auto
qed

text \<open>
  \<open>send_eoi\<close> acknowledges a line of the first controller there with the specific end of interrupt for
  it, and a line of the second controller on both, the first one for its cascade line 2; the masks do
  not change.
\<close>

theorem send_eoi_correct:
  assumes "irq \<le> 15"
  shows "pic_log (send_eoi irq p) = pic_log p @
     (if irq < 8 then [(MASTER_8259_PORT, 0x60 + ucast irq)]
      else [(MASTER_8259_PORT, 0x62), (SLAVE_8259_PORT, 0x60 + ucast (irq - 8))])
   \<and> cached_irq_mask (send_eoi irq p) = cached_irq_mask p"
proof -
  have irq: "irq = of_nat (unat irq)" "unat irq \<in> set [0..<16]" using assms by (simp_all add: word_le_nat_alt)
  then have "irq \<in> of_nat ` set [0..<16]" by blast
  then show ?thesis by (auto simp: upt_rec send_eoi_def pic_outb_def word_le_nat_alt word_less_nat_alt)
qed

theorem send_eoi_correct_witness:
  "pic_log (send_eoi 8 pic_boot) = [(MASTER_8259_PORT, 0x62), (SLAVE_8259_PORT, 0x60)]"
  using send_eoi_correct [of 8 pic_boot] by (simp add: pic_boot_def)

end
