(* ===== verification/Rtc.thy ===== *)
theory Rtc
  imports I8259 LibMem "HOL-Library.Signed_Division"
begin

text \<open>
  The real-time clock driver of \<^verbatim>\<open>student-distrib/rtc.c\<close> and the timer set-up of \<^verbatim>\<open>student-distrib/pit.c\<close>. The
  state they touch is the interrupt flag, the interrupt controller, the \<open>flag\<close> the clock handler raises
  and the bytes written to the clock's and the timer's ports. What an \<open>inb\<close> returns is an argument, as is
  the content of an uninitialised local. The clock's index and data registers turn the port writes into
  register contents, so that the theorems speak of the frequency the clock is set to.
\<close>

section \<open>Model\<close>

definition cmosport1 :: u32 where "cmosport1 = 0x70"
definition cmosport2 :: u32 where "cmosport2 = 0x71"

record hw =
  if_flag :: bool
  hw_pic :: pic
  flag :: i32
  dev_log :: "port_write list"

definition cli :: "'a hw_scheme \<Rightarrow> 'a hw_scheme" where "cli h = h\<lparr>if_flag := False\<rparr>"
definition sti :: "'a hw_scheme \<Rightarrow> 'a hw_scheme" where "sti h = h\<lparr>if_flag := True\<rparr>"

definition outb :: "u8 \<Rightarrow> u32 \<Rightarrow> 'a hw_scheme \<Rightarrow> 'a hw_scheme" where
  "outb data port h = h\<lparr>dev_log := dev_log h @ [(port, data)]\<rparr>"

definition on_pic :: "(pic \<Rightarrow> pic) \<Rightarrow> 'a hw_scheme \<Rightarrow> 'a hw_scheme" where
  "on_pic f h = h\<lparr>hw_pic := f (hw_pic h)\<rparr>"

text \<open>The argument \<open>prev\<close> is the byte that \<open>inb(cmosport2)\<close> returns.\<close>

definition init_rtc :: "u8 \<Rightarrow> 'a hw_scheme \<Rightarrow> 'a hw_scheme" where
  "init_rtc prev h =
     (sti \<circ> outb (prev OR 0x40) cmosport2 \<circ> outb 0x8B cmosport1 \<circ> outb 0x8B cmosport1
      \<circ> outb 0x2F cmosport2 \<circ> outb 0x8A cmosport1 \<circ> cli) h"

definition rtc_interrupt_handler :: "'a hw_scheme \<Rightarrow> 'a hw_scheme" where
  "rtc_interrupt_handler h = (outb 0x0C cmosport1 (on_pic (send_eoi 8) h))\<lparr>flag := 1\<rparr>"

definition rtc_close :: "i32 \<Rightarrow> 'a hw_scheme \<Rightarrow> 'a hw_scheme \<times> i32" where
  "rtc_close fd h = (h, 0)"

text \<open>The register write that \<open>rtc_open\<close> and \<open>rtc_write\<close> share.\<close>

definition set_rate :: "u8 \<Rightarrow> u8 \<Rightarrow> 'a hw_scheme \<Rightarrow> 'a hw_scheme" where
  "set_rate prev rate h =
     (sti \<circ> outb ((prev AND 0xF0) OR rate) cmosport2 \<circ> outb 0x8A cmosport1 \<circ> outb 0x8A cmosport1 \<circ> cli) h"

definition rtc_open :: "u8 \<Rightarrow> 'a hw_scheme \<Rightarrow> 'a hw_scheme \<times> i32" where
  "rtc_open prev h = (set_rate prev 0x0F h, 0)"

partial_function (option) halvings :: "int \<Rightarrow> int \<Rightarrow> int option" where
  [code]: "halvings freq counter = (if freq = 1 then Some counter else halvings (freq sdiv 2) (counter + 1))"

text \<open>
  \<open>junk\<close> is the content of the uninitialised \<open>rate\<close>, used when the frequency is not accepted. The
  result is \<open>None\<close> when the halving loop does not end.
\<close>

definition rtc_write :: "u8 \<Rightarrow> i32 \<Rightarrow> i32 \<Rightarrow> mem \<Rightarrow> addr \<Rightarrow> i32 \<Rightarrow> 'a hw_scheme \<Rightarrow> ('a hw_scheme \<times> i32) option" where
  "rtc_write prev junk fd m buf nbytes h =
     (if nbytes \<noteq> 4 then Some (h, -1)
      else let freq = load32 m buf in
        do {
          rate \<leftarrow> (if freq AND (freq - 1) = 0 \<and> sint freq < 1025 \<and> sint freq > 0
                  then do { counter \<leftarrow> halvings (sint freq) 0; Some (word_of_int (16 - counter)) }
                  else Some junk);
          Some (set_rate prev (ucast rate) h, nbytes)
        })"

text \<open>
  \<open>rtc_read\<close> spins until an interrupt handler has raised \<open>flag\<close>. The list holds the handlers that run
  while it waits, in order; \<open>None\<close> means that it still waits after the last one.
\<close>

definition rtc_read :: "('a hw_scheme \<Rightarrow> 'a hw_scheme) list \<Rightarrow> i32 \<Rightarrow> 'a hw_scheme \<Rightarrow> ('a hw_scheme \<times> i32) option" where
  "rtc_read hs fd h =
     do {
       h' \<leftarrow> spin (\<lambda>h. flag h \<noteq> 0) hs ((on_pic (disable_irq 1) h)\<lparr>flag := 0\<rparr>);
       Some (on_pic (enable_irq 1) h', 0)
     }"

text \<open>The timer: \<open>PIT_FREQ / PIT_COUNT\<close> is written to channel 0, low byte first.\<close>

definition PIT_CH0 :: u32 where "PIT_CH0 = 0x40"
definition PIT_CMD :: u32 where "PIT_CMD = 0x43"
definition PIT_FREQ :: u32 where "PIT_FREQ = 1193182"
definition PIT_COUNT :: u32 where "PIT_COUNT = 100"

definition pit_init :: "'a hw_scheme \<Rightarrow> 'a hw_scheme" where
  "pit_init h =
     (outb (ucast (drop_bit 8 (PIT_FREQ div PIT_COUNT))) PIT_CH0
      \<circ> outb (ucast ((PIT_FREQ div PIT_COUNT) AND 0xFF)) PIT_CH0 \<circ> outb 0x36 PIT_CMD) h"

lemmas hw_defs = cli_def sti_def outb_def on_pic_def

section \<open>The clock's registers\<close>

text \<open>
  The clock keeps an index register, whose top bit is the mask of the non-maskable interrupt, and
  loads a byte written to the data port into the register selected by the index.
\<close>

fun cmos_write :: "u8 \<times> (u8 \<Rightarrow> u8) \<Rightarrow> port_write \<Rightarrow> u8 \<times> (u8 \<Rightarrow> u8)" where
  "cmos_write (idx, r) (port, d) =
     (if port = cmosport1 then (d AND 0x7F, r)
      else if port = cmosport2 then (idx, r(idx := d)) else (idx, r))"

definition cmos_regs :: "(u8 \<Rightarrow> u8) \<Rightarrow> port_write list \<Rightarrow> u8 \<Rightarrow> u8" where
  "cmos_regs r log = snd (foldl cmos_write (0, r) log)"

text \<open>The frequency of the periodic interrupt for a value of register A.\<close>

definition rtc_frequency :: "u8 \<Rightarrow> nat" where
  "rtc_frequency a = 32768 div 2 ^ (unat (a AND 0x0F) - 1)"

lemma foldl_cmos_snoc:
  "foldl cmos_write s (log @ ws) = foldl cmos_write (foldl cmos_write s log) ws"
  by simp

lemma set_rate_log:
  "dev_log (set_rate prev rate h) =
     dev_log h @ [(cmosport1, 0x8A), (cmosport1, 0x8A), (cmosport2, (prev AND 0xF0) OR rate)]"
  by (simp add: set_rate_def hw_defs)

lemma set_rate_frame [simp]:
  "hw_pic (set_rate prev rate h) = hw_pic h" "flag (set_rate prev rate h) = flag h"
  "if_flag (set_rate prev rate h)"
  by (simp_all add: set_rate_def hw_defs)

lemma set_rate_regs:
  "cmos_regs r (dev_log (set_rate prev rate h)) = (cmos_regs r (dev_log h))(0x0A := (prev AND 0xF0) OR rate)"
proof (cases "foldl cmos_write (0, r) (dev_log h)")
  case (Pair idx q)
  then show ?thesis
    by (simp add: set_rate_log cmos_regs_def cmosport1_def cmosport2_def)
qed

lemma halvings_pow: "halvings (2 ^ k) c = Some (c + int k)"
proof (induction k arbitrary: c)
  case 0
  then show ?case by (subst halvings.simps) simp
next
  case (Suc k)
  have "(2 * 2 ^ k :: int) \<noteq> 1" by presburger
  moreover have "(2 * 2 ^ k :: int) sdiv 2 = 2 ^ k" by (simp add: signed_divide_int_def)
  ultimately show ?case using Suc [of "c + 1"] by (subst halvings.simps) simp
qed

text \<open>The exponents of the accepted frequencies.\<close>

lemma accepted_pow:
  assumes "k \<le> 10"
  shows "(2 ^ k :: u32) AND (2 ^ k - 1) = 0" "sint (2 ^ k :: u32) = 2 ^ k"
    "(2 :: int) ^ k < 1025"
proof -
  have "k \<in> set [0..<11]" using assms by simp
  then show "(2 ^ k :: u32) AND (2 ^ k - 1) = 0" by (auto simp: upt_rec)
  have "(2 :: int) ^ k \<le> 2 ^ 10" using assms by (intro power_increasing) auto
  then show "(2 :: int) ^ k < 1025" by simp
  have "sint (of_nat (2 ^ k) :: u32) = int (2 ^ k)" 
    by (rule sint_of_nat32, rule le_less_trans [OF power_increasing [OF assms]]) simp_all
  then show "sint (2 ^ k :: u32) = 2 ^ k" by simp
qed

lemma rate_frequency:
  assumes "1 \<le> k" "k \<le> 10"
  shows "rtc_frequency ((prev AND 0xF0) OR ucast (word_of_int (16 - int k) :: u32)) = 2 ^ k"
proof -
  have "((prev AND 0xF0) OR ucast (word_of_int (16 - int k) :: u32)) AND 0x0F = (word_of_int (16 - int k) :: u8)"
    if "k \<in> set [1..<11]" for k
  proof -
    have "(prev AND 0xF0) AND 0x0F = 0" by (simp add: and.assoc)
    moreover have "(ucast (word_of_int (16 - int k) :: u32) :: u8) AND 0x0F = word_of_int (16 - int k)"
      using that by (auto simp: upt_rec)
    ultimately show ?thesis by (simp add: bit.conj_disj_distrib2)
  qed
  moreover have "32768 div 2 ^ (unat (word_of_int (16 - int k) :: u8) - 1) = (2 ^ k :: nat)"
    if "k \<in> set [1..<11]" for k
    using that by (auto simp: upt_rec)
  ultimately show ?thesis using assms by (simp add: rtc_frequency_def)
qed

lemma rtc_write_pow:
  assumes "k \<le> 10" "load32 m buf = 2 ^ k"
  shows "rtc_write prev junk fd m buf 4 h = Some (set_rate prev (ucast (word_of_int (16 - int k) :: u32)) h, 4)"
  using assms accepted_pow [OF assms(1)] halvings_pow [of k 0]
  by (simp add: rtc_write_def Let_def)

lemma rtc_write_rejected:
  assumes "\<not> (load32 m buf AND (load32 m buf - 1) = 0 \<and> sint (load32 m buf) < 1025 \<and> sint (load32 m buf) > 0)"
  shows "rtc_write prev junk fd m buf 4 h = Some (set_rate prev (ucast junk) h, 4)"
  using assms by (auto simp: rtc_write_def Let_def)

section \<open>Properties\<close>

text \<open>
  C35: writing a power of two from 2 to 1024 to the clock succeeds, leaves register A with the upper bits
  it was read with and a rate whose periodic interrupt has exactly the frequency written, touches no
  other register, and leaves interrupts on; any other size than four bytes fails and changes nothing.
\<close>

theorem rtc_write_correct:
  assumes "1 \<le> k" "k \<le> 10" "load32 m buf = 2 ^ k"
  shows "(\<exists>h'. rtc_write prev junk fd m buf 4 h = Some (h', 4)
     \<and> rtc_frequency (cmos_regs r (dev_log h') 0x0A) = 2 ^ k
     \<and> (\<forall>i. i \<noteq> 0x0A \<longrightarrow> cmos_regs r (dev_log h') i = cmos_regs r (dev_log h) i)
     \<and> if_flag h' \<and> hw_pic h' = hw_pic h \<and> flag h' = flag h)
   \<and> (\<forall>nbytes. nbytes \<noteq> 4 \<longrightarrow> rtc_write prev junk fd m buf nbytes h = Some (h, -1))"
proof
  show "\<forall>nbytes. nbytes \<noteq> 4 \<longrightarrow> rtc_write prev junk fd m buf nbytes h = Some (h, -1)"
    by (simp add: rtc_write_def)
qed (use rtc_write_pow [OF assms(2,3), of prev junk fd h] rate_frequency [OF assms(1,2)] in \<open>simp add: set_rate_regs\<close>)

theorem rtc_write_correct_witness:
  "let m = store32 (\<lambda>_. 0) 0 1024; h = \<lparr>if_flag = True, hw_pic = pic_boot, flag = 0, dev_log = []\<rparr> in
   \<exists>h'. rtc_write 0x2F 7 0 m 0 4 h = Some (h', 4) \<and> rtc_frequency (cmos_regs (\<lambda>_. 0) (dev_log h') 0x0A) = 1024"
proof -
  have "load32 (store32 (\<lambda>_. 0) 0 1024) 0 = 2 ^ 10" by (simp add: load32_def store32_def)
  from rtc_write_correct [OF _ _ this, where prev = "0x2F" and junk = 7 and fd = 0 and r = "\<lambda>_. 0"
      and h = "\<lparr>if_flag = True, hw_pic = pic_boot, flag = 0, dev_log = []\<rparr>"]
  show ?thesis by (auto simp: Let_def)
qed

text \<open>
  A frequency the driver does not accept is not refused: the call returns success and programs the
  clock with the uninitialised local, so the register content depends on what the stack held.
\<close>

theorem rtc_write_unaccepted:
  assumes "load32 m buf = 1000 \<or> load32 m buf = 2048 \<or> load32 m buf = -4"
  shows "\<exists>h'. rtc_write prev junk fd m buf 4 h = Some (h', 4)
     \<and> cmos_regs r (dev_log h') 0x0A = (prev AND 0xF0) OR ucast junk"
proof -
  have "rtc_write prev junk fd m buf 4 h = Some (set_rate prev (ucast junk) h, 4)"
    by (rule rtc_write_rejected) (use assms in auto)
  then show ?thesis by (simp add: set_rate_regs)
qed

theorem rtc_write_unaccepted_witness:
  "let m = store32 (\<lambda>_. 0) 0 1000; h = \<lparr>if_flag = True, hw_pic = pic_boot, flag = 0, dev_log = []\<rparr> in
   \<exists>h'. rtc_write 0x2F 7 0 m 0 4 h = Some (h', 4) \<and> cmos_regs (\<lambda>_. 0) (dev_log h') 0x0A = 0x27"
proof -
  have "load32 (store32 (\<lambda>_. 0) 0 1000) 0 = 1000" by (simp add: load32_def store32_def)
  then show ?thesis
    using rtc_write_unaccepted [of "store32 (\<lambda>_. 0) 0 1000" 0, where prev = "0x2F" and junk = 7 and fd = 0
        and h = "\<lparr>if_flag = True, hw_pic = pic_boot, flag = 0, dev_log = []\<rparr>" and r = "\<lambda>_. 0"]
    by (auto simp: Let_def)
qed

text \<open>
  \<open>rtc_read\<close> returns 0 as soon as a clock interrupt is among those that arrive while it waits, with
  \<open>flag\<close> raised, and keeps waiting as long as no handler raises \<open>flag\<close>.
\<close>

theorem rtc_read_waits_for_tick:
  "(rtc_interrupt_handler \<in> set hs \<longrightarrow>
      (\<exists>h'. rtc_read hs fd h = Some (h', 0) \<and> flag h' \<noteq> 0 \<and> irq_enabled (hw_pic h') 1))
   \<and> ((\<forall>g \<in> set hs. \<forall>h. flag h = 0 \<longrightarrow> flag (g h) = 0) \<longrightarrow> rtc_read hs fd h = None)"
proof (intro conjI impI)
  assume "rtc_interrupt_handler \<in> set hs"
  moreover have "flag (rtc_interrupt_handler h) \<noteq> 0" for h by (simp add: rtc_interrupt_handler_def)
  ultimately obtain h' where "spin (\<lambda>h. flag h \<noteq> 0) hs ((on_pic (disable_irq 1) h)\<lparr>flag := 0\<rparr>) = Some h'" "flag h' \<noteq> 0"
    using spin_ends [of "\<lambda>h. flag h \<noteq> 0"] by blast
  then show "\<exists>h'. rtc_read hs fd h = Some (h', 0) \<and> flag h' \<noteq> 0 \<and> irq_enabled (hw_pic h') 1"
    using irq.enable [of 1] by (simp add: rtc_read_def on_pic_def word_le_nat_alt)
next
  assume "\<forall>g \<in> set hs. \<forall>h. flag h = 0 \<longrightarrow> flag (g h) = 0"
  then show "rtc_read hs fd h = None"
    using spin_waits [of "\<lambda>h. flag h \<noteq> 0" "(on_pic (disable_irq 1) h)\<lparr>flag := 0\<rparr>" hs] by (simp add: rtc_read_def)
qed

theorem rtc_read_waits_for_tick_witness:
  "let h = \<lparr>if_flag = True, hw_pic = pic_boot, flag = 1, dev_log = []\<rparr> in
   (\<exists>h'. rtc_read [cli, rtc_interrupt_handler] 0 h = Some (h', 0)) \<and> rtc_read [cli, sti] 0 h = None"
  using rtc_read_waits_for_tick [of "[cli, rtc_interrupt_handler]" 0]
    rtc_read_waits_for_tick [of "[cli, sti]" 0]
  by (auto simp: Let_def cli_def sti_def)

text \<open>
  The timer is programmed in mode 3 with a 16-bit divisor, written low byte first, for which the
  input clock gives between 100 and 101 interrupts a second.
\<close>

theorem pit_init_rate:
  "\<exists>lo hi. dev_log (pit_init h) = dev_log h @ [(PIT_CMD, 0x36), (PIT_CH0, lo), (PIT_CH0, hi)]
     \<and> 100 * (unat lo + 256 * unat hi) \<le> unat PIT_FREQ
     \<and> unat PIT_FREQ < 101 * (unat lo + 256 * unat hi)"
  by (simp add: pit_init_def outb_def PIT_FREQ_def PIT_COUNT_def)

end
