(* ===== verification/Idt.thy ===== *)
theory Idt
  imports Prelude
begin

text \<open>
  The interrupt descriptor table that \<open>load_idt\<close> of \<^verbatim>\<open>student-distrib/idt.c\<close> fills, with the descriptor
  type and \<open>SET_IDT_ENTRY\<close> of \<^verbatim>\<open>student-distrib/x86_desc.h\<close>. The addresses of the handlers are fixed by
  the linker and are an argument. What the processor reads from a descriptor (the entry point, the
  gate type, whether an \<^verbatim>\<open>int\<close> instruction of a user program may use it) states what the table promises.
\<close>

section \<open>Model\<close>

definition NUM_VEC :: nat where "NUM_VEC = 256"
definition NUM_RESERVED_VEC :: nat where "NUM_RESERVED_VEC = 32"
definition SYS_CALL_ENTRY :: nat where "SYS_CALL_ENTRY = 0x80"
definition KERNEL_CS :: u16 where "KERNEL_CS = 0x0010"

record idt_desc =
  offset_15_00 :: u16
  seg_selector :: u16
  reserved4 :: u8
  reserved3 :: bool
  reserved2 :: bool
  reserved1 :: bool
  gate_size :: bool
  reserved0 :: bool
  dpl :: "2 word"
  present :: bool
  offset_31_16 :: u16

datatype handler =
    divide_zero | single_step | nmi | breakpoint | overflow | bounds | invalid_opcode | coprocessor
  | double_fault | segment_overrun | invalid_tss | segment_not_present | stack_fault | general_protection
  | page_fault | math_fault | alignment_check | machine_check | simd
  | kb_interrupt | rtc_interrupt | pit_interrupt | sys_call_entry

type_synonym idt = "nat \<Rightarrow> idt_desc"

definition set_idt_entry :: "u32 \<Rightarrow> idt_desc \<Rightarrow> idt_desc" where
  "set_idt_entry a d =
     d\<lparr>offset_31_16 := ucast (drop_bit 16 (a AND 0xFFFF0000)), offset_15_00 := ucast (a AND 0xFFFF)\<rparr>"

text \<open>The body of the loop for a vector other than 15.\<close>

definition init_desc :: "nat \<Rightarrow> idt_desc \<Rightarrow> idt_desc" where
  "init_desc i d0 =
     (let d = d0\<lparr>seg_selector := KERNEL_CS, dpl := 0, present := True, gate_size := True, reserved4 := 0,
                 reserved3 := False, reserved2 := True, reserved1 := True, reserved0 := False\<rparr>;
          d = (if i < NUM_RESERVED_VEC then d\<lparr>reserved3 := True\<rparr> else d)
      in if i = 33 \<or> i = 40 \<or> i = 32
         then d\<lparr>seg_selector := KERNEL_CS, present := True, dpl := 0, reserved3 := False, reserved2 := True,
                reserved1 := True, reserved0 := False, gate_size := True\<rparr>
         else if i = SYS_CALL_ENTRY
         then d\<lparr>dpl := 3, reserved3 := True, reserved2 := True, reserved1 := True, gate_size := True\<rparr>
         else d)"

function load_idt_loop :: "nat \<Rightarrow> idt \<Rightarrow> idt" where
  "load_idt_loop i t =
     (if i < NUM_VEC
      then if i = 15 then load_idt_loop (i + 1) t
           else load_idt_loop (i + 1) (t(i := init_desc i (t i)))
      else t)"
  by auto
termination by (relation "measure (\<lambda>(i, t). NUM_VEC - i)") auto

declare load_idt_loop.simps [simp del]

definition idt_handlers :: "(nat \<times> handler) list" where
  "idt_handlers =
     [(0, divide_zero), (1, single_step), (2, nmi), (3, breakpoint), (4, overflow), (5, bounds),
      (6, invalid_opcode), (7, coprocessor), (8, double_fault), (9, segment_overrun), (10, invalid_tss),
      (11, segment_not_present), (12, stack_fault), (13, general_protection), (14, page_fault),
      (16, math_fault), (17, alignment_check), (18, machine_check), (19, simd), (33, kb_interrupt),
      (40, rtc_interrupt), (0x20, pit_interrupt), (SYS_CALL_ENTRY, sys_call_entry)]"

definition load_idt :: "(handler \<Rightarrow> u32) \<Rightarrow> idt \<Rightarrow> idt" where
  "load_idt link t = foldl (\<lambda>t (i, h). t(i := set_idt_entry (link h) (t i))) (load_idt_loop 0 t) idt_handlers"

text \<open>The table that \<^verbatim>\<open>x86_desc.S\<close> reserves: 256 descriptors of zeros.\<close>

definition zero_idt :: idt where
  "zero_idt i = \<lparr>offset_15_00 = 0, seg_selector = 0, reserved4 = 0, reserved3 = False, reserved2 = False, reserved1 = False,
     gate_size = False, reserved0 = False, dpl = 0, present = False, offset_31_16 = 0\<rparr>"

section \<open>What the processor reads from a descriptor\<close>

definition gate_entry :: "idt_desc \<Rightarrow> u32" where
  "gate_entry d = push_bit 16 (ucast (offset_31_16 d)) OR ucast (offset_15_00 d)"

datatype gate = Interrupt_gate | Trap_gate | Other_gate

definition gate_kind :: "idt_desc \<Rightarrow> gate" where
  "gate_kind d =
     (if gate_size d \<and> reserved1 d \<and> reserved2 d \<and> \<not> reserved0 d
      then if reserved3 d then Trap_gate else Interrupt_gate else Other_gate)"

text \<open>An \<^verbatim>\<open>int\<close> instruction executed at privilege level \<open>cpl\<close> passes the gate.\<close>

definition int_allowed :: "2 word \<Rightarrow> idt_desc \<Rightarrow> bool" where
  "int_allowed cpl d \<longleftrightarrow> present d \<and> cpl \<le> dpl d"

lemma load_idt_loop_eq:
  "load_idt_loop i t j = (if i \<le> j \<and> j < NUM_VEC \<and> j \<noteq> 15 then init_desc j (t j) else t j)"
proof (induction "NUM_VEC - i" arbitrary: i t)
  case 0
  then show ?case by (subst load_idt_loop.simps) auto
next
  case (Suc n)
  then have n: "n = NUM_VEC - (i + 1)" "i < NUM_VEC" by linarith+
  then show ?case
    using Suc.hyps(1) [OF n(1)] by (subst load_idt_loop.simps) (auto simp: Suc_le_eq nat_less_le)
qed

lemma gate_entry_set [simp]: "gate_entry (set_idt_entry a d) = a"
proof -
  have low: "(0xFFFF :: u32) = mask 16" by (simp add: mask_eq_exp_minus_1)
  have high: "(0xFFFF0000 :: u32) = push_bit 16 (mask 16)" by (simp add: mask_eq_exp_minus_1)
  show ?thesis
    unfolding gate_entry_def set_idt_entry_def low high
    by (rule bit_word_eqI) (auto simp: bit_simps)
qed

lemma set_idt_entry_frame [simp]:
  "gate_kind (set_idt_entry a d) = gate_kind d" "int_allowed c (set_idt_entry a d) = int_allowed c d"
  "present (set_idt_entry a d) = present d" "seg_selector (set_idt_entry a d) = seg_selector d"
  by (simp_all add: set_idt_entry_def gate_kind_def int_allowed_def)

lemma load_idt_update:
  "foldl (\<lambda>t (i, h). t(i := set_idt_entry (link h) (t i))) t hs i =
     foldl (\<lambda>d (j, h). if j = i then set_idt_entry (link h) d else d) (t i) hs"
  by (induction hs arbitrary: t) auto

lemma foldl_entry_frame:
  assumes "\<And>a d. P (set_idt_entry a d) = P d"
  shows "P (foldl (\<lambda>d (j, h). if j = i then set_idt_entry (link h) d else d) d hs) = P d"
  by (induction hs arbitrary: d) (auto simp: assms)

lemma load_idt_frame:
  "(\<And>a d. P (set_idt_entry a d) = P d) \<Longrightarrow> P (load_idt link t i) = P (load_idt_loop 0 t i)"
  by (simp add: load_idt_def load_idt_update foldl_entry_frame)

lemma init_desc_simps [simp]:
  "present (init_desc i d)" "seg_selector (init_desc i d) = KERNEL_CS"
  "dpl (init_desc i d) = (if i = SYS_CALL_ENTRY then 3 else 0)"
  "gate_kind (init_desc i d) = (if i < NUM_RESERVED_VEC \<or> i = SYS_CALL_ENTRY then Trap_gate else Interrupt_gate)"
  by (auto simp: init_desc_def Let_def gate_kind_def NUM_RESERVED_VEC_def SYS_CALL_ENTRY_def)

lemma int_allowed_init [simp]: "int_allowed 3 (init_desc i d) \<longleftrightarrow> i = SYS_CALL_ENTRY"
  by (auto simp: int_allowed_def)

section \<open>Properties\<close>

text \<open>
  After \<open>load_idt\<close> every vector listed in the table enters its handler at the address the handler was
  linked at, through a present gate of the kernel's code segment: a trap gate for the exceptions and
  the system call, an interrupt gate, which masks interrupts, for the timer, the keyboard and the clock.
\<close>

theorem load_idt_entries:
  assumes "(i, h) \<in> set idt_handlers"
  shows "gate_entry (load_idt link t i) = link h \<and> present (load_idt link t i)
     \<and> seg_selector (load_idt link t i) = KERNEL_CS
     \<and> gate_kind (load_idt link t i)
         = (if h \<in> {kb_interrupt, rtc_interrupt, pit_interrupt} then Interrupt_gate else Trap_gate)"
proof -
  have "gate_entry (load_idt link t i) = link h"
    using assms by (auto simp: load_idt_def load_idt_update idt_handlers_def SYS_CALL_ENTRY_def)
  moreover have "i < NUM_VEC" "i \<noteq> 15"
    "(i < NUM_RESERVED_VEC \<or> i = SYS_CALL_ENTRY) = (h \<notin> {kb_interrupt, rtc_interrupt, pit_interrupt})"
    using assms by (auto simp: idt_handlers_def SYS_CALL_ENTRY_def NUM_VEC_def NUM_RESERVED_VEC_def)
  ultimately show ?thesis
    by (simp add: load_idt_frame [of present] load_idt_frame [of seg_selector] load_idt_frame [of gate_kind]
        load_idt_loop_eq)
qed

theorem load_idt_entries_witness:
  "gate_entry (load_idt (\<lambda>h. if h = page_fault then 0x40A1B2 else 0) (\<lambda>_. undefined) 14) = 0x40A1B2"
  using load_idt_entries [of 14 page_fault "\<lambda>h. if h = page_fault then 0x40A1B2 else 0" "\<lambda>_. undefined"]
  by (simp add: idt_handlers_def)

text \<open>
  C36: after \<open>load_idt\<close> on the zeroed table that the kernel is linked with, the system call vector is the only one of the 256 that an
  \<^verbatim>\<open>int\<close> instruction of a user program can pass. Vector 15, which the loop leaves out, stays absent. A vector without
  a handler, 15 apart, is present with entry point 0.
\<close>

theorem load_idt_user_gates:
  assumes "i < 256"
  shows "(int_allowed 3 (load_idt link zero_idt i) \<longleftrightarrow> i = 0x80)
     \<and> (present (load_idt link zero_idt i) \<longleftrightarrow> i \<noteq> 15)
     \<and> (i \<notin> fst ` set idt_handlers \<longrightarrow> gate_entry (load_idt link zero_idt i) = 0)"
proof (intro conjI impI)
  have i: "load_idt_loop 0 zero_idt i = (if i \<noteq> 15 then init_desc i (zero_idt i) else zero_idt i)"
    using assms by (simp add: load_idt_loop_eq NUM_VEC_def)
  show "int_allowed 3 (load_idt link zero_idt i) \<longleftrightarrow> i = 0x80"
    by (simp add: load_idt_frame [of "int_allowed 3"] i SYS_CALL_ENTRY_def) (simp add: int_allowed_def zero_idt_def)
  show "present (load_idt link zero_idt i) \<longleftrightarrow> i \<noteq> 15"
    by (simp add: load_idt_frame [of present] i) (simp add: zero_idt_def)
  assume no: "i \<notin> fst ` set idt_handlers"
  have "foldl (\<lambda>d (j, h). if j = i then set_idt_entry (link h) d else d) d hs = d"
    if "i \<notin> fst ` set hs" for d hs
    using that by (induction hs) auto
  moreover have "gate_entry (init_desc j d) = gate_entry d" for j d
    by (simp add: gate_entry_def init_desc_def Let_def)
  moreover have "gate_entry (zero_idt j) = 0" for j by (simp add: gate_entry_def zero_idt_def)
  ultimately show "gate_entry (load_idt link zero_idt i) = 0"
    using no by (simp add: load_idt_def load_idt_update i)
qed

theorem load_idt_user_gates_witness:
  "int_allowed 3 (load_idt (\<lambda>_. 0) zero_idt 0x80) \<and> \<not> int_allowed 3 (load_idt (\<lambda>_. 0) zero_idt 15)"
  using load_idt_user_gates [of "0x80" "\<lambda>_. 0"] load_idt_user_gates [of 15 "\<lambda>_. 0"] by simp

end
