(* ===== verification/Paging.thy ===== *)
theory Paging
  imports Prelude
begin

text \<open>
  The page tables of \<^verbatim>\<open>student-distrib/paging.c\<close>: \<open>paging_init\<close>, \<open>paging_enable\<close>, \<open>create_page\<close> and
  \<open>set_vidmap\<close>. The state is the page directory, the one page table and the control registers; the
  linked addresses of the two tables are arguments. The processor's two-level translation with 4 MB
  pages says which linear addresses a program can reach and what they map to.
\<close>

section \<open>Model\<close>

definition TABLE_SIZE :: nat where "TABLE_SIZE = 1024"
definition FOUR_MEG :: u32 where "FOUR_MEG = 0x400000"
definition VIDEO_ADDR :: u32 where "VIDEO_ADDR = 0xB8000"
definition KERNEL :: u32 where "KERNEL = 0x400000"
definition KERNEL_BOTTOM :: u32 where "KERNEL_BOTTOM = 0x800000"
definition PRESENT_PAGE :: u32 where "PRESENT_PAGE = 0x1"
definition ENABLE_KERNEL :: u32 where "ENABLE_KERNEL = 0x80"
definition ENABLE_USER :: u32 where "ENABLE_USER = 0x7"
definition USER_PROGRAM_PDIR_LOC :: nat where "USER_PROGRAM_PDIR_LOC = 32"
definition VID_MAP_LOC :: nat where "VID_MAP_LOC = 33"

lemmas paging_consts = TABLE_SIZE_def FOUR_MEG_def VIDEO_ADDR_def KERNEL_def KERNEL_BOTTOM_def
  PRESENT_PAGE_def ENABLE_KERNEL_def ENABLE_USER_def USER_PROGRAM_PDIR_LOC_def VID_MAP_LOC_def

record paging =
  page_dir :: "nat \<Rightarrow> u32"
  page_table :: "nat \<Rightarrow> u32"
  cr0 :: u32
  cr3 :: u32
  cr4 :: u32

function clear_tables :: "nat \<Rightarrow> paging \<Rightarrow> paging" where
  "clear_tables i p =
     (if i < TABLE_SIZE
      then clear_tables (i + 1) (p\<lparr>page_dir := (page_dir p)(i := 0), page_table := (page_table p)(i := 0)\<rparr>)
      else p)"
  by auto
termination by (relation "measure (\<lambda>(i, p). TABLE_SIZE - i)") auto

declare clear_tables.simps [simp del]

text \<open>\<open>pt\<close> and \<open>pd\<close> are the addresses of \<open>page_table\<close> and \<open>page_dir\<close>.\<close>

definition paging_init :: "addr \<Rightarrow> paging \<Rightarrow> paging" where
  "paging_init pt p0 =
     (let p = clear_tables 0 p0;
          p = p\<lparr>page_table := (page_table p)(unat VIDEO_ADDR div 4096 := VIDEO_ADDR OR PRESENT_PAGE)\<rparr>
      in p\<lparr>page_dir := (page_dir p)(0 := pt OR PRESENT_PAGE, 1 := KERNEL OR ENABLE_KERNEL OR PRESENT_PAGE)\<rparr>)"

definition paging_enable :: "addr \<Rightarrow> paging \<Rightarrow> paging" where
  "paging_enable pd p = p\<lparr>cr3 := pd, cr4 := cr4 p OR 0x00000010, cr0 := cr0 p OR 0x80000000\<rparr>"

definition create_page :: "addr \<Rightarrow> u32 \<Rightarrow> paging \<Rightarrow> paging" where
  "create_page pt curr_process p =
     (let location = KERNEL_BOTTOM + curr_process * FOUR_MEG
      in p\<lparr>page_dir := (page_dir p)
             (USER_PROGRAM_PDIR_LOC := location OR ENABLE_KERNEL OR ENABLE_USER OR PRESENT_PAGE,
              31 := pt OR PRESENT_PAGE OR ENABLE_USER)\<rparr>)"

definition set_vidmap :: "addr \<Rightarrow> addr \<Rightarrow> paging \<Rightarrow> paging \<times> u32" where
  "set_vidmap pt pd p =
     (p\<lparr>page_dir := (page_dir p)(0 := pt OR ENABLE_USER OR PRESENT_PAGE),
        page_table := (page_table p)(VID_MAP_LOC := VIDEO_ADDR OR ENABLE_USER OR PRESENT_PAGE),
        cr3 := pd\<rparr>, push_bit 12 (of_nat VID_MAP_LOC))"

section \<open>The processor's address translation\<close>

text \<open>
  Translation of a linear address in supervisor (\<open>user = False\<close>) or user mode, with paging and 4 MB pages
  on: bit 0 of an entry is present, bit 2 user, bit 7 the 4 MB page. The only page table the kernel
  has is at \<open>pt\<close>; an entry that points anywhere else is no translation of this model.
\<close>

definition dir_index :: "u32 \<Rightarrow> nat" where "dir_index a = unat (drop_bit 22 a)"
definition table_index :: "u32 \<Rightarrow> nat" where "table_index a = unat (drop_bit 12 a AND 0x3FF)"

definition entry_ok :: "bool \<Rightarrow> u32 \<Rightarrow> bool" where
  "entry_ok user e \<longleftrightarrow> bit e 0 \<and> (user \<longrightarrow> bit e 2)"

definition translate :: "addr \<Rightarrow> paging \<Rightarrow> bool \<Rightarrow> u32 \<Rightarrow> u32 option" where
  "translate pt p user a =
     (let e = page_dir p (dir_index a) in
      if \<not> entry_ok user e then None
      else if bit e 7 then Some ((e AND 0xFFC00000) OR (a AND 0x3FFFFF))
      else if e AND 0xFFFFF000 \<noteq> pt then None
      else let f = page_table p (table_index a) in
        if \<not> entry_ok user f then None else Some ((f AND 0xFFFFF000) OR (a AND 0xFFF)))"

text \<open>The page table is 4 KB aligned, as its declaration asks.\<close>

definition aligned4k :: "addr \<Rightarrow> bool" where "aligned4k a \<longleftrightarrow> a AND 0xFFF = 0"

lemma clear_tables_eq:
  "clear_tables i p =
     p\<lparr>page_dir := (\<lambda>j. if i \<le> j \<and> j < TABLE_SIZE then 0 else page_dir p j),
       page_table := (\<lambda>j. if i \<le> j \<and> j < TABLE_SIZE then 0 else page_table p j)\<rparr>"
proof (induction "TABLE_SIZE - i" arbitrary: i p)
  case 0
  then have "(\<lambda>j. if i \<le> j \<and> j < TABLE_SIZE then 0 else f j) = f" for f :: "nat \<Rightarrow> u32" by (auto intro!: ext)
  then show ?case using 0 by (subst clear_tables.simps) simp
next
  case (Suc n)
  then have n: "n = TABLE_SIZE - (i + 1)" "i < TABLE_SIZE" by linarith+
  have "(\<lambda>j. if i + 1 \<le> j \<and> j < TABLE_SIZE then 0 else (f(i := 0)) j) = (\<lambda>j. if i \<le> j \<and> j < TABLE_SIZE then 0 else f j)"
    for f :: "nat \<Rightarrow> u32" using n(2) by (auto intro!: ext)
  then show ?case using n(2) Suc.hyps(1) [OF n(1)] by (subst clear_tables.simps) (simp cong: if_cong)
qed

text \<open>The entries after \<open>paging_init\<close>.\<close>

lemma paging_init_dir:
  "j < 1024 \<Longrightarrow> page_dir (paging_init pt p) j =
     (if j = 0 then pt OR PRESENT_PAGE else if j = 1 then KERNEL OR ENABLE_KERNEL OR PRESENT_PAGE else 0)"
  by (simp add: paging_init_def Let_def clear_tables_eq TABLE_SIZE_def)

lemma paging_init_table:
  "j < 1024 \<Longrightarrow> page_table (paging_init pt p) j = (if j = 184 then VIDEO_ADDR OR PRESENT_PAGE else 0)"
  by (simp add: paging_init_def Let_def clear_tables_eq TABLE_SIZE_def VIDEO_ADDR_def)

lemma dir_index_less: "dir_index a < 1024"
  unfolding dir_index_def
proof -
  have "unat (drop_bit 22 a) = unat a div 2 ^ 22" by (simp add: drop_bit_eq_div unat_div_distrib)
  also have "\<dots> < 1024" using unat_lt32 [of a] by simp
  finally show "unat (drop_bit 22 a) < 1024" .
qed

lemma table_index_less: "table_index a < 1024"
proof -
  have "drop_bit 12 a AND 0x3FF \<le> (0x3FF :: u32)" by (simp add: word_and_le1)
  then show ?thesis by (simp add: table_index_def word_le_nat_alt)
qed


section \<open>Entries\<close>

lemma aligned4k_bits: "aligned4k pt \<Longrightarrow> n < 12 \<Longrightarrow> \<not> bit pt n"
proof -
  assume "aligned4k pt" "n < 12"
  moreover have "(0xFFF :: u32) = mask 12" by (simp add: mask_eq_exp_minus_1)
  ultimately show "\<not> bit pt n"
    by (metis aligned4k_def bit_and_iff bit_mask_iff bit_0_eq bot_apply bot_bool_def
        exp_eq_0_imp_not_bit possible_bit_def)
qed

lemma aligned4k_base:
  assumes "aligned4k pt" "w AND 0xFFFFF000 = 0"
  shows "(pt OR w) AND 0xFFFFF000 = pt"
proof -
  have mask: "(0xFFFFF000 :: u32) = NOT (mask 12)" by (simp add: mask_eq_exp_minus_1)
  have "pt AND 0xFFFFF000 = pt"
    unfolding mask by (rule bit_word_eqI) (use aligned4k_bits [OF assms(1)] in \<open>auto simp: bit_simps\<close>)
  then show ?thesis using assms(2) by (simp add: bit.conj_disj_distrib2)
qed

text \<open>The frame of a process starts at 8 MB plus 4 MB for each process before it.\<close>

definition frame :: "u32 \<Rightarrow> u32" where
  "frame c = KERNEL_BOTTOM + c * FOUR_MEG"

lemma frame_push: "frame c = push_bit 22 (c + 2)"
  by (simp add: frame_def paging_consts push_bit_eq_mult algebra_simps)

lemma frame_bits: "n < 22 \<Longrightarrow> \<not> bit (frame c) n"
  by (simp add: frame_push bit_simps)

lemma frame_base: "w AND 0xFFC00000 = 0 \<Longrightarrow> (frame c OR w) AND 0xFFC00000 = frame c"
proof -
  assume w: "w AND 0xFFC00000 = 0"
  have mask: "(0xFFC00000 :: u32) = NOT (mask 22)" by (simp add: mask_eq_exp_minus_1)
  have "frame c AND 0xFFC00000 = frame c"
    unfolding mask by (rule bit_word_eqI) (use frame_bits [of _ c] in \<open>auto simp: bit_simps\<close>)
  then show ?thesis using w by (simp add: bit.conj_disj_distrib2)
qed

lemma unat_frame: "c < 1022 \<Longrightarrow> unat (frame c) = 0x800000 + unat c * 0x400000"
  by (simp add: frame_def paging_consts unat_word_ariths word_less_nat_alt unat_add_lem [THEN iffD1])

lemma low22: "(a AND 0x3FFFFF :: u32) = take_bit 22 a"
proof -
  have "(0x3FFFFF :: u32) = mask 22" by (simp add: mask_eq_exp_minus_1)
  then show ?thesis by (simp add: take_bit_eq_mask)
qed

lemma unat_low22: "unat (a AND 0x3FFFFF :: u32) = unat a mod 0x400000"
  by (simp add: low22 take_bit_eq_mod unat_mod_distrib)


lemma low12: "(a AND 0xFFF :: u32) = take_bit 12 a"
proof -
  have "(0xFFF :: u32) = mask 12" by (simp add: mask_eq_exp_minus_1)
  then show ?thesis by (simp add: take_bit_eq_mask)
qed

lemma unat_or_disjoint:
  assumes "\<And>n. \<not> bit x n \<or> \<not> bit y n" "unat x + unat y < 4294967296"
  shows "unat (x OR y :: u32) = unat x + unat y"
proof -
  have "x OR y = x + y" using assms(1) by (intro disjunctive_add_eq_or [symmetric] bit_word_eqI) (simp add: bit_and_iff)
  then show ?thesis using assms(2) by (simp add: unat_add_lem [THEN iffD1])
qed

lemma unat_frame_offset:
  assumes "c < 1022"
  shows "unat (frame c OR (a AND 0x3FFFFF)) = 0x800000 + unat c * 0x400000 + unat a mod 0x400000"
proof -
  have "\<not> bit (frame c) n \<or> \<not> bit (a AND 0x3FFFFF) n" for n
    by (cases "n < 22") (auto simp: frame_bits low22 bit_simps)
  note disjoint = unat_or_disjoint [of "frame c" "a AND 0x3FFFFF", OF this, unfolded unat_low22 unat_frame [OF assms]]
  have "unat c < 1022" using assms by (simp add: word_less_nat_alt)
  moreover have "unat a mod 0x400000 < 0x400000" by simp
  ultimately show ?thesis by (intro disjoint) linarith
qed

lemma dir_index_eq: "dir_index a = unat a div 0x400000"
  by (simp add: dir_index_def drop_bit_eq_div unat_div_distrib)

section \<open>Reachable page tables\<close>

text \<open>
  The page tables the kernel can have: those of \<open>paging_init\<close> and \<open>paging_enable\<close>, changed by any
  sequence of \<open>create_page\<close> and \<open>set_vidmap\<close>. The parameters record the process whose page was made
  last and whether \<open>set_vidmap\<close> has run.
\<close>

inductive paging_reach :: "addr \<Rightarrow> addr \<Rightarrow> u32 option \<Rightarrow> bool \<Rightarrow> paging \<Rightarrow> bool" for pt pd where
  boot: "paging_reach pt pd None False (paging_enable pd (paging_init pt p))"
| create: "paging_reach pt pd q v p \<Longrightarrow> c < 1022 \<Longrightarrow> paging_reach pt pd (Some c) v (create_page pt c p)"
| vidmap: "paging_reach pt pd q v p \<Longrightarrow> paging_reach pt pd q True (fst (set_vidmap pt pd p))"

definition paging_inv :: "addr \<Rightarrow> u32 option \<Rightarrow> bool \<Rightarrow> paging \<Rightarrow> bool" where
  "paging_inv pt q v p \<longleftrightarrow>
     (\<forall>j < 1024. page_dir p j =
        (if j = 0 then pt OR (if v then 7 else 1)
         else if j = 1 then 0x400081
         else if j = 32 then (case q of None \<Rightarrow> 0 | Some c \<Rightarrow> frame c OR 0x87)
         else if j = 31 then (if q = None then 0 else pt OR 7) else 0))
     \<and> (\<forall>j < 1024. page_table p j = (if j = 184 then 0xB8001 else if j = 33 \<and> v then 0xB8007 else 0))
     \<and> (\<forall>c. q = Some c \<longrightarrow> c < 1022)"

lemma paging_reach_inv: "paging_reach pt pd q v p \<Longrightarrow> paging_inv pt q v p"
proof (induction rule: paging_reach.induct)
  case (boot p)
  then show ?case
    by (simp add: paging_inv_def paging_enable_def paging_init_dir paging_init_table paging_consts)
next
  case (create q v p c)
  then show ?case
    by (simp add: paging_inv_def create_page_def Let_def frame_def paging_consts or.assoc)
next
  case (vidmap q v p)
  then show ?case
    by (auto simp: paging_inv_def set_vidmap_def paging_consts or.assoc)
qed

text \<open>Where a reachable page table sends an address.\<close>

definition address_map :: "u32 option \<Rightarrow> bool \<Rightarrow> bool \<Rightarrow> u32 \<Rightarrow> u32 option" where
  "address_map q v user a =
     (if dir_index a = 1 then (if user then None else Some (0x400000 OR (a AND 0x3FFFFF)))
      else if dir_index a = 32 then map_option (\<lambda>c. frame c OR (a AND 0x3FFFFF)) q
      else if dir_index a = 0 \<and> (user \<longrightarrow> v) \<or> dir_index a = 31 \<and> q \<noteq> None
      then if table_index a = 33 \<and> v \<or> table_index a = 184 \<and> \<not> user then Some (0xB8000 OR (a AND 0xFFF)) else None
      else None)"

lemma entry_ok_table:
  assumes "aligned4k pt"
  shows "entry_ok user (pt OR 7)" "entry_ok user (pt OR 1) \<longleftrightarrow> \<not> user"
    "\<not> bit (pt OR 7) 7" "\<not> bit (pt OR 1) 7"
    "(pt OR 7) AND 0xFFFFF000 = pt" "(pt OR 1) AND 0xFFFFF000 = pt"
  using aligned4k_bits [OF assms] by (simp_all add: entry_ok_def bit_or_iff aligned4k_base [OF assms])

lemma entry_ok_frame:
  "entry_ok user (frame c OR 0x87)" "bit (frame c OR 0x87) 7"
  "(frame c OR 0x87) AND 0xFFC00000 = frame c"
  by (simp_all add: entry_ok_def bit_or_iff frame_base)

lemma translate_reach:
  assumes "paging_reach pt pd q v p" "aligned4k pt"
  shows "translate pt p user a = address_map q v user a"
proof -
  note table = entry_ok_table [OF assms(2)] entry_ok_frame
  from paging_reach_inv [OF assms(1)]
  have tab: "page_table p (table_index a) =
      (if table_index a = 184 then 0xB8001 else if table_index a = 33 \<and> v then 0xB8007 else 0)"
    and dir: "page_dir p (dir_index a) =
        (if dir_index a = 0 then pt OR (if v then 7 else 1)
         else if dir_index a = 1 then 0x400081
         else if dir_index a = 32 then (case q of None \<Rightarrow> 0 | Some c \<Rightarrow> frame c OR 0x87)
         else if dir_index a = 31 then (if q = None then 0 else pt OR 7) else 0)"
    using dir_index_less [of a] table_index_less [of a] by (simp_all only: paging_inv_def)
  have zero: "\<not> entry_ok user 0" for user by (simp add: entry_ok_def)
  have low: "entry_ok user 0x400081 \<longleftrightarrow> \<not> user" "entry_ok user 0xB8001 \<longleftrightarrow> \<not> user" "entry_ok user 0xB8007" for user
    by (simp_all add: entry_ok_def)
  show ?thesis
    unfolding translate_def address_map_def Let_def dir tab
    by (cases v; cases q) (simp_all add: table zero low)
qed


section \<open>Properties\<close>

lemma kernel_offset: "dir_index a = 1 \<Longrightarrow> 0x400000 OR (a AND 0x3FFFFF) = (a :: u32)"
proof -
  assume "dir_index a = 1"
  then have high: "drop_bit 22 a = 1" by (simp add: dir_index_def unat_eq_iff32)
  have "push_bit 22 (drop_bit 22 a) OR take_bit 22 a = a" by (rule bit_word_eqI) (auto simp: bit_simps)
  then show ?thesis by (simp add: low22 high)
qed

lemma video_page:
  "unat (0xB8000 OR (a AND 0xFFF) :: u32) = 0xB8000 + unat a mod 0x1000"
proof -
  have "\<not> bit (push_bit 12 w) n \<or> \<not> bit (a AND 0xFFF) n" for w :: u32 and n
    unfolding low12 by (auto simp: bit_simps)
  from this [of "0xB8"] have "\<not> bit (0xB8000 :: u32) n \<or> \<not> bit (a AND 0xFFF) n" for n by simp
  note disjoint = unat_or_disjoint [of "0xB8000" "a AND 0xFFF", OF this]
  moreover have "unat (a AND 0xFFF) = unat a mod 0x1000"
    by (simp add: low12 take_bit_eq_mod unat_mod_distrib)
  moreover have "unat a mod 0x1000 < 0x1000" by simp
  ultimately show ?thesis by simp
qed

text \<open>
  C4: in every page table the kernel can reach, a user program whose page was made last by
  \<open>create_page\<close> for process \<open>c\<close> reads and writes its own 4 MB frame through the window at 128 MB, at the
  same offset; every other address it can use leads into the video page, and only after \<open>set_vidmap\<close>.
\<close>

theorem user_address_space:
  assumes "paging_reach pt pd q v p" "aligned4k pt"
  shows "(\<forall>c a :: u32. q = Some c \<longrightarrow> unat a div 0x400000 = 32 \<longrightarrow>
           (\<exists>b. translate pt p True a = Some b \<and> unat b = 0x800000 + unat c * 0x400000 + unat a mod 0x400000))
     \<and> (\<forall>a b. translate pt p True a = Some b \<longrightarrow> unat a div 0x400000 \<noteq> 32 \<longrightarrow>
           v \<and> 0xB8000 \<le> unat b \<and> unat b < 0xB9000)"
proof (intro conjI allI impI)
  fix c a :: u32
  assume q: "q = Some c" and a: "unat a div 0x400000 = 32"
  have "c < 1022" using paging_reach_inv [OF assms(1)] q by (simp add: paging_inv_def)
  then show "\<exists>b. translate pt p True a = Some b \<and> unat b = 0x800000 + unat c * 0x400000 + unat a mod 0x400000"
    using unat_frame_offset [of c a] a q
    by (simp only: translate_reach [OF assms] address_map_def dir_index_eq) simp
next
  fix a b
  assume "translate pt p True a = Some b" "unat a div 0x400000 \<noteq> 32"
  then have "v" "b = 0xB8000 OR (a AND 0xFFF)"
    by (auto simp: translate_reach [OF assms] address_map_def dir_index_eq split: if_splits)
  moreover have "unat a mod 0x1000 < 0x1000" by simp
  ultimately show "v" "0xB8000 \<le> unat b" "unat b < 0xB9000"
    using video_page [of a] by simp_all
qed

theorem user_address_space_witness:
  "let p = create_page 0x407000 2 (paging_enable 0x408000 (paging_init 0x407000
             \<lparr>page_dir = \<lambda>_. 7, page_table = \<lambda>_. 7, cr0 = 1, cr3 = 0, cr4 = 0\<rparr>)) in
   (\<exists>b. translate 0x407000 p True 0x08048000 = Some b \<and> unat b = 0x1048000)
   \<and> translate 0x407000 p True 0x00400000 = None"
proof -
  define p where "p = create_page 0x407000 2 (paging_enable 0x408000 (paging_init 0x407000
             \<lparr>page_dir = \<lambda>_. 7, page_table = \<lambda>_. 7, cr0 = 1, cr3 = 0, cr4 = 0\<rparr>))"
  have reach: "paging_reach 0x407000 0x408000 (Some 2) False p"
    unfolding p_def by (rule paging_reach.create [OF paging_reach.boot]) simp
  have "aligned4k 0x407000" by (simp add: aligned4k_def)
  note space = user_address_space [OF reach this]
  have "\<exists>b. translate 0x407000 p True 0x08048000 = Some b \<and> unat b = 0x1048000"
    using space [THEN conjunct1, rule_format, of 2 "0x08048000"] by simp
  moreover have "translate 0x407000 p True 0x00400000 = None"
    using space [THEN conjunct2, rule_format, of "0x00400000"] by (cases "translate 0x407000 p True 0x00400000") auto
  ultimately show ?thesis by (simp add: p_def [symmetric] Let_def)
qed

text \<open>
  C16: the kernel keeps its own 4 MB page at 4 MB mapped one to one in every reachable page table, no
  user program can use that page, and the frames of two processes never overlap each other or it.
\<close>

theorem kernel_mapping_protected:
  assumes "paging_reach pt pd q v p" "aligned4k pt" "paging_reach pt pd q' v' p'"
    "unat a div 0x400000 = 1" "unat x div 0x400000 = 32" "unat y div 0x400000 = 32"
  shows "translate pt p False a = Some a \<and> translate pt p True a = None
     \<and> (q \<noteq> q' \<longrightarrow> q \<noteq> None \<longrightarrow> q' \<noteq> None \<longrightarrow> translate pt p True x \<noteq> translate pt p' True y)
     \<and> translate pt p True x \<noteq> Some a"
proof -
  have frames: "unat b div 0x400000 = unat c + 2"
    if "paging_reach pt pd (Some c) v p" "unat x div 0x400000 = 32" "translate pt p True x = Some b" for c v p x b
  proof -
    have "c < 1022" using paging_reach_inv [OF that(1)] by (simp add: paging_inv_def)
    moreover have "b = frame c OR (x AND 0x3FFFFF)"
      using that by (simp add: translate_reach [OF that(1) assms(2)] address_map_def dir_index_eq)
    ultimately have "unat b = 0x800000 + unat c * 0x400000 + unat x mod 0x400000"
      by (simp only: unat_frame_offset)
    then show ?thesis by simp
  qed
  have "translate pt p True x \<noteq> translate pt p' True y" if cs: "q = Some c" "q' = Some c'" "c \<noteq> c'" for c c'
  proof
    assume eq: "translate pt p True x = translate pt p' True y"
    obtain b where "translate pt p True x = Some b"
      using assms(5) cs(1) translate_reach [OF assms(1,2), of True x] by (simp add: address_map_def dir_index_eq)
    then show False
      using frames [of c v p x b] frames [of c' v' p' y b] assms cs eq by (simp add: word_unat_eq_iff)
  qed
  moreover have "translate pt p True x \<noteq> Some a"
    using frames [of _ v p x a] assms
    by (cases q) (auto simp: translate_reach [OF assms(1,2)] address_map_def dir_index_eq)
  moreover have "translate pt p False a = Some a" "translate pt p True a = None"
    using kernel_offset [of a] assms(4) translate_reach [OF assms(1,2), of _ a]
    by (simp_all add: address_map_def dir_index_eq)
  ultimately show ?thesis by auto
qed

theorem kernel_mapping_protected_witness:
  "let boot = paging_enable 0x408000 (paging_init 0x407000
             \<lparr>page_dir = \<lambda>_. 7, page_table = \<lambda>_. 7, cr0 = 1, cr3 = 0, cr4 = 0\<rparr>);
       p = create_page 0x407000 2 boot; p' = create_page 0x407000 3 boot in
   translate 0x407000 p False 0x00401000 = Some 0x00401000
   \<and> translate 0x407000 p True 0x08048000 \<noteq> translate 0x407000 p' True 0x08048000"
proof -
  define boot where "boot = paging_enable 0x408000 (paging_init 0x407000
             \<lparr>page_dir = \<lambda>_. 7, page_table = \<lambda>_. 7, cr0 = 1, cr3 = 0, cr4 = 0\<rparr>)"
  have reach: "paging_reach 0x407000 0x408000 (Some c) False (create_page 0x407000 c boot)" if "c < 1022" for c
    unfolding boot_def by (rule paging_reach.create [OF paging_reach.boot that])
  have "aligned4k 0x407000" by (simp add: aligned4k_def)
  then show ?thesis
    using kernel_mapping_protected [OF reach [of 2] _ reach [of 3], of "0x00401000" "0x08048000" "0x08048000"]
    by (simp add: boot_def [symmetric] Let_def)
qed

text \<open>
  \<open>set_vidmap\<close> returns an address inside the first 4 MB (33 pages of 4 KB, not the 132 MB its comment
  names), which from then on leads user programs to the start of video memory.
\<close>

theorem set_vidmap_address:
  assumes "paging_reach pt pd q v p" "aligned4k pt"
  shows "snd (set_vidmap pt pd p) = 0x21000
     \<and> (\<forall>user. translate pt (fst (set_vidmap pt pd p)) user (snd (set_vidmap pt pd p)) = Some 0xB8000)
     \<and> translate pt (fst (set_vidmap pt pd p)) True (132 * 1024 * 1024) = None"
proof -
  have adr: "snd (set_vidmap pt pd p) = 0x21000" by (simp add: set_vidmap_def VID_MAP_LOC_def)
  show ?thesis
    using translate_reach [OF paging_reach.vidmap [OF assms(1)] assms(2)]
    by (simp add: adr address_map_def dir_index_def table_index_def)
qed

theorem set_vidmap_address_witness:
  "snd (set_vidmap 0x407000 0x408000 (paging_enable 0x408000 (paging_init 0x407000
             \<lparr>page_dir = \<lambda>_. 7, page_table = \<lambda>_. 7, cr0 = 1, cr3 = 0, cr4 = 0\<rparr>))) = 0x21000"
  using set_vidmap_address [OF paging_reach.boot [of "0x407000" "0x408000"
        "\<lparr>page_dir = \<lambda>_. 7, page_table = \<lambda>_. 7, cr0 = 1, cr3 = 0, cr4 = 0\<rparr>"]]
  by (simp add: aligned4k_def)

end
