(* ===== verification/Terminal.thy ===== *)
theory Terminal
  imports Rtc Screen
begin

text \<open>
  The terminal driver of \<^verbatim>\<open>student-distrib/dev/terminal.c\<close>: \<open>terminal_read\<close>, \<open>terminal_write\<close>, \<open>terminal_open\<close>,
  \<open>terminal_close\<close> and \<open>null_func\<close>. Its state extends that of the devices with the three input lines, the
  index of the last character of each, the \<open>enter_status\<close> flag, the active terminal and the screen. The
  two-dimensional array \<open>terminal_buffer\<close> is one row after the other in memory, so that an index past the
  end of a row reaches the next one, as in C. The lemmas relate the driver to an abstract line editor.
\<close>

section \<open>Model\<close>

definition MAX_BUFFER_SIZE :: int where "MAX_BUFFER_SIZE = 1025"
definition MAX_TTY :: nat where "MAX_TTY = 3"

record tty_dev = hw +
  terminal_buffer :: "int \<Rightarrow> u8"
  tail :: "nat \<Rightarrow> int"
  enter_status :: i32
  active_tty :: u8
  scr :: screen

definition on_scr :: "(screen \<Rightarrow> screen) \<Rightarrow> 'a tty_dev_scheme \<Rightarrow> 'a tty_dev_scheme" where
  "on_scr f s = s\<lparr>scr := f (scr s)\<rparr>"

text \<open>The place of \<^verbatim>\<open>terminal_buffer[target][i]\<close>.\<close>

definition slot :: "nat \<Rightarrow> int \<Rightarrow> int" where
  "slot target i = int target * MAX_BUFFER_SIZE + i"

text \<open>The two copying loops of \<open>terminal_read\<close>.\<close>

function copy_out :: "(int \<Rightarrow> u8) \<Rightarrow> nat \<Rightarrow> int \<Rightarrow> int \<Rightarrow> mem \<Rightarrow> addr \<Rightarrow> int \<times> mem" where
  "copy_out tb target i actual_copy m dest =
     (if i \<le> actual_copy - 1
      then copy_out tb target (i + 1) actual_copy (m(dest + of_int i := tb (slot target i))) dest
      else (i, m))"
  by auto
termination by (relation "measure (\<lambda>(tb, t, i, n, m, d). nat (n - i))") auto

function shift_line :: "nat \<Rightarrow> int \<Rightarrow> int \<Rightarrow> int \<Rightarrow> (int \<Rightarrow> u8) \<Rightarrow> int \<Rightarrow> u8" where
  "shift_line target i end_i actual_copy tb =
     (if i \<le> end_i
      then shift_line target (i + 1) end_i actual_copy (tb(slot target (i - actual_copy) := tb (slot target i)))
      else tb)"
  by auto
termination by (relation "measure (\<lambda>(t, i, l, n, tb). nat (l + 1 - i))") auto

declare copy_out.simps [simp del] shift_line.simps [simp del]

text \<open>
  The handlers that run while \<open>terminal_read\<close> waits for the enter key are its first argument, as for
  \<^const>\<open>rtc_read\<close>. The destination is a pointer into the memory that \<open>mem\<close> finds in the state after the wait.
\<close>

definition terminal_read ::
  "('a tty_dev_scheme \<Rightarrow> 'a tty_dev_scheme) list \<Rightarrow> i32 \<Rightarrow> ('a tty_dev_scheme \<Rightarrow> mem) \<Rightarrow> addr \<Rightarrow> i32
     \<Rightarrow> 'a tty_dev_scheme \<Rightarrow> ('a tty_dev_scheme \<times> mem \<times> i32) option" where
  "terminal_read hs fd mem buf nbytes s0 =
     (let target = unat (active_tty s0) in
      do {
        s1 \<leftarrow> spin (\<lambda>s. enter_status s \<noteq> 0) hs s0;
        let s = s1\<lparr>enter_status := 0\<rparr>;
        if tail s target = -1 then Some (s, mem s, 0)
        else
          let actual_copy = (if sint nbytes < tail s target + 1 then sint nbytes else tail s target + 1);
              (i, m1) = copy_out (terminal_buffer s) target 0 actual_copy (mem s) buf;
              m2 = m1(buf + of_int i := 0);
              tb = shift_line target actual_copy (tail s target) actual_copy (terminal_buffer s)
          in Some (s\<lparr>terminal_buffer := tb, tail := (tail s)(target := tail s target - actual_copy)\<rparr>, m2,
                   of_int actual_copy)
      })"

text \<open>The loop of \<open>terminal_write\<close> from byte \<open>i\<close>, with its early returns.\<close>

function terminal_write_loop ::
  "nat \<Rightarrow> i32 \<Rightarrow> mem \<Rightarrow> addr \<Rightarrow> int \<Rightarrow> int \<Rightarrow> 'a tty_dev_scheme \<Rightarrow> 'a tty_dev_scheme \<times> i32" where
  "terminal_write_loop target fd m buf nbytes i s =
     (if i \<le> nbytes
      then let input = m (buf + of_int (i - 1)) in
        if input = 8 \<and> fd \<noteq> 1
        then (if tail s target > -1 \<and> fd \<noteq> 1
              then on_scr bksp (s\<lparr>tail := (tail s)(target := tail s target - 1)\<rparr>) else s, 0)
        else if input = 10 \<and> fd \<noteq> 1 then (on_scr (putc input) (s\<lparr>enter_status := 1\<rparr>), 1)
        else terminal_write_loop target fd m buf nbytes (i + 1)
          (on_scr (putc input)
            (if tail s target < MAX_BUFFER_SIZE \<and> fd \<noteq> 1
             then s\<lparr>tail := (tail s)(target := tail s target + 1),
                    terminal_buffer := (terminal_buffer s)(slot target (tail s target + 1) := input)\<rparr>
             else s))
      else (sti s, of_int nbytes))"
  by auto
termination by (relation "measure (\<lambda>(t, fd, m, b, n, i, s). nat (n + 1 - i))") (auto simp: Let_def)

declare terminal_write_loop.simps [simp del]

definition terminal_write :: "i32 \<Rightarrow> mem \<Rightarrow> addr \<Rightarrow> i32 \<Rightarrow> 'a tty_dev_scheme \<Rightarrow> 'a tty_dev_scheme \<times> i32" where
  "terminal_write fd m buf nbytes s =
     terminal_write_loop (unat (active_tty s)) fd m buf (sint nbytes) 1 (cli s)"

definition terminal_open :: "'a tty_dev_scheme \<Rightarrow> 'a tty_dev_scheme \<times> i32" where
  "terminal_open s =
     ((on_scr clear s)\<lparr>tail := fold (\<lambda>i t. t(i := -1)) [0..<MAX_TTY] (tail s)\<rparr>, 0)"

definition terminal_close :: "i32 \<Rightarrow> 'a tty_dev_scheme \<Rightarrow> 'a tty_dev_scheme \<times> i32" where
  "terminal_close fd s = (s\<lparr>tail := (tail s)(unat (active_tty s) := -1)\<rparr>, 0)"

definition null_func :: i32 where "null_func = -1"

section \<open>The input line\<close>

text \<open>The characters typed so far on a terminal, and the states in which they lie in its row.\<close>

definition line :: "nat \<Rightarrow> 'a tty_dev_scheme \<Rightarrow> u8 list" where
  "line t s = map (\<lambda>i. terminal_buffer s (slot t i)) [0..tail s t]"

definition line_ok :: "nat \<Rightarrow> 'a tty_dev_scheme \<Rightarrow> bool" where
  "line_ok t s \<longleftrightarrow> -1 \<le> tail s t \<and> tail s t < MAX_BUFFER_SIZE"

lemma slot_eq_iff [simp]: "slot t i = slot t j \<longleftrightarrow> i = j"
  by (simp add: slot_def)

lemma slot_other_row:
  "0 \<le> i \<Longrightarrow> i < MAX_BUFFER_SIZE \<Longrightarrow> 0 \<le> j \<Longrightarrow> j < MAX_BUFFER_SIZE \<Longrightarrow> slot t i = slot u j \<longleftrightarrow> t = u \<and> i = j"
  unfolding slot_def MAX_BUFFER_SIZE_def by (cases t u rule: linorder_cases) linarith+

lemma length_line: "line_ok t s \<Longrightarrow> int (length (line t s)) = tail s t + 1"
  by (simp add: line_def line_ok_def)

lemma copy_out_eq:
  "0 \<le> i \<Longrightarrow> i \<le> n \<Longrightarrow> n < 4294967296 \<Longrightarrow>
   copy_out tb t i n m d = (n, \<lambda>a. if i \<le> uint (a - d) \<and> uint (a - d) < n then tb (slot t (uint (a - d))) else m a)"
proof (induction "nat (n - i)" arbitrary: i m)
  case 0
  then show ?case by (subst copy_out.simps) (auto intro!: ext)
next
  case (Suc k)
  then have k: "k = nat (n - (i + 1))" and le: "0 \<le> i + 1" "i + 1 \<le> n" by linarith+
  have self: "a = d + of_int i \<longleftrightarrow> uint (a - d) = i" for a
  proof -
    have "a = d + of_int i \<longleftrightarrow> a - d = of_int i" by (auto simp: algebra_simps)
    also have "\<dots> \<longleftrightarrow> uint (a - d) = i"
      using Suc.prems le by (auto simp: word_uint_eq_iff uint_word_of_int_eq take_bit_int_eq_self)
    finally show ?thesis .
  qed
  have "copy_out tb t i n m d = copy_out tb t (i + 1) n (m(d + of_int i := tb (slot t i))) d"
    using le by (subst copy_out.simps) simp
  also have "\<dots> = (n, \<lambda>a. if i + 1 \<le> uint (a - d) \<and> uint (a - d) < n then tb (slot t (uint (a - d)))
      else (m(d + of_int i := tb (slot t i))) a)"
    by (rule Suc.hyps(1) [OF k le Suc.prems(3)])
  finally show ?case using le by (auto simp: self intro!: ext)
qed

lemma shift_line_eq:
  "0 \<le> n \<Longrightarrow> n \<le> i \<Longrightarrow> i \<le> l + 1 \<Longrightarrow>
   shift_line t i l n tb = (\<lambda>k. if slot t (i - n) \<le> k \<and> k \<le> slot t (l - n) then tb (k + n) else tb k)"
proof (induction "nat (l + 1 - i)" arbitrary: i tb)
  case 0
  then show ?case by (subst shift_line.simps) (auto simp: slot_def intro!: ext)
next
  case (Suc k)
  then have k: "k = nat (l + 1 - (i + 1))" "n \<le> i + 1" "i + 1 \<le> l + 1" by linarith+
  show ?case
    using Suc.hyps(1) [OF k(1) Suc.prems(1) k(2,3)] k Suc.prems
    by (subst shift_line.simps) (auto simp: slot_def intro!: ext arg_cong [of _ _ tb])
qed


text \<open>One byte given to \<open>terminal_write\<close>, as the keyboard handler does.\<close>

definition key :: "u8 \<Rightarrow> 'a tty_dev_scheme \<Rightarrow> 'a tty_dev_scheme" where
  "key c s = fst (terminal_write 0 (\<lambda>_. c) 0 1 s)"

lemma terminal_write_one:
  "terminal_write 0 (\<lambda>_. c) 0 1 s =
     (let t = unat (active_tty s); s = cli s in
      if c = 8 then (if tail s t > -1 then on_scr bksp (s\<lparr>tail := (tail s)(t := tail s t - 1)\<rparr>) else s, 0)
      else if c = 10 then (on_scr (putc c) (s\<lparr>enter_status := 1\<rparr>), 1)
      else (sti (on_scr (putc c)
             (if tail s t < MAX_BUFFER_SIZE
              then s\<lparr>tail := (tail s)(t := tail s t + 1),
                     terminal_buffer := (terminal_buffer s)(slot t (tail s t + 1) := c)\<rparr> else s)), 1))"
  unfolding terminal_write_def
  by (subst terminal_write_loop.simps) (simp add: Let_def terminal_write_loop.simps [of _ _ _ _ _ 2])

lemma cli_sel [simp]:
  "tail (cli s) = tail s" "terminal_buffer (cli s) = terminal_buffer s" "active_tty (cli s) = active_tty s"
  "enter_status (cli s) = enter_status s" "scr (cli s) = scr s"
  for s :: "'a tty_dev_scheme"
  by (simp_all add: cli_def)

lemma sti_sel [simp]:
  "tail (sti s) = tail s" "terminal_buffer (sti s) = terminal_buffer s" "active_tty (sti s) = active_tty s"
  "enter_status (sti s) = enter_status s" "scr (sti s) = scr s" "if_flag (sti s)"
  for s :: "'a tty_dev_scheme"
  by (simp_all add: sti_def)

lemma on_scr_sel [simp]:
  "tail (on_scr f s) = tail s" "terminal_buffer (on_scr f s) = terminal_buffer s"
  "active_tty (on_scr f s) = active_tty s" "enter_status (on_scr f s) = enter_status s"
  "scr (on_scr f s) = f (scr s)"
  by (simp_all add: on_scr_def)

text \<open>What a key does to the line of the active terminal.\<close>

definition edit :: "u8 \<Rightarrow> u8 list \<Rightarrow> u8 list" where
  "edit c l = (if c = 8 then butlast l else if c = 10 then l else l @ [c])"

lemma upto_snoc: "-1 \<le> j \<Longrightarrow> [0..j + 1] = [0..j] @ [j + 1]" for j :: int
  by (subst upto_rec2) auto

lemma key_sel:
  "tail (key c s) = (tail s)(unat (active_tty s) :=
     (if c = 8 then max (-1) (tail s (unat (active_tty s)) - 1)
      else if c = 10 \<or> tail s (unat (active_tty s)) \<ge> MAX_BUFFER_SIZE then tail s (unat (active_tty s))
      else tail s (unat (active_tty s)) + 1))"
  if "tail s (unat (active_tty s)) \<ge> -1"
  using that by (auto simp: key_def terminal_write_one Let_def max_def fun_eq_iff)

lemma active_key [simp]: "active_tty (key c s) = active_tty s"
  by (simp add: key_def terminal_write_one Let_def)

lemma line_key:
  assumes "line_ok t s" "t = unat (active_tty s)" "length (line t s) < 1025"
  shows "line t (key c s) = edit c (line t s)" "line_ok t (key c s)"
proof -
  have tl: "-1 \<le> tail s t" "tail s t < 1024"
    using assms length_line [OF assms(1)] by (auto simp: line_ok_def)
  show "line_ok t (key c s)"
    using tl assms(2) key_sel [of s c] by (auto simp: line_ok_def MAX_BUFFER_SIZE_def)
  consider "c = 8" | "c = 10" | "c \<noteq> 8" "c \<noteq> 10" by blast
  then show "line t (key c s) = edit c (line t s)"
  proof cases
    case 1
    then show ?thesis
      using tl assms(2) upto_snoc [of "tail s t - 1"]
      by (auto simp: line_def edit_def key_def terminal_write_one Let_def map_butlast [symmetric])
  next
    case 2
    then show ?thesis using assms(2) by (simp add: line_def edit_def key_def terminal_write_one Let_def)
  next
    case 3
    then show ?thesis
      using tl assms(2) upto_snoc [of "tail s t"]
      by (auto simp: line_def edit_def key_def terminal_write_one Let_def MAX_BUFFER_SIZE_def)
  qed
qed


lemma length_edit: "length (edit c l) \<le> Suc (length l)"
  by (auto simp: edit_def)

lemma line_key_other:
  assumes "line_ok t s" "t = unat (active_tty s)" "length (line t s) < 1025" "u \<noteq> t" "line_ok u s"
  shows "line u (key c s) = line u s" "line_ok u (key c s)"
proof -
  have tl: "-1 \<le> tail s t" "tail s t < 1024"
    using assms length_line [OF assms(1)] by (auto simp: line_ok_def)
  have same: "tail (key c s) u = tail s u"
    using tl(1) assms(2,4) key_sel [of s c] by simp
  then show "line_ok u (key c s)" using assms(5) by (simp add: line_ok_def)
  have "terminal_buffer (key c s) (slot u i) = terminal_buffer s (slot u i)" if "0 \<le> i" "i \<le> tail s u" for i
    using that tl assms(2,4,5) slot_other_row [of i "tail s t + 1" u t]
    by (auto simp: key_def terminal_write_one Let_def line_ok_def MAX_BUFFER_SIZE_def)
  then show "line u (key c s) = line u s" by (simp add: line_def same)
qed

section \<open>The interface of a line editor\<close>

text \<open>
  The line that readers see, the states in which it is well kept, and the keys; a key edits the line as
  long as there is room for a character. A reader of such a terminal sees the edits of all the keys.
\<close>

locale line_editor =
  fixes text_of :: "'s \<Rightarrow> u8 list"
    and ok :: "'s \<Rightarrow> bool"
    and press :: "u8 \<Rightarrow> 's \<Rightarrow> 's"
    and cap :: nat
  assumes press_text: "ok s \<Longrightarrow> length (text_of s) < cap \<Longrightarrow> text_of (press c s) = edit c (text_of s)"
    and press_ok: "ok s \<Longrightarrow> length (text_of s) < cap \<Longrightarrow> ok (press c s)"
begin

lemma type_text:
  "ok s \<Longrightarrow> length (text_of s) + length cs \<le> cap \<Longrightarrow>
    text_of (fold press cs s) = fold edit cs (text_of s) \<and> ok (fold press cs s)"
proof (induction cs arbitrary: s)
  case (Cons c cs)
  then have room: "length (text_of s) < cap" by simp
  have "length (text_of (press c s)) + length cs \<le> cap"
    using Cons.prems room length_edit [of c "text_of s"] by (simp add: press_text)
  then show ?case using Cons room by (simp add: press_text press_ok)
qed simp

lemma type_plain:
  assumes "ok s" "text_of s = []" "length cs \<le> cap" "8 \<notin> set cs" "10 \<notin> set cs"
  shows "text_of (fold press cs s) = cs"
proof -
  have "fold edit cs l = l @ cs" for l
    using assms(4,5) by (induction cs arbitrary: l) (auto simp: edit_def)
  then show ?thesis using type_text [of s cs] assms by simp
qed

end

interpretation ed: line_editor "line t" "\<lambda>s. line_ok t s \<and> t = unat (active_tty s)" key 1025 for t
  by unfold_locales (auto simp: line_key)

lemma fold_key_other:
  "line_ok t s \<Longrightarrow> t = unat (active_tty s) \<Longrightarrow> length (line t s) + length cs \<le> 1025 \<Longrightarrow> u \<noteq> t \<Longrightarrow> line_ok u s \<Longrightarrow>
    line u (fold key cs s) = line u s"
proof (induction cs arbitrary: s)
  case (Cons c cs)
  then have room: "length (line t s) < 1025" by simp
  have "length (line t (key c s)) + length cs \<le> 1025"
    using Cons.prems room length_edit [of c "line t s"] by (simp add: line_key)
  then show ?case
    using Cons.IH [of "key c s"] Cons.prems room by (simp add: line_key line_key_other)
qed simp

section \<open>Input and output\<close>

lemma terminal_read_eq:
  assumes "spin (\<lambda>s. enter_status s \<noteq> 0) hs s0 = Some s" "t = unat (active_tty s0)" "tail s t \<noteq> -1"
    "n = (if sint nbytes < tail s t + 1 then sint nbytes else tail s t + 1)"
  shows "terminal_read hs fd mem buf nbytes s0 =
     Some (s\<lparr>enter_status := 0, terminal_buffer := shift_line t n (tail s t) n (terminal_buffer s),
             tail := (tail s)(t := tail s t - n)\<rparr>,
           (snd (copy_out (terminal_buffer s) t 0 n (mem (s\<lparr>enter_status := 0\<rparr>)) buf))
             (buf + of_int (fst (copy_out (terminal_buffer s) t 0 n (mem (s\<lparr>enter_status := 0\<rparr>)) buf)) := 0), of_int n)"
  unfolding assms(4)
  using assms(1-3) by (simp add: terminal_read_def Let_def case_prod_unfold)

lemma line_shift:
  assumes "int n \<le> tail s t + 1"
  shows "map (\<lambda>i. shift_line t (int n) (tail s t) (int n) (terminal_buffer s) (slot t i)) [0..tail s t - int n] = drop n (line t s)"
proof (rule nth_equalityI)
  show "length (map (\<lambda>i. shift_line t (int n) (tail s t) (int n) (terminal_buffer s) (slot t i)) [0..tail s t - int n])
      = length (drop n (line t s))" using assms by (simp add: line_def)
  fix i
  assume "i < length (map (\<lambda>i. shift_line t (int n) (tail s t) (int n) (terminal_buffer s) (slot t i)) [0..tail s t - int n])"
  then have i: "int i \<le> tail s t - int n" using assms by simp
  have "slot t 0 \<le> slot t (int i)" "slot t (int i) \<le> slot t (tail s t - int n)" "slot t (int i) + int n = slot t (int (n + i))"
    using i by (simp_all add: slot_def)
  then have "shift_line t (int n) (tail s t) (int n) (terminal_buffer s) (slot t (int i)) = terminal_buffer s (slot t (int (n + i)))"
    using assms by (simp add: shift_line_eq)
  moreover have "drop n (line t s) ! i = terminal_buffer s (slot t (int (n + i)))"
    using i assms by (simp add: line_def)
  ultimately show "map (\<lambda>i. shift_line t (int n) (tail s t) (int n) (terminal_buffer s) (slot t i)) [0..tail s t - int n] ! i
      = drop n (line t s) ! i"
    using i by (subst nth_map) simp_all
qed

lemma copy_out_line:
  assumes "int n \<le> tail s t + 1" "n < 4294967296"
  shows "(snd (copy_out (terminal_buffer s) t 0 (int n) m buf))(buf + of_nat n := 0) =
     (\<lambda>a. if unat (a - buf) < n then line t s ! unat (a - buf) else if unat (a - buf) = n then 0 else m a)"
proof
  fix a
  have "a = buf + of_nat n \<longleftrightarrow> unat (a - buf) = n"
    using assms(2) by (auto simp: unat_eq_iff32 algebra_simps)
  moreover have "line t s ! unat (a - buf) = terminal_buffer s (slot t (uint (a - buf)))" if "unat (a - buf) < n"
  proof -
    have "0 + int (unat (a - buf)) \<le> tail s t" using that assms(1) by linarith
    then have "unat (a - buf) < length [0..tail s t]" by (simp only: length_upto)
    with nth_upto [OF \<open>0 + int (unat (a - buf)) \<le> tail s t\<close>] show ?thesis unfolding line_def by (subst nth_map) simp_all
  qed
  ultimately show "((snd (copy_out (terminal_buffer s) t 0 (int n) m buf))(buf + of_nat n := 0)) a =
      (if unat (a - buf) < n then line t s ! unat (a - buf) else if unat (a - buf) = n then 0 else m a)"
    using assms(2) by (simp add: copy_out_eq uint_less_int_iff)
qed

lemma terminal_write_loop_out:
  assumes "1 \<le> i" "i \<le> n + 1"
  shows "terminal_write_loop t 1 m buf n i s =
     (sti (on_scr (fold putc (map (\<lambda>k. m (buf + of_int (k - 1))) [i..n])) s), of_int n)"
  using assms
proof (induction "nat (n + 1 - i)" arbitrary: i s)
  case 0
  then show ?case by (subst terminal_write_loop.simps) (simp add: on_scr_def)
next
  case (Suc k)
  then have k: "k = nat (n + 1 - (i + 1))" "1 \<le> i + 1" "i + 1 \<le> n + 1" "i \<le> n" by linarith+
  show ?case
    using Suc.hyps(1) [OF k(1-3)] k(4) upto_rec1 [of i n]
    by (subst terminal_write_loop.simps) (simp add: Let_def on_scr_def)
qed

lemma terminal_write_out:
  assumes "0 \<le> sint n"
  shows "terminal_write 1 m buf n s =
     (sti (on_scr (fold putc (map (\<lambda>k. m (buf + of_nat k)) [0..<nat (sint n)])) (cli s)), n)"
proof -
  have "map (\<lambda>k. m (buf + of_int (k - 1))) [1..sint n] = map (\<lambda>k. m (buf + of_nat k)) [0..<nat (sint n)]"
    using assms by (intro nth_equalityI) auto
  then show ?thesis using assms by (simp add: terminal_write_def terminal_write_loop_out)
qed


text \<open>The state after a read of a line that is not empty.\<close>

lemma terminal_read_taken:
  assumes "spin (\<lambda>s. enter_status s \<noteq> 0) hs s0 = Some s" "t = unat (active_tty s0)" "line_ok t s" "0 \<le> sint nbytes"
    "line t s \<noteq> []" "n = min (nat (sint nbytes)) (length (line t s))"
  shows "\<exists>tb. terminal_read hs fd mem buf nbytes s0 =
       Some (s\<lparr>enter_status := 0, terminal_buffer := tb, tail := (tail s)(t := tail s t - int n)\<rparr>,
         (\<lambda>a. if unat (a - buf) < n then line t s ! unat (a - buf) else if unat (a - buf) = n then 0
              else mem (s\<lparr>enter_status := 0\<rparr>) a), of_nat n)
     \<and> line t (s\<lparr>enter_status := 0, terminal_buffer := tb, tail := (tail s)(t := tail s t - int n)\<rparr>) = drop n (line t s)"
proof -
  let ?m = "mem (s\<lparr>enter_status := 0\<rparr>)"
  have len: "int (length (line t s)) = tail s t + 1" and tl: "0 \<le> tail s t" "tail s t < 1025"
    using assms(3,5) length_line [OF assms(3)] by (auto simp: line_def line_ok_def MAX_BUFFER_SIZE_def)
  have n: "(if sint nbytes < tail s t + 1 then sint nbytes else tail s t + 1) = int n" "int n \<le> tail s t + 1"
    using assms(4,6) len by auto
  have small: "n < 4294967296" using n tl by linarith
  let ?s' = "s\<lparr>enter_status := 0, terminal_buffer := shift_line t (int n) (tail s t) (int n) (terminal_buffer s),
      tail := (tail s)(t := tail s t - int n)\<rparr>"
  let ?m' = "(snd (copy_out (terminal_buffer s) t 0 (int n) ?m buf))(buf + of_nat n := 0)"
  have "terminal_read hs fd mem buf nbytes s0 = Some (?s', ?m', of_nat n)"
    using terminal_read_eq [OF assms(1,2) _ n(1) [symmetric], of fd mem buf] tl(1)
      copy_out_eq [of 0 "int n" "terminal_buffer s" t ?m buf] small
    by simp
  moreover have "line t ?s' = drop n (line t s)"
    using line_shift [OF n(2)] by (simp add: line_def [of t ?s'])
  moreover note copy_out_line [OF n(2) small, of ?m buf]
  ultimately show ?thesis by (intro exI [of _ "shift_line t (int n) (tail s t) (int n) (terminal_buffer s)"]) simp
qed

section \<open>Properties\<close>

text \<open>
  Typing on the active terminal edits its line as a line editor does, for any sequence of keys that
  fits the buffer: a character is appended, backspace removes the last one, enter leaves the line as it
  is; the lines of the other terminals do not change.
\<close>

theorem terminal_line_editing:
  assumes "t = unat (active_tty s)" "line_ok t s" "length (line t s) + length cs \<le> 1025"
  shows "line t (fold key cs s) = fold edit cs (line t s)
     \<and> (\<forall>u. u \<noteq> t \<longrightarrow> line_ok u s \<longrightarrow> line u (fold key cs s) = line u s)"
  using ed.type_text [of t s cs] fold_key_other [of t s cs] assms by blast

definition blank_tty :: tty_dev where
  "blank_tty = \<lparr>if_flag = True, hw_pic = pic_boot, flag = 0, dev_log = [], terminal_buffer = (\<lambda>_. 0), tail = (\<lambda>_. -1),
     enter_status = 0, active_tty = 1, scr = \<lparr>screen_x = 0, screen_y = 0, video_mem = (\<lambda>_. 0),
     screen_buf = (\<lambda>_ _. 0), screen_loc_buf = (\<lambda>_. (0, 0)), vga = []\<rparr>\<rparr>"

lemma blank_tty_line [simp]: "line t blank_tty = []" "line_ok t blank_tty" "active_tty blank_tty = 1"
  by (simp_all add: blank_tty_def line_def line_ok_def MAX_BUFFER_SIZE_def)

theorem terminal_line_editing_witness:
  "line 1 (fold key [108, 115, 8, 120, 10] blank_tty) = [108, 120] \<and> line 0 (fold key [108, 115, 8, 120, 10] blank_tty) = []"
  using terminal_line_editing [of 1 blank_tty "[108, 115, 8, 120, 10]"] by (simp add: edit_def)

text \<open>
  C30: once enter has been pressed \<open>terminal_read\<close> returns, for a size that is not negative, the first
  characters of the line of the terminal that was active when it was called, as many as fit, leaves the
  rest of the line for the next read and clears \<open>enter_status\<close>. It writes a NUL after the characters,
  which is one byte beyond the buffer when the line fills it, and no other byte. From an empty line it returns 0 and
  writes nothing, not even the NUL.
\<close>

theorem terminal_read_line:
  assumes "spin (\<lambda>s. enter_status s \<noteq> 0) hs s0 = Some s" "t = unat (active_tty s0)" "line_ok t s" "0 \<le> sint nbytes"
    "n = min (nat (sint nbytes)) (length (line t s))"
  shows "\<exists>s' m'. terminal_read hs fd mem buf nbytes s0 = Some (s', m', of_nat n)
     \<and> line t s' = drop n (line t s) \<and> enter_status s' = 0
     \<and> m' = (if line t s = [] then mem (s\<lparr>enter_status := 0\<rparr>)
            else (\<lambda>a. if unat (a - buf) < n then line t s ! unat (a - buf) else if unat (a - buf) = n then 0
                  else mem (s\<lparr>enter_status := 0\<rparr>) a))"
proof (cases "line t s = []")
  case True
  then have "tail s t = -1" using length_line [OF assms(3)] by simp
  then show ?thesis using True assms(1,2,5) by (simp add: terminal_read_def Let_def) (simp add: line_def)
next
  case False
  obtain tb where "terminal_read hs fd mem buf nbytes s0 =
      Some (s\<lparr>enter_status := 0, terminal_buffer := tb, tail := (tail s)(t := tail s t - int n)\<rparr>,
        (\<lambda>a. if unat (a - buf) < n then line t s ! unat (a - buf) else if unat (a - buf) = n then 0
             else mem (s\<lparr>enter_status := 0\<rparr>) a), of_nat n)"
    "line t (s\<lparr>enter_status := 0, terminal_buffer := tb, tail := (tail s)(t := tail s t - int n)\<rparr>) = drop n (line t s)"
    using terminal_read_taken [OF assms(1-4) False assms(5), of fd mem buf] by blast
  then show ?thesis using False by simp
qed

theorem terminal_read_line_witness:
  "\<exists>s' m'. terminal_read [key 10] 0 (\<lambda>_ _. 7) 100 4 (fold key [108, 115] blank_tty) = Some (s', m', 2)
     \<and> m' = (\<lambda>a. if unat (a - 100) < 2 then [108, 115] ! unat (a - 100) else if unat (a - 100) = 2 then 0 else 7)"
proof -
  define s where "s = fold key [108, 115] blank_tty"
  have l: "line 1 s = [108, 115]" "line_ok 1 s" "active_tty s = 1"
    using ed.type_text [of 1 blank_tty "[108, 115]"] by (simp_all add: edit_def s_def)
  have k: "line 1 (key 10 s) = [108, 115]" "line_ok 1 (key 10 s)"
    using line_key [of 1 s 10] l by (simp_all add: edit_def)
  have "enter_status s = 0" by (simp add: s_def key_def terminal_write_one Let_def blank_tty_def)
  moreover have "enter_status (key 10 s) = 1" by (simp add: key_def terminal_write_one Let_def)
  ultimately have sp: "spin (\<lambda>s. enter_status s \<noteq> 0) [key 10] s = Some (key 10 s)" by simp
  have "\<exists>s' m'. terminal_read [key 10] 0 (\<lambda>_ _. 7) 100 4 s = Some (s', m', of_nat 2)
     \<and> line 1 s' = drop 2 (line 1 (key 10 s)) \<and> enter_status s' = 0
     \<and> m' = (if line 1 (key 10 s) = [] then (\<lambda>_. 7) else (\<lambda>a. if unat (a - 100) < 2 then line 1 (key 10 s) ! unat (a - 100)
                 else if unat (a - 100) = 2 then 0 else 7))"
    by (rule terminal_read_line [OF sp _ k(2)]) (simp_all only: l k, simp_all)
  then show ?thesis unfolding s_def [symmetric] k by auto
qed

text \<open>
  C40: when the line holds 1025 characters, all its row has room for, one more key is still stored: it
  overwrites the first character of the next terminal's row, and the line counts as 1026 long.
\<close>

theorem terminal_buffer_overflow:
  assumes "t = unat (active_tty s)" "tail s t = 1024" "c \<noteq> 8" "c \<noteq> 10"
  shows "terminal_buffer (key c s) (slot (Suc t) 0) = c \<and> tail (key c s) t = 1025 \<and> \<not> line_ok t (key c s)"
  using assms by (auto simp: key_def terminal_write_one Let_def MAX_BUFFER_SIZE_def slot_def line_ok_def)

theorem terminal_buffer_overflow_witness:
  "terminal_buffer (key 65 (blank_tty\<lparr>tail := (\<lambda>_. 1024)\<rparr>)) (slot 2 0) = 65"
  using terminal_buffer_overflow [of 1 "blank_tty\<lparr>tail := (\<lambda>_. 1024)\<rparr>" 65] by (simp flip: numeral_2_eq_2)

text \<open>
  Writing to standard output prints the bytes in order and returns their number, with interrupts on
  afterwards, and changes neither the input lines nor \<open>enter_status\<close>, backspaces and newlines included;
  the screen stays well formed.
\<close>

theorem terminal_output:
  assumes "0 \<le> sint n" "screen_ok (scr s)"
  shows "\<exists>s'. terminal_write 1 m buf n s = (s', n)
     \<and> scr s' = fold putc (map (\<lambda>k. m (buf + of_nat k)) [0..<nat (sint n)]) (scr s) \<and> screen_ok (scr s')
     \<and> if_flag s' \<and> enter_status s' = enter_status s \<and> (\<forall>t. line t s' = line t s)"
  by (rule exI, intro conjI, rule terminal_write_out [OF assms(1)])
    (use con.emit_list_ok [OF assms(2)] in \<open>simp_all add: line_def\<close>)

theorem terminal_output_witness:
  "\<exists>s'. terminal_write 1 (\<lambda>a. if a = 0 then 72 else 8) 0 2 blank_tty = (s', 2) \<and> screen_ok (scr s') \<and> line 1 s' = []"
proof -
  have "screen_ok (scr blank_tty)" by (simp add: blank_tty_def screen_ok_def cursor_ok_def screen_consts)
  then show ?thesis using terminal_output [of 2 blank_tty "\<lambda>a. if a = 0 then 72 else 8" 0] by auto
qed

end
