(* ===== verification/Pcb.thy ===== *)
theory Pcb
  imports Terminal Filesys Paging
begin

text \<open>
  The kernel's state and the process control blocks of \<^verbatim>\<open>student-distrib/pcb.c\<close> and \<^verbatim>\<open>pcb.h\<close>. A control block
  lies at the bottom of its process's 8 KB kernel stack, so the kernel state keeps the blocks by address
  and \<open>get_pcb\<close> computes the current one from the stack pointer. A pointer to a table of file operations
  is the table's name. The state extends that of the terminal, so the drivers run on it as they are.
\<close>

section \<open>Model\<close>

definition FD_ARRAY_SIZE :: int where "FD_ARRAY_SIZE = 8"
definition PCB_MASK :: u32 where "PCB_MASK = 0xFFFFE000"
definition ARGS_ARR_SIZE :: int where "ARGS_ARR_SIZE = 140"
definition MAX_NUM_PROCESSES :: nat where "MAX_NUM_PROCESSES = 6"
definition EIGHT_KB :: u32 where "EIGHT_KB = 8192"
definition BYTES_IN_INT :: u32 where "BYTES_IN_INT = 4"
definition KERNEL_DS :: u32 where "KERNEL_DS = 0x0018"
definition TTY_UNOPENED :: u8 where "TTY_UNOPENED = 255"

lemmas pcb_consts = FD_ARRAY_SIZE_def PCB_MASK_def ARGS_ARR_SIZE_def MAX_NUM_PROCESSES_def EIGHT_KB_def
  BYTES_IN_INT_def KERNEL_DS_def TTY_UNOPENED_def

datatype file_op_table =
    terminal_input_jump_table | terminal_output_jump_table
  | rtc_jump_table | directory_jump_table | file_jump_table

record fd_struct =
  file_operations :: "file_op_table option"
  fd_inode_num :: i32
  file_pos :: i32
  flags :: i32
  fd_dentry :: dentry

record pcb =
  fd_array :: "nat \<Rightarrow> fd_struct"
  parent :: addr
  process_num :: i32
  parent_esp0 :: i32
  parent_ss0 :: i32
  ebp :: i32
  esp :: i32
  parent_ebp :: i32
  parent_esp :: i32
  args :: "nat \<Rightarrow> u8"
  tty :: u8

text \<open>
  The kernel: the file system image, the page tables with the addresses the two tables are linked at, the
  control blocks by address, the process and terminal tables, the task state segment, the stack and frame
  pointers, and for each process number the memory seen through the 4 MB window when its frame is mapped. The image is given by offsets
  from its start; the boot loader is taken to have put it into the kernel's page, which alone the kernel can read once paging is on.
\<close>

record kernel = tty_dev +
  boot_block :: str
  pg :: paging
  pt_addr :: addr
  pd_addr :: addr
  pcbs :: "addr \<Rightarrow> pcb"
  processes :: "nat \<Rightarrow> u32"
  curr_process :: i32
  tty_top_pid :: "nat \<Rightarrow> u8"
  next_one_is_root_shell :: u8
  tss_esp0 :: u32
  tss_ss0 :: u32
  kesp :: u32
  kebp :: u32
  umem :: "u32 \<Rightarrow> mem"

definition create_pcb :: "pcb \<Rightarrow> pcb" where
  "create_pcb pcb0 =
     (let a = fold (\<lambda>i a. a(i := (a i)\<lparr>file_operations := None, fd_inode_num := 0, file_pos := 0, flags := 0\<rparr>))
                [0..<nat FD_ARRAY_SIZE] (fd_array pcb0);
          a = a(0 := (a 0)\<lparr>file_operations := Some terminal_input_jump_table\<rparr>);
          a = a(1 := (a 1)\<lparr>file_operations := Some terminal_output_jump_table\<rparr>);
          a = a(0 := (a 0)\<lparr>flags := 1\<rparr>)
      in pcb0\<lparr>fd_array := a(1 := (a 1)\<lparr>flags := 1\<rparr>)\<rparr>)"

definition get_pcb :: "kernel \<Rightarrow> addr" where
  "get_pcb k = kesp k AND PCB_MASK"

definition curr_pcb :: "kernel \<Rightarrow> pcb" where
  "curr_pcb k = pcbs k (get_pcb k)"

text \<open>The address of the block of a process, and the top of its kernel stack.\<close>

definition pcb_loc :: "u32 \<Rightarrow> addr" where
  "pcb_loc n = KERNEL_BOTTOM - (n + 1) * EIGHT_KB"

definition kstack_top :: "u32 \<Rightarrow> addr" where
  "kstack_top n = KERNEL_BOTTOM - n * EIGHT_KB - BYTES_IN_INT"

definition on_pcb :: "addr \<Rightarrow> (pcb \<Rightarrow> pcb) \<Rightarrow> kernel \<Rightarrow> kernel" where
  "on_pcb a f k = k\<lparr>pcbs := (pcbs k)(a := f (pcbs k a))\<rparr>"

definition on_fd :: "nat \<Rightarrow> (fd_struct \<Rightarrow> fd_struct) \<Rightarrow> kernel \<Rightarrow> kernel" where
  "on_fd fd f k = on_pcb (get_pcb k) (\<lambda>p. p\<lparr>fd_array := (fd_array p)(fd := f (fd_array p fd))\<rparr>) k"

abbreviation curr_fd :: "nat \<Rightarrow> kernel \<Rightarrow> fd_struct" where
  "curr_fd fd k \<equiv> fd_array (curr_pcb k) fd"

section \<open>User memory\<close>

text \<open>
  The process whose frame the window entry of the page directory maps, and its memory. This is the memory at the addresses of the
  window, 0x08000000 to 0x083FFFFF; pointers elsewhere, which some calls do not refuse, are outside the model.
\<close>

definition window :: "paging \<Rightarrow> u32" where
  "window p = drop_bit 22 (page_dir p USER_PROGRAM_PDIR_LOC) - 2"

definition user_mem :: "kernel \<Rightarrow> mem" where
  "user_mem k = umem k (window (pg k))"

definition set_user_mem :: "mem \<Rightarrow> kernel \<Rightarrow> kernel" where
  "set_user_mem m k = k\<lparr>umem := (umem k)(window (pg k) := m)\<rparr>"

lemma user_mem_set [simp]: "user_mem (set_user_mem m k) = m"
  by (simp add: user_mem_def set_user_mem_def)

lemma window_create: "c < 1022 \<Longrightarrow> window (create_page pt c p) = c"
proof -
  assume "c < 1022"
  then have c: "unat c < 1022" by (simp add: word_less_nat_alt)
  have entry: "page_dir (create_page pt c p) 32 = frame c OR 0x87"
    by (simp add: create_page_def Let_def frame_def paging_consts or.assoc)
  have "drop_bit 22 (frame c OR 0x87) = drop_bit 22 (frame c)" by (simp add: drop_bit_or)
  also have "\<dots> = take_bit 10 (c + 2)"
    unfolding frame_push by (rule bit_word_eqI) (auto simp: bit_simps)
  also have "\<dots> = c + 2"
  proof -
    have "unat (c + 2) = unat c + 2" using c by (simp add: unat_word_ariths)
    then have "unat (take_bit 10 (c + 2)) = unat (c + 2)"
      using c by (simp add: take_bit_eq_mod unat_mod_distrib)
    then show ?thesis by (simp add: word_unat_eq_iff)
  qed
  finally show ?thesis by (simp add: window_def USER_PROGRAM_PDIR_LOC_def entry)
qed

section \<open>Control blocks and kernel stacks\<close>

lemma create_pcb_fds:
  "fd_array (create_pcb p) i =
     (if i < 8 then \<lparr>file_operations = (if i = 0 then Some terminal_input_jump_table
                        else if i = 1 then Some terminal_output_jump_table else None),
           fd_inode_num = 0, file_pos = 0, flags = (if i < 2 then 1 else 0), fd_dentry = fd_dentry (fd_array p i)\<rparr>
      else fd_array p i)"
  by (auto simp: create_pcb_def Let_def FD_ARRAY_SIZE_def upt_rec less_Suc_eq numeral_eq_Suc)

lemma pcb_mask_eq: "x AND PCB_MASK = push_bit 13 (drop_bit 13 x)"
proof -
  have mask: "PCB_MASK = NOT (mask 13)" by (simp add: PCB_MASK_def mask_eq_exp_minus_1)
  show ?thesis unfolding mask by (rule bit_word_eqI) (auto simp: bit_simps)
qed

lemma unat_pcb_mask: "unat (x AND PCB_MASK) = unat x div 8192 * 8192"
proof -
  have "unat (push_bit 13 (drop_bit 13 x)) = unat (drop_bit 13 x) * 8192 mod 4294967296"
    by (simp add: push_bit_eq_mult unat_word_ariths)
  also have "unat (drop_bit 13 x) = unat x div 8192" by (simp add: drop_bit_eq_div unat_div_distrib)
  also have "unat x div 8192 * 8192 mod 4294967296 = unat x div 8192 * 8192"
  proof -
    have "unat x div 8192 * 8192 \<le> unat x" by simp
    also have "\<dots> < 4294967296" by (rule unat_lt32)
    finally show ?thesis by simp
  qed
  finally show ?thesis by (simp add: pcb_mask_eq)
qed

lemma unat_pcb_loc: "unat n < 512 \<Longrightarrow> unat (pcb_loc n) = 0x800000 - (unat n + 1) * 8192"
proof -
  assume n: "unat n < 512"
  have "unat ((n + 1) * EIGHT_KB) = (unat n + 1) * 8192"
    using n by (simp add: unat_word_ariths EIGHT_KB_def)
  then show ?thesis
    using n by (simp add: pcb_loc_def KERNEL_BOTTOM_def unat_sub word_le_nat_alt)
qed


lemma get_pcb_on_stack:
  assumes "unat n < 512" "0x800000 - (unat n + 1) * 8192 \<le> unat (kesp k)" "unat (kesp k) < 0x800000 - unat n * 8192"
  shows "get_pcb k = pcb_loc n"
proof -
  have "unat (kesp k) div 8192 = 1023 - unat n" using assms by (intro div_nat_eqI) auto
  then have "unat (get_pcb k) = unat (pcb_loc n)"
    using assms(1) by (simp add: get_pcb_def unat_pcb_mask unat_pcb_loc)
  then show ?thesis by (simp add: word_unat_eq_iff)
qed

lemma unat_kstack_top: "unat n < 512 \<Longrightarrow> unat (kstack_top n) = 0x800000 - unat n * 8192 - 4"
proof -
  assume n: "unat n < 512"
  have "unat (n * EIGHT_KB) = unat n * 8192" using n by (simp add: unat_word_ariths EIGHT_KB_def)
  then have "unat (KERNEL_BOTTOM - n * EIGHT_KB) = 0x800000 - unat n * 8192"
    using n by (simp add: KERNEL_BOTTOM_def unat_sub word_le_nat_alt)
  then show ?thesis using n by (simp add: kstack_top_def BYTES_IN_INT_def unat_sub word_le_nat_alt)
qed

lemma pcb_loc_inject: "unat m < 512 \<Longrightarrow> unat n < 512 \<Longrightarrow> pcb_loc m = pcb_loc n \<longleftrightarrow> m = n"
proof -
  assume "unat m < 512" "unat n < 512"
  then have "unat (pcb_loc m) = unat (pcb_loc n) \<longleftrightarrow> unat m = unat n"
    by (auto simp: unat_pcb_loc)
  then show ?thesis by (simp add: word_unat_eq_iff)
qed

section \<open>Properties\<close>

text \<open>
  While the kernel runs on the stack of a process, from the top that \<open>execute\<close> and the scheduler put in
  the task state segment down to the block itself, \<open>get_pcb\<close> finds that process's control block; the
  blocks of different processes are at different addresses, inside the kernel's 4 MB page.
\<close>

theorem get_pcb_own_stack:
  assumes "unat n < 512" "pcb_loc n \<le> kesp k" "kesp k \<le> kstack_top n"
  shows "get_pcb k = pcb_loc n \<and> (\<forall>m. unat m < 512 \<longrightarrow> pcb_loc m = get_pcb k \<longrightarrow> m = n)
     \<and> 0x400000 \<le> unat (get_pcb k) \<and> unat (get_pcb k) + 8192 \<le> 0x800000"
proof -
  have "get_pcb k = pcb_loc n"
    using assms by (intro get_pcb_on_stack) (auto simp: word_le_nat_alt unat_pcb_loc unat_kstack_top)
  then show ?thesis using assms(1) by (auto simp: pcb_loc_inject unat_pcb_loc)
qed

text \<open>A kernel with the small file system image, running process 0 with only the terminal open.\<close>

definition blank_dentry :: dentry where
  "blank_dentry = \<lparr>file_name = (\<lambda>_. 0), file_type = 0, inode_num = 0, reserved = (\<lambda>_. 0)\<rparr>"

definition blank_pcb :: pcb where
  "blank_pcb = create_pcb \<lparr>fd_array = (\<lambda>_. \<lparr>file_operations = None, fd_inode_num = 0, file_pos = 0, flags = 0,
      fd_dentry = blank_dentry\<rparr>), parent = pcb_loc 0, process_num = 0, parent_esp0 = 0, parent_ss0 = 0, ebp = 0, esp = 0,
      parent_ebp = 0, parent_esp = 0, args = (\<lambda>_. 0), tty = 0\<rparr>"

definition tiny_kernel :: kernel where
  "tiny_kernel =
     \<lparr>if_flag = True, hw_pic = pic_boot, flag = 0, dev_log = [], terminal_buffer = (\<lambda>_. 0), tail = (\<lambda>_. -1),
      enter_status = 0, active_tty = 0, scr = scr blank_tty, boot_block = tiny_image,
      pg = create_page 0x407000 0 (paging_enable 0x408000 (paging_init 0x407000
             \<lparr>page_dir = \<lambda>_. 0, page_table = \<lambda>_. 0, cr0 = 1, cr3 = 0, cr4 = 0\<rparr>)),
      pt_addr = 0x407000, pd_addr = 0x408000, pcbs = (\<lambda>_. blank_pcb), processes = (\<lambda>_. 0)(0 := 1), curr_process = 0,
      tty_top_pid = (\<lambda>_. 255)(0 := 0), next_one_is_root_shell = 0, tss_esp0 = kstack_top 0, tss_ss0 = KERNEL_DS,
      kesp = kstack_top 0 - 64, kebp = kstack_top 0 - 32, umem = (\<lambda>_ _. 0)\<rparr>"

theorem get_pcb_own_stack_witness: "get_pcb tiny_kernel = pcb_loc 0"
proof -
  have "pcb_loc 0 \<le> kesp tiny_kernel" "kesp tiny_kernel \<le> kstack_top 0"
    by (simp_all add: tiny_kernel_def pcb_loc_def kstack_top_def pcb_consts KERNEL_BOTTOM_def)
  then show ?thesis using get_pcb_own_stack [of 0 tiny_kernel] by simp
qed

end
