(* ===== verification/FileOps.thy ===== *)
theory FileOps
  imports Pcb
begin

text \<open>
  Descriptors: the file and directory operations of \<^verbatim>\<open>student-distrib/filesys.c\<close> that go through the current
  control block, the dispatch through the jump tables, and the system calls \<open>read\<close>, \<open>write\<close>, \<open>open\<close> and
  \<open>close\<close> of \<^verbatim>\<open>student-distrib/system.c\<close>. \<open>None\<close> as a result means that the call does not return: it waits
  for ever or faults. What the code takes from outside the model (uninitialised locals, the byte read
  from the clock's port, the interrupt handlers that run during a wait, the register \<open>ebx\<close> from which \<open>close\<close>
  takes its argument when \<open>halt\<close> calls it) is the record \<open>env\<close>.
\<close>

section \<open>Model\<close>

record env =
  uninit_dentry :: dentry
  uninit_rate :: i32
  uninit_pcb :: pcb
  uninit_buf :: str
  cmos_in :: u8
  waits :: "(kernel \<Rightarrow> kernel) list"
  close_ebx :: "nat \<Rightarrow> i32"

definition fd_bad :: "i32 \<Rightarrow> bool" where
  "fd_bad fd \<longleftrightarrow> sint fd < 0 \<or> sint fd \<ge> FD_ARRAY_SIZE"

definition file_read :: "i32 \<Rightarrow> addr \<Rightarrow> i32 \<Rightarrow> kernel \<Rightarrow> kernel \<times> i32" where
  "file_read fd buf nbytes k =
     (if fd_bad fd then (k, -1)
      else let f = curr_fd (unat fd) k;
               (bytes_read, b) = read_data (boot_block k) (fd_inode_num f) (file_pos f) (view (user_mem k) buf) nbytes
           in (on_fd (unat fd) (\<lambda>f. f\<lparr>file_pos := file_pos f + bytes_read\<rparr>) (set_user_mem (unview buf b) k),
               bytes_read))"

definition file_write :: "i32 \<Rightarrow> i32" where
  "file_write fd = (if fd_bad fd then -1 else -1)"

definition file_open :: i32 where "file_open = 0"
definition file_close :: "i32 \<Rightarrow> i32" where "file_close fd = 0"

text \<open>The loop of \<open>dir_read\<close> over all 32 characters of the name.\<close>

definition copy_name :: "str \<Rightarrow> i32 \<Rightarrow> str \<Rightarrow> str \<times> i32" where
  "copy_name name nbytes temp =
     fold (\<lambda>i (t, n). if name (of_nat i) \<noteq> 0 \<and> int i < sint nbytes
                     then (t(of_nat i := name (of_nat i)), n + 1) else (t(of_nat i := 0), n))
       [0..<unat FILE_NAME_SIZE] (temp, 0)"

definition dir_read :: "env \<Rightarrow> i32 \<Rightarrow> addr \<Rightarrow> i32 \<Rightarrow> kernel \<Rightarrow> kernel \<times> i32" where
  "dir_read e fd buf nbytes k =
     (if fd_bad fd then (k, -1)
      else case read_dentry_by_index (boot_block k) (file_pos (curr_fd (unat fd) k)) (Some (uninit_dentry e)) of
        (success, d) \<Rightarrow>
          if success = -1 then (k, -1)
          else let (temp, bytes_read) = copy_name (file_name (the d)) nbytes (view (user_mem k) buf)
               in (on_fd (unat fd) (\<lambda>f. f\<lparr>file_pos := file_pos f + 1\<rparr>) (set_user_mem (unview buf temp) k), bytes_read))"

definition dir_write :: "i32 \<Rightarrow> i32" where
  "dir_write fd = (if fd_bad fd then -1 else -1)"

definition dir_open :: i32 where "dir_open = 0"
definition dir_close :: "i32 \<Rightarrow> i32" where "dir_close fd = (if fd_bad fd then -1 else 0)"

text \<open>The calls through the jump tables.\<close>

fun op_read :: "env \<Rightarrow> file_op_table \<Rightarrow> i32 \<Rightarrow> addr \<Rightarrow> i32 \<Rightarrow> kernel \<Rightarrow> (kernel \<times> i32) option" where
  "op_read e terminal_input_jump_table fd buf nbytes k =
     map_option (\<lambda>(k', m, r). (set_user_mem m k', r)) (terminal_read (waits e) fd user_mem buf nbytes k)"
| "op_read e terminal_output_jump_table fd buf nbytes k = Some (k, null_func)"
| "op_read e rtc_jump_table fd buf nbytes k = rtc_read (waits e) fd k"
| "op_read e directory_jump_table fd buf nbytes k = Some (dir_read e fd buf nbytes k)"
| "op_read e file_jump_table fd buf nbytes k = Some (file_read fd buf nbytes k)"

fun op_write :: "env \<Rightarrow> file_op_table \<Rightarrow> i32 \<Rightarrow> addr \<Rightarrow> i32 \<Rightarrow> kernel \<Rightarrow> (kernel \<times> i32) option" where
  "op_write e terminal_input_jump_table fd buf nbytes k = Some (k, null_func)"
| "op_write e terminal_output_jump_table fd buf nbytes k = Some (terminal_write fd (user_mem k) buf nbytes k)"
| "op_write e rtc_jump_table fd buf nbytes k = rtc_write (cmos_in e) (uninit_rate e) fd (user_mem k) buf nbytes k"
| "op_write e directory_jump_table fd buf nbytes k = Some (k, dir_write fd)"
| "op_write e file_jump_table fd buf nbytes k = Some (k, file_write fd)"

fun op_open :: "env \<Rightarrow> file_op_table \<Rightarrow> kernel \<Rightarrow> kernel \<times> i32" where
  "op_open e terminal_input_jump_table k = terminal_open k"
| "op_open e terminal_output_jump_table k = terminal_open k"
| "op_open e rtc_jump_table k = rtc_open (cmos_in e) k"
| "op_open e directory_jump_table k = (k, dir_open)"
| "op_open e file_jump_table k = (k, file_open)"

fun op_close :: "file_op_table \<Rightarrow> i32 \<Rightarrow> kernel \<Rightarrow> kernel \<times> i32" where
  "op_close terminal_input_jump_table fd k = terminal_close fd k"
| "op_close terminal_output_jump_table fd k = terminal_close fd k"
| "op_close rtc_jump_table fd k = rtc_close fd k"
| "op_close directory_jump_table fd k = (k, dir_close fd)"
| "op_close file_jump_table fd k = (k, file_close fd)"

definition sys_read :: "env \<Rightarrow> i32 \<Rightarrow> addr \<Rightarrow> i32 \<Rightarrow> kernel \<Rightarrow> (kernel \<times> i32) option" where
  "sys_read e fd buf nbytes k =
     (if fd_bad fd then Some (k, -1)
      else let f = curr_fd (unat fd) k in
        if flags f = 0 then Some (k, -1)
        else case file_operations f of
          Some t \<Rightarrow> op_read e t fd buf nbytes k
        | None \<Rightarrow>
            if file_type (fd_dentry f) = 1
            then let (r, b) = read_data (boot_block k) (fd_inode_num f) (file_pos f) (view (user_mem k) buf) nbytes
                 in Some (on_fd (unat fd) (\<lambda>f. f\<lparr>file_pos := file_pos f + r\<rparr>) (set_user_mem (unview buf b) k), r)
            else Some (k, 0))"

definition sys_write :: "env \<Rightarrow> i32 \<Rightarrow> addr \<Rightarrow> i32 \<Rightarrow> kernel \<Rightarrow> (kernel \<times> i32) option" where
  "sys_write e fd buf nbytes k =
     (if fd_bad fd then Some (k, -1)
      else let f = curr_fd (unat fd) k in
        if flags f = 1
        then do { t \<leftarrow> file_operations f; op_write e t fd buf nbytes k }
        else Some (k, -1))"

text \<open>The search for a free descriptor of \<open>open\<close>: the first with no flags set, from 2 on.\<close>

definition free_fd :: "kernel \<Rightarrow> nat option" where
  "free_fd k = find (\<lambda>i. flags (curr_fd i k) = 0) [2..<nat FD_ARRAY_SIZE]"

text \<open>A pointer to a name, null when it is 0.\<close>

definition str_at :: "kernel \<Rightarrow> addr \<Rightarrow> str option" where
  "str_at k p = (if p = 0 then None else Some (view (user_mem k) p))"

definition sys_open :: "env \<Rightarrow> addr \<Rightarrow> kernel \<Rightarrow> (kernel \<times> i32) option" where
  "sys_open e filename k =
     (case free_fd k of
        None \<Rightarrow> Some (k, -1)
      | Some fd_idx \<Rightarrow>
          do {
            (r, d) \<leftarrow> read_dentry_by_name (boot_block k) (str_at k filename) (Some (uninit_dentry e));
            if r = -1 then Some (k, -1)
            else
              let dentry = the d;
                  entry = (\<lambda>n t f. f\<lparr>fd_inode_num := n, file_pos := 0, flags := 1, file_operations := Some t\<rparr>)
              in if file_type dentry = 0
                 then Some (fst (op_open e rtc_jump_table (on_fd fd_idx (entry 0 rtc_jump_table) k)), of_nat fd_idx)
                 else if file_type dentry = 1
                 then Some (fst (op_open e directory_jump_table (on_fd fd_idx (entry 0 directory_jump_table) k)), of_nat fd_idx)
                 else if file_type dentry = 2
                 then Some (fst (op_open e file_jump_table (on_fd fd_idx (entry (inode_num dentry) file_jump_table) k)),
                            of_nat fd_idx)
                 else Some (k, 0)
          })"

definition sys_close :: "i32 \<Rightarrow> kernel \<Rightarrow> kernel \<times> i32" where
  "sys_close fd k0 =
     (let k = cli k0 in
      if sint fd < 2 \<or> sint fd \<ge> FD_ARRAY_SIZE then (k, -1)
      else if flags (curr_fd (unat fd) k) = 0 then (k, -1)
      else let k1 = on_fd (unat fd) (\<lambda>f. f\<lparr>flags := 0\<rparr>) k in
        case file_operations (curr_fd (unat fd) k1) of
          None \<Rightarrow> (k1, 0)
        | Some t \<Rightarrow> (case op_close t fd k1 of (k2, r) \<Rightarrow> if r \<noteq> 0 then (k2, -1) else (k2, 0)))"


section \<open>Descriptors under the operations\<close>

named_theorems fd_simps \<open>the current control block under the operations\<close>

lemma get_pcb_frame [fd_simps]:
  "get_pcb (set_user_mem m k) = get_pcb k" "get_pcb (on_pcb a f k) = get_pcb k" "get_pcb (on_fd i g k) = get_pcb k"
  "get_pcb (cli k) = get_pcb k" "get_pcb (sti k) = get_pcb k" "get_pcb (on_scr h k) = get_pcb k"
  "get_pcb (on_pic q k) = get_pcb k" "get_pcb (outb d p k) = get_pcb k" "get_pcb (set_rate pr r k) = get_pcb k"
  "get_pcb (tail_update ta k) = get_pcb k" "get_pcb (enter_status_update es k) = get_pcb k"
  "get_pcb (terminal_buffer_update tb k) = get_pcb k" "get_pcb (flag_update fl k) = get_pcb k"
  by (simp_all add: get_pcb_def set_user_mem_def on_pcb_def on_fd_def hw_defs on_scr_def set_rate_def)

lemma pcbs_frame [fd_simps]:
  "pcbs (set_user_mem m k) = pcbs k" "pcbs (cli k) = pcbs k" "pcbs (sti k) = pcbs k" "pcbs (on_scr h k) = pcbs k"
  "pcbs (on_pic q k) = pcbs k" "pcbs (outb d p k) = pcbs k" "pcbs (set_rate pr r k) = pcbs k"
  by (simp_all add: set_user_mem_def hw_defs on_scr_def set_rate_def)

lemma curr_pcb_frame [fd_simps]:
  "curr_pcb (set_user_mem m k) = curr_pcb k" "curr_pcb (cli k) = curr_pcb k" "curr_pcb (sti k) = curr_pcb k"
  "curr_pcb (on_scr h k) = curr_pcb k" "curr_pcb (on_pic q k) = curr_pcb k" "curr_pcb (outb d p k) = curr_pcb k"
  "curr_pcb (set_rate pr r k) = curr_pcb k" "curr_pcb (tail_update ta k) = curr_pcb k"
  "curr_pcb (enter_status_update es k) = curr_pcb k" "curr_pcb (terminal_buffer_update tb k) = curr_pcb k"
  "curr_pcb (flag_update fl k) = curr_pcb k"
  by (simp_all add: curr_pcb_def fd_simps)

lemma curr_fd_on_fd [fd_simps]:
  "curr_fd j (on_fd i f k) = (if j = i then f (curr_fd i k) else curr_fd j k)"
  by (simp add: curr_pcb_def on_fd_def on_pcb_def get_pcb_def)

lemma boot_block_frame [fd_simps]:
  "boot_block (set_user_mem m k) = boot_block k" "boot_block (on_fd i f k) = boot_block k" "boot_block (cli k) = boot_block k"
  by (simp_all add: set_user_mem_def on_fd_def on_pcb_def cli_def)

lemma user_mem_frame [fd_simps]:
  "user_mem (on_fd i f k) = user_mem k" "user_mem (cli k) = user_mem k"
  by (simp_all add: user_mem_def on_fd_def on_pcb_def cli_def)

lemma fd_good: "\<not> fd_bad fd \<Longrightarrow> unat fd < 8 \<and> sint fd = int (unat fd)"
proof -
  assume "\<not> fd_bad fd"
  then have s: "0 \<le> sint fd" "sint fd < 8" by (simp_all add: fd_bad_def FD_ARRAY_SIZE_def)
  have "fd = of_int (sint fd)" by simp
  with s have "fd = of_nat (nat (sint fd))" by simp
  then have "unat fd = nat (sint fd)" using s unat_of_nat32 [of "nat (sint fd)"] by simp
  then show ?thesis using s by simp
qed

lemma fd_range:
  assumes "2 \<le> sint fd" "sint fd < 8"
  shows "2 \<le> unat (fd :: i32)" "unat fd < 8"
proof -
  have "\<not> fd_bad fd" using assms by (simp add: fd_bad_def FD_ARRAY_SIZE_def)
  from fd_good [OF this] show "2 \<le> unat fd" "unat fd < 8" using assms(1) by linarith+
qed

lemma fd_of_nat: "i < 8 \<Longrightarrow> \<not> fd_bad (of_nat i)"
  by (simp add: fd_bad_def FD_ARRAY_SIZE_def sint_of_nat32)

text \<open>
  A well-formed table: an entry is free or in use, one in use has its operations, and the first two
  are the terminal's.
\<close>

definition fds_ok :: "pcb \<Rightarrow> bool" where
  "fds_ok p \<longleftrightarrow>
     (\<forall>i < 8. flags (fd_array p i) \<in> {0, 1} \<and> (flags (fd_array p i) = 1 \<longrightarrow> file_operations (fd_array p i) \<noteq> None))
     \<and> flags (fd_array p 0) = 1 \<and> file_operations (fd_array p 0) = Some terminal_input_jump_table
     \<and> flags (fd_array p 1) = 1 \<and> file_operations (fd_array p 1) = Some terminal_output_jump_table"

lemma create_pcb_ok: "fds_ok (create_pcb p)"
  by (simp add: fds_ok_def create_pcb_fds)

lemma fds_ok_on_fd:
  assumes "fds_ok (curr_pcb k)" "i < 8" "2 \<le> i \<or> (\<forall>f. flags (g f) = flags f \<and> file_operations (g f) = file_operations f)"
    "flags (g (curr_fd i k)) \<in> {0, 1}" "flags (g (curr_fd i k)) = 1 \<longrightarrow> file_operations (g (curr_fd i k)) \<noteq> None"
  shows "fds_ok (curr_pcb (on_fd i g k))"
  using assms unfolding fds_ok_def by (auto simp: fd_simps)


text \<open>The descriptors of the current process.\<close>

abbreviation fds :: "kernel \<Rightarrow> nat \<Rightarrow> fd_struct" where
  "fds k \<equiv> fd_array (curr_pcb k)"

text \<open>The interrupt handlers that run while a process waits leave its descriptors alone.\<close>

definition keep_fds :: "env \<Rightarrow> bool" where
  "keep_fds e \<longleftrightarrow> (\<forall>h k. h \<in> set (waits e) \<longrightarrow> fds (h k) = fds k)"

lemma fds_ok_cong: "fd_array p = fd_array q \<Longrightarrow> fds_ok p = fds_ok q"
  by (simp add: fds_ok_def)

lemma terminal_write_loop_fds: "curr_pcb (fst (terminal_write_loop t fd m b n i k)) = curr_pcb k"
proof (induction "nat (n + 1 - i)" arbitrary: i k)
  case 0
  then show ?case by (subst terminal_write_loop.simps) (simp add: curr_pcb_frame)
next
  case (Suc d)
  then have d: "d = nat (n + 1 - (i + 1))" "i \<le> n" by linarith+
  show ?case
    using d(2) by (subst terminal_write_loop.simps) (simp add: Let_def Suc.hyps(1) [OF d(1)] curr_pcb_frame)
qed

lemma terminal_read_fds:
  assumes "keep_fds e" "terminal_read (waits e) fd mem b n k = Some (k', m, r)"
  shows "fds k' = fds k"
  using assms
  by (auto simp: terminal_read_def Let_def fd_simps bind_eq_Some_conv keep_fds_def case_prod_unfold split: if_splits
      dest!: spin_keeps [where g = fds])

lemma rtc_read_fds:
  assumes "keep_fds e" "rtc_read (waits e) fd k = Some (k', r)"
  shows "fds k' = fds k"
  using assms
  by (auto simp: rtc_read_def fd_simps bind_eq_Some_conv keep_fds_def dest!: spin_keeps [where g = fds])

lemma rtc_write_fds: "rtc_write p j fd m b n k = Some (k', r) \<Longrightarrow> fds k' = fds k"
  by (auto simp: rtc_write_def Let_def fd_simps bind_eq_Some_conv split: if_splits)

lemma op_write_fds: "op_write e t fd b n k = Some (k', r) \<Longrightarrow> fds k' = fds k"
  using terminal_write_loop_fds [of "unat (active_tty k)" fd "user_mem k" b "sint n" 1 "cli k"]
  by (cases t) (auto simp: terminal_write_def fd_simps dest: rtc_write_fds)

lemma op_open_fds: "fds (fst (op_open e t k)) = fds k"
  by (cases t) (simp_all add: terminal_open_def rtc_open_def fd_simps)

lemma op_close_fds: "fds (fst (op_close t fd k)) = fds k"
  by (cases t) (simp_all add: terminal_close_def rtc_close_def fd_simps)

text \<open>Every call of the descriptor interface keeps the table well formed.\<close>

lemma op_read_ok:
  assumes "keep_fds e" "fds_ok (curr_pcb k)" "\<not> fd_bad fd" "op_read e t fd b n k = Some (k', r)"
  shows "fds_ok (curr_pcb k')"
proof -
  have moved: "fds_ok (curr_pcb (on_fd (unat fd) (\<lambda>f. f\<lparr>file_pos := file_pos f + x\<rparr>) (set_user_mem m k)))" for x m
    using assms(2) fd_good [OF assms(3)] fds_ok_on_fd [of "set_user_mem m k" "unat fd"]
    by (auto simp: fd_simps fds_ok_def)
  have same: "fds_ok (curr_pcb k')" if "fds k' = fds k" using fds_ok_cong [OF that] assms(2) by simp
  show ?thesis
  proof (cases t)
    case terminal_input_jump_table
    with assms(4) obtain k1 m where k1: "terminal_read (waits e) fd user_mem b n k = Some (k1, m, r)"
      "k' = set_user_mem m k1" by auto
    show ?thesis using terminal_read_fds [OF assms(1) k1(1)] by (intro same) (simp add: k1(2) fd_simps)
  next
    case rtc_jump_table
    with assms(4) have "rtc_read (waits e) fd k = Some (k', r)" by simp
    from rtc_read_fds [OF assms(1) this] show ?thesis by (rule same)
  next
    case directory_jump_table
    with assms(4) have "k' = fst (dir_read e fd b n k)" by (cases "dir_read e fd b n k") simp
    then show ?thesis
      using assms(2) moved by (simp add: dir_read_def Let_def case_prod_unfold split: if_splits)
  next
    case file_jump_table
    with assms(4) have "k' = fst (file_read fd b n k)" by (cases "file_read fd b n k") simp
    then show ?thesis
      using assms(2) moved by (simp add: file_read_def Let_def case_prod_unfold split: if_splits)
  next
    case terminal_output_jump_table
    then show ?thesis using assms(2,4) by simp
  qed
qed


lemma sys_read_ok:
  assumes "keep_fds e" "fds_ok (curr_pcb k)" "sys_read e fd b n k = Some (k', r)"
  shows "fds_ok (curr_pcb k')"
proof (cases "fd_bad fd \<or> flags (curr_fd (unat fd) k) = 0")
  case True
  then have "k' = k" using assms(3) by (cases "fd_bad fd") (simp_all add: sys_read_def Let_def)
  then show ?thesis using assms(2) by simp
next
  case False
  then obtain t where "file_operations (curr_fd (unat fd) k) = Some t"
    using assms(2) fd_good [of fd] by (auto simp: fds_ok_def)
  then show ?thesis using False assms op_read_ok [OF assms(1,2), of fd t b n k' r] by (simp add: sys_read_def Let_def)
qed

lemma sys_write_ok:
  assumes "fds_ok (curr_pcb k)" "sys_write e fd b n k = Some (k', r)"
  shows "fds_ok (curr_pcb k')"
proof -
  have "fds k' = fds k"
    using assms(2) by (auto simp: sys_write_def Let_def bind_eq_Some_conv split: if_splits dest: op_write_fds)
  from fds_ok_cong [OF this] show ?thesis using assms(1) by simp
qed

lemma free_fd_SomeD:
  assumes "free_fd k = Some i"
  shows "2 \<le> i" "i < 8" "flags (curr_fd i k) = 0" "\<And>j. 2 \<le> j \<Longrightarrow> j < i \<Longrightarrow> flags (curr_fd j k) \<noteq> 0"
proof -
  from assms [unfolded free_fd_def find_Some_iff] obtain n where n: "n < length [2..<8]" "flags (curr_fd ([2..<8] ! n) k) = 0" "i = [2..<8] ! n"
    "\<forall>j < n. flags (curr_fd ([2..<8] ! j) k) \<noteq> 0"
    unfolding FD_ARRAY_SIZE_def by (metis nat_numeral)
  then have i: "i = n + 2" "n < 6" by (simp_all only: length_upt nth_upt)
  with n show "2 \<le> i" "i < 8" "flags (curr_fd i k) = 0" by auto
  fix j assume "2 \<le> j" "j < i"
  with i have lt: "j - 2 < n" "2 + (j - 2) < 8" "2 + (j - 2) = j" by linarith+
  then have j: "j - 2 < n" "[2..<8] ! (j - 2) = j" by (simp_all only: nth_upt)
  with n(4) show "flags (curr_fd j k) \<noteq> 0" by metis
qed

definition opened :: "u32 \<Rightarrow> file_op_table \<Rightarrow> fd_struct \<Rightarrow> fd_struct" where
  "opened n t f = f\<lparr>fd_inode_num := n, file_pos := 0, flags := 1, file_operations := Some t\<rparr>"

lemma opened_ok:
  "fds_ok (curr_pcb k) \<Longrightarrow> 2 \<le> i \<Longrightarrow> i < 8 \<Longrightarrow> fds_ok (curr_pcb (on_fd i (opened n t) k))"
  by (rule fds_ok_on_fd) (auto simp: opened_def)

lemma sys_open_cases:
  assumes "sys_open e p k = Some (k', r)"
  shows "k' = k \<or> (\<exists>i n t. free_fd k = Some i \<and> fds k' = fds (on_fd i (opened n t) k) \<and> r = of_nat i)"
  using assms
  by (auto simp: sys_open_def Let_def bind_eq_Some_conv opened_def [abs_def, symmetric] rtc_open_def dir_open_def
      file_open_def curr_pcb_frame split: option.splits if_splits, blast)

lemma sys_open_ok:
  assumes "fds_ok (curr_pcb k)" "sys_open e p k = Some (k', r)"
  shows "fds_ok (curr_pcb k')"
  using sys_open_cases [OF assms(2)] assms(1) opened_ok [OF assms(1)] free_fd_SomeD(1,2) [of k]
  by (metis fds_ok_cong)

abbreviation closed :: "nat \<Rightarrow> kernel \<Rightarrow> kernel" where
  "closed i k \<equiv> on_fd i (\<lambda>f. f\<lparr>flags := 0\<rparr>) (cli k)"

lemma sys_close_eq:
  assumes "2 \<le> sint fd" "sint fd < 8" "flags (curr_fd (unat fd) k) \<noteq> 0"
  shows "sys_close fd k =
     (case file_operations (curr_fd (unat fd) k) of
        None \<Rightarrow> (closed (unat fd) k, 0)
      | Some t \<Rightarrow> (fst (op_close t fd (closed (unat fd) k)),
                   if snd (op_close t fd (closed (unat fd) k)) \<noteq> 0 then -1 else 0))"
  using assms
  by (simp add: sys_close_def Let_def FD_ARRAY_SIZE_def fd_simps case_prod_unfold split: option.split)

lemma sys_close_fds:
  assumes "2 \<le> sint fd" "sint fd < 8" "flags (curr_fd (unat fd) k) \<noteq> 0"
  shows "fds (fst (sys_close fd k)) = (fds k)(unat fd := (curr_fd (unat fd) k)\<lparr>flags := 0\<rparr>)"
proof -
  have "fds (closed (unat fd) k) = (fds k)(unat fd := (curr_fd (unat fd) k)\<lparr>flags := 0\<rparr>)"
    by (rule ext) (simp add: fd_simps)
  then show ?thesis by (simp add: sys_close_eq [OF assms] op_close_fds split: option.split)
qed

lemma sys_close_refused:
  "sint fd < 2 \<or> sint fd \<ge> 8 \<or> flags (curr_fd (unat fd) k) = 0 \<Longrightarrow> sys_close fd k = (cli k, -1)"
  by (auto simp: sys_close_def Let_def FD_ARRAY_SIZE_def curr_pcb_frame)

lemma sys_close_ok:
  assumes "fds_ok (curr_pcb k)"
  shows "fds_ok (curr_pcb (fst (sys_close fd k)))"
proof (cases "sint fd < 2 \<or> sint fd \<ge> 8 \<or> flags (curr_fd (unat fd) k) = 0")
  case True
  then show ?thesis using assms by (simp add: sys_close_refused curr_pcb_frame)
next
  case False
  then have fd: "2 \<le> unat fd" "unat fd < 8" using fd_range [of fd] by linarith+
  have "fds_ok (curr_pcb (closed (unat fd) k))"
    by (rule fds_ok_on_fd) (use assms fd in \<open>simp_all add: curr_pcb_frame\<close>)
  moreover have "fds (closed (unat fd) k) = fds (fst (sys_close fd k))"
    using False sys_close_fds [of fd k] by (simp add: fd_simps fun_eq_iff)
  ultimately show ?thesis using fds_ok_cong by blast
qed


section \<open>The descriptor interface\<close>

datatype fd_request = Read i32 addr i32 | Write i32 addr i32 | Open addr | Close i32

fun fd_call :: "env \<Rightarrow> fd_request \<Rightarrow> kernel \<Rightarrow> (kernel \<times> i32) option" where
  "fd_call e (Read fd buf nbytes) k = sys_read e fd buf nbytes k"
| "fd_call e (Write fd buf nbytes) k = sys_write e fd buf nbytes k"
| "fd_call e (Open filename) k = sys_open e filename k"
| "fd_call e (Close fd) k = Some (sys_close fd k)"

text \<open>
  The requests whose buffer lies in the process's 4 MB window. \<open>read\<close> does not test its pointer: with one into the kernel's page
  it would overwrite the control block itself, which the model, whose user memory is apart from the kernel's state,
  does not show. A directory read stores 32 bytes whatever the size, a terminal read one more than it.
\<close>

definition in_window :: "addr \<Rightarrow> nat \<Rightarrow> bool" where
  "in_window a n \<longleftrightarrow> 0x08000000 \<le> unat a \<and> unat a + n \<le> 0x08400000"

fun inside :: "fd_request \<Rightarrow> bool" where
  "inside (Read fd buf nbytes) = in_window buf (max 32 (unat nbytes + 1))"
| "inside (Write fd buf nbytes) = in_window buf (unat nbytes)"
| "inside (Open filename) = in_window filename 1"
| "inside (Close fd) = True"

text \<open>
  Calls that return a result and keep an invariant; a client that makes any number of them finds the
  invariant afterwards.
\<close>

primrec run_calls :: "('c \<Rightarrow> 's \<Rightarrow> ('s \<times> i32) option) \<Rightarrow> 'c list \<Rightarrow> 's \<Rightarrow> ('s \<times> i32 list) option" where
  "run_calls call [] s = Some (s, [])"
| "run_calls call (c # cs) s =
     do { (s', r) \<leftarrow> call c s; (s'', rs) \<leftarrow> run_calls call cs s'; Some (s'', r # rs) }"

locale call_interface =
  fixes ok :: "'s \<Rightarrow> bool"
    and call :: "'c \<Rightarrow> 's \<Rightarrow> ('s \<times> i32) option"
  assumes call_ok: "ok s \<Longrightarrow> call c s = Some (s', r) \<Longrightarrow> ok s'"
begin

lemma run_calls_ok: "ok s \<Longrightarrow> run_calls call cs s = Some (s', rs) \<Longrightarrow> ok s'"
  by (induction cs arbitrary: s rs) (auto simp: bind_eq_Some_conv dest: call_ok)

end

interpretation fdc: call_interface "\<lambda>k. fds_ok (curr_pcb k) \<and> keep_fds e" "fd_call e" for e
proof
  fix k c k' r
  assume ok: "fds_ok (curr_pcb k) \<and> keep_fds e" and call: "fd_call e c k = Some (k', r)"
  then show "fds_ok (curr_pcb k') \<and> keep_fds e"
  proof (cases c)
    case (Close fd)
    with call have "k' = fst (sys_close fd k)" by simp
    then show ?thesis using ok sys_close_ok by blast
  qed (auto intro: sys_read_ok sys_write_ok sys_open_ok)
qed

section \<open>Reading files and directories through a descriptor\<close>

text \<open>Descriptor \<open>fd\<close> is open on the regular file \<open>inode\<close>, at position \<open>p\<close>.\<close>

definition reading :: "kernel \<Rightarrow> i32 \<Rightarrow> u32 \<Rightarrow> nat \<Rightarrow> bool" where
  "reading k fd inode p \<longleftrightarrow> \<not> fd_bad fd \<and> flags (curr_fd (unat fd) k) \<noteq> 0
     \<and> file_operations (curr_fd (unat fd) k) = Some file_jump_table \<and> fd_inode_num (curr_fd (unat fd) k) = inode
     \<and> file_pos (curr_fd (unat fd) k) = of_nat p \<and> inode \<le> num_inodes (boot_block k)
     \<and> p \<le> length (file_bytes (boot_block k) inode)"

lemma read_data_view:
  assumes "inode \<le> num_inodes img" "p \<le> length (file_bytes img inode)"
  shows "read_data img inode (of_nat p) (view m buf) n =
     (of_nat (min (unat n) (length (file_bytes img inode) - p)),
      view (\<lambda>a. if unat (a - buf) < min (unat n) (length (file_bytes img inode) - p)
                then file_bytes img inode ! (p + unat (a - buf)) else m a) buf)"
proof -
  have p: "p < 4294967296" using assms(2) unat_lt32 [of "inode_length img inode"] by simp
  have "avail img inode (of_nat p) n = min (unat n) (length (file_bytes img inode) - p)"
    using p by (simp add: avail_def)
  moreover have "data_byte img inode (of_nat p + x) = file_bytes img inode ! (p + unat x)"
    if "unat x < length (file_bytes img inode) - p" for x
    using that nth_file_bytes [of "p + unat x" img inode] by simp
  ultimately show ?thesis
    by (auto simp: read_data_eq [OF assms(1)] fill_apply view_apply fun_eq_iff)
qed

lemma sys_read_file:
  assumes "reading k fd inode p" "m = min (unat n) (length (file_bytes (boot_block k) inode) - p)"
  shows "\<exists>k'. sys_read e fd buf n k = Some (k', of_nat m) \<and> reading k' fd inode (p + m) \<and> boot_block k' = boot_block k
     \<and> user_mem k' = (\<lambda>a. if unat (a - buf) < m then file_bytes (boot_block k) inode ! (p + unat (a - buf)) else user_mem k a)
     \<and> (\<forall>i. i \<noteq> unat fd \<longrightarrow> fds k' i = fds k i)"
proof -
  note r = assms(1) [unfolded reading_def]
  let ?m' = "\<lambda>a. if unat (a - buf) < m then file_bytes (boot_block k) inode ! (p + unat (a - buf)) else user_mem k a"
  let ?k' = "on_fd (unat fd) (\<lambda>f. f\<lparr>file_pos := file_pos f + of_nat m\<rparr>) (set_user_mem ?m' k)"
  have "sys_read e fd buf n k = Some (?k', of_nat m)"
    using r read_data_view [of inode "boot_block k" p "user_mem k" buf n, folded assms(2)]
    by (simp add: sys_read_def Let_def file_read_def)
  moreover have "reading ?k' fd inode (p + m)" using r assms(2) by (auto simp: reading_def fd_simps)
  ultimately show ?thesis by (intro exI [of _ ?k']) (simp add: fd_simps)
qed

text \<open>A sequence of reads into the same buffer, and the bytes they bring.\<close>

primrec fd_reads :: "env \<Rightarrow> i32 \<Rightarrow> addr \<Rightarrow> i32 list \<Rightarrow> kernel \<Rightarrow> (kernel \<times> u8 list) option" where
  "fd_reads e fd buf [] k = Some (k, [])"
| "fd_reads e fd buf (n # ns) k =
     do {
       (k', r) \<leftarrow> sys_read e fd buf n k;
       (k'', bs) \<leftarrow> fd_reads e fd buf ns k';
       Some (k'', map (\<lambda>i. user_mem k' (buf + of_nat i)) [0..<unat r] @ bs)
     }"

lemma fd_reads_file:
  "reading k fd inode p \<Longrightarrow>
    \<exists>k'. fd_reads e fd buf ns k = Some (k', take (sum_list (map unat ns)) (drop p (file_bytes (boot_block k) inode)))"
proof (induction ns arbitrary: k p)
  case (Cons n ns)
  let ?bs = "file_bytes (boot_block k) inode"
  define m where "m = min (unat n) (length ?bs - p)"
  from sys_read_file [OF Cons.prems m_def, of e buf] obtain k1 where k1: "sys_read e fd buf n k = Some (k1, of_nat m)"
    "reading k1 fd inode (p + m)" "boot_block k1 = boot_block k"
    "user_mem k1 = (\<lambda>a. if unat (a - buf) < m then ?bs ! (p + unat (a - buf)) else user_mem k a)" by auto
  from Cons.IH [OF k1(2)] obtain k2 where
    k2: "fd_reads e fd buf ns k1 = Some (k2, take (sum_list (map unat ns)) (drop (p + m) ?bs))" by (auto simp: k1(3))
  have "m < 4294967296" using unat_lt32 [of n] by (simp add: m_def)
  then have "map (\<lambda>i. user_mem k1 (buf + of_nat i)) [0..<unat (of_nat m :: u32)] = map (\<lambda>i. ?bs ! (p + i)) [0..<m]"
    by (simp add: k1(4))
  also have "\<dots> = take (unat n) (drop p ?bs)"
    by (rule nth_equalityI) (auto simp: m_def)
  finally have "map (\<lambda>i. user_mem k1 (buf + of_nat i)) [0..<unat (of_nat m :: u32)] = take (unat n) (drop p ?bs)" .
  moreover have "take (unat n) (drop p ?bs) @ take (sum_list (map unat ns)) (drop (p + m) ?bs)
      = take (unat n + sum_list (map unat ns)) (drop p ?bs)"
    by (simp add: take_add m_def min_def add.commute)
  ultimately show ?case by (simp add: k1(1) k2)
qed simp

text \<open>The name of a directory entry as \<open>dir_read\<close> copies it.\<close>

lemma copy_name_upto:
  fixes name temp :: str
  assumes "length cs \<le> 32" "j \<le> 32" "\<And>i. i < 32 \<Longrightarrow> name (of_nat i) = (if i < length cs then cs ! i else 0)" "0 \<notin> set cs"
  shows "fold (\<lambda>i (t, n). if name (of_nat i) \<noteq> 0 \<and> int i < sint nbytes
             then (t(of_nat i := name (of_nat i)), n + 1) else (t(of_nat i := 0), n)) [0..<j] (temp, 0)
     = (\<lambda>x. if unat x < j then (if unat x < min (length cs) (nat (sint nbytes)) then cs ! unat x else 0) else temp x,
        of_nat (min j (min (length cs) (nat (sint nbytes)))) :: u32)"
  using assms(2)
proof (induction j)
  case 0
  then show ?case by simp
next
  case (Suc j)
  have "name (of_nat j) \<noteq> 0 \<longleftrightarrow> j < length cs"
    using assms(3) [of j] assms(4) Suc.prems by (cases "j < length cs") (auto dest: nth_mem)
  then have live: "name (of_nat j) \<noteq> 0 \<and> int j < sint nbytes \<longleftrightarrow> j < min (length cs) (nat (sint nbytes))"
    by (simp add: zless_nat_eq_int_zless)
  have self: "x = of_nat j \<longleftrightarrow> unat x = j" for x :: u32 using Suc.prems by (auto simp: unat_eq_iff32)
  have jj: "unat (of_nat j :: u32) = j" using Suc.prems by simp
  have val: "j < length cs \<Longrightarrow> name (of_nat j) = cs ! j" using assms(3) [of j] Suc.prems by simp
  show ?case
  proof (cases "j < min (length cs) (nat (sint nbytes))")
    case True
    then show ?thesis
      using Suc.IH Suc.prems live val by (simp add: fun_eq_iff less_Suc_eq) (auto simp: self jj)
  next
    case False
    then have "min (Suc j) (min (length cs) (nat (sint nbytes))) = min j (min (length cs) (nat (sint nbytes)))" by linarith
    then show ?thesis
      using Suc.IH Suc.prems live False by (simp only: upt_Suc_append fold_append fold.simps comp_def) (auto simp: fun_eq_iff self less_Suc_eq)
  qed
qed

lemma copy_name_eq:
  assumes "length cs \<le> 32" "\<And>i. i < 32 \<Longrightarrow> name (of_nat i) = (if i < length cs then cs ! i else 0)" "0 \<notin> set cs"
  shows "copy_name name nbytes (view m buf) =
     (view (\<lambda>a. if unat (a - buf) < 32
                then (if unat (a - buf) < min (length cs) (nat (sint nbytes)) then cs ! unat (a - buf) else 0) else m a) buf,
      of_nat (min (length cs) (nat (sint nbytes))))"
  using copy_name_upto [OF assms(1) _ assms(2,3), of 32 nbytes "view m buf"] assms(1)
  by (simp add: copy_name_def FILE_NAME_SIZE_def view_def min.absorb2 fun_eq_iff)

lemma dir_name_strncpy:
  assumes "i < 32"
  shows "strncpy d (directory_name img (of_nat j)) FILE_NAME_SIZE (of_nat i) =
     (if i < length (dir_name img j) then dir_name img j ! i else 0)"
  using assms nth_chars [of i "directory_name img (of_nat j)" 0 32]
  by (simp add: strncpy_eq FILE_NAME_SIZE_def dir_name_def fill_of_nat)

text \<open>Examples: the small kernel with the name of its file in user memory, and with descriptor 2 open on it.\<close>

definition no_wait :: env where
  "no_wait = \<lparr>uninit_dentry = blank_dentry, uninit_rate = 7, uninit_pcb = blank_pcb, uninit_buf = (\<lambda>_. 9), cmos_in = 0,
     waits = [], close_ebx = of_nat\<rparr>"

definition named_kernel :: kernel where
  "named_kernel = set_user_mem ((\<lambda>_. 0)(0x08048000 := 97)) tiny_kernel"

lemma curr_pcb_tiny [simp]: "curr_pcb tiny_kernel = blank_pcb" "curr_pcb named_kernel = blank_pcb"
  by (simp_all add: named_kernel_def curr_pcb_frame) (simp_all add: curr_pcb_def tiny_kernel_def)

lemma boot_block_tiny [simp]: "boot_block tiny_kernel = tiny_image" "boot_block named_kernel = tiny_image"
  by (simp_all add: tiny_kernel_def named_kernel_def set_user_mem_def)

lemma fds_blank [simp]:
  "fd_array blank_pcb i = (if i < 8 then \<lparr>file_operations = (if i = 0 then Some terminal_input_jump_table
       else if i = 1 then Some terminal_output_jump_table else None), fd_inode_num = 0, file_pos = 0,
       flags = (if i < 2 then 1 else 0), fd_dentry = blank_dentry\<rparr> else \<lparr>file_operations = None, fd_inode_num = 0,
       file_pos = 0, flags = 0, fd_dentry = blank_dentry\<rparr>)"
  by (simp add: blank_pcb_def create_pcb_fds)

lemma free_fd_named [simp]: "free_fd named_kernel = Some 2"
  by (simp add: free_fd_def FD_ARRAY_SIZE_def)

section \<open>Properties\<close>

text \<open>
  C7: whatever sequence of read, write, open and close calls a process makes, with any descriptors, sizes and names and with buffers in
  its window, as far as the calls return, its descriptor table stays well formed: each entry is free or in use with its operations set, and
  descriptors 0 and 1 are the terminal's, starting from the table \<open>create_pcb\<close> makes. The interrupt handlers that run while a read waits
  are any that leave the descriptors alone, as the clock's does.
\<close>

theorem descriptor_table_invariant:
  assumes "curr_pcb k = create_pcb p" "keep_fds e" "\<forall>c \<in> set cs. inside c" "run_calls (fd_call e) cs k = Some (k', rs)"
  shows "fds_ok (curr_pcb k')"
  using fdc.run_calls_ok [of k e cs k' rs] assms by (simp add: create_pcb_ok)

lemma fds_on_fd: "fds (on_fd i f k) = (fds k)(i := f (fds k i))"
  by (rule ext) (simp add: fd_simps)

lemma sys_open_found:
  assumes "free_fd k = Some i" "read_dentry_by_name (boot_block k) (str_at k p) (Some (uninit_dentry e)) = Some (0, Some d)"
    "file_type d \<le> 2"
  shows "\<exists>k'. sys_open e p k = Some (k', of_nat i)
     \<and> fds k' = (fds k)(i := opened (if file_type d = 2 then inode_num d else 0)
         (if file_type d = 0 then rtc_jump_table else if file_type d = 1 then directory_jump_table else file_jump_table) (fds k i))"
proof -
  have "file_type d = 0 \<or> file_type d = 1 \<or> file_type d = 2"
    using assms(3) by (auto simp: word_le_nat_alt word_unat_eq_iff)
  then show ?thesis
    using assms(1,2)
    by (elim disjE) (simp_all add: sys_open_def Let_def rtc_open_def curr_pcb_frame fds_on_fd opened_def)
qed

lemma keep_fds_clock: "keep_fds (e\<lparr>waits := [rtc_interrupt_handler]\<rparr>)"
  by (simp add: keep_fds_def rtc_interrupt_handler_def curr_pcb_def get_pcb_def hw_defs)

text \<open>The file \<open>a\<close> is opened, read to its end in two reads, written to and closed, twice.\<close>

theorem descriptor_table_invariant_witness:
  "let e = no_wait\<lparr>waits := [rtc_interrupt_handler]\<rparr> in
   \<exists>k' r rs. run_calls (fd_call e) [Open 0x08048000, Read 2 0x08049000 2, Read 2 0x08049000 5, Write 2 0x08049000 1, Close 2, Close 2] named_kernel
       = Some (k', 2 # 2 # 1 # -1 # r # rs) \<and> fds_ok (curr_pcb k')"
proof -
  let ?e = "no_wait\<lparr>waits := [rtc_interrupt_handler]\<rparr>"
  let ?cs = "[Open 0x08048000, Read 2 0x08049000 2, Read 2 0x08049000 5, Write 2 0x08049000 1, Close 2, Close 2]"
  let ?k1 = "on_fd 2 (opened 0 file_jump_table) named_kernel"
  have mem: "cstr (view (user_mem named_kernel) 0x08048000) [97]" by (simp add: named_kernel_def cstr_def view_def)
  have "dir_name tiny_image 0 = [97]" using tiny_image_name by (simp add: dir_name_def chars_cstr)
  then have "read_dentry_by_name tiny_image (Some (view (user_mem named_kernel) 0x08048000)) (Some (uninit_dentry ?e)) =
      Some (read_dentry_by_index tiny_image 0 (Some (uninit_dentry ?e)))"
    using read_dentry_by_name_eq [OF mem tiny_image_names_end, of "uninit_dentry ?e"] by (simp add: tiny_image_fields)
  moreover have "load32 tiny_image (directory_offset 0 + 32) = 2" "load32 tiny_image (directory_offset 0 + 36) = 0"
    by (simp_all add: tiny_image_def load32_def directory_offset_def)
  ultimately have 1: "sys_open ?e 0x08048000 named_kernel = Some (?k1, 2)"
    by (simp add: sys_open_def str_at_def Let_def read_dentry_by_index_def NUM_DIR_def opened_def [abs_def])
  have "reading ?k1 2 0 0"
    by (simp add: reading_def fd_bad_def FD_ARRAY_SIZE_def curr_fd_on_fd opened_def boot_block_frame tiny_image_bytes)
  from sys_read_file [OF this refl, of ?e "0x08049000" 2] obtain k2 where 2: "sys_read ?e 2 0x08049000 2 ?k1 = Some (k2, 2)" "reading k2 2 0 (Suc (Suc 0))"
    "boot_block k2 = tiny_image" by (auto simp: boot_block_frame tiny_image_fields)
  from sys_read_file [OF 2(2) refl, of ?e "0x08049000" 5] obtain k3 where 3: "sys_read ?e 2 0x08049000 5 k2 = Some (k3, 1)" "reading k3 2 0 (Suc (Suc (Suc 0)))"
    by (auto simp: 2(3) tiny_image_fields)
  have 4: "sys_write ?e 2 0x08049000 1 k3 = Some (k3, -1)"
    using 3(2) by (simp add: sys_write_def reading_def Let_def file_write_def)
  have "run_calls (fd_call ?e) ?cs named_kernel = Some (fst (sys_close 2 (fst (sys_close 2 k3))),
      [2, 2, 1, -1, snd (sys_close 2 k3), snd (sys_close 2 (fst (sys_close 2 k3)))])"
    by (simp add: 1 2(1) 3(1) 4 case_prod_unfold)
  moreover have "curr_pcb named_kernel = create_pcb blank_pcb"
    by (simp add: blank_pcb_def create_pcb_def Let_def FD_ARRAY_SIZE_def upt_rec)
  moreover have "\<forall>c \<in> set ?cs. inside c" by (simp add: in_window_def)
  ultimately show ?thesis
    using descriptor_table_invariant [of named_kernel blank_pcb ?e ?cs, OF _ keep_fds_clock] by (simp only: Let_def) blast
qed

text \<open>The search for a free descriptor fails or finds the lowest.\<close>

lemma free_fd_None: "free_fd k = None \<longleftrightarrow> (\<forall>i \<in> {2..<8}. flags (fds k i) \<noteq> 0)"
  by (auto simp: free_fd_def find_None_iff FD_ARRAY_SIZE_def simp del: upt_rec_numeral)

text \<open>
  C21: \<open>open\<close> of an existing name returns the lowest free descriptor from 2 to 7, set to position 0 of the
  named file with the operations of its type, and changes no other descriptor; with no free
  descriptor or no such name it returns -1 and changes nothing. An entry whose type is none of the three is
  not refused: \<open>open\<close> returns 0, the descriptor of the keyboard, and changes nothing.
\<close>

theorem sys_open_correct:
  assumes "filename \<noteq> 0" "cstr (view (user_mem k) filename) cs" "names_end (boot_block k)" "num_dir (boot_block k) \<le> NUM_DIR"
  shows "if \<forall>i \<in> {2..<8}. flags (fds k i) \<noteq> 0 then sys_open e filename k = Some (k, -1)
     else case find (\<lambda>j. dir_name (boot_block k) j = cs) [0..<unat (num_dir (boot_block k))] of
       None \<Rightarrow> sys_open e filename k = Some (k, -1)
     | Some j \<Rightarrow>
         (let ty = load32 (boot_block k) (directory_offset (of_nat j) + 32);
              ino = load32 (boot_block k) (directory_offset (of_nat j) + 36) in
          if ty > 2 then sys_open e filename k = Some (k, 0)
          else \<exists>i k'. 2 \<le> i \<and> i < 8 \<and> flags (fds k i) = 0 \<and> (\<forall>l. 2 \<le> l \<longrightarrow> l < i \<longrightarrow> flags (fds k l) \<noteq> 0)
            \<and> sys_open e filename k = Some (k', of_nat i)
            \<and> fds k' = (fds k)(i := (fds k i)\<lparr>fd_inode_num := (if ty = 2 then ino else 0), file_pos := 0, flags := 1,
                 file_operations := Some (if ty = 0 then rtc_jump_table else if ty = 1 then directory_jump_table
                                          else file_jump_table)\<rparr>))"
proof (cases "free_fd k")
  case None
  then show ?thesis using free_fd_None [of k] by (simp add: sys_open_def)
next
  case (Some i)
  then have free: "\<not> (\<forall>i \<in> {2..<8}. flags (fds k i) \<noteq> 0)" using free_fd_None [of k] by simp
  note named = read_dentry_by_name_eq [OF assms(2,3), of "uninit_dentry e"]
  have str: "str_at k filename = Some (view (user_mem k) filename)" using assms(1) by (simp add: str_at_def)
  show ?thesis
  proof (cases "find (\<lambda>j. dir_name (boot_block k) j = cs) [0..<unat (num_dir (boot_block k))]")
    case None
    then show ?thesis using free Some named by (simp add: sys_open_def str)
  next
    case found: (Some j)
    then have j: "unat (of_nat j :: u32) < unat (num_dir (boot_block k))" "dir_name (boot_block k) j = cs"
      using unat_lt32 [of "num_dir (boot_block k)"] by (auto simp: find_Some_iff)
    then have "\<not> (of_nat j :: u32) > NUM_DIR" "length cs \<le> 32"
      using assms(4) length_chars [of "directory_name (boot_block k) (of_nat j)" 0 32]
      by (auto simp: word_le_nat_alt word_less_nat_alt dir_name_def)
    then obtain d where d: "read_dentry_by_name (boot_block k) (str_at k filename) (Some (uninit_dentry e)) = Some (0, Some d)"
        "file_type d = load32 (boot_block k) (directory_offset (of_nat j) + 32)"
        "inode_num d = load32 (boot_block k) (directory_offset (of_nat j) + 36)"
      using named found by (simp add: str read_dentry_by_index_def)
    show ?thesis
    proof (cases "file_type d > 2")
      case True
      then have "sys_open e filename k = Some (k, 0)" using Some d(1) by (auto simp: sys_open_def Let_def)
      then show ?thesis using True free found by (simp add: d Let_def)
    next
      case False
      then obtain k' where k': "sys_open e filename k = Some (k', of_nat i)"
        "fds k' = (fds k)(i := opened (if file_type d = 2 then inode_num d else 0)
           (if file_type d = 0 then rtc_jump_table else if file_type d = 1 then directory_jump_table else file_jump_table) (fds k i))"
        using sys_open_found [OF Some d(1)] by (auto simp: not_less)
      have "\<exists>i k'. 2 \<le> i \<and> i < 8 \<and> flags (fds k i) = 0 \<and> (\<forall>l. 2 \<le> l \<longrightarrow> l < i \<longrightarrow> flags (fds k l) \<noteq> 0)
            \<and> sys_open e filename k = Some (k', of_nat i)
            \<and> fds k' = (fds k)(i := (fds k i)\<lparr>fd_inode_num := (if file_type d = 2 then inode_num d else 0), file_pos := 0, flags := 1,
                 file_operations := Some (if file_type d = 0 then rtc_jump_table else if file_type d = 1 then directory_jump_table
                                          else file_jump_table)\<rparr>)"
        by (rule exI [of _ i], rule exI [of _ k'], intro conjI)
          (use k' free_fd_SomeD [OF Some] in \<open>simp_all only: opened_def simp_thms, blast\<close>)
      then show ?thesis unfolding Let_def d(2,3) [symmetric] found option.case using False free by (simp only: if_False)
    qed
  qed
qed

theorem sys_open_correct_witness:
  "\<exists>k'. sys_open no_wait 0x08048000 named_kernel = Some (k', 2) \<and> flags (fds k' 2) = 1"
proof -
  have mem: "cstr (view (user_mem named_kernel) 0x08048000) [97]"
    by (simp add: named_kernel_def cstr_def view_def)
  have "find (\<lambda>j. dir_name tiny_image j = [97]) [0..<unat (num_dir tiny_image)] = Some 0"
    using tiny_image_name by (simp add: tiny_image_fields dir_name_def chars_cstr)
  moreover have "\<not> 2 < load32 tiny_image (directory_offset 0 + 32)"
    by (simp add: tiny_image_def load32_def directory_offset_def)
  moreover have "\<not> (\<forall>i \<in> {2..<8}. flags (fds named_kernel i) \<noteq> 0)" by (auto intro: bexI [of _ 2])
  ultimately obtain i k' where k': "2 \<le> i" "i < 8" "\<forall>l. 2 \<le> l \<longrightarrow> l < i \<longrightarrow> flags (fds named_kernel l) \<noteq> 0"
      "sys_open no_wait 0x08048000 named_kernel = Some (k', of_nat i)" "flags (fds k' i) = 1"
    using sys_open_correct [OF _ mem, of no_wait] tiny_image_names_end
    by (simp add: tiny_image_fields NUM_DIR_def Let_def) fastforce
  have "i = 2"
  proof (rule ccontr)
    assume "i \<noteq> 2"
    then show False using k'(1) k'(3) [rule_format, of 2] by simp
  qed
  then show ?thesis using k'(4,5) by auto
qed

text \<open>
  C15: a descriptor open on a regular file delivers the file's bytes in order from its position, in
  pieces of any sizes read one after the other, none lost and none twice, each read copied to the
  caller's buffer, until the end of the file, where every further read brings nothing.
\<close>

theorem descriptor_reads_file:
  assumes "\<not> fd_bad fd" "flags (fds k (unat fd)) \<noteq> 0" "file_operations (fds k (unat fd)) = Some file_jump_table"
    "fd_inode_num (fds k (unat fd)) = inode" "file_pos (fds k (unat fd)) = 0" "inode \<le> num_inodes (boot_block k)"
  shows "\<exists>k'. fd_reads e fd buf ns k = Some (k', take (sum_list (map unat ns)) (file_bytes (boot_block k) inode))"
proof -
  have "reading k fd inode 0" using assms by (simp add: reading_def)
  from fd_reads_file [OF this, of e buf ns] show ?thesis by simp
qed

theorem descriptor_reads_file_witness:
  "\<exists>k'. fd_reads no_wait 2 0x08049000 [2, 5, 1] (on_fd 2 (opened 0 file_jump_table) named_kernel) = Some (k', [120, 121, 122])"
  using descriptor_reads_file [of 2 "on_fd 2 (opened 0 file_jump_table) named_kernel" 0 no_wait "0x08049000" "[2, 5, 1]"]
  by (simp add: fd_bad_def FD_ARRAY_SIZE_def curr_fd_on_fd opened_def boot_block_frame tiny_image_bytes)


text \<open>
  Reading a descriptor open on the directory at position \<open>j\<close> returns the length of the name of entry
  \<open>j\<close>, at most the size given, puts that much of the name in the buffer and moves to the next entry.
  It always writes 32 bytes, the rest of them NUL, even when the caller's buffer is smaller.
\<close>

theorem directory_read_entry:
  assumes "\<not> fd_bad fd" "flags (fds k (unat fd)) \<noteq> 0" "file_operations (fds k (unat fd)) = Some directory_jump_table"
    "file_pos (fds k (unat fd)) = of_nat j" "j \<le> 63" "cs = dir_name (boot_block k) j" "m = min (length cs) (nat (sint n))"
  shows "\<exists>k'. sys_read e fd buf n k = Some (k', of_nat m) \<and> file_pos (fds k' (unat fd)) = of_nat (j + 1)
     \<and> user_mem k' = (\<lambda>a. if unat (a - buf) < 32 then (if unat (a - buf) < m then cs ! unat (a - buf) else 0)
                        else user_mem k a)"
proof -
  have cs: "length cs \<le> 32" "0 \<notin> set cs"
    using length_chars [of "directory_name (boot_block k) (of_nat j)" 0 32] chars_no_NUL by (simp_all add: assms(6) dir_name_def)
  have j: "\<not> (of_nat j :: u32) > NUM_DIR" using assms(5) by (simp add: NUM_DIR_def word_less_nat_alt)
  note copied = copy_name_eq [OF cs(1) dir_name_strncpy [of _ "file_name (uninit_dentry e)" "boot_block k" j, folded assms(6)] cs(2),
      of n "user_mem k" buf, folded assms(7)]
  show ?thesis
    using assms(1-4) j
    by (simp add: sys_read_def dir_read_def read_dentry_by_index_def copied Let_def)
      (simp add: fd_simps)
qed

theorem directory_read_entry_witness:
  "\<exists>k'. sys_read no_wait 2 0x08049000 33 (on_fd 2 (opened 0 directory_jump_table) named_kernel) = Some (k', 1)
     \<and> user_mem k' 0x08049000 = 97"
proof -
  have "dir_name tiny_image 0 = [97]" using tiny_image_name by (simp add: dir_name_def chars_cstr)
  then show ?thesis
    using directory_read_entry [of 2 "on_fd 2 (opened 0 directory_jump_table) named_kernel" 0 "[97]" 1 33 no_wait "0x08049000"]
    by (auto simp: fd_bad_def FD_ARRAY_SIZE_def curr_fd_on_fd opened_def boot_block_frame)
qed


text \<open>
  Closing an open descriptor from 2 to 7 returns 0, frees it and leaves the others as they are, so
  that the next \<open>open\<close> gets it or a lower one; any other argument is refused with -1, the terminal's
  descriptors 0 and 1 included, and no descriptor changes. Interrupts are off when \<open>close\<close> returns.
\<close>

theorem sys_close_correct:
  assumes "fds_ok (curr_pcb k)" "\<forall>i \<in> {2..<8}. file_operations (fds k i) \<notin> {Some terminal_input_jump_table, Some terminal_output_jump_table}"
  shows "let (k', r) = sys_close fd k in
     if 2 \<le> sint fd \<and> sint fd < 8 \<and> flags (fds k (unat fd)) \<noteq> 0
     then r = 0 \<and> fds k' = (fds k)(unat fd := (fds k (unat fd))\<lparr>flags := 0\<rparr>)
          \<and> (\<exists>i. free_fd k' = Some i \<and> i \<le> unat fd) \<and> \<not> if_flag k'
     else r = -1 \<and> fds k' = fds k \<and> \<not> if_flag k'"
proof (cases "2 \<le> sint fd \<and> sint fd < 8 \<and> flags (fds k (unat fd)) \<noteq> 0")
  case False
  then have "sys_close fd k = (cli k, -1)" by (intro sys_close_refused) auto
  then show ?thesis using False by (simp add: curr_pcb_frame) (simp add: cli_def)
next
  case True
  then have open_fd: "2 \<le> sint fd" "sint fd < 8" "flags (curr_fd (unat fd) k) \<noteq> 0" by auto
  note range = fd_range [OF open_fd(1,2)]
  obtain k' r where k': "sys_close fd k = (k', r)" by (cases "sys_close fd k")
  have fds: "fds k' = (fds k)(unat fd := (fds k (unat fd))\<lparr>flags := 0\<rparr>)"
    using sys_close_fds [OF open_fd] by (simp add: k')
  have "free_fd k' \<noteq> None"
    using range by (auto simp: free_fd_def find_None_iff FD_ARRAY_SIZE_def fds simp del: upt_Suc intro: bexI [of _ "unat fd"])
  then obtain i where i: "free_fd k' = Some i" by auto
  have "i \<le> unat fd"
    using free_fd_SomeD(4) [OF i, of "unat fd"] range(1) by (simp add: fds) (meson not_le)
  moreover obtain t where t: "file_operations (curr_fd (unat fd) k) = Some t"
    "t \<noteq> terminal_input_jump_table" "t \<noteq> terminal_output_jump_table"
  proof -
    have "file_operations (curr_fd (unat fd) k) \<noteq> None" using assms(1) range(2) open_fd(3) unfolding fds_ok_def by blast
    then show thesis using that assms(2) range by (auto simp: atLeastLessThan_iff dest!: bspec [of _ _ "unat fd"])
  qed
  have good: "\<not> fd_bad fd" using open_fd(1,2) by (simp add: fd_bad_def FD_ARRAY_SIZE_def)
  have "r = 0 \<and> \<not> if_flag k'"
    using sys_close_eq [OF open_fd] t k' good
    by (cases t) (auto simp: rtc_close_def dir_close_def file_close_def on_fd_def on_pcb_def cli_def)
  ultimately show ?thesis using True k' fds i by simp
qed

theorem sys_close_correct_witness:
  "snd (sys_close 2 (on_fd 2 (opened 0 file_jump_table) named_kernel)) = 0 \<and> snd (sys_close 1 named_kernel) = -1"
proof -
  have ok: "fds_ok (curr_pcb named_kernel)" by (simp add: fds_ok_def)
  then have "fds_ok (curr_pcb (on_fd 2 (opened 0 file_jump_table) named_kernel))" by (rule opened_ok) simp_all
  moreover have "\<forall>i \<in> {2..<8}. file_operations (fds (on_fd 2 (opened 0 file_jump_table) named_kernel) i)
      \<notin> {Some terminal_input_jump_table, Some terminal_output_jump_table}"
    by (auto simp: curr_fd_on_fd opened_def)
  ultimately have "snd (sys_close 2 (on_fd 2 (opened 0 file_jump_table) named_kernel)) = 0"
    using sys_close_correct [of "on_fd 2 (opened 0 file_jump_table) named_kernel" 2]
    by (simp add: case_prod_unfold curr_fd_on_fd opened_def Let_def)
  moreover have "snd (sys_close 1 named_kernel) = -1"
    using sys_close_correct [OF ok, of 1] by (simp add: case_prod_unfold Let_def)
  ultimately show ?thesis by simp
qed

end
