(* ===== verification/Printf.thy ===== *)
theory Printf
  imports Screen
begin

text \<open>
  \<open>printf\<close> of \<^verbatim>\<open>student-distrib/lib.c\<close>. The format is a byte buffer, the arguments are the words on the stack
  above it, read in order, and a pointer argument of \<open>%s\<close> is followed in the memory \<open>m\<close>. \<open>junk\<close> is the
  content of the uninitialised conversion buffers. \<open>None\<close> means that a loop does not end.
\<close>

section \<open>Model\<close>

text \<open>The zero-padded form of \<open>%#x\<close>: the digits are put at index 8 and zeros before them.\<close>

function pad_zeros :: "str \<Rightarrow> int \<Rightarrow> str" where
  "pad_zeros conv_buf i = (if i < 8 then pad_zeros (conv_buf(of_int i := 48)) (i + 1) else conv_buf)"
  by auto
termination by (relation "measure (\<lambda>(b, i). nat (8 - i))") auto

declare pad_zeros.simps [simp del]

definition print_hex8 :: "str \<Rightarrow> u32 \<Rightarrow> screen \<Rightarrow> screen option" where
  "print_hex8 junk v s =
     do {
       b \<leftarrow> itoa v (view junk 8) 16;
       starting_index \<leftarrow> strlen b;
       let conv_buf = pad_zeros (unview 8 b) (sint starting_index);
       (_, s') \<leftarrow> puts (view conv_buf starting_index) s;
       Some s'
     }"

definition print_num :: "str \<Rightarrow> i32 \<Rightarrow> u32 \<Rightarrow> screen \<Rightarrow> screen option" where
  "print_num junk radix v s = do { b \<leftarrow> itoa v junk radix; (_, s') \<leftarrow> puts b s; Some s' }"

definition print_signed :: "str \<Rightarrow> i32 \<Rightarrow> screen \<Rightarrow> screen option" where
  "print_signed junk v s =
     (if sint v < 0
      then do { b \<leftarrow> itoa (- v) (view (junk(0 := 45)) 1) 10; (_, s') \<leftarrow> puts (unview 1 b) s; Some s' }
      else print_num junk 10 v s)"

text \<open>The switch on the conversion character, with the jump back of \<open>#\<close>; \<open>esp\<close> counts the words taken.\<close>

partial_function (option) format_char_switch ::
  "str \<Rightarrow> mem \<Rightarrow> str \<Rightarrow> (nat \<Rightarrow> u32) \<Rightarrow> bool \<Rightarrow> u32 \<Rightarrow> nat \<Rightarrow> screen \<Rightarrow> (u32 \<times> nat \<times> screen) option" where
  "format_char_switch fmt m junk stack alternate buf esp s =
     (if fmt buf = 37 then Some (buf, esp, putc 37 s)
      else if fmt buf = 35 then format_char_switch fmt m junk stack True (buf + 1) esp s
      else if fmt buf = 120
      then do {
        s' \<leftarrow> (if alternate then print_hex8 junk (stack esp) s else print_num junk 16 (stack esp) s);
        Some (buf, esp + 1, s') }
      else if fmt buf = 117 then do { s' \<leftarrow> print_num junk 10 (stack esp) s; Some (buf, esp + 1, s') }
      else if fmt buf = 100 then do { s' \<leftarrow> print_signed junk (stack esp) s; Some (buf, esp + 1, s') }
      else if fmt buf = 99 then Some (buf, esp + 1, putc (ucast (stack esp)) s)
      else if fmt buf = 115 then do { (_, s') \<leftarrow> puts (view m (stack esp)) s; Some (buf, esp + 1, s') }
      else Some (buf, esp, s))"

partial_function (option) printf_loop ::
  "str \<Rightarrow> mem \<Rightarrow> str \<Rightarrow> (nat \<Rightarrow> u32) \<Rightarrow> u32 \<Rightarrow> nat \<Rightarrow> screen \<Rightarrow> (u32 \<times> screen) option" where
  "printf_loop fmt m junk stack buf esp s =
     (if fmt buf = 0 then Some (buf, s)
      else if fmt buf = 37
      then Option.bind (format_char_switch fmt m junk stack False (buf + 1) esp s)
             (\<lambda>(buf', esp', s'). printf_loop fmt m junk stack (buf' + 1) esp' s')
      else printf_loop fmt m junk stack (buf + 1) esp (putc (fmt buf) s))"

definition printf :: "str \<Rightarrow> mem \<Rightarrow> str \<Rightarrow> (nat \<Rightarrow> u32) \<Rightarrow> screen \<Rightarrow> (u32 \<times> screen) option" where
  "printf fmt m junk stack s = printf_loop fmt m junk stack 0 0 s"

section \<open>What the conversions print\<close>

lemma print_num_eq:
  assumes "2 \<le> unat radix" "unat radix \<le> 36"
  shows "print_num junk radix v s = Some (fold putc (numeral_of (unat radix) (unat v)) s)"
  using itoa_numeral_of [OF assms, of v junk] by (auto simp: print_num_def puts_cstr)

lemma cstr_Cons: "cstr (view b 1) cs \<Longrightarrow> b 0 \<noteq> 0 \<Longrightarrow> length cs < 4294967295 \<Longrightarrow> cstr b (b 0 # cs)"
  by (auto simp: cstr_def view_def nth_Cons split: nat.splits)

lemma cstr_append:
  assumes "cstr (view b (of_nat (length ds))) cs" "length ds + length cs < 4294967296"
    "\<And>i. i < length ds \<Longrightarrow> b (of_nat i) = ds ! i" "0 \<notin> set ds"
  shows "cstr b (ds @ cs)"
proof (rule cstrI)
  show "b (of_nat i) = (ds @ cs) ! i" if "i < length (ds @ cs)" for i
  proof (cases "i < length ds")
    case False
    define j where "j = i - length ds"
    have j: "i = length ds + j" "j < length cs" using False that by (auto simp: j_def)
    then show ?thesis using assms(1) by (simp add: cstr_def view_def)
  qed (use assms in \<open>simp add: nth_append\<close>)
  show "0 \<notin> set (ds @ cs)" using assms(1,4) by (auto simp: cstr_def in_set_conv_nth)
  show "b (of_nat (length (ds @ cs))) = 0" using assms(1) by (simp add: cstr_def view_def)
qed (use assms in simp)

lemma sint_neg: "sint v < 0 \<Longrightarrow> unat (- v) = nat (- sint v)" for v :: i32
proof -
  assume neg: "sint v < 0"
  have "- (2 ^ 31) \<le> sint v" using sint_greater_eq [of v] by simp
  then have r: "0 \<le> - sint v" "- sint v < 4294967296" using neg by auto
  have "- v = of_int (- sint v)" by simp
  then have "uint (- v) = - sint v" using r uint_of_int32 [of "- sint v"] by metis
  then show ?thesis by (simp add: unat_eq_nat_uint)
qed

lemma pad_zeros_eq:
  "0 \<le> i \<Longrightarrow> i \<le> 8 \<Longrightarrow> pad_zeros b i = (\<lambda>x. if i \<le> uint x \<and> uint x < 8 then 48 else b x)"
proof (induction "nat (8 - i)" arbitrary: i b)
  case 0
  then show ?case by (subst pad_zeros.simps) (auto intro!: ext)
next
  case (Suc d)
  then have d: "d = nat (8 - (i + 1))" "0 \<le> i + 1" "i + 1 \<le> 8" "i < 8" by linarith+
  have self: "x = of_int i \<longleftrightarrow> uint x = i" for x :: u32
    using uint_of_int32 [of i] Suc.prems by (auto simp: word_uint_eq_iff)
  show ?case
    using d(4) Suc.hyps(1) [OF d(1-3)] by (subst pad_zeros.simps) (auto simp: self intro!: ext)
qed

lemma print_hex8_eq:
  "print_hex8 junk v s =
     Some (fold putc (replicate (8 - length (numeral_of 16 (unat v))) 48 @ numeral_of 16 (unat v)) s)"
proof -
  let ?cs = "numeral_of 16 (unat v)"
  obtain b where b: "itoa v (view junk 8) 16 = Some b" "cstr b ?cs"
    using itoa_numeral_of [of 16 v "view junk 8"] by auto
  have n: "length ?cs \<le> 8" using length_numeral_of [of 16 "unat v" 8] unat_lt32 [of v] by simp
  let ?ds = "replicate (8 - length ?cs) 48 :: u8 list"
  let ?b' = "view (pad_zeros (unview 8 b) (int (length ?cs))) (of_nat (length ?cs))"
  have at: "uint (of_nat (length ?cs) + of_nat i :: u32) = int (length ?cs + i)" if "i \<le> 8" for i
  proof -
    have "uint (of_nat (length ?cs + i) :: u32) = int (length ?cs + i)" using n that by (simp only: uint_nat unat_of_nat32)
    then show ?thesis by simp
  qed
  have "cstr ?b' (?ds @ ?cs)"
  proof (rule cstr_append)
    show "?b' (of_nat i) = ?ds ! i" if "i < length ?ds" for i
      using that n at [of i] by (auto simp: view_def pad_zeros_eq)
    have off: "view ?b' (of_nat (length ?ds)) (of_nat i) = b (of_nat i)" if "i \<le> 8" for i
    proof -
      have "(of_nat (length ?cs) + (of_nat (length ?ds) + of_nat i) :: u32) = of_nat (8 + i)"
        using n by (simp add: of_nat_diff)
      moreover have "uint (of_nat (8 + i) :: u32) = int (8 + i)" using that by (simp only: uint_nat unat_of_nat32)
      ultimately show ?thesis using n by (simp add: view_def pad_zeros_eq unview_def)
    qed
    show "cstr (view ?b' (of_nat (length ?ds))) ?cs"
      using b(2) n off unfolding cstr_def by simp
  qed (use n in auto)
  moreover have "sint (of_nat (length ?cs) :: u32) = int (length ?cs)" using n by (simp add: sint_of_nat32)
  ultimately show ?thesis
    using b puts_cstr [of ?b' "?ds @ ?cs" s] by (simp add: print_hex8_def strlen_cstr)
qed

lemma print_signed_eq:
  "print_signed junk v s =
     Some (fold putc (if sint v < 0 then 45 # numeral_of 10 (nat (- sint v)) else numeral_of 10 (unat v)) s)"
proof (cases "sint v < 0")
  case True
  obtain b where b: "itoa (- v) (view (junk(0 := 45)) 1) 10 = Some b" "cstr b (numeral_of 10 (unat (- v)))"
    "\<forall>x. length (numeral_of 10 (unat (- v))) < unat x \<longrightarrow> b x = view (junk(0 := 45)) 1 x"
    using itoa_numeral_of [of 10 "- v" "view (junk(0 := 45)) 1"] by auto
  have n: "length (numeral_of 10 (unat (- v))) \<le> 10"
    using length_numeral_of [of 10 "unat (- v)" 10] unat_lt32 [of "- v"] by simp
  have "length (numeral_of 10 (unat (- v))) < unat (- 1 :: u32)" using n by (simp add: unsigned_minus_1_eq_mask mask_eq_exp_minus_1)
  then have "unview 1 b 0 = 45" using b(3) by (simp add: unview_def view_def)
  then have "cstr (unview 1 b) (45 # numeral_of 10 (unat (- v)))"
    using cstr_Cons [of "unview 1 b"] b(2) n by simp
  then show ?thesis using True b(1) by (simp add: print_signed_def puts_cstr sint_neg)
qed (simp add: print_signed_def print_num_eq)

section \<open>Formats\<close>

text \<open>
  The items a format is made of, how they are written, and what they print: \<open>render m w item\<close> for the
  argument word \<open>w\<close> of an item that takes one.
\<close>

datatype item = Lit u8 | Percent | Hex | Hex8 | Unsigned | Signed | Char | String

fun encode :: "item \<Rightarrow> u8 list" where
  "encode (Lit c) = [c]"
| "encode Percent = [37, 37]"
| "encode Hex = [37, 120]"
| "encode Hex8 = [37, 35, 120]"
| "encode Unsigned = [37, 117]"
| "encode Signed = [37, 100]"
| "encode Char = [37, 99]"
| "encode String = [37, 115]"

fun takes_arg :: "item \<Rightarrow> bool" where
  "takes_arg (Lit c) = False"
| "takes_arg Percent = False"
| "takes_arg _ = True"

fun item_ok :: "mem \<Rightarrow> u32 \<Rightarrow> item \<Rightarrow> bool" where
  "item_ok m w (Lit c) = (c \<noteq> 0 \<and> c \<noteq> 37)"
| "item_ok m w String = (\<exists>cs. cstr (view m w) cs)"
| "item_ok m w _ = True"

fun render :: "mem \<Rightarrow> u32 \<Rightarrow> item \<Rightarrow> u8 list" where
  "render m w (Lit c) = [c]"
| "render m w Percent = [37]"
| "render m w Hex = numeral_of 16 (unat w)"
| "render m w Hex8 = replicate (8 - length (numeral_of 16 (unat w))) 48 @ numeral_of 16 (unat w)"
| "render m w Unsigned = numeral_of 10 (unat w)"
| "render m w Signed = (if sint w < 0 then 45 # numeral_of 10 (nat (- sint w)) else numeral_of 10 (unat w))"
| "render m w Char = [ucast w]"
| "render m w String = chars (view m w) 0 4294967295"

text \<open>A whole format: each item that takes an argument uses the next word of the stack.\<close>

primrec formatted :: "mem \<Rightarrow> (nat \<Rightarrow> u32) \<Rightarrow> nat \<Rightarrow> item list \<Rightarrow> u8 list" where
  "formatted m stack esp [] = []"
| "formatted m stack esp (it # its) =
     render m (stack esp) it @ formatted m stack (if takes_arg it then esp + 1 else esp) its"

primrec format_ok :: "mem \<Rightarrow> (nat \<Rightarrow> u32) \<Rightarrow> nat \<Rightarrow> item list \<Rightarrow> bool" where
  "format_ok m stack esp [] = True"
| "format_ok m stack esp (it # its) \<longleftrightarrow>
     item_ok m (stack esp) it \<and> format_ok m stack (if takes_arg it then esp + 1 else esp) its"

lemma puts_string:
  assumes "cstr (view m w) cs"
  shows "puts (view m w) s = Some (of_nat (length cs), fold putc (chars (view m w) 0 4294967295) s)"
  using assms puts_cstr [OF assms] chars_cstr [OF assms, of 4294967295] by (simp add: cstr_def)

lemma word_after: "3 + pos = pos + 3" "2 + pos = pos + 2" for pos :: u32
  by simp_all

text \<open>One item: the loop goes on after it, with its text on the screen.\<close>

lemma printf_loop_item:
  assumes "item_ok m (stack esp) it" "\<And>i. i < length (encode it) \<Longrightarrow> fmt (pos + of_nat i) = encode it ! i"
  shows "printf_loop fmt m junk stack pos esp s =
     printf_loop fmt m junk stack (pos + of_nat (length (encode it))) (if takes_arg it then esp + 1 else esp)
       (fold putc (render m (stack esp) it) s)"
proof (cases it)
  case (Lit c)
  then have "fmt pos = c" using assms(2) [of 0] by simp
  then show ?thesis using Lit assms(1) by (subst printf_loop.simps) simp
next
  case Hex8
  have f: "fmt pos = 37" "fmt (pos + 1) = 35" "fmt (pos + 2) = 120"
    using Hex8 assms(2) [of 0] assms(2) [of 1] assms(2) [of 2] by simp_all
  then show ?thesis using Hex8
    by (subst printf_loop.simps, subst format_char_switch.simps, subst format_char_switch.simps)
      (simp add: print_hex8_eq word_after)
next
  case String
  then obtain cs where cs: "cstr (view m (stack esp)) cs" using assms(1) by auto
  have f: "fmt pos = 37" "fmt (pos + 1) = 115" using String assms(2) [of 0] assms(2) [of 1] by simp_all
  then show ?thesis
    using String puts_string [OF cs, of s] by (subst printf_loop.simps, subst format_char_switch.simps) (simp add: word_after)
qed (use assms(2) [of 0] assms(2) [of 1] in
    \<open>simp_all add: printf_loop.simps [of _ _ _ _ pos] format_char_switch.simps print_num_eq print_signed_eq word_after\<close>)

lemma printf_loop_items:
  assumes "format_ok m stack esp its" "n = length (concat (map encode its))"
    "\<And>i. i < n \<Longrightarrow> fmt (pos + of_nat i) = concat (map encode its) ! i" "fmt (pos + of_nat n) = 0"
  shows "printf_loop fmt m junk stack pos esp s = Some (pos + of_nat n, fold putc (formatted m stack esp its) s)"
  using assms
proof (induction its arbitrary: esp pos s n)
  case Nil
  then show ?case by (subst printf_loop.simps) simp
next
  case (Cons it its)
  let ?k = "length (encode it)" and ?n = "length (concat (map encode its))"
  have "fmt (pos + of_nat i) = encode it ! i" if "i < ?k" for i
    using Cons.prems(3) [of i] that by (simp add: Cons.prems(2) nth_append)
  note step = printf_loop_item [OF _ this, of m stack esp junk s]
  have rest: "fmt (pos + of_nat ?k + of_nat i) = concat (map encode its) ! i" if "i < ?n" for i
    using Cons.prems(3) [of "?k + i"] that by (simp add: Cons.prems(2) nth_append add.assoc)
  show ?case
    using Cons.prems step Cons.IH [OF _ refl rest, of "if takes_arg it then esp + 1 else esp"]
    by (simp add: add.assoc split: if_splits)
qed

section \<open>Properties\<close>

text \<open>
  C29: \<open>printf\<close> of a format made of the supported conversions prints each of them with the arguments in
  order: numbers in the digits of their base, negative ones with a sign, \<open>%#x\<close> as exactly eight digits,
  characters and strings as they are and everything else literally; it returns the format's length and
  keeps the cursor on the screen.
\<close>

theorem printf_correct:
  assumes "cstr fmt (concat (map encode its))" "format_ok m stack 0 its" "screen_ok s"
  shows "printf fmt m junk stack s = Some (of_nat (length (concat (map encode its))), fold putc (formatted m stack 0 its) s)
     \<and> screen_ok (fold putc (formatted m stack 0 its) s)
     \<and> (\<forall>w. length (render m w Hex8) = 8)"
proof (intro conjI allI)
  show "printf fmt m junk stack s = Some (of_nat (length (concat (map encode its))), fold putc (formatted m stack 0 its) s)"
    using printf_loop_items [OF assms(2) refl, of fmt 0 junk s] assms(1) by (simp add: printf_def cstr_def)
  show "screen_ok (fold putc (formatted m stack 0 its) s)" using con.emit_list_ok [OF assms(3)] by blast
  show "length (render m w Hex8) = 8" for w
    using length_numeral_of [of 16 "unat w" 8] unat_lt32 [of w] by simp
qed

theorem printf_correct_witness:
  "let fmt = (\<lambda>a. if a = 0 then 97 else if a = 1 then 37 else if a = 2 then 100 else 0);
       s = \<lparr>screen_x = 0, screen_y = 0, video_mem = (\<lambda>_. 0), screen_buf = (\<lambda>_ _. 0), screen_loc_buf = (\<lambda>_. (0, 0)), vga = []\<rparr>
   in printf fmt (\<lambda>_. 0) (\<lambda>_. 9) (\<lambda>_. - 7) s = Some (3, fold putc [97, 45, 55] s)"
proof -
  define fmt where "fmt = (\<lambda>a :: u32. if a = 0 then 97 else if a = 1 then 37 else if a = 2 then 100 else 0 :: u8)"
  define s where "s = \<lparr>screen_x = 0, screen_y = 0, video_mem = (\<lambda>_. 0), screen_buf = (\<lambda>_ _. 0), screen_loc_buf = (\<lambda>_. (0, 0)), vga = []\<rparr>"
  have f: "cstr fmt (concat (map encode [Lit 97, Signed]))"
    by (simp add: cstr_def fmt_def less_Suc_eq nth_Cons')
  have ok: "screen_ok s" by (simp add: s_def screen_ok_def cursor_ok_def screen_consts)
  have "digs 10 7 = [7]" by (simp add: digs_step)
  then have "formatted (\<lambda>_. 0) (\<lambda>_. - 7) 0 [Lit 97, Signed] = [97, 45, 55]"
    by (simp add: numeral_of_def lookup_def)
  then show ?thesis
    using printf_correct [OF f _ ok, of "\<lambda>_. 0" "\<lambda>_. - 7" "\<lambda>_. 9"] by (simp add: fmt_def [symmetric] s_def [symmetric] Let_def)
qed

text \<open>
  A format that ends in a lone \<open>%\<close> is not safe: the conversion switch takes the terminating NUL as its
  character and the loop goes on with the bytes after it, printing whatever follows the string.
\<close>

theorem printf_runs_past_end:
  assumes "fmt 0 = 37" "fmt 1 = 0"
  shows "printf fmt m junk stack s = printf_loop fmt m junk stack 2 0 s"
  unfolding printf_def using assms by (subst printf_loop.simps, subst format_char_switch.simps) simp

theorem printf_runs_past_end_witness:
  "let fmt = (\<lambda>a. if a = 0 then 37 else if a = 2 then 65 else 0);
       s = \<lparr>screen_x = 0, screen_y = 0, video_mem = (\<lambda>_. 0), screen_buf = (\<lambda>_ _. 0), screen_loc_buf = (\<lambda>_. (0, 0)), vga = []\<rparr>
   in printf fmt (\<lambda>_. 0) (\<lambda>_. 9) (\<lambda>_. 0) s = Some (3, putc 65 s)"
  unfolding Let_def
  by (subst printf_runs_past_end) (simp_all add: printf_loop.simps)

end
