(* ===== verification/System.thy ===== *)
theory System
  imports FileOps Printf Idt
begin

text \<open>
  Processes: \<open>execute\<close>, \<open>halt\<close> and their helpers, and the other system calls of \<^verbatim>\<open>student-distrib/system.c\<close>, the
  dispatch of \<^verbatim>\<open>student-distrib/handlers.S\<close>, and the exception handlers of \<^verbatim>\<open>student-distrib/idt.c\<close>. A call that
  leaves the kernel through \<open>iret\<close> to a new program is an outcome of its own, with the program's entry point
  and stack pointer. A jump to \<open>ret_from_child\<close> is a return from the parent's \<open>execute\<close>.
\<close>

section \<open>Model\<close>

definition COMMAND_SIZE :: nat where "COMMAND_SIZE = 133"
definition HEADER_SIZE :: u32 where "HEADER_SIZE = 40"
definition VIRTUAL_ADDR :: u32 where "VIRTUAL_ADDR = 0x08048000"
definition USER_PROG_LOC :: u32 where "USER_PROG_LOC = 0x08000000"

datatype outcome = Returns kernel i32 | Enters kernel u32 u32

text \<open>A string constant of the kernel, and \<open>printf\<close> of one.\<close>

definition lit :: "string \<Rightarrow> str" where
  "lit cs = (\<lambda>i. if unat i < length cs then of_nat (of_char (cs ! unat i)) else 0)"

definition kprintf :: "string \<Rightarrow> kernel \<Rightarrow> kernel option" where
  "kprintf msg k =
     do { (_, s) \<leftarrow> printf (lit msg) (\<lambda>_. 0) (\<lambda>_. 0) (\<lambda>_. 0) (scr k); Some (k\<lparr>scr := s\<rparr>) }"

subsection \<open>Helpers of execute\<close>

text \<open>The two loops of \<open>parse_args\<close>: each returns the index where it stops.\<close>

function parse_name :: "str \<Rightarrow> nat \<Rightarrow> str \<Rightarrow> nat \<times> str" where
  "parse_name command i program =
     (if i < COMMAND_SIZE \<and> \<not> (command (of_nat i) = 32 \<or> command (of_nat i) = 0)
      then parse_name command (Suc i) (program(of_nat i := command (of_nat i)))
      else (i, program))"
  by auto
termination by (relation "measure (\<lambda>(c, i, p). COMMAND_SIZE - i)") auto

function parse_rest :: "str \<Rightarrow> nat \<Rightarrow> nat \<Rightarrow> str \<Rightarrow> nat \<times> str" where
  "parse_rest command i ai argv =
     (if i < COMMAND_SIZE \<and> command (of_nat i) \<noteq> 0
      then parse_rest command (Suc i) (Suc ai) (argv(of_nat ai := command (of_nat i)))
      else (ai, argv))"
  by auto
termination by (relation "measure (\<lambda>(c, i, a, p). COMMAND_SIZE - i)") auto

declare parse_name.simps [simp del] parse_rest.simps [simp del]

text \<open>
  \<open>program\<close> is an array of 32 bytes on the stack of \<open>execute\<close>. A first word of 32 or more characters is stored past its end, over the
  other variables and the return address: that is undefined in C, and the model has no result for it.
\<close>

definition parse_args :: "str \<Rightarrow> str \<Rightarrow> str \<Rightarrow> (str \<times> str) option" where
  "parse_args program argv command =
     (let program = fold (\<lambda>i p. p(of_nat i := 0)) [0..<unat FILE_NAME_SIZE] program;
          argv = fold (\<lambda>i p. p(of_nat i := 0)) [0..<nat ARGS_ARR_SIZE] argv;
          (fi, program) = parse_name command 0 program in
      if fi < unat FILE_NAME_SIZE
      then let program = program(of_nat fi := 0);
               (ai, argv) = parse_rest command (Suc fi) 0 argv
           in Some (program, argv(of_nat ai := 0))
      else None)"

definition check_validity :: "env \<Rightarrow> str \<Rightarrow> str \<Rightarrow> (i32 \<times> dentry) option" where
  "check_validity e img program =
     do {
       (fail, d) \<leftarrow> read_dentry_by_name img (Some program) (Some (uninit_dentry e));
       let dentry = the d;
       if fail \<noteq> 0 then Some (-1, dentry)
       else
         let (_, exe_check) = read_data img (inode_num dentry) 0 (uninit_buf e) 4
         in if file_type dentry \<noteq> 2 \<or> exe_check 0 \<noteq> 0x7f \<or> exe_check 1 \<noteq> 0x45 \<or> exe_check 2 \<noteq> 0x4c \<or> exe_check 3 \<noteq> 0x46
            then Some (-1, dentry) else Some (0, dentry)
     }"

text \<open>
  The copy from the kernel's buffer \<open>file_data\<close>, which lies in another page than the destination, is the
  byte copy that \<^const>\<open>memcpy\<close> is proved to be for disjoint blocks. The window of a process ends at 0x08400000 and no page is mapped
  behind it: a copy that reaches that address faults, and the loop does not go on.
\<close>

definition copy_in :: "mem \<Rightarrow> addr \<Rightarrow> str \<Rightarrow> u32 \<Rightarrow> mem" where
  "copy_in m dest src n = (\<lambda>a. if unat (a - dest) < unat n then src (a - dest) else m a)"

partial_function (option) load_loop :: "str \<Rightarrow> u32 \<Rightarrow> u32 \<Rightarrow> u32 \<Rightarrow> str \<Rightarrow> mem \<Rightarrow> mem option" where
  "load_loop img inode len read_sofar file_data m =
     (if read_sofar \<noteq> len
      then let (bytes_read, file_data') = read_data img inode read_sofar file_data 100
           in if unat VIRTUAL_ADDR + unat read_sofar + unat bytes_read > unat USER_PROG_LOC + unat FOUR_MEG then None
              else load_loop img inode len (read_sofar + bytes_read) file_data'
                     (copy_in m (VIRTUAL_ADDR + read_sofar) file_data' bytes_read)
      else Some m)"

definition load_file :: "env \<Rightarrow> dentry \<Rightarrow> kernel \<Rightarrow> kernel option" where
  "load_file e d k =
     do {
       m \<leftarrow> load_loop (boot_block k) (inode_num d) (inode_length (boot_block k) (inode_num d)) 0 (uninit_buf e) (user_mem k);
       Some (set_user_mem m k)
     }"

definition free_process :: "kernel \<Rightarrow> nat option" where
  "free_process k = find (\<lambda>i. processes k i = 0) [0..<MAX_NUM_PROCESSES]"

text \<open>The control block of the new process, and what the parent's block remembers of this call.\<close>

definition new_pcb :: "env \<Rightarrow> str \<Rightarrow> u32 \<Rightarrow> kernel \<Rightarrow> pcb" where
  "new_pcb e argv n k =
     (let p = create_pcb (uninit_pcb e)
      in p\<lparr>parent := (if n = 0 \<or> next_one_is_root_shell k \<noteq> 0 then pcb_loc n else get_pcb k), process_num := n,
           tty := active_tty k, args := (\<lambda>i. if i < nat ARGS_ARR_SIZE then argv (of_nat i) else args p i),
           parent_esp0 := tss_esp0 k, parent_ss0 := tss_ss0 k\<rparr>)"

definition entry_point :: "str \<Rightarrow> u32" where
  "entry_point h = push_bit 24 (ucast (h 27)) OR push_bit 16 (ucast (h 26)) OR push_bit 8 (ucast (h 25)) OR ucast (h 24)"

subsection \<open>execute and halt\<close>

definition execute :: "env \<Rightarrow> str \<Rightarrow> kernel \<Rightarrow> outcome option" where
  "execute e command k0 =
     (let k = cli k0 in
      Option.bind (parse_args (uninit_buf e) (uninit_buf e) command) (\<lambda>(program, argv).
      case free_process k of
        None \<Rightarrow> do { k' \<leftarrow> kprintf ''Max number of processes reached. Cannot run program...'' k; Some (Returns k' (-1)) }
      | Some i \<Rightarrow>
          do {
            (bad, dentry) \<leftarrow> check_validity e (boot_block k) program;
            if bad \<noteq> 0 then Some (Returns k (-1))
            else do {
              let n = of_nat i;
              let k1 = k\<lparr>processes := (processes k)(i := 1), curr_process := n, pg := create_page (pt_addr k) n (pg k)\<rparr>;
              k2 \<leftarrow> load_file e dentry k1;
              let p = new_pcb e argv n k2;
              let k3 = k2\<lparr>tty_top_pid := (tty_top_pid k2)(unat (active_tty k2) := ucast n),
                          next_one_is_root_shell := (if n = 0 \<or> next_one_is_root_shell k2 \<noteq> 0 then 0 else next_one_is_root_shell k2)\<rparr>;
              let k4 = on_pcb (parent p) (\<lambda>q. q\<lparr>ebp := kebp k3, esp := kesp k3\<rparr>) k3;
              let k5 = on_pcb (pcb_loc n) (\<lambda>_. p) k4;
              let (_, file_header) = read_data (boot_block k5) (inode_num dentry) 0 (uninit_buf e) HEADER_SIZE;
              Some (Enters (sti (k5\<lparr>tss_ss0 := KERNEL_DS, tss_esp0 := kstack_top n\<rparr>))
                      (entry_point file_header) (USER_PROG_LOC + FOUR_MEG - BYTES_IN_INT))
            }
          }))"

definition sys_execute :: "env \<Rightarrow> str \<Rightarrow> kernel \<Rightarrow> outcome option" where
  "sys_execute e command k =
     do {
       r \<leftarrow> execute e command k;
       Some (case r of Returns k' _ \<Rightarrow> Returns k' 0 | Enters k' eip sp \<Rightarrow> Enters k' eip sp)
     }"

text \<open>The end of \<open>halt\<close>: back to the parent's \<open>execute\<close>, which returns 0.\<close>

definition to_parent :: "addr \<Rightarrow> kernel \<Rightarrow> outcome" where
  "to_parent a k =
     (let curr = pcbs k a; par = pcbs k (parent curr); n = process_num par
      in Returns (k\<lparr>processes := (processes k)(unat (process_num curr) := 0, unat n := 1),
                    tty_top_pid := (tty_top_pid k)(unat (tty curr) := ucast n), curr_process := n,
                    tss_ss0 := KERNEL_DS, tss_esp0 := kstack_top n, pg := create_page (pt_addr k) n (pg k),
                    kesp := esp par, kebp := ebp par\<rparr>) 0)"

definition halt :: "env \<Rightarrow> u8 \<Rightarrow> kernel \<Rightarrow> outcome option" where
  "halt e status k0 =
     (let k = cli k0;
          a = get_pcb k;
          k1 = fold (\<lambda>i k. fst (sys_close (close_ebx e i) k)) [0..<nat FD_ARRAY_SIZE] k
      in if parent (pcbs k1 a) = a
         then do {
           r \<leftarrow> sys_execute e (lit ''shell'')
                 (k1\<lparr>processes := (processes k1)(unat (process_num (pcbs k1 a)) := 0), next_one_is_root_shell := 1\<rparr>);
           Some (case r of Enters k' eip sp \<Rightarrow> Enters k' eip sp | Returns k' _ \<Rightarrow> to_parent a k')
         }
         else Some (to_parent a k1))"

subsection \<open>The other system calls\<close>

function copy_args :: "(nat \<Rightarrow> u8) \<Rightarrow> addr \<Rightarrow> int \<Rightarrow> int \<Rightarrow> mem \<Rightarrow> mem" where
  "copy_args a buf i toread m =
     (if i < toread then copy_args a buf (i + 1) toread (m(buf + of_int i := a (nat i))) else m)"
  by auto
termination by (relation "measure (\<lambda>(a, b, i, t, m). nat (t - i))") auto

declare copy_args.simps [simp del]

definition getargs :: "addr \<Rightarrow> i32 \<Rightarrow> kernel \<Rightarrow> kernel \<times> i32" where
  "getargs buf nbytes k =
     (let toread = (if sint nbytes > ARGS_ARR_SIZE then ARGS_ARR_SIZE else sint nbytes)
      in (set_user_mem (copy_args (args (curr_pcb k)) buf 0 toread (user_mem k)) k, 0))"

text \<open>The store of the address faults when one of its four bytes lies behind the window.\<close>

definition vidmap :: "addr \<Rightarrow> kernel \<Rightarrow> (kernel \<times> i32) option" where
  "vidmap screen_start k =
     (if screen_start = 0 \<or> screen_start < USER_PROG_LOC \<or> screen_start > USER_PROG_LOC + FOUR_MEG then Some (k, -1)
      else let (p, a) = set_vidmap (pt_addr k) (pd_addr k) (pg k);
               k' = k\<lparr>pg := p\<rparr>
           in if unat screen_start + 4 > unat USER_PROG_LOC + unat FOUR_MEG then None
              else Some (set_user_mem (store32 (user_mem k') screen_start a) k', 0))"

definition set_handler :: "i32 \<Rightarrow> addr \<Rightarrow> i32" where "set_handler signum handler_address = -1"
definition sigreturn :: i32 where "sigreturn = -1"

subsection \<open>System call entry\<close>

text \<open>
  The processor loads the stack pointer of the task state segment and pushes five words, the entry code
  pushes six more, and the call one; \<open>eax\<close> selects the call and \<open>ebx\<close>, \<open>ecx\<close>, \<open>edx\<close> hold its arguments; \<open>halt\<close>
  alone is compiled to take its own from \<open>eax\<close>. The entry code turns interrupts on again before it returns.
\<close>

definition trap_entry :: "kernel \<Rightarrow> kernel" where
  "trap_entry k = k\<lparr>kesp := tss_esp0 k - 48\<rparr>"

definition returns :: "(kernel \<times> i32) option \<Rightarrow> outcome option" where
  "returns r = map_option (\<lambda>(k, v). Returns (sti k) v) r"

definition sys_call :: "env \<Rightarrow> i32 \<Rightarrow> u32 \<Rightarrow> u32 \<Rightarrow> u32 \<Rightarrow> kernel \<Rightarrow> outcome option" where
  "sys_call e eax ebx ecx edx k0 =
     (let k = trap_entry k0 in
      if sint eax < 1 \<or> sint eax > 10 then returns (Some (k, -1))
      else if eax = 1 then map_option (\<lambda>r. case r of Returns k v \<Rightarrow> Returns (sti k) v | r \<Rightarrow> r) (halt e (ucast eax) k)
      else if eax = 2
      then map_option (\<lambda>r. case r of Returns k v \<Rightarrow> Returns (sti k) v | r \<Rightarrow> r) (execute e (view (user_mem k) ebx) k)
      else if eax = 3 then returns (sys_read e ebx ecx edx k)
      else if eax = 4 then returns (sys_write e ebx ecx edx k)
      else if eax = 5 then returns (sys_open e ebx k)
      else if eax = 6 then returns (Some (sys_close ebx k))
      else if eax = 7 then returns (Some (getargs ebx ecx k))
      else if eax = 8 then returns (vidmap ebx k)
      else if eax = 9 then returns (Some (k, set_handler ebx ecx))
      else returns (Some (k, sigreturn)))"

subsection \<open>Exception handlers\<close>

text \<open>Every handler turns interrupts off, prints its message and ends the process with \<open>halt(1)\<close>.\<close>

definition exception_with :: "string \<Rightarrow> env \<Rightarrow> kernel \<Rightarrow> outcome option" where
  "exception_with msg e k = do { k' \<leftarrow> kprintf (msg @ [CHR 0x0A]) (cli k); halt e 1 k' }"

definition divide_zero_exception :: "env \<Rightarrow> kernel \<Rightarrow> outcome option" where
  "divide_zero_exception = exception_with ''divide by zero exception.''"

definition single_step_exception :: "env \<Rightarrow> kernel \<Rightarrow> outcome option" where
  "single_step_exception = exception_with ''Single step exception.''"

definition nmi_exception :: "env \<Rightarrow> kernel \<Rightarrow> outcome option" where
  "nmi_exception = exception_with ''NMI exception.''"

definition breakpoint_exception :: "env \<Rightarrow> kernel \<Rightarrow> outcome option" where
  "breakpoint_exception = exception_with ''Breakpoint exception.''"

definition overflow_exception :: "env \<Rightarrow> kernel \<Rightarrow> outcome option" where
  "overflow_exception = exception_with ''Overflow exception.''"

definition bounds_exception :: "env \<Rightarrow> kernel \<Rightarrow> outcome option" where
  "bounds_exception = exception_with ''Bounds exception.''"

definition invalid_opcode_exception :: "env \<Rightarrow> kernel \<Rightarrow> outcome option" where
  "invalid_opcode_exception = exception_with ''Invalid opcode exception.''"

definition coprocessor_exception :: "env \<Rightarrow> kernel \<Rightarrow> outcome option" where
  "coprocessor_exception = exception_with ''Coprocessor exception.''"

definition double_fault_exception :: "env \<Rightarrow> kernel \<Rightarrow> outcome option" where
  "double_fault_exception = exception_with ''Double fault exception.''"

definition segment_overrun_exception :: "env \<Rightarrow> kernel \<Rightarrow> outcome option" where
  "segment_overrun_exception = exception_with ''Segment overrun exception.''"

definition invalid_tss_exception :: "env \<Rightarrow> kernel \<Rightarrow> outcome option" where
  "invalid_tss_exception = exception_with ''Invalid tss exception.''"

definition segment_not_present_exception :: "env \<Rightarrow> kernel \<Rightarrow> outcome option" where
  "segment_not_present_exception = exception_with ''Segment not present exception.''"

definition stack_fault_exception :: "env \<Rightarrow> kernel \<Rightarrow> outcome option" where
  "stack_fault_exception = exception_with ''Stack fault exception.''"

definition general_protection_exception :: "env \<Rightarrow> kernel \<Rightarrow> outcome option" where
  "general_protection_exception = exception_with ''General protection exception.''"

definition page_fault_exception :: "env \<Rightarrow> kernel \<Rightarrow> outcome option" where
  "page_fault_exception = exception_with ''Page fault exception.''"

definition math_fault_exception :: "env \<Rightarrow> kernel \<Rightarrow> outcome option" where
  "math_fault_exception = exception_with ''Math fault exception.''"

definition alignment_check_exception :: "env \<Rightarrow> kernel \<Rightarrow> outcome option" where
  "alignment_check_exception = exception_with ''Alignment check exception.''"

definition machine_check_exception :: "env \<Rightarrow> kernel \<Rightarrow> outcome option" where
  "machine_check_exception = exception_with ''Machine check exception.''"

definition simd_exception :: "env \<Rightarrow> kernel \<Rightarrow> outcome option" where
  "simd_exception = exception_with ''Simd exception.''"

section \<open>Parsing the command\<close>

lemma clear_prefix: "n < 4294967296 \<Longrightarrow> fold (\<lambda>i p. p(of_nat i := 0)) [0..<n] b = fill b (\<lambda>_. 0 :: u8) 0 n"
proof (induction n)
  case (Suc n)
  have "(fill b (\<lambda>_. 0) 0 n)(of_nat n := 0) = fill b (\<lambda>_. 0 :: u8) 0 (Suc n)"
  proof
    fix x :: u32
    have "x = of_nat n \<longleftrightarrow> unat x = n" using Suc.prems by (auto simp: unat_eq_iff32)
    then show "((fill b (\<lambda>_. 0) 0 n)(of_nat n := 0)) x = fill b (\<lambda>_. 0 :: u8) 0 (Suc n) x"
      by (auto simp: fill_apply less_Suc_eq)
  qed
  moreover have "fold (\<lambda>i p. p(of_nat i := 0)) [0..<Suc n] b = (fold (\<lambda>i p. p(of_nat i := 0 :: u8)) [0..<n] b)(of_nat n := 0)"
    by simp
  ultimately show ?case using Suc.IH Suc.prems by (simp only: Suc_lessD)
qed simp

lemma parse_name_eq:
  assumes "k \<le> n" "n < COMMAND_SIZE" "\<And>i. i < n \<Longrightarrow> command (of_nat i) \<noteq> 32 \<and> command (of_nat i) \<noteq> 0"
    "command (of_nat n) = 32 \<or> command (of_nat n) = 0"
  shows "parse_name command k p = (n, fill p command k n)"
  using assms(1)
proof (induction "n - k" arbitrary: k p)
  case 0
  then show ?case using assms by (subst parse_name.simps) auto
next
  case (Suc d)
  then have d: "d = n - Suc k" "Suc k \<le> n" "k < n" by auto
  have "parse_name command k p = parse_name command (Suc k) (p(of_nat k := command (of_nat k)))"
    using assms(2) assms(3) [of k] d by (subst parse_name.simps) auto
  also have "\<dots> = (n, fill (p(of_nat k := command (of_nat k))) command (Suc k) n)" by (rule Suc.hyps(1) [OF d(1,2)])
  also have "\<dots> = (n, fill p command k n)"
    using fill_step [OF d(3), of p command] assms(2) by (simp add: COMMAND_SIZE_def)
  finally show ?case .
qed

text \<open>The rest of the command from index \<open>b\<close>, as a list.\<close>

lemma parse_rest_eq:
  assumes "rest = chars (view command (of_nat b)) 0 (COMMAND_SIZE - b)" "k \<le> length rest"
  shows "parse_rest command (b + k) k a = (length rest, fill a (view command (of_nat b)) k (length rest))"
  using assms(2)
proof (induction "length rest - k" arbitrary: k a)
  case 0
  then have k: "k = length rest" by simp
  have "command (of_nat (b + k)) = 0" if "b + k < COMMAND_SIZE"
    using that k chars_stop [of "view command (of_nat b)" 0 "COMMAND_SIZE - b"] by (simp add: assms(1) view_def)
  then show ?case using k by (subst parse_rest.simps) auto
next
  case (Suc d)
  then have d: "d = length rest - Suc k" "Suc k \<le> length rest" "k < length rest" by auto
  have len: "length rest \<le> COMMAND_SIZE - b" using length_chars [of "view command (of_nat b)" 0 "COMMAND_SIZE - b"] by (simp add: assms(1))
  have "rest ! k = view command (of_nat b) (of_nat k)"
    using nth_chars [of k "view command (of_nat b)" 0 "COMMAND_SIZE - b"] d(3) by (simp add: assms(1))
  moreover have "rest ! k \<noteq> 0"
    using nth_mem [OF d(3)] chars_no_NUL [of "view command (of_nat b)" 0 "COMMAND_SIZE - b"] by (metis assms(1))
  ultimately have c: "command (of_nat (b + k)) \<noteq> 0" by (simp add: view_def)
  have "parse_rest command (b + k) k a = parse_rest command (b + Suc k) (Suc k) (a(of_nat k := command (of_nat (b + k))))"
    using c d(3) len by (subst parse_rest.simps) auto
  also have "\<dots> = (length rest, fill (a(of_nat k := view command (of_nat b) (of_nat k))) (view command (of_nat b)) (Suc k) (length rest))"
    using Suc.hyps(1) [OF d(1,2)] by (simp add: view_def)
  also have "\<dots> = (length rest, fill a (view command (of_nat b)) k (length rest))"
    using fill_step [OF d(3), of a "view command (of_nat b)"] len by (simp add: COMMAND_SIZE_def)
  finally show ?case .
qed

lemma parse_args_eq:
  assumes "n < 32" "\<forall>i < n. command (of_nat i) \<noteq> 32 \<and> command (of_nat i) \<noteq> 0"
    "command (of_nat n) = 32 \<or> command (of_nat n) = 0"
    "rest = chars (view command (of_nat (Suc n))) 0 (COMMAND_SIZE - Suc n)"
  shows "parse_args p a command =
     Some ((fill (fill p (\<lambda>_. 0) 0 32) command 0 n)(of_nat n := 0),
       (fill (fill a (\<lambda>_. 0) 0 140) (view command (of_nat (Suc n))) 0 (length rest))(of_nat (length rest) := 0))"
proof -
  have n: "n < COMMAND_SIZE" "n < unat FILE_NAME_SIZE" using assms(1) by (simp_all add: COMMAND_SIZE_def FILE_NAME_SIZE_def)
  have clear: "fold (\<lambda>i p. p(of_nat i := 0)) [0..<unat FILE_NAME_SIZE] p = fill p (\<lambda>_. 0) 0 32"
    "fold (\<lambda>i p. p(of_nat i := 0)) [0..<nat ARGS_ARR_SIZE] a = fill a (\<lambda>_. 0) 0 140"
    using clear_prefix [of 32 p] clear_prefix [of 140 a] by (simp_all only: FILE_NAME_SIZE_def ARGS_ARR_SIZE_def) simp_all
  have "parse_name command 0 (fill p (\<lambda>_. 0) 0 32) = (n, fill (fill p (\<lambda>_. 0) 0 32) command 0 n)"
    by (rule parse_name_eq) (use assms n in auto)
  moreover have "parse_rest command (Suc n) 0 (fill a (\<lambda>_. 0) 0 140) =
      (length rest, fill (fill a (\<lambda>_. 0) 0 140) (view command (of_nat (Suc n))) 0 (length rest))"
    using parse_rest_eq [OF assms(4), of 0] by simp
  ultimately show ?thesis using n(2) by (simp only: parse_args_def clear Let_def prod.case if_True)
qed

lemma parse_name_long:
  assumes "k \<le> n" "n \<le> COMMAND_SIZE" "\<forall>i < n. command (of_nat i) \<noteq> 32 \<and> command (of_nat i) \<noteq> 0"
  shows "n \<le> fst (parse_name command k p)"
  using assms(1)
proof (induction "n - k" arbitrary: k p)
  case 0
  have "k \<le> fst (parse_name command k p)" for k p
    by (induction command k p rule: parse_name.induct) (subst parse_name.simps, auto simp: fun_upd_def)
  then show ?case using 0 by auto
next
  case (Suc d)
  then have d: "d = n - Suc k" "Suc k \<le> n" by auto
  have "parse_name command k p = parse_name command (Suc k) (p(of_nat k := command (of_nat k)))"
    using assms(2,3) d(2) by (subst parse_name.simps) auto
  then show ?case using Suc.hyps(1) [OF d] by simp
qed

lemma parse_args_overrun:
  assumes "\<forall>i < 32. command (of_nat i) \<noteq> 32 \<and> command (of_nat i) \<noteq> 0"
  shows "parse_args p a command = None"
proof -
  have "32 \<le> fst (parse_name command 0 q)" for q by (rule parse_name_long) (use assms in \<open>simp_all add: COMMAND_SIZE_def\<close>)
  then have "\<not> fst (parse_name command 0 q) < unat FILE_NAME_SIZE" for q by (simp add: FILE_NAME_SIZE_def not_less)
  then show ?thesis by (simp only: parse_args_def Let_def case_prod_unfold if_False)
qed

lemma parse_args_strings:
  assumes "n < 32" "\<forall>i < n. command (of_nat i) \<noteq> 32 \<and> command (of_nat i) \<noteq> 0"
    "command (of_nat n) = 32 \<or> command (of_nat n) = 0"
    "rest = chars (view command (of_nat (Suc n))) 0 (COMMAND_SIZE - Suc n)"
  obtains program argv where "parse_args p a command = Some (program, argv)" "cstr program (map (\<lambda>i. command (of_nat i)) [0..<n])"
    "cstr argv rest" "\<forall>x. 140 \<le> unat x \<longrightarrow> argv x = a x" "length rest < 133"
proof -
  have "length rest \<le> COMMAND_SIZE - Suc n"
    using length_chars [of "view command (of_nat (Suc n))" 0 "COMMAND_SIZE - Suc n"] by (simp add: assms(4))
  then have len: "length rest < 133" by (simp add: COMMAND_SIZE_def)
  let ?p = "(fill (fill p (\<lambda>_. 0) 0 32) command 0 n)(of_nat n := 0)"
  let ?a = "(fill (fill a (\<lambda>_. 0) 0 140) (view command (of_nat (Suc n))) 0 (length rest))(of_nat (length rest) := 0)"
  have "cstr ?p (map (\<lambda>i. command (of_nat i)) [0..<n])"
    by (rule cstrI) (use assms(1,2) in \<open>auto simp: fill_of_nat of_nat32_eq_iff\<close>)
  moreover have "view command (of_nat (Suc n)) (of_nat i) = rest ! i" if "i < length rest" for i
    using nth_chars [of i "view command (of_nat (Suc n))" 0 "COMMAND_SIZE - Suc n"] that by (simp only: assms(4)) simp
  then have "cstr ?a rest" by (intro cstrI) (use len chars_no_NUL assms(4) in \<open>auto simp: fill_of_nat of_nat32_eq_iff\<close>)
  moreover have "?a x = a x" if "140 \<le> unat x" for x using that len by (auto simp: fill_apply)
  ultimately show thesis using that parse_args_eq [OF assms] len by blast
qed

section \<open>Loading the program\<close>

lemma unat_sub_of_nat:
  "p < 4294967296 \<Longrightarrow> n \<le> 4294967296 - p \<Longrightarrow> unat (x - of_nat p :: u32) < n \<longleftrightarrow> p \<le> unat x \<and> unat x < p + n"
proof (cases "p \<le> unat x")
  assume p: "p < 4294967296" "n \<le> 4294967296 - p"
  case True
  then have "unat (x - of_nat p) = unat x - p" using p by (subst unat_sub) (auto simp: word_le_nat_alt)
  then show ?thesis using True by auto
next
  assume p: "p < 4294967296" "n \<le> 4294967296 - p"
  case False
  then have "unat (x - of_nat p) = unat x + 4294967296 - p"
    using p by (subst unat_sub_if') (auto simp: word_le_nat_alt)
  then show ?thesis using False p by linarith
qed

lemmas load_end = VIRTUAL_ADDR_def USER_PROG_LOC_def FOUR_MEG_def

lemma load_loop_step:
  assumes "inode \<le> num_inodes img" "bs = file_bytes img inode" "p < length bs" "n = min 100 (length bs - p)"
  obtains fd' where "load_loop img inode (of_nat (length bs)) (of_nat p) fd m =
      (if p + n > 0x3B8000 then None
       else load_loop img inode (of_nat (length bs)) (of_nat (p + n)) fd' (copy_in m (VIRTUAL_ADDR + of_nat p) fd' (of_nat n)))"
    "fd' = (\<lambda>a. if unat a < n then bs ! (p + unat a) else fd a)"
proof -
  have L: "length bs < 4294967296" using unat_lt32 [of "inode_length img inode"] by (simp add: assms(2))
  define fd' where "fd' = (\<lambda>a. if unat a < n then bs ! (p + unat a) else fd a)"
  have rd: "read_data img inode (of_nat p) fd 100 = (of_nat n, fd')"
    using read_data_view [of inode img p fd 0 100] assms by (simp add: fd'_def view_def cong: if_cong)
  have "unat (of_nat n :: u32) = n" "unat (of_nat p :: u32) = p" using assms(3,4) L by simp_all
  then have "load_loop img inode (of_nat (length bs)) (of_nat p) fd m =
      (if p + n > 0x3B8000 then None
       else load_loop img inode (of_nat (length bs)) (of_nat (p + n)) fd' (copy_in m (VIRTUAL_ADDR + of_nat p) fd' (of_nat n)))"
    using assms(3) L by (subst load_loop.simps) (simp add: rd of_nat32_eq_iff load_end)
  then show thesis using that fd'_def by blast
qed

text \<open>A file that is too big for the window is never loaded to its end.\<close>

lemma load_loop_faults:
  assumes "inode \<le> num_inodes img" "bs = file_bytes img inode" "0x3B8000 < length bs" "p \<le> 0x3B8000"
  shows "load_loop img inode (of_nat (length bs)) (of_nat p) fd m = None"
  using assms(4)
proof (induction "length bs - p" arbitrary: p fd m rule: less_induct)
  case less
  define n where "n = min 100 (length bs - p)"
  have p: "p < length bs" "0 < n" using less.prems assms(3) by (auto simp: n_def)
  obtain fd' where "load_loop img inode (of_nat (length bs)) (of_nat p) fd m =
      (if p + n > 0x3B8000 then None
       else load_loop img inode (of_nat (length bs)) (of_nat (p + n)) fd' (copy_in m (VIRTUAL_ADDR + of_nat p) fd' (of_nat n)))"
    using load_loop_step [OF assms(1,2) p(1) n_def, of fd m] by blast
  then show ?case using less.hyps [of "p + n"] p assms(3) by auto
qed

lemma load_loop_eq:
  assumes "inode \<le> num_inodes img" "bs = file_bytes img inode" "p \<le> length bs" "length bs \<le> 0x3B8000"
  shows "load_loop img inode (of_nat (length bs)) (of_nat p) fd m =
     Some (\<lambda>a. if p \<le> unat (a - VIRTUAL_ADDR) \<and> unat (a - VIRTUAL_ADDR) < length bs then bs ! unat (a - VIRTUAL_ADDR) else m a)"
  using assms(3)
proof (induction "length bs - p" arbitrary: p fd m rule: less_induct)
  case less
  have L: "length bs < 4294967296" using unat_lt32 [of "inode_length img inode"] by (simp add: assms(2))
  show ?case
  proof (cases "p = length bs")
    case True
    then show ?thesis by (subst load_loop.simps) (auto simp: fun_eq_iff)
  next
    case False
    define n where "n = min 100 (length bs - p)"
    have n: "0 < n" "p + n \<le> length bs" "n \<le> 100" using False less.prems by (auto simp: n_def)
    have p: "p < length bs" using False less.prems by simp
    obtain fd' where step: "load_loop img inode (of_nat (length bs)) (of_nat p) fd m =
        (if p + n > 0x3B8000 then None
         else load_loop img inode (of_nat (length bs)) (of_nat (p + n)) fd' (copy_in m (VIRTUAL_ADDR + of_nat p) fd' (of_nat n)))"
      and fd'_def: "fd' = (\<lambda>a. if unat a < n then bs ! (p + unat a) else fd a)"
      using load_loop_step [OF assms(1,2) p n_def, of fd m] by blast
    define m' where "m' = copy_in m (VIRTUAL_ADDR + of_nat p) fd' (of_nat n)"
    have "load_loop img inode (of_nat (length bs)) (of_nat p) fd m =
        load_loop img inode (of_nat (length bs)) (of_nat (p + n)) fd' m'"
      using step n(2) assms(4) by (simp add: m'_def)
    also have "\<dots> = Some (\<lambda>a. if p + n \<le> unat (a - VIRTUAL_ADDR) \<and> unat (a - VIRTUAL_ADDR) < length bs
        then bs ! unat (a - VIRTUAL_ADDR) else m' a)"
      using n by (intro less.hyps) auto
    also have "(\<lambda>a. if p + n \<le> unat (a - VIRTUAL_ADDR) \<and> unat (a - VIRTUAL_ADDR) < length bs
        then bs ! unat (a - VIRTUAL_ADDR) else m' a) =
      (\<lambda>a. if p \<le> unat (a - VIRTUAL_ADDR) \<and> unat (a - VIRTUAL_ADDR) < length bs then bs ! unat (a - VIRTUAL_ADDR) else m a)"
    proof
      fix a
      let ?x = "a - VIRTUAL_ADDR"
      have off: "a - (VIRTUAL_ADDR + of_nat p) = ?x - of_nat p" by simp
      have inn: "unat (?x - of_nat p) < n \<longleftrightarrow> p \<le> unat ?x \<and> unat ?x < p + n"
        using n L by (intro unat_sub_of_nat) auto
      have val: "fd' (?x - of_nat p) = bs ! unat ?x" if "p \<le> unat ?x" "unat ?x < p + n"
      proof -
        have "unat (?x - of_nat p) = unat ?x - p"
          using that L n by (subst unat_sub) (auto simp: word_le_nat_alt)
        then show ?thesis using that inn by (simp add: fd'_def)
      qed
      have "m' a = (if p \<le> unat ?x \<and> unat ?x < p + n then bs ! unat ?x else m a)"
        using n inn val by (simp add: m'_def copy_in_def off)
      then show "(if p + n \<le> unat ?x \<and> unat ?x < length bs then bs ! unat ?x else m' a) =
        (if p \<le> unat ?x \<and> unat ?x < length bs then bs ! unat ?x else m a)"
        using n(2) by auto
    qed
    finally show ?thesis .
  qed
qed

text \<open>The memory of a process after its program was loaded.\<close>

definition loaded :: "u8 list \<Rightarrow> mem \<Rightarrow> mem" where
  "loaded bs m = (\<lambda>a. if unat (a - VIRTUAL_ADDR) < length bs then bs ! unat (a - VIRTUAL_ADDR) else m a)"

lemma load_file_eq:
  "inode_num d \<le> num_inodes (boot_block k) \<Longrightarrow> length (file_bytes (boot_block k) (inode_num d)) \<le> 0x3B8000 \<Longrightarrow>
    load_file e d k = Some (set_user_mem (loaded (file_bytes (boot_block k) (inode_num d)) (user_mem k)) k)"
  using load_loop_eq [of "inode_num d" "boot_block k" "file_bytes (boot_block k) (inode_num d)" 0 "uninit_buf e" "user_mem k"]
  by (simp add: load_file_def loaded_def)

section \<open>Starting a process\<close>

text \<open>
  The image holds an executable file with the name \<open>cs\<close> and the inode \<open>ino\<close>; the name fits the array of \<open>execute\<close> with its NUL, and the
  file fits the window from 0x08048000 on.
\<close>

definition runnable :: "str \<Rightarrow> u8 list \<Rightarrow> u32 \<Rightarrow> bool" where
  "runnable img cs ino \<longleftrightarrow> names_end img \<and> num_dir img \<le> NUM_DIR \<and> length cs < 32
     \<and> (case find (\<lambda>j. dir_name img j = cs) [0..<unat (num_dir img)] of
          None \<Rightarrow> False
        | Some j \<Rightarrow> load32 img (directory_offset (of_nat j) + 32) = 2 \<and> load32 img (directory_offset (of_nat j) + 36) = ino)
     \<and> ino \<le> num_inodes img \<and> take 4 (file_bytes img ino) = [0x7f, 0x45, 0x4c, 0x46]
     \<and> length (file_bytes img ino) \<le> 0x3B8000"

lemma read_prefix:
  assumes "inode \<le> num_inodes img" "k < unat n" "k < length (file_bytes img inode)"
  shows "snd (read_data img inode 0 b n) (of_nat k) = file_bytes img inode ! k"
proof -
  have "k < 4294967296" using assms(2) unat_lt32 [of n] by linarith
  then show ?thesis using read_data_view [of inode img 0 b 0 n] assms by (simp add: view_def)
qed

lemma check_validity_runnable:
  assumes "cstr program cs" "runnable img cs ino"
  shows "\<exists>d. check_validity e img program = Some (0, d) \<and> inode_num d = ino"
proof -
  note r = assms(2) [unfolded runnable_def]
  let ?bs = "file_bytes img ino"
  from r obtain j where j: "find (\<lambda>j. dir_name img j = cs) [0..<unat (num_dir img)] = Some j"
    "load32 img (directory_offset (of_nat j) + 32) = 2" "load32 img (directory_offset (of_nat j) + 36) = ino"
    by (auto split: option.splits)
  then have "unat (of_nat j :: u32) < unat (num_dir img)"
    using unat_lt32 [of "num_dir img"] by (auto simp: find_Some_iff)
  then have small: "\<not> (of_nat j :: u32) > NUM_DIR" using r by (simp add: word_le_nat_alt word_less_nat_alt)
  obtain d where d: "read_dentry_by_name img (Some program) (Some (uninit_dentry e)) = Some (0, Some d)"
    "file_type d = 2" "inode_num d = ino"
    using read_dentry_by_name_eq [OF assms(1), of img "uninit_dentry e"] r j small
    by (simp add: read_dentry_by_index_def)
  have "length (take 4 ?bs) = 4" using r by simp
  then have len: "4 \<le> length ?bs" by simp
  have magic: "?bs ! 0 = 0x7f" "?bs ! 1 = 0x45" "?bs ! 2 = 0x4c" "?bs ! 3 = 0x46"
    using r nth_take [of 0 4 ?bs] nth_take [of 1 4 ?bs] nth_take [of 2 4 ?bs] nth_take [of 3 4 ?bs] by simp_all
  have "snd (read_data img ino 0 (uninit_buf e) 4) (of_nat k) = ?bs ! k" if "k < 4" for k
    using r that len by (intro read_prefix) auto
  from this [of 0] this [of 1] this [of 2] this [of 3] magic
  show ?thesis using d by (simp add: check_validity_def case_prod_unfold)
qed

text \<open>The entry point that the header of a program names.\<close>

definition entry_of :: "u8 list \<Rightarrow> u32" where
  "entry_of bs = entry_point (\<lambda>i. bs ! unat i)"

lemma entry_point_header:
  assumes "ino \<le> num_inodes img" "40 \<le> length (file_bytes img ino)"
  shows "entry_point (snd (read_data img ino 0 b HEADER_SIZE)) = entry_of (file_bytes img ino)"
proof -
  have "snd (read_data img ino 0 b HEADER_SIZE) (of_nat k) = file_bytes img ino ! k" if "k < 40" for k
    using that assms by (intro read_prefix) (auto simp: HEADER_SIZE_def)
  from this [of 24] this [of 25] this [of 26] this [of 27] show ?thesis
    by (simp add: entry_point_def entry_of_def)
qed

text \<open>The state in which the new program is entered.\<close>

definition started :: "pcb \<Rightarrow> u32 \<Rightarrow> mem \<Rightarrow> kernel \<Rightarrow> kernel" where
  "started p n m k =
     k\<lparr>if_flag := True, processes := (processes k)(unat n := 1), curr_process := n, pg := create_page (pt_addr k) n (pg k),
       umem := (umem k)(n := m), tty_top_pid := (tty_top_pid k)(unat (active_tty k) := ucast n),
       next_one_is_root_shell := 0,
       pcbs := (pcbs k)(parent p := (pcbs k (parent p))\<lparr>ebp := kebp k, esp := kesp k\<rparr>, pcb_loc n := p),
       tss_ss0 := KERNEL_DS, tss_esp0 := kstack_top n\<rparr>"

lemma free_process_less: "free_process k = Some i \<Longrightarrow> i < 6 \<and> processes k i = 0 \<and> (\<forall>j < i. processes k j \<noteq> 0)"
  unfolding free_process_def find_Some_iff MAX_NUM_PROCESSES_def by auto

lemma ucast_small: "i < 6 \<Longrightarrow> (ucast (of_nat i :: u32) :: u8) = of_nat i"
proof -
  assume "i < 6"
  then have "i \<in> set [0..<6]" by simp
  then show ?thesis by (auto simp: upt_rec)
qed

lemma new_pcb_cong:
  "get_pcb k' = get_pcb k \<Longrightarrow> next_one_is_root_shell k' = next_one_is_root_shell k \<Longrightarrow> active_tty k' = active_tty k \<Longrightarrow>
   tss_esp0 k' = tss_esp0 k \<Longrightarrow> tss_ss0 k' = tss_ss0 k \<Longrightarrow> new_pcb e argv n k' = new_pcb e argv n k"
  by (simp add: new_pcb_def)

lemma execute_eq:
  assumes "free_process k = Some i" "parse_args (uninit_buf e) (uninit_buf e) command = Some (program, argv)"
    "cstr program cs" "runnable (boot_block k) cs ino" "bs = file_bytes (boot_block k) ino" "40 \<le> length bs"
  shows "execute e command k = Some (Enters (started (new_pcb e argv (of_nat i) k) (of_nat i) (loaded bs (umem k (of_nat i))) k)
     (entry_of bs) 0x083FFFFC)"
proof -
  have i: "i < 6" using free_process_less [OF assms(1)] by simp
  then have n: "(of_nat i :: u32) < 1022" "unat (of_nat i :: u32) = i" by (simp_all add: word_less_nat_alt)
  have fp: "free_process (cli k) = Some i" using assms(1) by (simp add: free_process_def cli_def)
  obtain d where d: "check_validity e (boot_block k) program = Some (0, d)" "inode_num d = ino"
    using check_validity_runnable [OF assms(3,4)] by blast
  have ino: "ino \<le> num_inodes (boot_block k)" "length bs \<le> 0x3B8000" using assms(4,5) by (simp_all add: runnable_def)
  define k1 where "k1 = (cli k)\<lparr>processes := (processes k)(i := 1), curr_process := of_nat i,
      pg := create_page (pt_addr k) (of_nat i) (pg k)\<rparr>"
  have k1: "boot_block k1 = boot_block k" "user_mem k1 = umem k (of_nat i)"
    by (simp_all add: k1_def cli_def user_mem_def window_create [OF n(1)])
  have load: "load_file e d k1 = Some (set_user_mem (loaded bs (umem k (of_nat i))) k1)"
    using load_file_eq [of d k1 e] ino d(2) assms(5) by (simp add: k1)
  define k2 where "k2 = set_user_mem (loaded bs (umem k (of_nat i))) k1"
  have k2: "k2 = k\<lparr>if_flag := False, processes := (processes k)(i := 1), curr_process := of_nat i,
      pg := create_page (pt_addr k) (of_nat i) (pg k), umem := (umem k)(of_nat i := loaded bs (umem k (of_nat i)))\<rparr>"
    by (simp add: k2_def set_user_mem_def k1_def cli_def window_create [OF n(1)])
  define p where "p = new_pcb e argv (of_nat i) k"
  have p: "new_pcb e argv (of_nat i) k2 = p" unfolding p_def by (rule new_pcb_cong) (simp_all add: k2 get_pcb_def)
  have root: "(if c \<or> x \<noteq> 0 then 0 else x) = 0" for c and x :: u8 by auto
  have sel: "processes (cli k) = processes k" "pt_addr (cli k) = pt_addr k" "pg (cli k) = pg k" "boot_block (cli k) = boot_block k"
    by (simp_all add: cli_def)
  have hd: "entry_point (snd (read_data (boot_block k) ino 0 (uninit_buf e) HEADER_SIZE)) = entry_of bs"
    using entry_point_header [OF ino(1)] assms(5,6) by simp
  show ?thesis
    unfolding execute_def Let_def assms(2) bind.bind_lunit prod.case fp option.case sel d(1) k1_def [symmetric] p_def [symmetric]
    by (simp add: load k2_def [symmetric] p root case_prod_unfold d(2))
      (simp add: k2 started_def on_pcb_def sti_def hd n(2) p_def [symmetric] paging_consts USER_PROG_LOC_def BYTES_IN_INT_def)
qed

section \<open>Ending a process\<close>

text \<open>What \<open>close\<close> can change: the interrupt flag, a terminal's line and the current process's descriptors.\<close>

definition closed_state :: "(nat \<Rightarrow> int) \<Rightarrow> (nat \<Rightarrow> fd_struct) \<Rightarrow> kernel \<Rightarrow> kernel" where
  "closed_state t f k =
     k\<lparr>if_flag := False, tail := t, pcbs := (pcbs k)(get_pcb k := (pcbs k (get_pcb k))\<lparr>fd_array := f\<rparr>)\<rparr>"

lemma closed_state_again: "closed_state t' f' (closed_state t f k) = closed_state t' f' k"
  by (simp add: closed_state_def get_pcb_def)

lemma get_pcb_closed [simp]: "get_pcb (closed_state t f k) = get_pcb k"
  by (simp add: closed_state_def get_pcb_def)

lemma fds_closed [simp]: "fds (closed_state t f k) = f"
  by (simp add: closed_state_def curr_pcb_def get_pcb_def)

lemma cli_closed: "cli k = closed_state (tail k) (fds k) k"
  by (simp add: cli_def closed_state_def curr_pcb_def get_pcb_def)

lemma sys_close_frame: "\<exists>t f. fst (sys_close fd k) = closed_state t f k"
proof (cases "sint fd < 2 \<or> sint fd \<ge> 8 \<or> flags (curr_fd (unat fd) k) = 0")
  case True
  then show ?thesis using cli_closed by (auto simp: sys_close_refused)
next
  case False
  have off: "closed (unat fd) k = closed_state (tail k) ((fds k)(unat fd := (fds k (unat fd))\<lparr>flags := 0\<rparr>)) k"
    by (simp add: on_fd_def on_pcb_def cli_def closed_state_def curr_pcb_def get_pcb_def)
  have line: "\<exists>t. fst (op_close tb fd (closed (unat fd) k)) = (closed (unat fd) k)\<lparr>tail := t\<rparr>" for tb
  proof (cases tb)
    case rtc_jump_table
    then show ?thesis by (intro exI [of _ "tail (closed (unat fd) k)"]) (simp add: rtc_close_def)
  next
    case directory_jump_table
    then show ?thesis by (intro exI [of _ "tail (closed (unat fd) k)"]) simp
  next
    case file_jump_table
    then show ?thesis by (intro exI [of _ "tail (closed (unat fd) k)"]) simp
  qed (auto simp: terminal_close_def)
  have "\<exists>t. fst (sys_close fd k) = (closed (unat fd) k)\<lparr>tail := t\<rparr>"
  proof (cases "file_operations (curr_fd (unat fd) k)")
    case None
    then show ?thesis using False
      by (intro exI [of _ "tail (closed (unat fd) k)"]) (simp add: sys_close_eq not_less not_le)
  qed (use False line in \<open>simp add: sys_close_eq not_less not_le\<close>)
  moreover have "(closed_state t' f k)\<lparr>tail := t\<rparr> = closed_state t f k" for t t' f by (simp add: closed_state_def)
  ultimately show ?thesis unfolding off by metis
qed

lemma closes_frame:
  "\<exists>t f. fold (\<lambda>i k. fst (sys_close (g i) k)) is (cli k) = closed_state t f k"
proof (induction "is" rule: rev_induct)
  case Nil
  then show ?case using cli_closed by auto
next
  case (snoc i "is")
  then obtain t f where "fold (\<lambda>i k. fst (sys_close (g i) k)) is (cli k) = closed_state t f k" by blast
  then show ?case using sys_close_frame [of "g i" "closed_state t f k"] by (auto simp: closed_state_again)
qed

text \<open>When the register holds the loop's index, every descriptor from 2 on ends up closed.\<close>

lemma closes_all:
  "n \<le> 8 \<Longrightarrow> 2 \<le> j \<Longrightarrow> j < n \<Longrightarrow> flags (fds (fold (\<lambda>i k. fst (sys_close (of_nat i) k)) [0..<n] k) j) = 0"
proof (induction n)
  case (Suc n)
  define k1 where "k1 = fold (\<lambda>i k. fst (sys_close (of_nat i) k)) [0..<n] k"
  have s: "sint (of_nat n :: u32) = int n" "unat (of_nat n :: u32) = n" using Suc.prems by (simp_all add: sint_of_nat32)
  have before: "j < n \<Longrightarrow> flags (fds k1 j) = 0" using Suc by (simp add: k1_def)
  show ?case
  proof (cases "2 \<le> n \<and> flags (fds k1 n) \<noteq> 0")
    case True
    then have "fds (fst (sys_close (of_nat n) k1)) = (fds k1)(n := (fds k1 n)\<lparr>flags := 0\<rparr>)"
      using sys_close_fds [of "of_nat n" k1] Suc.prems by (simp add: s)
    then show ?thesis using before Suc.prems by (auto simp: k1_def [symmetric])
  next
    case False
    then have "fst (sys_close (of_nat n) k1) = cli k1" using sys_close_refused [of "of_nat n" k1] by (auto simp: s)
    then show ?thesis using before Suc.prems False by (auto simp: k1_def [symmetric] curr_pcb_frame less_Suc_eq)
  qed
qed simp

lemma halt_child:
  assumes "parent (curr_pcb k) \<noteq> get_pcb k"
  shows "\<exists>t f. halt e status k = Some (to_parent (get_pcb k) (closed_state t f k))"
proof -
  obtain t f where c: "fold (\<lambda>i k. fst (sys_close (close_ebx e i) k)) [0..<nat FD_ARRAY_SIZE] (cli k) = closed_state t f k"
    using closes_frame by blast
  have "get_pcb (cli k) = get_pcb k" by (rule get_pcb_frame)
  moreover have "parent (pcbs (closed_state t f k) (get_pcb k)) \<noteq> get_pcb k"
    using assms by (simp add: closed_state_def curr_pcb_def)
  ultimately show ?thesis by (simp add: halt_def c Let_def, blast)
qed

text \<open>The state in which the parent's \<open>execute\<close> returns.\<close>

lemma to_parent_eq:
  assumes "a = get_pcb k" "b = parent (pcbs k a)" "b \<noteq> a" "m = process_num (pcbs k b)"
  shows "to_parent a (closed_state t f k) =
     Returns (closed_state t f k\<lparr>processes := (processes k)(unat (process_num (pcbs k a)) := 0, unat m := 1),
        tty_top_pid := (tty_top_pid k)(unat (tty (pcbs k a)) := ucast m), curr_process := m, tss_ss0 := KERNEL_DS,
        tss_esp0 := kstack_top m, pg := create_page (pt_addr k) m (pg k), kesp := esp (pcbs k b), kebp := ebp (pcbs k b)\<rparr>) 0"
  using assms by (simp add: to_parent_def Let_def closed_state_def)

lemma load_file_SomeD: "load_file e d k = Some k' \<Longrightarrow> \<exists>m. k' = set_user_mem m k"
  by (auto simp: load_file_def bind_eq_Some_conv)

lemma execute_EntersD:
  assumes "execute e command k = Some (Enters k' eip sp)"
  shows "\<exists>i argv m. free_process k = Some i \<and> k' = started (new_pcb e argv (of_nat i) k) (of_nat i) m k"
proof -
  obtain program argv where pa: "parse_args (uninit_buf e) (uninit_buf e) command = Some (program, argv)"
    using assms by (auto simp: execute_def Let_def bind_eq_Some_conv)
  have sel: "processes (cli k) = processes k" "pt_addr (cli k) = pt_addr k" "pg (cli k) = pg k" "boot_block (cli k) = boot_block k"
    "free_process (cli k) = free_process k"
    by (simp_all add: cli_def free_process_def)
  have "free_process k \<noteq> None"
    using assms unfolding execute_def Let_def sel pa bind.bind_lunit prod.case by (auto simp: bind_eq_Some_conv split: option.splits)
  then obtain i where i: "free_process k = Some i" by auto
  then have n: "(of_nat i :: u32) < 1022" "unat (of_nat i :: u32) = i"
    using free_process_less [OF i] by (simp_all add: word_less_nat_alt)
  obtain bad d where v: "check_validity e (boot_block k) program = Some (bad, d)" "bad = 0"
    using assms unfolding execute_def Let_def sel pa bind.bind_lunit prod.case i option.case
    by (auto simp: bind_eq_Some_conv split: if_splits)
  define k1 where "k1 = (cli k)\<lparr>processes := (processes k)(i := 1), curr_process := of_nat i,
      pg := create_page (pt_addr k) (of_nat i) (pg k)\<rparr>"
  obtain k2 where k2: "load_file e d k1 = Some k2"
    using assms unfolding execute_def Let_def sel pa bind.bind_lunit prod.case i option.case k1_def [symmetric]
    by (auto simp: bind_eq_Some_conv v)
  then obtain m where m: "k2 = set_user_mem m k1" using load_file_SomeD by blast
  have k2': "k2 = k\<lparr>if_flag := False, processes := (processes k)(i := 1), curr_process := of_nat i,
      pg := create_page (pt_addr k) (of_nat i) (pg k), umem := (umem k)(of_nat i := m)\<rparr>"
    by (simp add: m set_user_mem_def k1_def cli_def window_create [OF n(1)])
  define p where "p = new_pcb e argv (of_nat i) k"
  have p: "new_pcb e argv (of_nat i) k2 = p" unfolding p_def by (rule new_pcb_cong) (simp_all add: k2' get_pcb_def)
  have root: "(if c \<or> x \<noteq> 0 then 0 else x) = 0" for c and x :: u8 by auto
  have "k' = started p (of_nat i) m k"
    using assms unfolding execute_def Let_def sel pa bind.bind_lunit prod.case i option.case k1_def [symmetric] v bind.bind_lunit
    by (simp add: k2 p root case_prod_unfold)
      (auto simp: k2' started_def on_pcb_def sti_def n(2))
  then show ?thesis using i by (auto simp: p_def)
qed

text \<open>The stack pointer after a trap lies in the kernel stack of the task state segment.\<close>

lemma get_pcb_trap:
  assumes "tss_esp0 k = kstack_top n" "unat n < 512"
  shows "get_pcb (trap_entry k) = pcb_loc n"
proof (rule get_pcb_on_stack [OF assms(2)])
  have "unat (kstack_top n - 48) = 0x800000 - unat n * 8192 - 52"
    using unat_kstack_top [OF assms(2)] assms(2) by (subst unat_sub) (auto simp: word_le_nat_alt)
  then show "0x800000 - (unat n + 1) * 8192 \<le> unat (kesp (trap_entry k))" "unat (kesp (trap_entry k)) < 0x800000 - unat n * 8192"
    using assms by (simp_all add: trap_entry_def)
qed

text \<open>Process \<open>n\<close>, started by \<open>m\<close>, halts.\<close>

definition resumed :: "u32 \<Rightarrow> u32 \<Rightarrow> (nat \<Rightarrow> int) \<Rightarrow> (nat \<Rightarrow> fd_struct) \<Rightarrow> kernel \<Rightarrow> kernel" where
  "resumed m n t f k =
     sti (closed_state t f (trap_entry k)\<lparr>processes := (processes k)(unat n := 0, unat m := 1),
        tty_top_pid := (tty_top_pid k)(unat (tty (pcbs k (pcb_loc n))) := ucast m), curr_process := m, tss_ss0 := KERNEL_DS,
        tss_esp0 := kstack_top m, pg := create_page (pt_addr k) m (pg k), kesp := esp (pcbs k (pcb_loc m)), kebp := ebp (pcbs k (pcb_loc m))\<rparr>)"

lemma halt_resumes:
  assumes "tss_esp0 k = kstack_top n" "unat n < 512" "pcb_loc m \<noteq> pcb_loc n" "parent (pcbs k (pcb_loc n)) = pcb_loc m"
    "process_num (pcbs k (pcb_loc n)) = n" "process_num (pcbs k (pcb_loc m)) = m"
  shows "\<exists>t f. sys_call e 1 ebx ecx edx k = Some (Returns (resumed m n t f k) 0)"
proof -
  define k1 where "k1 = trap_entry k"
  have a: "get_pcb k1 = pcb_loc n" unfolding k1_def by (rule get_pcb_trap [OF assms(1,2)])
  have k1: "pcbs k1 = pcbs k" "processes k1 = processes k" "tty_top_pid k1 = tty_top_pid k" "pt_addr k1 = pt_addr k" "pg k1 = pg k"
    by (simp_all add: k1_def trap_entry_def)
  have "parent (curr_pcb k1) \<noteq> get_pcb k1" using assms(3,4) by (simp add: curr_pcb_def a k1)
  then obtain t f where h: "halt e 1 k1 = Some (to_parent (pcb_loc n) (closed_state t f k1))"
    using halt_child [where k = k1 and e = e] a by metis
  have "pcb_loc n = get_pcb k1" "pcb_loc m = parent (pcbs k1 (pcb_loc n))" "m = process_num (pcbs k1 (pcb_loc m))"
    using assms(4,6) by (simp_all add: a k1)
  from to_parent_eq [OF this(1,2) assms(3) this(3), of t f]
  have "sys_call e 1 ebx ecx edx k = Some (Returns (resumed m n t f k) 0)"
    by (simp add: sys_call_def Let_def k1_def [symmetric] h resumed_def k1 assms(5))
  then show ?thesis by blast
qed

section \<open>Kernel messages\<close>

abbreviation bytes_of :: "string \<Rightarrow> u8 list" where
  "bytes_of msg \<equiv> map (\<lambda>c. of_nat (of_char c)) msg"

lemma lit_nth: "j < length cs \<Longrightarrow> length cs < 4294967296 \<Longrightarrow> lit cs (of_nat j) = bytes_of cs ! j"
  by (simp add: lit_def)

lemma lit_end: "length cs < 4294967296 \<Longrightarrow> lit cs (of_nat (length cs)) = 0"
  by (simp add: lit_def)

lemma map_lit: "length cs < 4294967296 \<Longrightarrow> map (\<lambda>j. lit cs (of_nat j)) [0..<length cs] = bytes_of cs"
  by (intro nth_equalityI) (simp_all add: lit_nth)

lemma kprintf_plain:
  assumes "0 \<notin> set (bytes_of msg)" "37 \<notin> set (bytes_of msg)" "length msg < 4294967296"
  shows "kprintf msg k = Some (k\<lparr>scr := fold putc (bytes_of msg) (scr k)\<rparr>)"
proof -
  let ?its = "map Lit (bytes_of msg)"
  have enc: "concat (map encode (map Lit cs)) = cs" for cs by (induction cs) auto
  have out: "formatted m st esp (map Lit cs) = cs" for m st esp cs by (induction cs) auto
  have ok: "format_ok m st esp (map Lit cs)" if "0 \<notin> set cs" "37 \<notin> set cs" for m st esp cs
    using that by (induction cs) auto
  have "printf_loop (lit msg) (\<lambda>_. 0) (\<lambda>_. 0) (\<lambda>_. 0) 0 0 (scr k) =
      Some (0 + of_nat (length msg), fold putc (formatted (\<lambda>_. 0) (\<lambda>_. 0) 0 ?its) (scr k))"
    by (rule printf_loop_items [OF ok [OF assms(1,2)], unfolded enc]) (use assms(3) in \<open>auto simp: lit_def\<close>)
  then show ?thesis unfolding out by (simp add: kprintf_def printf_def)
qed

lemma execute_full:
  assumes "free_process k = None" "parse_args (uninit_buf e) (uninit_buf e) command = Some (program, argv)"
  shows "\<exists>s. execute e command k = Some (Returns (cli k\<lparr>scr := s\<rparr>) (-1))"
proof -
  have "free_process (cli k) = None" using assms(1) by (simp add: free_process_def cli_def)
  moreover have "\<exists>s. kprintf ''Max number of processes reached. Cannot run program...'' (cli k) = Some (cli k\<lparr>scr := s\<rparr>)"
    by (subst kprintf_plain) (simp_all, blast)
  ultimately show ?thesis using assms(2) by (auto simp: execute_def Let_def)
qed

lemma check_validity_unknown:
  assumes "cstr program cs" "names_end img" "cs \<notin> dir_name img ` {0..<unat (num_dir img)}"
  shows "\<exists>d. check_validity e img program = Some (-1, d)"
proof -
  have "find (\<lambda>j. dir_name img j = cs) [0..<unat (num_dir img)] = None"
    using assms(3) by (auto simp: find_None_iff)
  then show ?thesis
    using read_dentry_by_name_eq [OF assms(1,2), of "uninit_dentry e"] by (simp add: check_validity_def)
qed

lemma execute_unknown:
  assumes "free_process k = Some i" "parse_args (uninit_buf e) (uninit_buf e) command = Some (program, argv)"
    "check_validity e (boot_block k) program = Some (-1, d)"
  shows "execute e command k = Some (Returns (cli k) (-1))"
proof -
  have "free_process (cli k) = Some i" using assms(1) by (simp add: free_process_def cli_def)
  moreover have "boot_block (cli k) = boot_block k" by (rule boot_block_frame)
  ultimately show ?thesis using assms(2,3) by (simp add: execute_def Let_def)
qed

section \<open>Copying the arguments\<close>

lemma copy_args_eq:
  "0 \<le> i \<Longrightarrow> i \<le> n \<Longrightarrow> n < 4294967296 \<Longrightarrow>
   copy_args a buf i n m = (\<lambda>x. if i \<le> uint (x - buf) \<and> uint (x - buf) < n then a (unat (x - buf)) else m x)"
proof (induction "nat (n - i)" arbitrary: i m)
  case 0
  then show ?case by (subst copy_args.simps) (auto intro!: ext)
next
  case (Suc d)
  then have d: "d = nat (n - (i + 1))" "0 \<le> i + 1" "i + 1 \<le> n" "i < n" by linarith+
  have self: "x = buf + of_int i \<longleftrightarrow> uint (x - buf) = i" for x
  proof -
    have "x = buf + of_int i \<longleftrightarrow> x - buf = of_int i" by (auto simp: algebra_simps)
    also have "\<dots> \<longleftrightarrow> uint (x - buf) = i"
      using uint_of_int32 [of i] Suc.prems by (auto simp: word_uint_eq_iff)
    finally show ?thesis .
  qed
  have "copy_args a buf i n m = copy_args a buf (i + 1) n (m(buf + of_int i := a (nat i)))"
    using d(4) by (subst copy_args.simps) simp
  also have "\<dots> = (\<lambda>x. if i + 1 \<le> uint (x - buf) \<and> uint (x - buf) < n then a (unat (x - buf))
      else (m(buf + of_int i := a (nat i))) x)"
    by (rule Suc.hyps(1) [OF d(1-3) Suc.prems(3)])
  finally have "copy_args a buf i n m = (\<lambda>x. if i + 1 \<le> uint (x - buf) \<and> uint (x - buf) < n then a (unat (x - buf))
      else (m(buf + of_int i := a (nat i))) x)" .
  moreover have "uint (x - buf) = i \<Longrightarrow> unat (x - buf) = nat i" for x by (metis unat_eq_nat_uint)
  ultimately show ?case using d(4) by (simp add: fun_eq_iff self)
qed

section \<open>An example\<close>

text \<open>An image with one executable file of 40 bytes, named \<open>shell\<close>, and behind it a boot loader's
  information with one module at address 0; and a kernel with process 0 running.\<close>

definition exe_image :: str where
  "exe_image = (\<lambda>_. 0)(0 := 1, 4 := 1, 8 := 1, 64 := 115, 65 := 104, 66 := 101, 67 := 108, 68 := 108, 96 := 2, 4096 := 40, 8192 := 0x7f, 8193 := 0x45, 8194 := 0x4c,
     8195 := 0x46, 8216 := 0x34, 8217 := 0x12, 8218 := 0x04, 8219 := 0x08,
     0x20000 := 8, 0x20014 := 1, 0x20019 := 1, 0x2001A := 2)"

definition exe_kernel :: kernel where
  "exe_kernel = tiny_kernel\<lparr>boot_block := exe_image\<rparr>"

lemma exe_image_fields:
  "num_dir exe_image = 1" "num_inodes exe_image = 1" "inode_length exe_image 0 = 40" "directory_name exe_image 0 = view exe_image 64"
  "load32 exe_image (directory_offset 0 + 32) = 2" "load32 exe_image (directory_offset 0 + 36) = 0"
  by (simp_all add: num_dir_def num_inodes_def inode_length_def inode_offset_def load32_def directory_offset_def
      directory_name_def exe_image_def DATA_BLOCK_SIZE_def)

lemma exe_image_name: "cstr (directory_name exe_image 0) (bytes_of ''shell'')"
  by (rule cstrI) (auto simp: directory_name_def directory_offset_def view_def exe_image_def nth_Cons' less_Suc_eq)

lemma exe_image_bytes: "file_bytes exe_image 0 = map (\<lambda>i. exe_image (8192 + of_nat i)) [0..<40]"
proof -
  have "data_byte exe_image 0 (of_nat i) = exe_image (8192 + of_nat i)" if "i < 40" for i
  proof -
    have "(of_nat i :: u32) div 4096 = 0" "(of_nat i :: u32) mod 4096 = of_nat i"
      using that by (simp_all add: word_unat_eq_iff unat_div_distrib unat_mod_distrib)
    moreover have "data_block_num exe_image 0 0 = 0"
      by (simp add: data_block_num_def load32_def inode_offset_def DATA_BLOCK_SIZE_def exe_image_def)
    ultimately show ?thesis by (simp add: data_byte_def DATA_BLOCK_SIZE_def Let_def exe_image_fields)
  qed
  then show ?thesis by (simp add: file_bytes_eq exe_image_fields)
qed

lemma exe_runnable: "runnable exe_image (bytes_of ''shell'') 0"
proof -
  have "names_end exe_image" using exe_image_name by (auto simp: names_end_def exe_image_fields)
  moreover have "dir_name exe_image 0 = bytes_of ''shell''" using exe_image_name by (simp add: dir_name_def chars_cstr)
  moreover have "take 4 (file_bytes exe_image 0) = [exe_image 8192, exe_image 8193, exe_image 8194, exe_image 8195]"
    by (simp add: exe_image_bytes upt_rec)
  moreover have "exe_image 8192 = 0x7f" "exe_image 8193 = 0x45" "exe_image 8194 = 0x4c" "exe_image 8195 = 0x46"
    by (simp_all add: exe_image_def)
  ultimately show ?thesis by (simp add: runnable_def exe_image_fields NUM_DIR_def)
qed

lemma exe_free: "free_process exe_kernel = Some 1"
  by (simp add: free_process_def MAX_NUM_PROCESSES_def exe_kernel_def tiny_kernel_def upt_rec)

lemma exe_image_nth: "i < 40 \<Longrightarrow> file_bytes exe_image 0 ! i = exe_image (8192 + of_nat i)"
  by (simp add: exe_image_bytes)

lemma exe_entry: "entry_of (file_bytes exe_image 0) = 0x08041234"
proof -
  have "exe_image 8216 = 0x34" "exe_image 8217 = 0x12" "exe_image 8218 = 0x04" "exe_image 8219 = 0x08"
    by (simp_all add: exe_image_def)
  then show ?thesis by (simp add: entry_of_def entry_point_def exe_image_nth)
qed

section \<open>Properties\<close>

text \<open>
  \<open>parse_args\<close> splits a command at its first space or NUL: the characters before it, fewer than 32, become the program
  name, those after it, up to the next NUL, the arguments, and both are NUL-terminated; the
  arguments always fit their 140 bytes. When the name is ended by the NUL of the command the arguments are
  taken from the bytes behind it. A longer name overruns its array.
\<close>

theorem parse_args_correct:
  assumes "n < 133" "\<forall>i < n. command (of_nat i) \<noteq> 32 \<and> command (of_nat i) \<noteq> 0"
    "command (of_nat n) = 32 \<or> command (of_nat n) = 0" "rest = chars (view command (of_nat (n + 1))) 0 (132 - n)"
  shows "if n < 32
     then \<exists>program argv. parse_args p a command = Some (program, argv) \<and> cstr program (map (\<lambda>i. command (of_nat i)) [0..<n])
       \<and> cstr argv rest \<and> length rest < 140 \<and> (\<forall>x. 140 \<le> unat x \<longrightarrow> argv x = a x)
     else parse_args p a command = None"
proof (cases "n < 32")
  case True
  have "rest = chars (view command (of_nat (Suc n))) 0 (COMMAND_SIZE - Suc n)" using assms(1,4) by (simp add: COMMAND_SIZE_def)
  from parse_args_strings [OF True assms(2,3) this, of p a] obtain program argv where "parse_args p a command = Some (program, argv)"
    "cstr program (map (\<lambda>i. command (of_nat i)) [0..<n])" "cstr argv rest" "\<forall>x. 140 \<le> unat x \<longrightarrow> argv x = a x" "length rest < 133" by blast
  then show ?thesis using True by auto
next
  case False
  then show ?thesis using parse_args_overrun [of command p a] assms(2) by simp
qed

theorem parse_args_correct_witness:
  "\<exists>program argv. parse_args (\<lambda>_. 9) (\<lambda>_. 9) (\<lambda>i. if i = 0 then 108 else if i = 1 then 115 else if i = 3 then 45 else 0) = Some (program, argv)
     \<and> cstr program [108, 115]"
proof -
  define command where "command = (\<lambda>i :: u32. if i = 0 then 108 else if i = 1 then 115 else if i = 3 then 45 else 0 :: u8)"
  have two: "i = 0 \<or> i = 1" if "i < 2" for i :: nat using that by linarith
  have "\<forall>i < 2. command (of_nat i) \<noteq> 32 \<and> command (of_nat i) \<noteq> 0"
    by (auto simp: command_def dest!: two)
  moreover have "command (of_nat 2) = 0" by (simp add: command_def)
  moreover have "map (\<lambda>i. command (of_nat i)) [0..<2] = [108, 115]" by (simp add: command_def upt_rec)
  ultimately show ?thesis
    using parse_args_correct [of 2 command, OF _ _ _ refl, of "\<lambda>_. 9" "\<lambda>_. 9"] unfolding command_def [symmetric] by auto
qed

text \<open>
  C17: loading a program of up to 0x3B8000 bytes, what the window has room for behind 0x08048000, ends, and leaves its bytes in order
  at 0x08048000 in the memory of the process and every other byte of that memory as it was. A bigger file, which the format allows,
  is not refused: loading it runs into the unmapped page behind the window and faults.
\<close>

theorem load_file_correct:
  assumes "inode_num d \<le> num_inodes (boot_block k)" "bs = file_bytes (boot_block k) (inode_num d)"
  shows "if length bs \<le> 0x3B8000
     then \<exists>k'. load_file e d k = Some k' \<and> (\<forall>i < length bs. user_mem k' (0x08048000 + of_nat i) = bs ! i)
       \<and> (\<forall>a. length bs \<le> unat (a - 0x08048000) \<longrightarrow> user_mem k' a = user_mem k a)
     else load_file e d k = None"
proof (cases "length bs \<le> 0x3B8000")
  case True
  moreover have "unat (of_nat i :: u32) = i" if "i < length bs" for i using that True by simp
  ultimately show ?thesis using load_file_eq [OF assms(1), of e] assms(2) by (simp add: loaded_def VIRTUAL_ADDR_def)
next
  case False
  have "load_loop (boot_block k) (inode_num d) (inode_length (boot_block k) (inode_num d)) 0 (uninit_buf e) (user_mem k) = None"
    using load_loop_faults [OF assms, of 0 "uninit_buf e" "user_mem k"] False assms(2) by simp
  then show ?thesis using False by (simp add: load_file_def)
qed

theorem load_file_correct_witness:
  "\<exists>k'. load_file no_wait blank_dentry tiny_kernel = Some k' \<and> user_mem k' 0x08048001 = 121"
proof -
  have "inode_num blank_dentry \<le> num_inodes (boot_block tiny_kernel)"
    by (simp add: tiny_image_fields blank_dentry_def)
  from load_file_correct [OF this refl, of no_wait] obtain k' where "load_file no_wait blank_dentry tiny_kernel = Some k'"
    "\<forall>i < 3. user_mem k' (0x08048000 + of_nat i) = [120, 121, 122] ! i"
    by (auto simp: blank_dentry_def tiny_image_fields tiny_image_bytes)
  then show ?thesis by (auto dest: spec [of _ 1])
qed


lemma execute_named:
  assumes "free_process k = Some i" "c < 133" "\<forall>j < c. command (of_nat j) \<noteq> 32 \<and> command (of_nat j) \<noteq> 0"
    "command (of_nat c) = 32 \<or> command (of_nat c) = 0" "runnable (boot_block k) (map (\<lambda>j. command (of_nat j)) [0..<c]) ino"
    "bs = file_bytes (boot_block k) ino" "40 \<le> length bs" "rest = chars (view command (of_nat (c + 1))) 0 (132 - c)"
  obtains argv where "execute e command k = Some (Enters (started (new_pcb e argv (of_nat i) k) (of_nat i)
      (loaded bs (umem k (of_nat i))) k) (entry_of bs) 0x083FFFFC)" "cstr argv rest" "length rest < 133"
proof -
  have c: "c < 32" using assms(5) by (simp add: runnable_def)
  have "rest = chars (view command (of_nat (Suc c))) 0 (COMMAND_SIZE - Suc c)" using assms(8) by (simp add: COMMAND_SIZE_def)
  from parse_args_strings [OF c assms(3,4) this] obtain program argv where
    pa: "parse_args (uninit_buf e) (uninit_buf e) command = Some (program, argv)" "cstr program (map (\<lambda>j. command (of_nat j)) [0..<c])"
      "cstr argv rest" "length rest < 133" by blast
  from execute_eq [OF assms(1) pa(1,2) assms(5-7)] pa(3,4) that show thesis by blast
qed

text \<open>The command the kernel itself runs.\<close>

lemma lit_shell:
  "map (\<lambda>j. lit ''shell'' (of_nat j)) [0..<5] = bytes_of ''shell''"
  "\<forall>j < 5. lit ''shell'' (of_nat j) \<noteq> 32 \<and> lit ''shell'' (of_nat j) \<noteq> 0"
  "lit ''shell'' (of_nat 5) = 32 \<or> lit ''shell'' (of_nat 5) = 0"
proof -
  have len: "length ''shell'' = 5" by simp
  show "map (\<lambda>j. lit ''shell'' (of_nat j)) [0..<5] = bytes_of ''shell''" by (rule map_lit [of "''shell''", unfolded len]) simp
  have "bytes_of ''shell'' ! j \<noteq> 32 \<and> bytes_of ''shell'' ! j \<noteq> 0" if "j < 5" for j
    using nth_mem [of j "bytes_of ''shell''"] that by auto
  then show "\<forall>j < 5. lit ''shell'' (of_nat j) \<noteq> 32 \<and> lit ''shell'' (of_nat j) \<noteq> 0"
    by (simp add: lit_nth [of _ "''shell''", unfolded len])
  show "lit ''shell'' (of_nat 5) = 32 \<or> lit ''shell'' (of_nat 5) = 0"
    by (rule disjI2, rule lit_end [of "''shell''", unfolded len]) simp
qed

lemma execute_shell:
  assumes "free_process k = Some i" "runnable (boot_block k) (bytes_of ''shell'') ino"
    "bs = file_bytes (boot_block k) ino" "40 \<le> length bs"
  shows "\<exists>argv. execute e (lit ''shell'') k = Some (Enters (started (new_pcb e argv (of_nat i) k) (of_nat i)
      (loaded bs (umem k (of_nat i))) k) (entry_of bs) 0x083FFFFC)"
  using execute_named [OF assms(1) _ lit_shell(2,3) _ assms(3,4) refl, of e] assms(2) unfolding lit_shell(1) by auto

lemma slot_number:
  assumes "free_process k = Some i"
  shows "i < 6" "\<forall>j < i. processes k j \<noteq> 0" "(of_nat i :: u32) < 1022" "unat (of_nat i :: u32) = i"
    "(of_nat i :: u32) = 0 \<longleftrightarrow> i = 0" "(ucast (of_nat i :: u32) :: u8) = of_nat i"
proof -
  show i: "i < 6" "\<forall>j < i. processes k j \<noteq> 0" using free_process_less [OF assms] by auto
  then show "(of_nat i :: u32) < 1022" "unat (of_nat i :: u32) = i" "(of_nat i :: u32) = 0 \<longleftrightarrow> i = 0"
    using of_nat32_eq_iff [of i 0] by (simp_all add: word_less_nat_alt)
  show "(ucast (of_nat i :: u32) :: u8) = of_nat i" using i(1) by (rule ucast_small)
qed

text \<open>
  C2: \<open>execute\<close> of a command that names an executable file, with a process slot free, takes the lowest free
  slot, maps its frame, loads the program there and leaves every other process's memory alone, builds a
  control block with fresh descriptors, the arguments, the active terminal and the caller as parent (or
  itself for a root shell), points the task state segment to the new kernel stack and enters the
  program at the entry point of its header.
\<close>

theorem execute_starts_process:
  assumes "free_process k = Some i" "c < 133" "\<forall>j < c. command (of_nat j) \<noteq> 32 \<and> command (of_nat j) \<noteq> 0"
    "command (of_nat c) = 32 \<or> command (of_nat c) = 0" "runnable (boot_block k) (map (\<lambda>j. command (of_nat j)) [0..<c]) ino"
    "bs = file_bytes (boot_block k) ino" "40 \<le> length bs"
  shows "\<exists>k'. execute e command k = Some (Enters k' (entry_of bs) 0x083FFFFC)
     \<and> (\<forall>j < i. processes k j \<noteq> 0) \<and> processes k' = (processes k)(i := 1) \<and> curr_process k' = of_nat i
     \<and> window (pg k') = of_nat i \<and> user_mem k' = loaded bs (umem k (of_nat i)) \<and> (\<forall>m. m \<noteq> of_nat i \<longrightarrow> umem k' m = umem k m)
     \<and> tss_esp0 k' = kstack_top (of_nat i) \<and> tty_top_pid k' = (tty_top_pid k)(unat (active_tty k) := of_nat i) \<and> if_flag k'
     \<and> (let p = pcbs k' (pcb_loc (of_nat i)) in
          fds_ok p \<and> process_num p = of_nat i \<and> tty p = active_tty k
          \<and> cstr (\<lambda>x. args p (unat x)) (chars (view command (of_nat (c + 1))) 0 (132 - c))
          \<and> parent p = (if i = 0 \<or> next_one_is_root_shell k \<noteq> 0 then pcb_loc (of_nat i) else get_pcb k))"
proof -
  let ?rest = "chars (view command (of_nat (c + 1))) 0 (132 - c)"
  from execute_named [OF assms refl] obtain argv where run: "execute e command k = Some (Enters (started (new_pcb e argv (of_nat i) k)
      (of_nat i) (loaded bs (umem k (of_nat i))) k) (entry_of bs) 0x083FFFFC)" "cstr argv ?rest" "length ?rest < 133" .
  note n = slot_number [OF assms(1)]
  let ?k' = "started (new_pcb e argv (of_nat i) k) (of_nat i) (loaded bs (umem k (of_nat i))) k"
  have "cstr (\<lambda>x. args (new_pcb e argv (of_nat i) k) (unat x)) ?rest"
    using run(2,3) unfolding cstr_def by (simp add: new_pcb_def Let_def ARGS_ARR_SIZE_def)
  moreover have "fds_ok (new_pcb e argv (of_nat i) k)"
    using create_pcb_ok [of "uninit_pcb e"] by (simp add: new_pcb_def Let_def fds_ok_def)
  ultimately show ?thesis
    using run(1) by (intro exI [of _ ?k']) (simp add: started_def n window_create user_mem_def new_pcb_def Let_def)
qed

theorem execute_starts_process_witness:
  "\<exists>k'. execute no_wait (lit ''shell'') exe_kernel = Some (Enters k' 0x08041234 0x083FFFFC)
     \<and> processes k' 1 = 1 \<and> window (pg k') = 1 \<and> user_mem k' 0x08048001 = 0x45"
proof -
  have bb: "boot_block exe_kernel = exe_image" by (simp add: exe_kernel_def)
  have "\<exists>k'. execute no_wait (lit ''shell'') exe_kernel = Some (Enters k' 0x08041234 0x083FFFFC)
     \<and> processes k' = (processes exe_kernel)(1 := 1) \<and> window (pg k') = of_nat 1
     \<and> user_mem k' = loaded (file_bytes exe_image 0) (umem exe_kernel (of_nat 1))"
    using execute_starts_process [OF exe_free _ lit_shell(2,3), of 0 "file_bytes exe_image 0" no_wait] exe_runnable
    unfolding lit_shell(1) by (auto simp: bb exe_image_fields exe_entry)
  moreover have "loaded (file_bytes exe_image 0) m 0x08048001 = exe_image 8193" for m
    by (simp add: loaded_def VIRTUAL_ADDR_def exe_image_fields exe_image_nth)
  moreover have "exe_image 8193 = 0x45" by (simp add: exe_image_def)
  ultimately show ?thesis by auto
qed


text \<open>
  C24: \<open>execute\<close> of a command whose first word has at most 31 characters returns -1, having changed nothing but the interrupt
  flag and the screen, when all six process slots are taken or the image has no file with that name. (A longer first
  word overruns the array for the name before anything is tested; \<open>execute\<close> has no result for it.)
\<close>

theorem execute_refused:
  assumes "c < 32" "\<forall>j < c. command (of_nat j) \<noteq> 32 \<and> command (of_nat j) \<noteq> 0"
    "command (of_nat c) = 32 \<or> command (of_nat c) = 0" "names_end (boot_block k)"
    "(\<forall>j < 6. processes k j \<noteq> 0)
       \<or> map (\<lambda>j. command (of_nat j)) [0..<c] \<notin> dir_name (boot_block k) ` {0..<unat (num_dir (boot_block k))}"
  shows "\<exists>s. execute e command k = Some (Returns (k\<lparr>if_flag := False, scr := s\<rparr>) (-1))"
proof -
  from parse_args_strings [OF assms(1-3) refl] obtain program argv where
    pa: "parse_args (uninit_buf e) (uninit_buf e) command = Some (program, argv)" "cstr program (map (\<lambda>j. command (of_nat j)) [0..<c])" by blast
  show ?thesis
  proof (cases "free_process k")
    case None
    then show ?thesis using execute_full [OF None pa(1)] by (simp add: cli_def)
  next
    case (Some i)
    have "map (\<lambda>j. command (of_nat j)) [0..<c] \<notin> dir_name (boot_block k) ` {0..<unat (num_dir (boot_block k))}"
      using assms(5) free_process_less [OF Some] by auto
    then obtain d where "check_validity e (boot_block k) program = Some (-1, d)"
      using check_validity_unknown [OF pa(2) assms(4)] by blast
    from execute_unknown [OF Some pa(1) this] show ?thesis
      by (intro exI [of _ "scr k"]) (simp add: cli_def)
  qed
qed

theorem execute_refused_witness:
  "\<exists>s. execute no_wait (\<lambda>_. 0) named_kernel = Some (Returns (named_kernel\<lparr>if_flag := False, scr := s\<rparr>) (-1))"
proof -
  have "dir_name tiny_image 0 = [97]" using tiny_image_name by (simp add: dir_name_def chars_cstr)
  then show ?thesis
    using execute_refused [of 0 "\<lambda>_. 0" named_kernel no_wait] tiny_image_names_end by (simp add: tiny_image_fields)
qed


text \<open>
  \<open>getargs\<close> copies the first bytes of the current process's argument array to the caller's buffer, as
  many as asked for but never more than the array's 140, changes no other byte of memory and returns 0,
  whether or not the arguments fit.
\<close>

theorem getargs_correct:
  assumes "0 \<le> sint n"
  shows "snd (getargs buf n k) = 0
     \<and> user_mem (fst (getargs buf n k)) = (\<lambda>a. if unat (a - buf) < min 140 (nat (sint n)) then args (curr_pcb k) (unat (a - buf))
                                            else user_mem k a)
     \<and> curr_pcb (fst (getargs buf n k)) = curr_pcb k"
proof -
  define t where "t = (if sint n > ARGS_ARR_SIZE then ARGS_ARR_SIZE else sint n)"
  have t: "0 \<le> t" "t < 4294967296" "nat t = min 140 (nat (sint n))"
    using assms by (auto simp: t_def ARGS_ARR_SIZE_def)
  have "uint (a - buf) < t \<longleftrightarrow> unat (a - buf) < min 140 (nat (sint n))" for a
    using uint_less_int_iff [of "a - buf" "nat t"] t(1) unfolding t(3) [symmetric] by simp
  then show ?thesis
    using copy_args_eq [of 0 t "args (curr_pcb k)" buf "user_mem k", OF _ t(1,2)]
    by (simp add: getargs_def Let_def t_def [symmetric] curr_pcb_frame)
qed

theorem getargs_correct_witness: "user_mem (fst (getargs 100 2 tiny_kernel)) 101 = args (curr_pcb tiny_kernel) 1"
  using getargs_correct [of 2 100 tiny_kernel] by simp

text \<open>
  C37: \<open>vidmap\<close> refuses a null pointer, one below the user window and one above 0x08400000 with -1 and changes nothing. For a pointer
  with room for an address in the window it returns 0 and stores at the pointer the address through which user programs now reach video
  memory. The upper bound of the test is off by four: a pointer to one of the last three bytes of the window, or to
  0x08400000 itself, the first address behind it, is accepted, and the store faults, since no page is mapped there.
\<close>

theorem vidmap_correct:
  assumes "paging_reach (pt_addr k) (pd_addr k) q v (pg k)" "aligned4k (pt_addr k)"
  shows "if p < 0x08000000 \<or> p > 0x08400000 then vidmap p k = Some (k, -1)
     else if p \<le> 0x083FFFFC
     then \<exists>k'. vidmap p k = Some (k', 0) \<and> user_mem k' = store32 (user_mem k) p 0x21000
       \<and> translate (pt_addr k) (pg k') True 0x21000 = Some 0xB8000
     else vidmap p k = None \<and> translate (pt_addr k) (fst (set_vidmap (pt_addr k) (pd_addr k) (pg k))) False 0x08400000 = None"
proof (cases "p < 0x08000000 \<or> p > 0x08400000")
  case True
  then have "vidmap p k = Some (k, -1)" by (simp add: vidmap_def USER_PROG_LOC_def FOUR_MEG_def)
  then show ?thesis using True by simp
next
  case False
  have p: "p \<noteq> 0" "unat p + 4 \<le> 0x08400000 \<longleftrightarrow> p \<le> 0x083FFFFC" using False by (auto simp: word_le_nat_alt word_less_nat_alt)
  obtain pg' where pg': "set_vidmap (pt_addr k) (pd_addr k) (pg k) = (pg', 0x21000)"
    by (simp add: set_vidmap_def VID_MAP_LOC_def)
  have w: "window pg' = window (pg k)" using pg' by (auto simp: set_vidmap_def window_def paging_consts)
  note reach = translate_reach [OF paging_reach.vidmap [OF assms(1)] assms(2)]
  have tr: "translate (pt_addr k) pg' True 0x21000 = Some 0xB8000" "translate (pt_addr k) pg' False 0x08400000 = None"
    using reach [of True "0x21000"] reach [of False "0x08400000"] pg'
    by (simp_all add: address_map_def dir_index_def table_index_def)
  have v: "vidmap p k = (if p \<le> 0x083FFFFC then Some (set_user_mem (store32 (user_mem (k\<lparr>pg := pg'\<rparr>)) p 0x21000) (k\<lparr>pg := pg'\<rparr>), 0) else None)"
    using False p by (auto simp: vidmap_def USER_PROG_LOC_def FOUR_MEG_def pg' Let_def)
  show ?thesis unfolding v if_not_P [OF False] using tr w by (auto simp: pg' user_mem_def set_user_mem_def)
qed

theorem vidmap_correct_witness:
  "\<exists>k. (\<exists>k'. vidmap 0x08000100 k = Some (k', 0) \<and> translate (pt_addr k) (pg k') True 0x21000 = Some 0xB8000) \<and> vidmap 0x08400000 k = None"
proof -
  define k where "k = tiny_kernel\<lparr>pt_addr := 0x407000, pd_addr := 0x408000,
    pg := paging_enable 0x408000 (paging_init 0x407000 (pg tiny_kernel))\<rparr>"
  have "paging_reach (pt_addr k) (pd_addr k) None False (pg k)" unfolding k_def by (simp add: paging_reach.boot)
  moreover have "aligned4k (pt_addr k)" by (simp add: k_def aligned4k_def)
  ultimately show ?thesis
    using vidmap_correct [of k None False "0x08000100"] vidmap_correct [of k None False "0x08400000"] by (intro exI [of _ k]) auto
qed

text \<open>
  A system call number outside 1 to 10, negative ones included, and the two unimplemented signal calls
  return -1 and change nothing but the kernel stack pointer and the interrupt flag, which is on.
\<close>

theorem sys_call_rejects:
  assumes "sint eax < 1 \<or> 10 < sint eax \<or> eax = 9 \<or> eax = 10"
  shows "sys_call e eax ebx ecx edx k = Some (Returns (k\<lparr>if_flag := True, kesp := tss_esp0 k - 48\<rparr>) (-1))"
  using assms
  by (elim disjE) (simp_all add: sys_call_def Let_def returns_def trap_entry_def sti_def set_handler_def sigreturn_def)

theorem sys_call_rejects_witness:
  "\<exists>k'. sys_call no_wait (-3) 0 0 0 tiny_kernel = Some (Returns k' (-1)) \<and> if_flag k'"
  using sys_call_rejects [of "-3" no_wait 0 0 0 tiny_kernel] by simp

end
