(* ===== verification/Tasks.thy ===== *)
theory Tasks
  imports System
begin

text \<open>
  Scheduling and terminal switching: \<open>get_next_process\<close> and \<open>switch_process\<close> of \<^verbatim>\<open>student-distrib/scheduling.c\<close>, \<open>pit_handler\<close>
  of \<^verbatim>\<open>student-distrib/pit.c\<close> and \<open>switch_to_tty\<close> of \<^verbatim>\<open>student-distrib/task_switch.c\<close>. A routine that loads another process's stack
  and frame pointers goes on there and not in its caller: such an end is an outcome of its own, with
  the loaded pointers in the kernel state.
\<close>

section \<open>Model\<close>

text \<open>
  How a handler ends: in the interrupted process, on the stack of another process, or in a program that
  was started.
\<close>

datatype resumption = Back kernel | Resume kernel | Start kernel u32 u32

text \<open>
  The search for the next open terminal. Index 3, which it reads when it starts from the last terminal,
  lies behind the array: the model's table holds whatever byte is there.
\<close>

partial_function (option) next_open :: "(nat \<Rightarrow> u8) \<Rightarrow> u32 \<Rightarrow> u32 option" where
  [code]: "next_open top_pid next_tty =
     (if top_pid (unat next_tty) = TTY_UNOPENED then next_open top_pid ((next_tty + 1) mod of_nat MAX_TTY) else Some next_tty)"

definition get_next_process :: "u32 \<Rightarrow> kernel \<Rightarrow> u32 option" where
  "get_next_process curr_tty k =
     do { _ \<leftarrow> next_open (tty_top_pid k) (curr_tty + 1); Some (ucast (tty_top_pid k (unat curr_tty))) }"

text \<open>The part that \<open>switch_process\<close> and \<open>switch_to_tty\<close> share: page, task state segment, stack and frame pointers.\<close>

definition load_process :: "u32 \<Rightarrow> kernel \<Rightarrow> kernel" where
  "load_process n k =
     k\<lparr>pg := create_page (pt_addr k) n (pg k), tss_ss0 := KERNEL_DS, tss_esp0 := kstack_top n,
       kebp := ebp (pcbs k (pcb_loc n)), kesp := esp (pcbs k (pcb_loc n))\<rparr>"

definition switch_process :: "kernel \<Rightarrow> resumption option" where
  "switch_process k0 =
     (let k = cli k0; p = curr_pcb k;
          k1 = on_pcb (get_pcb k) (\<lambda>q. q\<lparr>ebp := kebp k, esp := kesp k\<rparr>) k
      in do {
        n \<leftarrow> get_next_process (ucast (tty p)) k1;
        if n = -1 \<or> n = process_num p then Some (Back k1)
        else Some (Resume (sti (load_process n k1)))
      })"

definition pit_handler :: "kernel \<Rightarrow> resumption option" where
  "pit_handler k = switch_process (on_pic (send_eoi 0) k)"

definition switch_to_tty :: "env \<Rightarrow> u8 \<Rightarrow> kernel \<Rightarrow> resumption option" where
  "switch_to_tty e t k0 =
     (let k = (on_scr (switch_screen (active_tty k0) t) k0)\<lparr>active_tty := t\<rparr> in
      if tty_top_pid k (unat (active_tty k)) = TTY_UNOPENED
      then do {
        r \<leftarrow> sys_execute e (lit ''shell'') ((on_scr clear k)\<lparr>next_one_is_root_shell := 1\<rparr>);
        Some (case r of Returns k' _ \<Rightarrow> Back (sti k') | Enters k' eip sp \<Rightarrow> Start k' eip sp)
      }
      else Some (Resume (load_process (ucast (tty_top_pid k (unat t))) k)))"

section \<open>The search ends\<close>

lemma next_open_found: "top_pid (unat t) \<noteq> TTY_UNOPENED \<Longrightarrow> next_open top_pid t = Some t"
  by (subst next_open.simps) simp

lemma next_open_step: "top_pid (unat t) = TTY_UNOPENED \<Longrightarrow> next_open top_pid t = next_open top_pid ((t + 1) mod 3)"
  by (subst next_open.simps) (simp add: MAX_TTY_def)

lemma u32_less_3:
  assumes "unat t < 3"
  shows "t = 0 \<or> t = 1 \<or> t = (2 :: u32)"
proof -
  have "unat t = 0 \<or> unat t = 1 \<or> unat t = 2" using assms by auto
  moreover have "t = 0" if "unat t = unat (0 :: u32)" using that by (simp only: word_unat_eq_iff)
  moreover have "t = 1" if "unat t = unat (1 :: u32)" using that by (simp only: word_unat_eq_iff)
  moreover have "t = 2" if "unat t = unat (2 :: u32)" using that by (simp only: word_unat_eq_iff)
  ultimately show ?thesis by auto
qed

lemma next_open_ends:
  assumes "unat t < 3" "top_pid (unat t) \<noteq> TTY_UNOPENED"
  shows "\<exists>u. next_open top_pid (t + 1) = Some u"
proof -
  define ends where "ends s \<longleftrightarrow> (\<exists>u. next_open top_pid s = Some u)" for s
  have step: "ends ((s + 1) mod 3) \<longrightarrow> ends s" for s
    unfolding ends_def using next_open_step [of top_pid s] next_open_found [of top_pid s]
    by (cases "top_pid (unat s) = TTY_UNOPENED") auto
  have "ends 2 \<longrightarrow> ends 1" "ends 0 \<longrightarrow> ends 2" "ends 1 \<longrightarrow> ends 0" "ends 1 \<longrightarrow> ends 3"
    using step [of 1] step [of 2] step [of 0] step [of 3] by simp_all
  moreover have "ends t" using next_open_found [of top_pid t, OF assms(2)] by (simp add: ends_def)
  ultimately have "t = 0 \<longrightarrow> ends 1" "t = 1 \<longrightarrow> ends 2" "t = 2 \<longrightarrow> ends 3" by blast+
  then have "ends (t + 1)" using u32_less_3 [OF assms(1)] by (elim disjE) simp_all
  then show ?thesis by (simp add: ends_def)
qed

text \<open>It ends in an open terminal only, so with none it goes round for ever.\<close>

lemma next_open_open:
  assumes "next_open top_pid t = Some u"
  shows "top_pid (unat u) \<noteq> TTY_UNOPENED \<and> (u = t \<or> unat u < 3)"
proof (rule next_open.raw_induct [where P = "\<lambda>top_pid t u. top_pid (unat u) \<noteq> TTY_UNOPENED \<and> (u = t \<or> unat u < 3)", OF _ assms])
  fix loop :: "(nat \<Rightarrow> u8) \<Rightarrow> u32 \<Rightarrow> u32 option" and top_pid t u
  assume IH: "\<And>top_pid t u. loop top_pid t = Some u \<Longrightarrow> top_pid (unat u) \<noteq> TTY_UNOPENED \<and> (u = t \<or> unat u < 3)"
    and body: "(if top_pid (unat t) = TTY_UNOPENED then loop top_pid ((t + 1) mod of_nat MAX_TTY) else Some t) = Some u"
  have "unat ((t + 1) mod of_nat MAX_TTY :: u32) < 3" by (simp add: MAX_TTY_def unat_mod_distrib)
  then show "top_pid (unat u) \<noteq> TTY_UNOPENED \<and> (u = t \<or> unat u < 3)"
    using IH [of top_pid "(t + 1) mod of_nat MAX_TTY" u] body by (cases "top_pid (unat t) = TTY_UNOPENED") auto
qed

section \<open>Properties\<close>

text \<open>
  C26: the search of the scheduler for the next open terminal ends whenever the terminal it starts from is
  open, which it is for the terminal of a running process, and the value returned is nevertheless the
  process of the terminal it started from and not of the one found. If no terminal is open, the search from terminal 0 or 1 never
  ends. From terminal 2 it first looks at the byte behind the table of three, and that byte decides: it never ends if the byte is 255, the mark of
  a terminal that is not open, and ends at once if it is not.
\<close>

theorem get_next_process_ends:
  assumes "unat t < 3"
  shows "(tty_top_pid k (unat t) \<noteq> TTY_UNOPENED \<longrightarrow> get_next_process t k = Some (ucast (tty_top_pid k (unat t))))
     \<and> ((\<forall>i < 3. tty_top_pid k i = TTY_UNOPENED) \<longrightarrow>
          (if t = 2 \<and> tty_top_pid k 3 \<noteq> TTY_UNOPENED then get_next_process t k = Some (ucast TTY_UNOPENED) else get_next_process t k = None))"
proof (intro conjI impI)
  assume "tty_top_pid k (unat t) \<noteq> TTY_UNOPENED"
  from next_open_ends [OF assms, of "tty_top_pid k", OF this]
  show "get_next_process t k = Some (ucast (tty_top_pid k (unat t)))" by (auto simp: get_next_process_def)
next
  assume none: "\<forall>i < 3. tty_top_pid k i = TTY_UNOPENED"
  show "if t = 2 \<and> tty_top_pid k 3 \<noteq> TTY_UNOPENED then get_next_process t k = Some (ucast TTY_UNOPENED) else get_next_process t k = None"
  proof (cases "t = 2 \<and> tty_top_pid k 3 \<noteq> TTY_UNOPENED")
    case True
    then have "next_open (tty_top_pid k) 3 = Some 3" by (subst next_open.simps) simp
    then show ?thesis using True none by (simp add: get_next_process_def)
  next
    case False
    have t: "t = 0 \<or> t = 1 \<or> t = 2" using u32_less_3 [OF assms] by auto
    have "next_open (tty_top_pid k) (t + 1) \<noteq> Some u" for u
      using next_open_open [of "tty_top_pid k" "t + 1" u] none t False by auto
    then show ?thesis using False by (cases "next_open (tty_top_pid k) (t + 1)") (auto simp: get_next_process_def)
  qed
qed

theorem get_next_process_ends_witness:
  "get_next_process 0 tiny_kernel = Some 0 \<and> get_next_process 0 (tiny_kernel\<lparr>tty_top_pid := \<lambda>_. 255\<rparr>) = None"
  using get_next_process_ends [of 0 tiny_kernel] get_next_process_ends [of 0 "tiny_kernel\<lparr>tty_top_pid := \<lambda>_. 255\<rparr>"]
  by (simp add: tiny_kernel_def TTY_UNOPENED_def)

text \<open>
  C25: the timer never takes the processor from a process that is in front on its terminal: the handler
  acknowledges the interrupt, saves the stack and frame pointers in the process's control block and
  comes back to the same process, whatever the other terminals run, with the same pages, memory, task
  state segment and stack.
\<close>

theorem timer_never_switches:
  assumes "unat (tty (curr_pcb k)) < 3" "ucast (tty_top_pid k (unat (tty (curr_pcb k)))) = process_num (curr_pcb k)"
    "tty_top_pid k (unat (tty (curr_pcb k))) \<noteq> TTY_UNOPENED"
  shows "pit_handler k = Some (Back (k\<lparr>if_flag := False, hw_pic := send_eoi 0 (hw_pic k),
      pcbs := (pcbs k)(get_pcb k := (curr_pcb k)\<lparr>ebp := kebp k, esp := kesp k\<rparr>)\<rparr>))"
proof -
  let ?k = "on_pic (send_eoi 0) k"
  let ?k1 = "on_pcb (get_pcb ?k) (\<lambda>q. q\<lparr>ebp := kebp ?k, esp := kesp ?k\<rparr>) (cli ?k)"
  have "next_open (tty_top_pid k) (ucast (tty (curr_pcb k)) + 1) \<noteq> None"
    using next_open_ends [of "ucast (tty (curr_pcb k))" "tty_top_pid k"] assms by auto
  then have "get_next_process (ucast (tty (curr_pcb k))) ?k1 = Some (process_num (curr_pcb k))"
    using assms(2) by (auto simp: get_next_process_def on_pcb_def hw_defs)
  then show ?thesis
    by (simp add: pit_handler_def switch_process_def Let_def fd_simps)
       (simp add: on_pcb_def hw_defs curr_pcb_def get_pcb_def)
qed

theorem timer_never_switches_witness:
  "\<exists>k. tty_top_pid k 1 = 1 \<and> (\<exists>k'. pit_handler k = Some (Back k') \<and> pg k' = pg k \<and> kesp k' = kesp k)"
  using timer_never_switches [of "tiny_kernel\<lparr>tty_top_pid := (\<lambda>_. 255)(0 := 0, 1 := 1)\<rparr>"]
  by (intro exI [of _ "tiny_kernel\<lparr>tty_top_pid := (\<lambda>_. 255)(0 := 0, 1 := 1)\<rparr>"])
     (simp add: tiny_kernel_def curr_pcb_def blank_pcb_def create_pcb_def Let_def TTY_UNOPENED_def)

text \<open>
  C28: switching to a terminal with a process shows that terminal's screen and cursor, maps the frame of the
  process in front there and goes on with the stack and frame pointers of its control block; no
  control block changes, so the pointers of the process that is left are those of its last timer
  interrupt. On a terminal without one a shell is started in the lowest free slot, as its own parent
  and in front of that terminal; interrupts are on in it.
\<close>

theorem switch_to_tty_correct:
  assumes "unat t < 3" "free_process k = Some i" "runnable (boot_block k) (bytes_of ''shell'') ino"
    "bs = file_bytes (boot_block k) ino" "40 \<le> length bs"
  shows "if tty_top_pid k (unat t) \<noteq> TTY_UNOPENED
    then let n = ucast (tty_top_pid k (unat t)) in
      \<exists>k'. switch_to_tty e t k = Some (Resume k') \<and> active_tty k' = t \<and> scr k' = switch_screen (active_tty k) t (scr k)
        \<and> pg k' = create_page (pt_addr k) n (pg k) \<and> tss_esp0 k' = kstack_top n
        \<and> kesp k' = esp (pcbs k (pcb_loc n)) \<and> kebp k' = ebp (pcbs k (pcb_loc n)) \<and> pcbs k' = pcbs k
    else \<exists>k'. switch_to_tty e t k = Some (Start k' (entry_of bs) 0x083FFFFC) \<and> active_tty k' = t \<and> if_flag k'
        \<and> tty_top_pid k' = (tty_top_pid k)(unat t := of_nat i) \<and> processes k' = (processes k)(i := 1)
        \<and> parent (pcbs k' (pcb_loc (of_nat i))) = pcb_loc (of_nat i) \<and> tty (pcbs k' (pcb_loc (of_nat i))) = t
        \<and> user_mem k' = loaded bs (umem k (of_nat i))"
proof (cases "tty_top_pid k (unat t) = TTY_UNOPENED")
  case False
  then show ?thesis by (simp add: switch_to_tty_def Let_def load_process_def on_scr_def)
next
  case True
  define k1 where "k1 = (on_scr clear ((on_scr (switch_screen (active_tty k) t) k)\<lparr>active_tty := t\<rparr>))\<lparr>next_one_is_root_shell := 1\<rparr>"
  have k1: "active_tty k1 = t" "free_process k1 = Some i" "boot_block k1 = boot_block k" "tty_top_pid k1 = tty_top_pid k"
    "processes k1 = processes k" "umem k1 = umem k" "next_one_is_root_shell k1 = 1"
    using assms(2) by (simp_all add: k1_def on_scr_def free_process_def)
  from execute_shell [OF k1(2), of ino bs e] assms(3-5)
  obtain argv where "execute e (lit ''shell'') k1 = Some (Enters (started (new_pcb e argv (of_nat i) k1)
      (of_nat i) (loaded bs (umem k1 (of_nat i))) k1) (entry_of bs) 0x083FFFFC)" unfolding k1(3) by blast
  then have "switch_to_tty e t k = Some (Start (started (new_pcb e argv (of_nat i) k1)
      (of_nat i) (loaded bs (umem k1 (of_nat i))) k1) (entry_of bs) 0x083FFFFC)"
    using True by (simp add: switch_to_tty_def Let_def sys_execute_def k1_def) (simp add: on_scr_def)
  then show ?thesis
    using True by (simp add: started_def k1 new_pcb_def Let_def user_mem_def window_create slot_number [OF assms(2)])
qed

theorem switch_to_tty_correct_witness:
  "\<exists>k1 k2. switch_to_tty no_wait 0 exe_kernel = Some (Resume k1) \<and> window (pg k1) = 0
     \<and> switch_to_tty no_wait 2 exe_kernel = Some (Start k2 0x08041234 0x083FFFFC) \<and> tty_top_pid k2 2 = 1"
proof -
  have bb: "boot_block exe_kernel = exe_image" and tt: "tty_top_pid exe_kernel = (\<lambda>_. 255)(0 := 0)"
    by (simp_all add: exe_kernel_def tiny_kernel_def)
  note sw = switch_to_tty_correct [OF _ exe_free, of _ 0 "file_bytes exe_image 0" no_wait, unfolded bb, OF _ exe_runnable refl,
      unfolded tt exe_entry Let_def]
  show ?thesis using sw [of 0] sw [of 2] by (auto simp: exe_image_fields TTY_UNOPENED_def window_create)
qed

end
