(* ===== verification/Keyboard.thy ===== *)
theory Keyboard
  imports Tasks
begin

text \<open>
  The keyboard interrupt handler \<open>kb_interrupt_do\<close> of \<^verbatim>\<open>student-distrib/idt.c\<close> with its scan code tables and the key
  macros of \<^verbatim>\<open>student-distrib/dev/terminal.h\<close>. The scan code read from port 0x60 is an argument. The handler
  feeds the terminal driver, clears the screen and switches terminals, so it ends as \<^const>\<open>switch_to_tty\<close>
  does. A table read out of range would be \<open>None\<close>; the lemmas show that there is none, and relate a
  sequence of scan codes to the line that the terminal's readers see.
\<close>

section \<open>Model\<close>

record kbd =
  caps_enabled :: i32
  shift_pressed :: i32
  ctrl_pressed :: i32
  alt_pressed :: i32
  meta_pressed :: i32
  enter_pressed :: i32

definition char_map :: "u8 list" where
  "char_map = bytes_of (''??1234567890-=? qwertyuiop[]'' @ [CHR 0x0A] @ ''?asdfghjkl;'' @ [CHR 0x27, CHR 0x60]
     @ ''?'' @ [CHR 0x5C] @ ''zxcvbnm,./??? '')"

definition char_map_caps :: "u8 list" where
  "char_map_caps = bytes_of (''??!@#$%^&*()_+? QWERTYUIOP{}'' @ [CHR 0x0A] @ ''?ASDFGHJKL:'' @ [CHR 0x22]
     @ ''~?|ZXCVBNM,.???? '')"

definition at_index :: "u8 list \<Rightarrow> u8 \<Rightarrow> u8 option" where
  "at_index xs i = (if unat i < length xs then Some (xs ! unat i) else None)"

text \<open>The end of the handler, and the write of one character to the terminal.\<close>

definition kb_done :: "kbd \<Rightarrow> kernel \<Rightarrow> (kbd \<times> resumption) option" where
  "kb_done b k = Some (b, Back (on_pic (send_eoi 1) k))"

definition kb_write :: "u8 \<Rightarrow> kbd \<Rightarrow> kernel \<Rightarrow> (kbd \<times> resumption) option" where
  "kb_write character b k = kb_done b (fst (terminal_write 0 (\<lambda>_. character) 0 1 k))"

definition kb_interrupt_do :: "env \<Rightarrow> u8 \<Rightarrow> kbd \<Rightarrow> kernel \<Rightarrow> (kbd \<times> resumption) option" where
  "kb_interrupt_do e input b k =
     (if input \<ge> 0x81 \<and> input \<le> 0xD8
      then let b = (if input = 0x9D then b\<lparr>ctrl_pressed := 0\<rparr> else b);
               b = (if input = 0xAA \<or> input = 0xB6 then b\<lparr>shift_pressed := 0\<rparr> else b);
               b = (if input = 0xB8 then b\<lparr>alt_pressed := 0\<rparr> else b)
           in kb_done b k
      else if input = 42 \<or> input = 54 then kb_done (b\<lparr>shift_pressed := 1\<rparr>) k
      else if input = 0x38 \<or> input = 0x36 then kb_done (b\<lparr>alt_pressed := 1\<rparr>) k
      else if input = 0x1D \<or> input = 0xE0 then kb_done (b\<lparr>ctrl_pressed := 1\<rparr>) k
      else if input = 0x1C then kb_write 10 (b\<lparr>enter_pressed := 1\<rparr>) k
      else if input = 0x3A then kb_done (b\<lparr>caps_enabled := 1 - caps_enabled b\<rparr>) k
      else if input = 0x0E then kb_write 8 b k
      else if alt_pressed b \<noteq> 0 \<or> ctrl_pressed b \<noteq> 0 \<or> meta_pressed b \<noteq> 0
      then let k1 = (if ctrl_pressed b \<noteq> 0 \<and> input = 0x26 then on_scr clear k else k) in
        if input \<le> 61 \<and> input \<ge> 59 \<and> alt_pressed b \<noteq> 0
        then do {
          r \<leftarrow> switch_to_tty e (input - 59) (on_pic (send_eoi 1) k1);
          case r of Back k' \<Rightarrow> kb_done b (k'\<lparr>active_tty := input - 59\<rparr>) | _ \<Rightarrow> Some (b, r)
        }
        else kb_done b k1
      else if input > 58 then kb_done b k
      else do {
        plain \<leftarrow> at_index char_map input;
        caps \<leftarrow> at_index char_map_caps input;
        let character =
          (if plain \<le> 122 \<and> plain \<ge> 97
           then if shift_pressed b XOR caps_enabled b \<noteq> 0 then caps else plain
           else if shift_pressed b \<noteq> 0 then caps else plain);
        kb_write character b k
      })"

section \<open>What a scan code means\<close>

lemma length_char_maps: "length char_map = 58" "length char_map_caps = 58"
  by (simp_all add: char_map_def char_map_caps_def)

text \<open>The modifiers after a scan code, and the character that is typed.\<close>

definition modifiers :: "u8 \<Rightarrow> kbd \<Rightarrow> kbd" where
  "modifiers sc b =
     (if sc = 0x9D then b\<lparr>ctrl_pressed := 0\<rparr> else if sc = 0xAA \<or> sc = 0xB6 then b\<lparr>shift_pressed := 0\<rparr>
      else if sc = 0xB8 then b\<lparr>alt_pressed := 0\<rparr> else if sc = 0x2A \<or> sc = 0x36 then b\<lparr>shift_pressed := 1\<rparr>
      else if sc = 0x38 then b\<lparr>alt_pressed := 1\<rparr> else if sc = 0x1D \<or> sc = 0xE0 then b\<lparr>ctrl_pressed := 1\<rparr>
      else if sc = 0x1C then b\<lparr>enter_pressed := 1\<rparr> else if sc = 0x3A then b\<lparr>caps_enabled := 1 - caps_enabled b\<rparr> else b)"

definition shortcut :: "kbd \<Rightarrow> bool" where
  "shortcut b \<longleftrightarrow> alt_pressed b \<noteq> 0 \<or> ctrl_pressed b \<noteq> 0 \<or> meta_pressed b \<noteq> 0"

definition typed :: "u8 \<Rightarrow> kbd \<Rightarrow> u8 option" where
  "typed sc b =
     (if sc = 0x1C then Some 10 else if sc = 0x0E then Some 8
      else if unat sc \<ge> 58 \<or> sc \<in> {0x2A, 0x36, 0x38, 0x1D} \<or> shortcut b then None
      else let c = char_map ! unat sc; letter = (97 \<le> c \<and> c \<le> 122) in
        Some (if shift_pressed b XOR (if letter then caps_enabled b else 0) \<noteq> 0 then char_map_caps ! unat sc else c))"

text \<open>The scan codes that only type: no terminal is asked for and the screen is not cleared.\<close>

definition types :: "u8 \<Rightarrow> kbd \<Rightarrow> bool" where
  "types sc b \<longleftrightarrow> \<not> (shortcut b \<and> (sc = 0x26 \<or> 59 \<le> unat sc \<and> unat sc \<le> 61))"

lemma kb_interrupt_types:
  assumes "types sc b"
  shows "kb_interrupt_do e sc b k =
     kb_done (modifiers sc b) (case typed sc b of None \<Rightarrow> k | Some c \<Rightarrow> key c k)"
proof -
  note defs = kb_interrupt_do_def kb_write_def modifiers_def typed_def key_def
  have le: "unat sc \<ge> 58 \<longleftrightarrow> 58 \<le> sc" "59 \<le> unat sc \<longleftrightarrow> 59 \<le> sc" "unat sc \<le> 61 \<longleftrightarrow> sc \<le> 61"
    by (simp_all add: word_le_nat_alt)
  consider (released) "0x81 \<le> sc" "sc \<le> 0xD8" | (special) "sc \<in> {0x2A, 0x36, 0x38, 0x1D, 0xE0, 0x1C, 0x3A, 0x0E}"
    | (other) "\<not> (0x81 \<le> sc \<and> sc \<le> 0xD8)" "sc \<notin> {0x2A, 0x36, 0x38, 0x1D, 0xE0, 0x1C, 0x3A, 0x0E}" by blast
  then show ?thesis
  proof cases
    case released
    have "58 \<le> sc" using order_trans [OF _ released(1), of 58] by simp
    then show ?thesis using released by (auto simp: defs le Let_def)
  next
    case special
    then show ?thesis by (auto simp: defs)
  next
    case other
    then have mods: "modifiers sc b = b" by (auto simp: modifiers_def)
    show ?thesis
    proof (cases "shortcut b")
      case True
      then have "typed sc b = None" using other by (simp add: typed_def)
      then show ?thesis using True other assms by (auto simp: kb_interrupt_do_def mods types_def le shortcut_def)
    next
      case False
      show ?thesis
      proof (cases "58 < sc")
        case True
        then have "typed sc b = None" using other by (simp add: typed_def le order_less_imp_le)
        then show ?thesis using True False other by (auto simp: kb_interrupt_do_def mods shortcut_def)
      next
        case small: False
        have "sc \<noteq> 58" using other by simp
        then have "sc < 58" using small by (simp add: order.order_iff_strict not_less)
        then have "unat sc < 58" by (simp add: word_less_nat_alt)
        then have "at_index char_map sc = Some (char_map ! unat sc)" "at_index char_map_caps sc = Some (char_map_caps ! unat sc)"
          by (simp_all add: at_index_def length_char_maps)
        moreover define c where "c = (if 97 \<le> char_map ! unat sc \<and> char_map ! unat sc \<le> 122
          then if shift_pressed b XOR caps_enabled b \<noteq> 0 then char_map_caps ! unat sc else char_map ! unat sc
          else if shift_pressed b \<noteq> 0 then char_map_caps ! unat sc else char_map ! unat sc)"
        ultimately have "kb_interrupt_do e sc b k = kb_write c b k"
          using small False other by (simp only: kb_interrupt_do_def shortcut_def insert_iff empty_iff de_Morgan_disj simp_thms
              if_False bind.bind_lunit conj_commute [of "97 \<le> _"] Let_def)
        moreover have "typed sc b = Some c"
          using other False \<open>unat sc < 58\<close> unfolding typed_def Let_def c_def by simp
        ultimately show ?thesis by (simp add: mods kb_write_def key_def)
      qed
    qed
  qed
qed

section \<open>Sequences of scan codes\<close>

text \<open>The handler for each of the scan codes in turn, as long as it comes back to the interrupted process.\<close>

fun run_keys :: "env \<Rightarrow> u8 list \<Rightarrow> kbd \<Rightarrow> kernel \<Rightarrow> (kbd \<times> kernel) option" where
  "run_keys e [] b k = Some (b, k)"
| "run_keys e (sc # scs) b k =
     (case kb_interrupt_do e sc b k of Some (b', Back k') \<Rightarrow> run_keys e scs b' k' | _ \<Rightarrow> None)"

text \<open>The modifiers and the characters of a sequence, and the sequences that only type.\<close>

primrec types_all :: "u8 list \<Rightarrow> kbd \<Rightarrow> bool" where
  "types_all [] b = True"
| "types_all (sc # scs) b = (types sc b \<and> types_all scs (modifiers sc b))"

primrec text_typed :: "u8 list \<Rightarrow> kbd \<Rightarrow> u8 list" where
  "text_typed [] b = []"
| "text_typed (sc # scs) b = (case typed sc b of None \<Rightarrow> [] | Some c \<Rightarrow> [c]) @ text_typed scs (modifiers sc b)"

lemma key_on_pic: "key c (on_pic f k) = on_pic f (key c k)"
  by (simp add: key_def terminal_write_one Let_def hw_defs on_scr_def)

lemma fold_key_on_pic: "fold key cs (on_pic f k) = on_pic f (fold key cs k)"
  by (induction cs arbitrary: k) (simp_all add: key_on_pic)

lemma run_keys_types:
  "types_all scs b \<Longrightarrow>
    run_keys e scs b k = Some (fold modifiers scs b, (on_pic (send_eoi 1) ^^ length scs) (fold key (text_typed scs b) k))"
proof (induction scs arbitrary: b k)
  case (Cons sc scs)
  have swap: "(on_pic (send_eoi 1) ^^ n) (on_pic (send_eoi 1) k) = on_pic (send_eoi 1) ((on_pic (send_eoi 1) ^^ n) k)" for n and k :: kernel
    by (simp add: funpow_swap1)
  show ?case using Cons by (cases "typed sc b") (simp_all add: kb_interrupt_types kb_done_def fold_key_on_pic swap)
qed simp

lemma line_on_pic [simp]:
  "line t (on_pic f k) = line t k" "line_ok t (on_pic f k) = line_ok t k" "enter_status (on_pic f k) = enter_status k"
  for k :: "'a tty_dev_scheme"
  by (simp_all add: line_def line_ok_def on_pic_def)

lemma line_on_pic_pow [simp]:
  "line t ((on_pic f ^^ n) k) = line t k" "enter_status ((on_pic f ^^ n) k) = enter_status k" for k :: "'a tty_dev_scheme"
  by (induction n) simp_all

lemma enter_key: "enter_status (key c k) = (if c = 10 then 1 else enter_status k)"
  by (simp add: key_def terminal_write_one Let_def)

lemma enter_fold_key: "enter_status (fold key cs k) = (if 10 \<in> set cs then 1 else enter_status k)"
  by (induction cs arbitrary: k) (auto simp: enter_key)

text \<open>While control counts as pressed nothing is typed.\<close>

lemma control_key:
  assumes "ctrl_pressed b = 1" "sc \<notin> {0x9D, 0x1C, 0x0E, 59, 60, 61}"
  shows "\<exists>k'. kb_interrupt_do e sc b k = Some (modifiers sc b, Back k') \<and> ctrl_pressed (modifiers sc b) = 1
     \<and> (\<forall>t. line t k' = line t k) \<and> enter_status k' = enter_status k"
proof (cases "sc = 0x26")
  case True
  then show ?thesis using assms by (simp add: kb_interrupt_do_def modifiers_def kb_done_def line_def on_pic_def on_scr_def)
next
  case False
  have "unat sc \<noteq> unat (59 :: u8)" "unat sc \<noteq> unat (60 :: u8)" "unat sc \<noteq> unat (61 :: u8)"
    using assms(2) by (simp_all only: word_unat_eq_iff [symmetric]) auto
  then have "unat sc \<notin> {59, 60, 61}" by simp
  then have "\<not> (59 \<le> unat sc \<and> unat sc \<le> 61)" by auto
  then have "types sc b" "typed sc b = None" using assms False by (auto simp: types_def typed_def shortcut_def)
  moreover have "ctrl_pressed (modifiers sc b) = 1" using assms by (simp add: modifiers_def)
  ultimately show ?thesis by (simp add: kb_interrupt_types kb_done_def)
qed

lemma control_types_nothing:
  assumes "\<forall>sc \<in> set scs. sc \<notin> {0x9D, 0x1C, 0x0E, 59, 60, 61}" "ctrl_pressed b = 1"
  shows "\<exists>b' k'. run_keys e scs b k = Some (b', k') \<and> ctrl_pressed b' = 1 \<and> (\<forall>t. line t k' = line t k)
     \<and> enter_status k' = enter_status k"
  using assms
proof (induction scs arbitrary: b k)
  case (Cons sc scs)
  from control_key [of b sc e k] Cons.prems obtain k1 where k1: "kb_interrupt_do e sc b k = Some (modifiers sc b, Back k1)"
    "ctrl_pressed (modifiers sc b) = 1" "\<forall>t. line t k1 = line t k" "enter_status k1 = enter_status k" by auto
  show ?case using Cons.IH [OF _ k1(2), of k1] Cons.prems(1) k1 by auto
qed simp

lemma run_keys_append: "run_keys e xs b k = Some (b', k') \<Longrightarrow> run_keys e (xs @ ys) b k = run_keys e ys b' k'"
  by (induction xs arbitrary: b k) (auto split: option.splits prod.splits resumption.splits)

text \<open>The letter keys of the keyboard with the letters on them.\<close>

definition letter_keys :: "(nat \<times> char) list" where
  "letter_keys = zip ([0x10..<0x1A] @ [0x1E..<0x27] @ [0x2C..<0x33]) ''qwertyuiopasdfghjklzxcvbnm''"

lemma letter_table:
  "list_all (\<lambda>(i, c). char_map ! i = of_nat (of_char c) \<and> char_map_caps ! i = of_nat (of_char c - 32) \<and> i < 58
     \<and> i \<notin> {0x0E, 0x1C, 0x1D, 0x2A, 0x36, 0x38, 0x3A} \<and> of_char c \<in> {97..<123 :: nat}) letter_keys"
  by code_simp

section \<open>Properties\<close>

text \<open>
  C14: whatever scan codes arrive, as long as no terminal switch or screen clear is asked for, every interrupt
  is handled and comes back, the modifier state follows the presses and releases, and the line of the
  active terminal is the one that a line editor makes of the characters typed; the other terminals'
  lines stay, and \<open>enter_status\<close> is raised when enter was among the keys.
\<close>

theorem keyboard_types_line:
  assumes "types_all scs b" "t = unat (active_tty k)" "line_ok t k" "length (line t k) + length (text_typed scs b) \<le> 1025"
  shows "\<exists>k'. run_keys e scs b k = Some (fold modifiers scs b, k')
     \<and> line t k' = fold edit (text_typed scs b) (line t k) \<and> (\<forall>u. u \<noteq> t \<longrightarrow> line_ok u k \<longrightarrow> line u k' = line u k)
     \<and> enter_status k' = (if 10 \<in> set (text_typed scs b) then 1 else enter_status k)"
  using run_keys_types [OF assms(1), of e k] ed.type_text [of t k "text_typed scs b"] fold_key_other [of t k "text_typed scs b"] assms
  by (auto simp: enter_fold_key)

definition no_mods :: kbd where
  "no_mods = \<lparr>caps_enabled = 0, shift_pressed = 0, ctrl_pressed = 0, alt_pressed = 0, meta_pressed = 0, enter_pressed = 0\<rparr>"

text \<open>Shift down, h, shift up, i, x, backspace, enter.\<close>

theorem keyboard_types_line_witness:
  "\<exists>k'. run_keys no_wait [42, 35, 0xAA, 23, 45, 14, 28] no_mods tiny_kernel = Some (no_mods\<lparr>enter_pressed := 1\<rparr>, k')
     \<and> line 0 k' = bytes_of ''Hi'' \<and> enter_status k' = 1"
proof -
  have "types_all [42, 35, 0xAA, 23, 45, 14, 28] no_mods"
    by (simp add: types_def shortcut_def modifiers_def no_mods_def)
  moreover have "text_typed [42, 35, 0xAA, 23, 45, 14, 28] no_mods = [72, 105, 120, 8, 10]"
    by (simp add: typed_def shortcut_def modifiers_def no_mods_def Let_def char_map_def char_map_caps_def)
  moreover have "fold modifiers [42, 35, 0xAA, 23, 45, 14, 28] no_mods = no_mods\<lparr>enter_pressed := 1\<rparr>"
    by (simp add: modifiers_def no_mods_def)
  moreover have "line 0 tiny_kernel = []" "line_ok 0 tiny_kernel" "active_tty tiny_kernel = 0"
    by (simp_all add: line_def line_ok_def tiny_kernel_def MAX_BUFFER_SIZE_def)
  ultimately have "\<exists>k'. run_keys no_wait [42, 35, 0xAA, 23, 45, 14, 28] no_mods tiny_kernel = Some (no_mods\<lparr>enter_pressed := 1\<rparr>, k')
     \<and> line 0 k' = fold edit [72, 105, 120, 8, 10] [] \<and> enter_status k' = 1"
    using keyboard_types_line [of "[42, 35, 0xAA, 23, 45, 14, 28]" no_mods 0 tiny_kernel no_wait]
    by (auto simp del: run_keys.simps fold_simps types_all.simps text_typed.simps)
  then show ?thesis by (simp add: edit_def del: run_keys.simps)
qed

text \<open>
  Each of the 26 letter keys types its letter, a capital exactly when one of shift and caps lock is on
  but not both, when no other modifier is held: the handler comes back with the letter at the end of
  the active terminal's line.
\<close>

theorem keyboard_letters:
  assumes "(i, c) \<in> set letter_keys" "\<not> shortcut b" "caps_enabled b \<in> {0, 1}" "shift_pressed b \<in> {0, 1}"
    "t = unat (active_tty k)" "line_ok t k" "length (line t k) < 1025"
  shows "\<exists>k'. kb_interrupt_do e (of_nat i) b k = Some (b, Back k')
     \<and> line t k' = line t k @ bytes_of [if caps_enabled b \<noteq> shift_pressed b then char_of (of_char c - 32 :: nat) else c]"
proof -
  from letter_table assms(1) have tab: "char_map ! i = of_nat (of_char c)" "char_map_caps ! i = of_nat (of_char c - 32)"
    "i < 58" "i \<notin> {0x0E, 0x1C, 0x1D, 0x2A, 0x36, 0x38, 0x3A}" "97 \<le> (of_char c :: nat)" "of_char c < (123 :: nat)"
    by (auto simp: list_all_iff)
  let ?d = "of_nat (if caps_enabled b \<noteq> shift_pressed b then of_char c - 32 else of_char c) :: u8"
  have small: "unat (of_nat n :: u8) = n" if "n < 256" for n using that by (simp add: unat_of_nat)
  have eq: "(of_nat n :: u8) = numeral v \<longleftrightarrow> n = numeral v" if "n < 256" "numeral v < (256 :: nat)" for n v
    using small [OF that(1)] small [OF that(2)] by (metis of_nat_numeral)
  have letter: "97 \<le> (of_nat (of_char c) :: u8)" "(of_nat (of_char c) :: u8) \<le> 122"
    using tab(5,6) by (simp_all add: word_le_nat_alt small)
  have xor: "shift_pressed b XOR caps_enabled b \<noteq> 0 \<longleftrightarrow> caps_enabled b \<noteq> shift_pressed b"
    using assms(3,4) by auto
  have typed: "typed (of_nat i) b = Some ?d"
    using tab assms(2) letter by (simp add: typed_def small eq Let_def xor)
  have "modifiers (of_nat i) b = b" "types (of_nat i) b"
    using tab(3,4) assms(2) by (simp_all add: modifiers_def types_def small eq)
  moreover have "edit ?d l = l @ [?d]" for l using tab(5,6) by (simp add: edit_def eq)
  ultimately have "kb_interrupt_do e (of_nat i) b k = Some (b, Back (on_pic (send_eoi 1) (key ?d k)))"
    "line t (on_pic (send_eoi 1) (key ?d k)) = line t k @ [?d]"
    using kb_interrupt_types [of "of_nat i" b e k] typed line_key [of t k ?d] assms(5-7) by (simp_all add: kb_done_def)
  then show ?thesis using tab(5,6) by simp
qed

theorem keyboard_letters_witness:
  "\<exists>k'. kb_interrupt_do no_wait 30 (no_mods\<lparr>caps_enabled := 1\<rparr>) tiny_kernel = Some (no_mods\<lparr>caps_enabled := 1\<rparr>, Back k')
     \<and> line 0 k' = bytes_of ''A''"
proof -
  have "(30, CHR ''a'') \<in> set letter_keys" by (simp add: letter_keys_def upt_rec)
  moreover have "line 0 tiny_kernel = []" "line_ok 0 tiny_kernel" "active_tty tiny_kernel = 0"
    by (simp_all add: line_def line_ok_def tiny_kernel_def MAX_BUFFER_SIZE_def)
  ultimately show ?thesis
    using keyboard_letters [of 30 "CHR ''a''" "no_mods\<lparr>caps_enabled := 1\<rparr>" 0 tiny_kernel no_wait]
    by (simp add: no_mods_def shortcut_def)
qed

text \<open>
  C38: the prefix 0xE0 of the extended keys counts as control being pressed, and no extended key other than right control
  releases it. Press and release any extended key, other than right control and the enter key of the keypad, then send any
  scan codes, other than enter, backspace, the release of control and the keys F1 to F3: every interrupt comes back, control
  stays on, and nothing is typed: the line of every terminal and \<open>enter_status\<close> are as before. Only the release of a
  control key takes control back.
\<close>

theorem keyboard_prefix_sticks:
  assumes "\<forall>sc \<in> set (c # (c + 0x80) # scs). sc \<notin> {0x9D, 0x1C, 0x0E, 59, 60, 61}"
  shows "\<exists>b' k'. run_keys e ([0xE0, c, 0xE0, c + 0x80] @ scs) b k = Some (b', k') \<and> ctrl_pressed b' = 1
     \<and> (\<forall>t. line t k' = line t k) \<and> enter_status k' = enter_status k
     \<and> (\<exists>k2. run_keys e ([0xE0, c, 0xE0, c + 0x80] @ scs @ [0x9D]) b k = Some (b'\<lparr>ctrl_pressed := 0\<rparr>, k2))"
proof -
  let ?codes = "[c, 0xE0, c + 0x80] @ scs"
  obtain k1 where k1: "kb_interrupt_do e 0xE0 b k = Some (b\<lparr>ctrl_pressed := 1\<rparr>, Back k1)" "\<forall>t. line t k1 = line t k"
    "enter_status k1 = enter_status k"
    by (simp add: kb_interrupt_do_def kb_done_def)
  from assms have "\<forall>sc \<in> set ?codes. sc \<notin> {0x9D, 0x1C, 0x0E, 59, 60, 61}" by simp
  from control_types_nothing [OF this, of "b\<lparr>ctrl_pressed := 1\<rparr>" e k1]
  obtain b' k' where k': "run_keys e ?codes (b\<lparr>ctrl_pressed := 1\<rparr>) k1 = Some (b', k')" "ctrl_pressed b' = 1"
    "\<forall>t. line t k' = line t k1" "enter_status k' = enter_status k1" by auto
  moreover have "run_keys e (?codes @ [0x9D]) (b\<lparr>ctrl_pressed := 1\<rparr>) k1 = run_keys e [0x9D] b' k'"
    by (rule run_keys_append [OF k'(1)])
  moreover have "\<exists>k2. run_keys e [0x9D] b' k' = Some (b'\<lparr>ctrl_pressed := 0\<rparr>, k2)" by (simp add: kb_interrupt_do_def kb_done_def)
  ultimately show ?thesis using k1 by simp
qed

text \<open>The up arrow, then the keys a, b and l, the last of which clears the screen.\<close>

theorem keyboard_prefix_sticks_witness:
  "\<exists>b' k'. run_keys no_wait [0xE0, 0x48, 0xE0, 0xC8, 0x1E, 0x30, 0x26] no_mods tiny_kernel = Some (b', k') \<and> ctrl_pressed b' = 1
     \<and> line 0 k' = []"
proof -
  have "line 0 tiny_kernel = []" by (simp add: line_def tiny_kernel_def)
  then show ?thesis
    using keyboard_prefix_sticks [of "0x48" "[0x1E, 0x30, 0x26]" no_wait no_mods tiny_kernel] by (auto simp del: run_keys.simps)
qed

text \<open>
  Alt with a function key asks for the terminal with that number: the interrupt is acknowledged once and
  the handler ends as the switch to the terminal does, on the stack of the process in front there or
  in a shell started for it.
\<close>

theorem keyboard_switches_terminal:
  assumes "alt_pressed b \<noteq> 0" "n < 3" "switch_to_tty e (of_nat n) (on_pic (send_eoi 1) k) = Some r" "\<forall>k'. r \<noteq> Back k'"
  shows "kb_interrupt_do e (59 + of_nat n) b k = Some (b, r)"
proof -
  have "n \<in> {0, 1, 2}" using assms(2) by auto
  then show ?thesis using assms by (elim insertE) (auto simp: kb_interrupt_do_def split: resumption.split)
qed

theorem keyboard_switches_terminal_witness:
  "\<exists>k'. kb_interrupt_do no_wait 59 (no_mods\<lparr>alt_pressed := 1\<rparr>) tiny_kernel = Some (no_mods\<lparr>alt_pressed := 1\<rparr>, Resume k')"
proof -
  have "\<exists>k'. switch_to_tty no_wait 0 (on_pic (send_eoi 1) tiny_kernel) = Some (Resume k')"
    by (simp add: switch_to_tty_def Let_def on_scr_def on_pic_def tiny_kernel_def TTY_UNOPENED_def)
  then obtain k' where "switch_to_tty no_wait (of_nat 0) (on_pic (send_eoi 1) tiny_kernel) = Some (Resume k')" by auto
  from keyboard_switches_terminal [OF _ _ this, of "no_mods\<lparr>alt_pressed := 1\<rparr>"] show ?thesis by simp
qed

end
