(* ===== verification/Boot.thy ===== *)
theory Boot
  imports Tasks
begin

text \<open>
  The start of the kernel: \<open>entry\<close> of \<^verbatim>\<open>student-distrib/kernel.c\<close>, with the structures of \<^verbatim>\<open>student-distrib/multiboot.h\<close> read from
  physical memory at their offsets and the segment descriptors and \<open>SET_LDT_PARAMS\<close>, \<open>SET_TSS_PARAMS\<close>
  of \<^verbatim>\<open>student-distrib/x86_desc.h\<close>. The boot loader's magic number and the address of its information are the
  arguments of \<open>entry\<close>; addresses that the linker fixes, uninitialised locals and the byte read from the
  clock are the record \<open>boot_env\<close>. A read of physical memory never changes it.
\<close>

section \<open>Segment descriptors\<close>

record seg_desc =
  sd_seg_lim_15_00 :: u16
  sd_base_15_00 :: u16
  sd_base_23_16 :: u8
  sd_type :: "4 word"
  sd_sys :: bool
  sd_dpl :: "2 word"
  sd_present :: bool
  sd_seg_lim_19_16 :: "4 word"
  sd_avail :: bool
  sd_reserved :: bool
  sd_opsize :: bool
  sd_granularity :: bool
  sd_base_31_24 :: u8

definition set_ldt_params :: "addr \<Rightarrow> u32 \<Rightarrow> seg_desc \<Rightarrow> seg_desc" where
  "set_ldt_params a lim d =
     d\<lparr>sd_base_31_24 := ucast (drop_bit 24 (a AND 0xFF000000)), sd_base_23_16 := ucast (drop_bit 16 (a AND 0x00FF0000)),
       sd_base_15_00 := ucast (a AND 0x0000FFFF), sd_seg_lim_19_16 := ucast (drop_bit 16 (lim AND 0x000F0000)),
       sd_seg_lim_15_00 := ucast (lim AND 0x0000FFFF)\<rparr>"

definition set_tss_params :: "addr \<Rightarrow> u32 \<Rightarrow> seg_desc \<Rightarrow> seg_desc" where
  "set_tss_params a lim d =
     d\<lparr>sd_base_31_24 := ucast (drop_bit 24 (a AND 0xFF000000)), sd_base_23_16 := ucast (drop_bit 16 (a AND 0x00FF0000)),
       sd_base_15_00 := ucast (a AND 0x0000FFFF), sd_seg_lim_19_16 := ucast (drop_bit 16 (lim AND 0x000F0000)),
       sd_seg_lim_15_00 := ucast (lim AND 0x0000FFFF)\<rparr>"

definition TSS_SIZE :: u32 where "TSS_SIZE = 104"
definition KERNEL_TSS :: u16 where "KERNEL_TSS = 0x0030"
definition KERNEL_LDT :: u16 where "KERNEL_LDT = 0x0038"

section \<open>Model\<close>

record boot_env =
  b_env :: env
  link :: "handler \<Rightarrow> u32"
  ldt_addr :: addr
  ldt_size :: u32
  tss_addr :: addr
  tss_size :: u32
  conv_junk :: str
  uninit_desc :: seg_desc

text \<open>The kernel with the tables and registers that only \<open>entry\<close> sets.\<close>

record machine =
  krn :: kernel
  idt_tab :: idt
  idtr_loaded :: bool
  ldt_desc_ptr :: seg_desc
  tss_desc_ptr :: seg_desc
  ldtr :: u16
  task_reg :: u16
  tss_ldt :: u16

datatype boot_end = Returned | Entered u32 u32 | Idle

definition MULTIBOOT_BOOTLOADER_MAGIC :: u32 where "MULTIBOOT_BOOTLOADER_MAGIC = 0x2BADB002"

definition CHECK_FLAG :: "u32 \<Rightarrow> nat \<Rightarrow> bool" where
  "CHECK_FLAG fl b \<longleftrightarrow> fl AND push_bit b 1 \<noteq> 0"

text \<open>The fields of the boot information, a module and a memory map entry.\<close>

definition mbi_flags :: "mem \<Rightarrow> addr \<Rightarrow> u32" where "mbi_flags m a = load32 m a"
definition mem_lower :: "mem \<Rightarrow> addr \<Rightarrow> u32" where "mem_lower m a = load32 m (a + 4)"
definition mem_upper :: "mem \<Rightarrow> addr \<Rightarrow> u32" where "mem_upper m a = load32 m (a + 8)"
definition boot_device :: "mem \<Rightarrow> addr \<Rightarrow> u32" where "boot_device m a = load32 m (a + 12)"
definition cmdline :: "mem \<Rightarrow> addr \<Rightarrow> u32" where "cmdline m a = load32 m (a + 16)"
definition mods_count :: "mem \<Rightarrow> addr \<Rightarrow> u32" where "mods_count m a = load32 m (a + 20)"
definition mods_addr :: "mem \<Rightarrow> addr \<Rightarrow> u32" where "mods_addr m a = load32 m (a + 24)"
definition elf_sec :: "mem \<Rightarrow> addr \<Rightarrow> nat \<Rightarrow> u32" where "elf_sec m a i = load32 m (a + 28 + 4 * of_nat i)"
definition mmap_length :: "mem \<Rightarrow> addr \<Rightarrow> u32" where "mmap_length m a = load32 m (a + 44)"
definition mmap_addr :: "mem \<Rightarrow> addr \<Rightarrow> u32" where "mmap_addr m a = load32 m (a + 48)"
definition mod_start :: "mem \<Rightarrow> addr \<Rightarrow> u32" where "mod_start m md = load32 m md"
definition mod_end :: "mem \<Rightarrow> addr \<Rightarrow> u32" where "mod_end m md = load32 m (md + 4)"
definition mmap_field :: "mem \<Rightarrow> addr \<Rightarrow> nat \<Rightarrow> u32" where "mmap_field m mm i = load32 m (mm + 4 * of_nat i)"

text \<open>A call of \<open>printf\<close>: format and argument words.\<close>

definition print :: "boot_env \<Rightarrow> mem \<Rightarrow> string \<Rightarrow> u32 list \<Rightarrow> screen \<Rightarrow> screen option" where
  "print e m fmt ws s =
     map_option snd (printf (lit fmt) m (conv_junk e) (\<lambda>i. if i < length ws then ws ! i else 0) s)"

text \<open>The bytes 128 to 143 of a module, as signed characters.\<close>

primrec print_bytes :: "boot_env \<Rightarrow> mem \<Rightarrow> addr \<Rightarrow> nat list \<Rightarrow> screen \<Rightarrow> screen option" where
  "print_bytes e m start [] s = Some s"
| "print_bytes e m start (i # is) s =
     do { s \<leftarrow> print e m ''0x%x '' [scast (m (start + of_nat i))] s; print_bytes e m start is s }"

text \<open>The loop over the modules; the first argument counts the ones that are left.\<close>

primrec print_modules :: "nat \<Rightarrow> boot_env \<Rightarrow> mem \<Rightarrow> u32 \<Rightarrow> addr \<Rightarrow> screen \<Rightarrow> screen option" where
  "print_modules 0 e m mod_count md s = Some s"
| "print_modules (Suc n) e m mod_count md s =
     do {
       s \<leftarrow> print e m (''Module %d loaded at address: 0x%#x'' @ [CHR 0x0A]) [mod_count, mod_start m md] s;
       s \<leftarrow> print e m (''Module %d ends at address: 0x%#x'' @ [CHR 0x0A]) [mod_count, mod_end m md] s;
       s \<leftarrow> print e m (''First few bytes of module:'' @ [CHR 0x0A]) [] s;
       s \<leftarrow> print_bytes e m (mod_start m md) [128..<144] s;
       s \<leftarrow> print e m [CHR 0x0A] [] s;
       print_modules n e m (mod_count + 1) (md + 16) s
     }"

partial_function (option) print_mmap :: "boot_env \<Rightarrow> mem \<Rightarrow> addr \<Rightarrow> addr \<Rightarrow> screen \<Rightarrow> screen option" where
  "print_mmap e m end_a mm s =
     (if mm < end_a
      then Option.bind
        (print e m (''    size = 0x%x, base_addr = 0x%#x%#x'' @ [CHR 0x0A] @ ''    type = 0x%x,  length    = 0x%#x%#x'' @ [CHR 0x0A])
           [mmap_field m mm 0, mmap_field m mm 2, mmap_field m mm 1, mmap_field m mm 5, mmap_field m mm 4, mmap_field m mm 3] s)
        (print_mmap e m end_a (mm + mmap_field m mm 0 + 4))
      else Some s)"

text \<open>The first part of \<open>entry\<close>: what the boot loader passed. \<open>False\<close> means that \<open>entry\<close> returns.\<close>

definition boot_info :: "boot_env \<Rightarrow> mem \<Rightarrow> u32 \<Rightarrow> addr \<Rightarrow> kernel \<Rightarrow> (bool \<times> kernel) option" where
  "boot_info e m magic a k0 =
     (let k = on_scr clear k0; s = scr k in
      if magic \<noteq> MULTIBOOT_BOOTLOADER_MAGIC
      then do { s \<leftarrow> print e m (''Invalid magic number: 0x%#x'' @ [CHR 0x0A]) [magic] s; Some (False, k\<lparr>scr := s\<rparr>) }
      else let fl = mbi_flags m a in do {
        s \<leftarrow> print e m (''flags = 0x%#x'' @ [CHR 0x0A]) [fl] s;
        s \<leftarrow> (if CHECK_FLAG fl 0
             then print e m (''mem_lower = %uKB, mem_upper = %uKB'' @ [CHR 0x0A]) [mem_lower m a, mem_upper m a] s else Some s);
        s \<leftarrow> (if CHECK_FLAG fl 1 then print e m (''boot_device = 0x%#x'' @ [CHR 0x0A]) [boot_device m a] s else Some s);
        s \<leftarrow> (if CHECK_FLAG fl 2 then print e m (''cmdline = %s'' @ [CHR 0x0A]) [cmdline m a] s else Some s);
        let k = (if CHECK_FLAG fl 3 then k\<lparr>boot_block := view m (mod_start m (mods_addr m a))\<rparr> else k);
        s \<leftarrow> (if CHECK_FLAG fl 3 then print_modules (unat (mods_count m a)) e m 0 (mods_addr m a) s else Some s);
        if CHECK_FLAG fl 4 \<and> CHECK_FLAG fl 5
        then do { s \<leftarrow> print e m (''Both bits 4 and 5 are set.'' @ [CHR 0x0A]) [] s; Some (False, k\<lparr>scr := s\<rparr>) }
        else do {
          s \<leftarrow> (if CHECK_FLAG fl 5
               then print e m (''elf_sec: num = %u, size = 0x%#x, addr = 0x%#x, shndx = 0x%#x'' @ [CHR 0x0A])
                      [elf_sec m a 0, elf_sec m a 1, elf_sec m a 2, elf_sec m a 3] s
               else Some s);
          s \<leftarrow> (if CHECK_FLAG fl 6
               then do {
                 s \<leftarrow> print e m (''mmap_addr = 0x%#x, mmap_length = 0x%x'' @ [CHR 0x0A]) [mmap_addr m a, mmap_length m a] s;
                 print_mmap e m (mmap_addr m a + mmap_length m a) (mmap_addr m a) s
               }
               else Some s);
          Some (True, k\<lparr>scr := s\<rparr>)
        }
      })"

text \<open>The two descriptors.\<close>

definition the_ldt_desc :: "boot_env \<Rightarrow> seg_desc" where
  "the_ldt_desc e =
     set_ldt_params (ldt_addr e) (ldt_size e)
       ((uninit_desc e)\<lparr>sd_granularity := False, sd_opsize := True, sd_reserved := False, sd_avail := False, sd_present := True,
          sd_dpl := 0, sd_sys := False, sd_type := 2\<rparr>)"

definition the_tss_desc :: "boot_env \<Rightarrow> seg_desc" where
  "the_tss_desc e =
     set_tss_params (tss_addr e) (tss_size e)
       ((uninit_desc e)\<lparr>sd_granularity := False, sd_opsize := False, sd_reserved := False, sd_avail := False,
          sd_seg_lim_19_16 := ucast (TSS_SIZE AND 0x000F0000), sd_present := True, sd_dpl := 0, sd_sys := False, sd_type := 9,
          sd_seg_lim_15_00 := ucast (TSS_SIZE AND 0x0000FFFF)\<rparr>)"

text \<open>From the clearing of the process table to the terminal tables, on the kernel state.\<close>

definition boot_devices :: "boot_env \<Rightarrow> mem \<Rightarrow> kernel \<Rightarrow> kernel option" where
  "boot_devices e m k0 =
     (let k = k0\<lparr>processes := fold (\<lambda>i p. p(i := 0)) [0..<MAX_NUM_PROCESSES] (processes k0)\<rparr>;
          k = cli k;
          k = init_rtc (cmos_in (b_env e)) (on_pic i8259_init k);
          k = k\<lparr>pg := paging_enable (pd_addr k) (paging_init (pt_addr k) (pg k))\<rparr>;
          k = on_pic (enable_irq 8) (on_pic (enable_irq 2) (on_pic (enable_irq 1) k))
      in do {
        s \<leftarrow> print e m (''Enabling Interrupts'' @ [CHR 0x0A]) [] (scr k);
        let k = sti (on_pic (enable_irq 0) (pit_init (k\<lparr>scr := s\<rparr>)));
        let k = fst (terminal_open k);
        Some (k\<lparr>active_tty := 0, tty_top_pid := (tty_top_pid k)(0 := TTY_UNOPENED, 1 := TTY_UNOPENED, 2 := TTY_UNOPENED),
                next_one_is_root_shell := 1\<rparr>)
      })"

definition entry :: "boot_env \<Rightarrow> mem \<Rightarrow> u32 \<Rightarrow> addr \<Rightarrow> machine \<Rightarrow> (machine \<times> boot_end) option" where
  "entry e m magic a mc0 =
     do {
       (go, k) \<leftarrow> boot_info e m magic a (krn mc0);
       if \<not> go then Some (mc0\<lparr>krn := k\<rparr>, Returned)
       else do {
         let mc = mc0\<lparr>ldt_desc_ptr := the_ldt_desc e, ldtr := KERNEL_LDT, tss_desc_ptr := the_tss_desc e, tss_ldt := KERNEL_LDT,
                      task_reg := KERNEL_TSS, idt_tab := load_idt (link e) (idt_tab mc0), idtr_loaded := True\<rparr>;
         k \<leftarrow> boot_devices e m (k\<lparr>tss_ss0 := KERNEL_DS, tss_esp0 := 0x800000\<rparr>);
         r \<leftarrow> sys_execute (b_env e) (lit ''shell'') k;
         Some (case r of Returns k' _ \<Rightarrow> (mc\<lparr>krn := k'\<rparr>, Idle) | Enters k' eip sp \<Rightarrow> (mc\<lparr>krn := k'\<rparr>, Entered eip sp))
       }
     }"

section \<open>Printing\<close>

text \<open>A format of the kernel's own with items \<open>its\<close> prints and returns.\<close>

definition arg_words :: "u32 list \<Rightarrow> nat \<Rightarrow> u32" where
  "arg_words ws = (\<lambda>i. if i < length ws then ws ! i else 0)"

lemma print_eq:
  assumes "bytes_of fmt = concat (map encode its)" "length fmt < 4294967296" "format_ok m (arg_words ws) 0 its"
  shows "print e m fmt ws s = Some (fold putc (formatted m (arg_words ws) 0 its) s)"
proof -
  have len: "length (concat (map encode its)) = length fmt" using arg_cong [OF assms(1), of length] by simp
  have "lit fmt (0 + of_nat i) = concat (map encode its) ! i" if "i < length (concat (map encode its))" for i
    using lit_nth [of i fmt] that assms(1,2) len by simp
  moreover have "lit fmt (0 + of_nat (length (concat (map encode its)))) = 0" using lit_end [OF assms(2)] len by simp
  ultimately have "printf_loop (lit fmt) m (conv_junk e) (arg_words ws) 0 0 s =
      Some (0 + of_nat (length (concat (map encode its))), fold putc (formatted m (arg_words ws) 0 its) s)"
    by (intro printf_loop_items [OF assms(3) refl]) auto
  then show ?thesis by (simp add: print_def printf_def arg_words_def)
qed

lemma print_items:
  "bytes_of fmt = concat (map encode its) \<Longrightarrow> length fmt < 4294967296 \<Longrightarrow> format_ok m (arg_words ws) 0 its \<Longrightarrow> \<exists>s'. print e m fmt ws s = Some s'"
  using print_eq by blast

text \<open>Reading a format: the items it is made of.\<close>

fun items_of :: "u8 list \<Rightarrow> item list" where
  "items_of (c # d # f # cs) =
     (if c = 37 \<and> d = 35 \<and> f = 120 then Hex8 # items_of cs
      else if c = 37 then (if d = 120 then Hex else if d = 117 then Unsigned else if d = 100 then Signed
                           else if d = 99 then Char else if d = 115 then String else Percent) # items_of (f # cs)
      else Lit c # items_of (d # f # cs))"
| "items_of [c, d] =
     (if c = 37 then [if d = 120 then Hex else if d = 117 then Unsigned else if d = 100 then Signed
                      else if d = 99 then Char else if d = 115 then String else Percent] else [Lit c, Lit d])"
| "items_of [c] = [Lit c]"
| "items_of [] = []"

definition prints :: "string \<Rightarrow> bool" where
  "prints fmt \<longleftrightarrow> bytes_of fmt = concat (map encode (items_of (bytes_of fmt))) \<and> length fmt < 200
     \<and> String \<notin> set (items_of (bytes_of fmt)) \<and> Lit 37 \<notin> set (items_of (bytes_of fmt)) \<and> Lit 0 \<notin> set (items_of (bytes_of fmt))"

lemma format_ok_plain: "String \<notin> set its \<Longrightarrow> Lit 37 \<notin> set its \<Longrightarrow> Lit 0 \<notin> set its \<Longrightarrow> format_ok m st n its"
proof (induction its arbitrary: n)
  case (Cons it its)
  then show ?case by (cases it) auto
qed simp

lemma print_prints: "prints fmt \<Longrightarrow> \<exists>s'. print e m fmt ws s = Some s'"
  unfolding prints_def by (intro print_items [of fmt "items_of (bytes_of fmt)"]) (auto simp: format_ok_plain)

lemma kernel_formats:
  "prints (''Invalid magic number: 0x%#x'' @ [CHR 0x0A])" "prints (''flags = 0x%#x'' @ [CHR 0x0A])"
  "prints (''mem_lower = %uKB, mem_upper = %uKB'' @ [CHR 0x0A])" "prints (''boot_device = 0x%#x'' @ [CHR 0x0A])"
  "prints ''0x%x ''" "prints (''Module %d loaded at address: 0x%#x'' @ [CHR 0x0A])"
  "prints (''Module %d ends at address: 0x%#x'' @ [CHR 0x0A])" "prints (''First few bytes of module:'' @ [CHR 0x0A])"
  "prints [CHR 0x0A]" "prints (''Both bits 4 and 5 are set.'' @ [CHR 0x0A])"
  "prints (''elf_sec: num = %u, size = 0x%#x, addr = 0x%#x, shndx = 0x%#x'' @ [CHR 0x0A])"
  "prints (''mmap_addr = 0x%#x, mmap_length = 0x%x'' @ [CHR 0x0A])"
  "prints (''    size = 0x%x, base_addr = 0x%#x%#x'' @ [CHR 0x0A] @ ''    type = 0x%x,  length    = 0x%#x%#x'' @ [CHR 0x0A])"
  "prints (''Enabling Interrupts'' @ [CHR 0x0A])"
  by (simp_all add: prints_def)

lemma print_cmdline: "\<exists>cs. cstr (view m w) cs \<Longrightarrow> \<exists>s'. print e m (''cmdline = %s'' @ [CHR 0x0A]) [w] s = Some s'"
  by (rule print_items [of _ "items_of (bytes_of (''cmdline = %s'' @ [CHR 0x0A]))"]) (simp_all add: arg_words_def)

lemma print_bytes_ends: "\<exists>s'. print_bytes e m start is s = Some s'"
proof (induction "is" arbitrary: s)
  case (Cons i "is")
  obtain s1 where "print e m ''0x%x '' [scast (m (start + of_nat i))] s = Some s1"
    using print_prints [OF kernel_formats(5)] by blast
  then show ?case using Cons.IH [of s1] by simp
qed simp

lemma print_modules_ends: "\<exists>s'. print_modules n e m c md s = Some s'"
proof (induction n arbitrary: c md s)
  case (Suc n)
  note pr = print_prints [OF kernel_formats(6), of e m] print_prints [OF kernel_formats(7), of e m]
    print_prints [OF kernel_formats(8), of e m] print_prints [OF kernel_formats(9), of e m]
  from pr(1) obtain s1 where 1: "print e m (''Module %d loaded at address: 0x%#x'' @ [CHR 0x0A]) [c, mod_start m md] s = Some s1" by blast
  from pr(2) obtain s2 where 2: "print e m (''Module %d ends at address: 0x%#x'' @ [CHR 0x0A]) [c, mod_end m md] s1 = Some s2" by blast
  from pr(3) obtain s3 where 3: "print e m (''First few bytes of module:'' @ [CHR 0x0A]) [] s2 = Some s3" by blast
  from print_bytes_ends obtain s4 where 4: "print_bytes e m (mod_start m md) [128..<144] s3 = Some s4" by blast
  from pr(4) obtain s5 where 5: "print e m [CHR 0x0A] [] s4 = Some s5" by blast
  show ?case using Suc.IH [of "c + 1" "md + 16" s5] unfolding print_modules.simps 1 bind.bind_lunit 2 3 4 5 .
qed simp

text \<open>A memory map whose walk ends: no step from an entry inside it leaves the address space.\<close>

definition mmap_ok :: "mem \<Rightarrow> addr \<Rightarrow> u32 \<Rightarrow> bool" where
  "mmap_ok m a n \<longleftrightarrow> unat a + unat n < 4294967296
     \<and> (\<forall>x. a \<le> x \<longrightarrow> x < a + n \<longrightarrow> unat x + unat (mmap_field m x 0) + 4 < 4294967296)"

lemma print_mmap_ends: "mmap_ok m a n \<Longrightarrow> a \<le> x \<Longrightarrow> \<exists>s'. print_mmap e m (a + n) x s = Some s'"
proof (induction "unat (a + n) - unat x" arbitrary: x s rule: less_induct)
  case less
  show ?case
  proof (cases "x < a + n")
    case False
    then show ?thesis by (subst print_mmap.simps) simp
  next
    case True
    let ?y = "x + mmap_field m x 0 + 4"
    have "unat x + unat (mmap_field m x 0) + 4 < 4294967296" using less.prems True by (simp add: mmap_ok_def)
    then have y: "unat ?y = unat x + unat (mmap_field m x 0) + 4" by (simp add: unat_word_ariths)
    obtain s1 where s1: "print e m (''    size = 0x%x, base_addr = 0x%#x%#x'' @ [CHR 0x0A] @ ''    type = 0x%x,  length    = 0x%#x%#x'' @ [CHR 0x0A])
           [mmap_field m x 0, mmap_field m x 2, mmap_field m x 1, mmap_field m x 5, mmap_field m x 4, mmap_field m x 3] s = Some s1"
      using print_prints [OF kernel_formats(13)] by blast
    have "unat (a + n) - unat ?y < unat (a + n) - unat x" using True y by (simp add: word_less_nat_alt)
    moreover have "a \<le> ?y" using less.prems(2) y by (simp add: word_le_nat_alt)
    ultimately have "\<exists>s'. print_mmap e m (a + n) ?y s1 = Some s'" using less.hyps less.prems(1) by blast
    then show ?thesis using True s1 by (subst print_mmap.simps) (simp only: if_True bind.bind_lunit)
  qed
qed

text \<open>The boot information the kernel goes on with.\<close>

definition info_ok :: "mem \<Rightarrow> addr \<Rightarrow> bool" where
  "info_ok m a \<longleftrightarrow> (let fl = mbi_flags m a in
     CHECK_FLAG fl 3 \<and> \<not> (CHECK_FLAG fl 4 \<and> CHECK_FLAG fl 5) \<and> (CHECK_FLAG fl 2 \<longrightarrow> (\<exists>cs. cstr (view m (cmdline m a)) cs))
     \<and> (CHECK_FLAG fl 6 \<longrightarrow> mmap_ok m (mmap_addr m a) (mmap_length m a)))"

lemma boot_info_ok:
  assumes "info_ok m a"
  shows "\<exists>s. boot_info e m MULTIBOOT_BOOTLOADER_MAGIC a k = Some (True, k\<lparr>boot_block := view m (mod_start m (mods_addr m a)), scr := s\<rparr>)"
proof -
  let ?fl = "mbi_flags m a"
  note ok = assms [unfolded info_ok_def Let_def]
  obtain s1 where 1: "print e m (''flags = 0x%#x'' @ [CHR 0x0A]) [?fl] (scr (on_scr clear k)) = Some s1"
    using print_prints [OF kernel_formats(2)] by blast
  obtain s2 where 2: "(if CHECK_FLAG ?fl 0
             then print e m (''mem_lower = %uKB, mem_upper = %uKB'' @ [CHR 0x0A]) [mem_lower m a, mem_upper m a] s1 else Some s1) = Some s2"
    using print_prints [OF kernel_formats(3)] by (cases "CHECK_FLAG ?fl 0") (simp_all only: if_True if_False, blast)
  obtain s3 where 3: "(if CHECK_FLAG ?fl 1 then print e m (''boot_device = 0x%#x'' @ [CHR 0x0A]) [boot_device m a] s2 else Some s2) = Some s3"
    using print_prints [OF kernel_formats(4)] by (cases "CHECK_FLAG ?fl 1") (simp_all only: if_True if_False, blast)
  obtain s4 where 4: "(if CHECK_FLAG ?fl 2 then print e m (''cmdline = %s'' @ [CHR 0x0A]) [cmdline m a] s3 else Some s3) = Some s4"
    using print_cmdline [of m "cmdline m a" e s3] ok by (cases "CHECK_FLAG ?fl 2") (simp_all only: if_True if_False, blast)
  obtain s5 where 5: "print_modules (unat (mods_count m a)) e m 0 (mods_addr m a) s4 = Some s5" using print_modules_ends by blast
  obtain s6 where 6: "(if CHECK_FLAG ?fl 5
               then print e m (''elf_sec: num = %u, size = 0x%#x, addr = 0x%#x, shndx = 0x%#x'' @ [CHR 0x0A])
                      [elf_sec m a 0, elf_sec m a 1, elf_sec m a 2, elf_sec m a 3] s5
               else Some s5) = Some s6"
    using print_prints [OF kernel_formats(11)] by (cases "CHECK_FLAG ?fl 5") (simp_all only: if_True if_False, blast)
  obtain s7 where 7: "print e m (''mmap_addr = 0x%#x, mmap_length = 0x%x'' @ [CHR 0x0A]) [mmap_addr m a, mmap_length m a] s6 = Some s7"
    using print_prints [OF kernel_formats(12)] by blast
  obtain s8 where 8: "(if CHECK_FLAG ?fl 6 then print_mmap e m (mmap_addr m a + mmap_length m a) (mmap_addr m a) s7 else Some s6) = Some s8"
    using print_mmap_ends [of m "mmap_addr m a" "mmap_length m a"] ok by (cases "CHECK_FLAG ?fl 6") (simp_all only: if_True if_False, blast)
  have "boot_info e m MULTIBOOT_BOOTLOADER_MAGIC a k = Some (True, (on_scr clear k)\<lparr>boot_block := view m (mod_start m (mods_addr m a)), scr := s8\<rparr>)"
    unfolding boot_info_def Let_def 1 2 3 4 bind.bind_lunit
    using ok 5 6 7 8 by (simp split: if_splits)
  then show ?thesis by (auto simp: on_scr_def)
qed

section \<open>Descriptors and devices\<close>

text \<open>The base and the limit that the processor reads from a segment descriptor.\<close>

definition seg_base :: "seg_desc \<Rightarrow> u32" where
  "seg_base d = push_bit 24 (ucast (sd_base_31_24 d)) OR push_bit 16 (ucast (sd_base_23_16 d)) OR ucast (sd_base_15_00 d)"

definition seg_limit :: "seg_desc \<Rightarrow> u32" where
  "seg_limit d = push_bit 16 (ucast (sd_seg_lim_19_16 d)) OR ucast (sd_seg_lim_15_00 d)"

lemma word_pieces:
  "push_bit 24 (ucast (ucast (drop_bit 24 a AND 0xFF) :: u8)) OR push_bit 16 (ucast (ucast (drop_bit 16 a AND 0xFF) :: u8))
     OR ucast (ucast (a AND 0xFFFF) :: u16) = (a :: u32)" (is "?base = _")
  "push_bit 16 (ucast (ucast (drop_bit 16 a AND 0xF) :: 4 word)) OR ucast (ucast (a AND 0xFFFF) :: u16) = a AND 0xFFFFF" (is ?lim)
proof -
  have m: "(0xFF :: u32) = mask 8" "(0xFFFF :: u32) = mask 16" "(0xF :: u32) = mask 4" "(0xFFFFF :: u32) = mask 20"
    by (simp_all add: mask_eq_exp_minus_1)
  show "?base = a"
  proof (rule bit_word_eqI)
    fix n
    assume "n < LENGTH(32)"
    then show "bit ?base n = bit a n" unfolding m by (cases "n < 24") (auto simp: bit_simps)
  qed
  show ?lim unfolding m by (rule bit_word_eqI) (auto simp: bit_simps)
qed

lemma seg_tss: "seg_base (the_tss_desc e) = tss_addr e" "seg_limit (the_tss_desc e) = tss_size e AND 0xFFFFF"
  "seg_base (the_ldt_desc e) = ldt_addr e" "seg_limit (the_ldt_desc e) = ldt_size e AND 0xFFFFF"
  by (simp_all add: seg_base_def seg_limit_def the_tss_desc_def set_tss_params_def the_ldt_desc_def set_ldt_params_def word_pieces)

lemma boot_devices_eq:
  "\<exists>s l. boot_devices e m k = Some (k\<lparr>if_flag := True, hw_pic := fold enable_irq [1, 2, 8, 0] (i8259_init (hw_pic k)), dev_log := l,
      processes := fold (\<lambda>i p. p(i := 0)) [0..<MAX_NUM_PROCESSES] (processes k), scr := s,
      tail := fold (\<lambda>i t. t(i := -1)) [0..<MAX_TTY] (tail k),
      pg := paging_enable (pd_addr k) (paging_init (pt_addr k) (pg k)), active_tty := 0,
      tty_top_pid := (tty_top_pid k)(0 := TTY_UNOPENED, 1 := TTY_UNOPENED, 2 := TTY_UNOPENED), next_one_is_root_shell := 1\<rparr>)"
proof -
  obtain s1 where pr: "print e m (''Enabling Interrupts'' @ [CHR 0x0A]) [] (scr k) = Some s1"
    using print_prints [OF kernel_formats(14)] by blast
  let ?log = "dev_log k @ [(cmosport1, 138), (cmosport2, 47), (cmosport1, 139), (cmosport1, 139),
      (cmosport2, cmos_in (b_env e) OR 64), (PIT_CMD, 54), (PIT_CH0, ucast (PIT_FREQ div PIT_COUNT AND 255)),
      (PIT_CH0, ucast (drop_bit 8 (PIT_FREQ div PIT_COUNT)))]"
  show ?thesis
    unfolding boot_devices_def Let_def
    by (intro exI [of _ "clear s1"] exI [of _ ?log])
       (use pr in \<open>simp add: terminal_open_def init_rtc_def pit_init_def hw_defs on_scr_def\<close>)
qed

lemma irq_after_init: "irq_enabled (i8259_init p) i = irq_enabled p i"
  by (simp add: i8259_init_def)

section \<open>Properties\<close>

text \<open>
  C8: booted by a compliant loader with a file system image that holds an executable shell, the kernel ends
  its initialisation and enters the shell: process 0 alone is running, as its own parent on terminal 0,
  with its program loaded from the image in its own page; the other two terminals are unopened and
  all input lines empty; the page tables are ones the kernel can reach, exactly the lines of the timer,
  the keyboard, the second controller and the clock are enabled, the interrupt table is loaded and the
  descriptors hold the addresses of the task state segment and the local descriptor table; interrupts
  are on.
\<close>

theorem boot_starts_shell:
  assumes "info_ok m a" "img = view m (mod_start m (mods_addr m a))" "runnable img (bytes_of ''shell'') ino"
    "bs = file_bytes img ino" "40 \<le> length bs" "cached_irq_mask (hw_pic (krn mc)) = 0xFFFF"
  shows "\<exists>mc' k. entry e m 0x2BADB002 a mc = Some (mc', Entered (entry_of bs) 0x083FFFFC) \<and> k = krn mc'
     \<and> (\<forall>i < 6. processes k i = (if i = 0 then 1 else 0)) \<and> map (tty_top_pid k) [0, 1, 2] = [0, 255, 255] \<and> active_tty k = 0
     \<and> boot_block k = img \<and> user_mem k = loaded bs (umem (krn mc) 0) \<and> map (tail k) [0, 1, 2] = [-1, -1, -1] \<and> if_flag k
     \<and> paging_reach (pt_addr k) (pd_addr k) (Some 0) False (pg k)
     \<and> (\<forall>i < 16. irq_enabled (hw_pic k) i \<longleftrightarrow> i \<in> {0, 1, 2, 8}) \<and> tss_esp0 k = kstack_top 0
     \<and> parent (pcbs k (pcb_loc 0)) = pcb_loc 0 \<and> fds_ok (pcbs k (pcb_loc 0))
     \<and> idt_tab mc' = load_idt (link e) (idt_tab mc) \<and> seg_base (tss_desc_ptr mc') = tss_addr e \<and> seg_base (ldt_desc_ptr mc') = ldt_addr e"
proof -
  have magic: "(0x2BADB002 :: u32) = MULTIBOOT_BOOTLOADER_MAGIC" by (simp add: MULTIBOOT_BOOTLOADER_MAGIC_def)
  let ?kb = "krn mc"
  obtain s1 where info: "boot_info e m 0x2BADB002 a ?kb = Some (True, ?kb\<lparr>boot_block := img, scr := s1\<rparr>)"
    using boot_info_ok [OF assms(1), of e ?kb] unfolding magic assms(2) by blast
  define k1 where "k1 = ?kb\<lparr>boot_block := img, scr := s1, tss_ss0 := KERNEL_DS, tss_esp0 := 0x800000\<rparr>"
  obtain k2 where dev: "boot_devices e m k1 = Some k2" and k2: "free_process k2 = Some 0" "boot_block k2 = img" "umem k2 = umem ?kb"
    "pg k2 = paging_enable (pd_addr k2) (paging_init (pt_addr k2) (pg ?kb))" "active_tty k2 = 0" "if_flag k2"
    "map (tty_top_pid k2) [0, 1, 2] = [255, 255, 255]" "map (tail k2) [0, 1, 2] = [-1, -1, -1]" "next_one_is_root_shell k2 = 1"
    "hw_pic k2 = fold enable_irq [1, 2, 8, 0] (i8259_init (hw_pic ?kb))" "\<forall>i < 6. processes k2 i = 0"
    using boot_devices_eq [of e m k1]
    by (auto simp: k1_def free_process_def MAX_NUM_PROCESSES_def MAX_TTY_def upt_rec TTY_UNOPENED_def numeral_eq_Suc less_Suc_eq)
  obtain argv where run: "execute (b_env e) (lit ''shell'') k2 =
      Some (Enters (started (new_pcb (b_env e) argv 0 k2) 0 (loaded bs (umem k2 0)) k2) (entry_of bs) 0x083FFFFC)"
    using execute_shell [OF k2(1), of ino bs "b_env e"] assms(3-5) k2(2) by auto
  let ?k = "started (new_pcb (b_env e) argv 0 k2) 0 (loaded bs (umem k2 0)) k2"
  define mc' where "mc' = mc\<lparr>ldt_desc_ptr := the_ldt_desc e, ldtr := KERNEL_LDT, tss_desc_ptr := the_tss_desc e, tss_ldt := KERNEL_LDT,
      task_reg := KERNEL_TSS, idt_tab := load_idt (link e) (idt_tab mc), idtr_loaded := True, krn := ?k\<rparr>"
  have "entry e m 0x2BADB002 a mc = Some (mc', Entered (entry_of bs) 0x083FFFFC)"
    by (simp add: entry_def info k1_def [symmetric] dev sys_execute_def run mc'_def)
  moreover have "\<forall>i < 6. processes ?k i = (if i = 0 then 1 else 0)" "map (tty_top_pid ?k) [0, 1, 2] = [0, 255, 255]" "active_tty ?k = 0"
    "boot_block ?k = img" "user_mem ?k = loaded bs (umem ?kb 0)" "map (tail ?k) [0, 1, 2] = [-1, -1, -1]" "if_flag ?k"
    "tss_esp0 ?k = kstack_top 0" "parent (pcbs ?k (pcb_loc 0)) = pcb_loc 0" "hw_pic ?k = hw_pic k2"
    using k2 by (simp_all add: started_def user_mem_def window_create new_pcb_def Let_def)
  moreover have "fds_ok (pcbs ?k (pcb_loc 0))"
    using create_pcb_ok [of "uninit_pcb (b_env e)"] by (simp add: started_def new_pcb_def Let_def fds_ok_def)
  moreover have "paging_reach (pt_addr ?k) (pd_addr ?k) (Some 0) False (pg ?k)"
    by (simp add: started_def k2(4)) (rule paging_reach.create [OF paging_reach.boot], simp)
  moreover have mask16: "\<not> irq_enabled (hw_pic ?kb) i" if "i < 16" for i
  proof -
    have "(0xFFFF :: u32) = mask 16" by (simp add: mask_eq_exp_minus_1)
    then have "cached_irq_mask (hw_pic ?kb) = mask 16" using assms(6) by simp
    then show ?thesis using that by (simp add: irq_enabled_def bit_mask_iff)
  qed
  moreover have "\<forall>i < 16. irq_enabled (hw_pic k2) i \<longleftrightarrow> i \<in> {0, 1, 2, 8}"
    using irq.enable_all [of "[1, 2, 8, 0]" "i8259_init (hw_pic ?kb)"] mask16 unfolding k2(10) by (auto simp: irq_after_init)
  moreover have "idt_tab mc' = load_idt (link e) (idt_tab mc)" "seg_base (tss_desc_ptr mc') = tss_addr e"
    "seg_base (ldt_desc_ptr mc') = ldt_addr e" "krn mc' = ?k"
    by (simp_all add: mc'_def seg_tss)
  ultimately show ?thesis by (intro exI [of _ mc'] exI [of _ ?k]) metis
qed

definition tiny_boot :: boot_env where
  "tiny_boot = \<lparr>b_env = no_wait, link = (\<lambda>_. 0x410000), ldt_addr = 0x405000, ldt_size = 8, tss_addr = 0x406000, tss_size = 104,
     conv_junk = (\<lambda>_. 0), uninit_desc = \<lparr>sd_seg_lim_15_00 = 0, sd_base_15_00 = 0, sd_base_23_16 = 0, sd_type = 0, sd_sys = True,
       sd_dpl = 0, sd_present = False, sd_seg_lim_19_16 = 0, sd_avail = False, sd_reserved = False, sd_opsize = False,
       sd_granularity = False, sd_base_31_24 = 0\<rparr>\<rparr>"

theorem boot_starts_shell_witness:
  "\<forall>t d. \<exists>mc'. entry tiny_boot exe_image 0x2BADB002 0x20000
      \<lparr>krn = tiny_kernel, idt_tab = t, idtr_loaded = False, ldt_desc_ptr = d, tss_desc_ptr = d, ldtr = 0, task_reg = 0, tss_ldt = 0\<rparr>
        = Some (mc', Entered 0x08041234 0x083FFFFC) \<and> if_flag (krn mc') \<and> seg_base (tss_desc_ptr mc') = 0x406000"
proof (intro allI)
  fix t d
  let ?mc = "\<lparr>krn = tiny_kernel, idt_tab = t, idtr_loaded = False, ldt_desc_ptr = d, tss_desc_ptr = d, ldtr = 0, task_reg = 0, tss_ldt = 0\<rparr>"
  have "info_ok exe_image 0x20000"
    by (simp add: info_ok_def CHECK_FLAG_def mbi_flags_def load32_def exe_image_def)
  moreover have "exe_image = view exe_image (mod_start exe_image (mods_addr exe_image 0x20000))"
  proof -
    have "mods_addr exe_image 0x20000 = 0x20100" by (simp add: mods_addr_def load32_def exe_image_def)
    moreover have "mod_start exe_image 0x20100 = 0" by (simp add: mod_start_def load32_def exe_image_def)
    ultimately show ?thesis by (simp add: view_def)
  qed
  ultimately show "\<exists>mc'. entry tiny_boot exe_image 0x2BADB002 0x20000 ?mc = Some (mc', Entered 0x08041234 0x083FFFFC) \<and> if_flag (krn mc')
      \<and> seg_base (tss_desc_ptr mc') = 0x406000"
    using boot_starts_shell [of exe_image "0x20000" exe_image 0 "file_bytes exe_image 0" ?mc tiny_boot] exe_runnable
    by (auto simp: exe_image_fields exe_entry tiny_boot_def tiny_kernel_def pic_boot_def)
qed

end
