(* ===== verification/UserLib.thy ===== *)
theory UserLib
  imports LibString
begin

text \<open>
  The support library of the user programs, \<^verbatim>\<open>syscalls/ece391support.c\<close>. Unlike the kernel's string routines its
  functions walk pointers through the process's memory, so they are modelled on a flat memory with
  addresses. The lemmas bring them back to the kernel's routines, seen through the pointer they are
  called with. \<open>None\<close> means that a routine does not return, divides by zero or leaves its digit table.
\<close>

section \<open>Model\<close>

partial_function (option) ece391_strlen_loop :: "mem \<Rightarrow> addr \<Rightarrow> u32 \<Rightarrow> u32 option" where
  "ece391_strlen_loop m s len = (if m s \<noteq> 0 then ece391_strlen_loop m (s + 1) (len + 1) else Some len)"

definition ece391_strlen :: "mem \<Rightarrow> addr \<Rightarrow> u32 option" where
  "ece391_strlen m s = ece391_strlen_loop m s 0"

partial_function (option) ece391_strcpy :: "addr \<Rightarrow> addr \<Rightarrow> mem \<Rightarrow> mem option" where
  "ece391_strcpy dst src m =
     (if m src \<noteq> 0 then ece391_strcpy (dst + 1) (src + 1) (m(dst := m src)) else Some (m(dst := m src)))"

partial_function (option) ece391_strcmp :: "mem \<Rightarrow> addr \<Rightarrow> addr \<Rightarrow> i32 option" where
  "ece391_strcmp m s1 s2 =
     (if m s1 = m s2 then (if m s1 = 0 then Some 0 else ece391_strcmp m (s1 + 1) (s2 + 1))
      else Some (ucast (m s1) - ucast (m s2)))"

partial_function (option) ece391_strncmp_loop :: "mem \<Rightarrow> addr \<Rightarrow> addr \<Rightarrow> u32 \<Rightarrow> i32 option" where
  "ece391_strncmp_loop m s1 s2 n =
     (if m s1 = m s2 then (if m s1 = 0 \<or> n - 1 = 0 then Some 0 else ece391_strncmp_loop m (s1 + 1) (s2 + 1) (n - 1))
      else Some (ucast (m s1) - ucast (m s2)))"

definition ece391_strncmp :: "mem \<Rightarrow> addr \<Rightarrow> addr \<Rightarrow> u32 \<Rightarrow> i32 option" where
  "ece391_strncmp m s1 s2 n = (if n = 0 then Some 0 else ece391_strncmp_loop m s1 s2 n)"

function ece391_strrev_loop :: "addr \<Rightarrow> int \<Rightarrow> int \<Rightarrow> mem \<Rightarrow> mem" where
  "ece391_strrev_loop s beg en m =
     (if beg < en
      then let tmp = m (s + of_int en);
               m1 = m(s + of_int en := m (s + of_int beg));
               m2 = m1(s + of_int beg := tmp)
           in ece391_strrev_loop s (beg + 1) (en - 1) m2
      else m)"
  by pat_completeness auto
termination by (relation "measure (\<lambda>(s, beg, en, m). nat (en - beg))") auto

declare ece391_strrev_loop.simps [simp del]

definition ece391_strrev :: "addr \<Rightarrow> mem \<Rightarrow> mem option" where
  "ece391_strrev s m =
     do {
       n \<leftarrow> ece391_strlen m s;
       let en = sint (n - 1);
       if en \<le> 0 then Some m else Some (ece391_strrev_loop s 0 en m)
     }"

text \<open>The digit table is the same string as the kernel's, \<^const>\<open>lookup\<close>.\<close>

partial_function (option) ece391_itoa_loop :: "addr \<Rightarrow> u32 \<Rightarrow> i32 \<Rightarrow> mem \<Rightarrow> (addr \<times> mem) option" where
  "ece391_itoa_loop newbuf newval radix m =
     (if newval > 0
      then if radix = 0 then None
           else let i = newval mod radix
                in if unat i < length lookup
                   then ece391_itoa_loop (newbuf + 1) (newval div radix) radix (m(newbuf := lookup ! unat i))
                   else None
      else Some (newbuf, m))"

definition ece391_itoa :: "u32 \<Rightarrow> addr \<Rightarrow> i32 \<Rightarrow> mem \<Rightarrow> mem option" where
  "ece391_itoa v buf radix m =
     (if v = 0 then Some (m(buf := 48, buf + 1 := 0))
      else do { (newbuf, m) \<leftarrow> ece391_itoa_loop buf v radix m; ece391_strrev buf (m(newbuf := 0)) })"

section \<open>Equivalence with the kernel's routines\<close>

lemma view_upd [view_simps]: "view (m(a := x)) p = (view m p)(a - p := x)"
  by (auto simp: view_def fun_eq_iff algebra_simps)

lemma unview_upd [view_simps]: "unview p (b(i := x)) = (unview p b)(p + i := x)"
  by (auto simp: unview_def fun_eq_iff algebra_simps)

text \<open>Two computations that return the same results are the same, also when they do not return.\<close>

lemma same_results: "(\<And>r. f = Some r \<Longrightarrow> g = Some r) \<Longrightarrow> (\<And>r. g = Some r \<Longrightarrow> f = Some r) \<Longrightarrow> f = g"
  by (cases f; cases g) auto

lemma strlen_to_kernel:
  assumes "ece391_strlen_loop m p l = Some r"
  shows "strlen_loop (view m (p - l)) l = Some r"
proof (rule ece391_strlen_loop.raw_induct [where P = "\<lambda>m p l r. strlen_loop (view m (p - l)) l = Some r", OF _ assms])
  fix f :: "mem \<Rightarrow> addr \<Rightarrow> u32 \<Rightarrow> u32 option" and m p l r
  assume IH: "\<And>m p l r. f m p l = Some r \<Longrightarrow> strlen_loop (view m (p - l)) l = Some r"
    and body: "(if m p \<noteq> 0 then f m (p + 1) (l + 1) else Some l) = Some r"
  show "strlen_loop (view m (p - l)) l = Some r"
    using body IH [of m "p + 1" "l + 1" r] by (subst strlen_loop.simps) (auto simp: view_apply split: if_splits)
qed

lemma strlen_from_kernel:
  assumes "strlen_loop s l = Some r"
  shows "s = view m p \<Longrightarrow> ece391_strlen_loop m (p + l) l = Some r"
proof -
  have "\<forall>m p. s = view m p \<longrightarrow> ece391_strlen_loop m (p + l) l = Some r"
  proof (rule strlen_loop.raw_induct [where P = "\<lambda>s l r. \<forall>m p. s = view m p \<longrightarrow> ece391_strlen_loop m (p + l) l = Some r", OF _ assms])
    fix f :: "str \<Rightarrow> u32 \<Rightarrow> u32 option" and s l r
    assume IH: "\<And>s l r. f s l = Some r \<Longrightarrow> \<forall>m p. s = view m p \<longrightarrow> ece391_strlen_loop m (p + l) l = Some r"
      and body: "(if s l \<noteq> 0 then f s (l + 1) else Some l) = Some r"
    show "\<forall>m p. s = view m p \<longrightarrow> ece391_strlen_loop m (p + l) l = Some r"
      using body IH [of s "l + 1" r]
      by (intro allI impI, subst ece391_strlen_loop.simps) (auto simp: view_apply add.assoc split: if_splits)
  qed
  then show "s = view m p \<Longrightarrow> ece391_strlen_loop m (p + l) l = Some r" by blast
qed

lemma ece391_strlen_view: "ece391_strlen m s = strlen (view m s)"
  unfolding ece391_strlen_def strlen_def
proof (rule same_results)
  show "ece391_strlen_loop m s 0 = Some r \<Longrightarrow> strlen_loop (view m s) 0 = Some r" for r
    using strlen_to_kernel [of m s 0 r] by simp
  show "strlen_loop (view m s) 0 = Some r \<Longrightarrow> ece391_strlen_loop m s 0 = Some r" for r
    using strlen_from_kernel [of "view m s" 0 r m s] by simp
qed

lemma strrev_loop_view: "ece391_strrev_loop s beg en m = unview s (strrev_loop (view m s) beg en)"
proof (induction s beg en m rule: ece391_strrev_loop.induct)
  case (1 s beg en m)
  show ?case
  proof (cases "beg < en")
    case True
    let ?m = "m(s + of_int en := m (s + of_int beg), s + of_int beg := m (s + of_int en))"
    have "ece391_strrev_loop s (beg + 1) (en - 1) ?m = unview s (strrev_loop (view ?m s) (beg + 1) (en - 1))"
      by (rule 1 [OF True refl refl refl])
    then show ?thesis
      using True by (subst ece391_strrev_loop.simps, subst strrev_loop.simps) (simp add: Let_def view_upd view_apply)
  qed (simp add: ece391_strrev_loop.simps strrev_loop.simps)
qed

lemma ece391_strrev_view: "ece391_strrev s m = map_option (unview s) (strrev (view m s))"
proof (cases "strlen (view m s)")
  case (Some n)
  then show ?thesis
    by (simp add: ece391_strrev_def strrev_def ece391_strlen_view strrev_loop_view Let_def strrev_loop.simps [of _ 0])
qed (simp add: ece391_strrev_def strrev_def ece391_strlen_view)

lemma itoa_to_kernel:
  assumes "ece391_itoa_loop p v radix m = Some r"
  shows "itoa_loop (view m buf) (p - buf) v radix = Some (view (snd r) buf, fst r - buf)"
proof (rule ece391_itoa_loop.raw_induct
    [where P = "\<lambda>p v radix m r. itoa_loop (view m buf) (p - buf) v radix = Some (view (snd r) buf, fst r - buf)", OF _ assms])
  fix f :: "addr \<Rightarrow> u32 \<Rightarrow> i32 \<Rightarrow> mem \<Rightarrow> (addr \<times> mem) option" and p v radix m r
  assume IH: "\<And>p v radix m r. f p v radix m = Some r \<Longrightarrow>
        itoa_loop (view m buf) (p - buf) v radix = Some (view (snd r) buf, fst r - buf)"
    and body: "(if v > 0 then if radix = 0 then None else let i = v mod radix in if unat i < length lookup
        then f (p + 1) (v div radix) radix (m(p := lookup ! unat i)) else None else Some (p, m)) = Some r"
  show "itoa_loop (view m buf) (p - buf) v radix = Some (view (snd r) buf, fst r - buf)"
  proof (cases "v > 0")
    case True
    then show ?thesis
      using body IH [of "p + 1" "v div radix" radix "m(p := lookup ! unat (v mod radix))" r]
      by (subst itoa_loop.simps) (auto simp: view_upd Let_def diff_add_eq split: if_splits)
  next
    case False
    then show ?thesis using body by (subst itoa_loop.simps) auto
  qed
qed

lemma itoa_from_kernel:
  assumes "itoa_loop b i v radix = Some r"
  shows "ece391_itoa_loop (buf + i) v radix (unview buf b) = Some (buf + snd r, unview buf (fst r))"
proof (rule itoa_loop.raw_induct
    [where P = "\<lambda>b i v radix r. ece391_itoa_loop (buf + i) v radix (unview buf b) = Some (buf + snd r, unview buf (fst r))", OF _ assms])
  fix f :: "str \<Rightarrow> u32 \<Rightarrow> u32 \<Rightarrow> i32 \<Rightarrow> (str \<times> u32) option" and b i v radix r
  assume IH: "\<And>b i v radix r. f b i v radix = Some r \<Longrightarrow>
        ece391_itoa_loop (buf + i) v radix (unview buf b) = Some (buf + snd r, unview buf (fst r))"
    and body: "(if v > 0 then if radix = 0 then None else let j = v mod radix in if unat j < length lookup
        then f (b(i := lookup ! unat j)) (i + 1) (v div radix) radix else None else Some (b, i)) = Some r"
  show "ece391_itoa_loop (buf + i) v radix (unview buf b) = Some (buf + snd r, unview buf (fst r))"
  proof (cases "v > 0")
    case True
    then show ?thesis
      using body IH [of "b(i := lookup ! unat (v mod radix))" "i + 1" "v div radix" radix r]
      by (subst ece391_itoa_loop.simps) (auto simp: unview_upd Let_def add.assoc split: if_splits)
  next
    case False
    then show ?thesis using body by (subst ece391_itoa_loop.simps) auto
  qed
qed

lemma itoa_loop_view:
  "ece391_itoa_loop buf v radix m = map_option (\<lambda>(b, i). (buf + i, unview buf b)) (itoa_loop (view m buf) 0 v radix)"
proof (rule same_results)
  fix r
  assume "ece391_itoa_loop buf v radix m = Some r"
  from itoa_to_kernel [OF this, of buf]
  show "map_option (\<lambda>(b, i). (buf + i, unview buf b)) (itoa_loop (view m buf) 0 v radix) = Some r"
    by (cases r) (simp add: view_simps)
next
  fix r
  assume "map_option (\<lambda>(b, i). (buf + i, unview buf b)) (itoa_loop (view m buf) 0 v radix) = Some r"
  then obtain b i where "itoa_loop (view m buf) 0 v radix = Some (b, i)" "r = (buf + i, unview buf b)" by auto
  with itoa_from_kernel [of "view m buf" 0 v radix "(b, i)" buf] show "ece391_itoa_loop buf v radix m = Some r" by simp
qed

lemma ece391_itoa_view: "ece391_itoa v buf radix m = map_option (unview buf) (itoa v (view m buf) radix)"
proof (cases "v = 0")
  case True
  then show ?thesis by (simp add: ece391_itoa_def itoa_def unview_upd add.commute)
next
  case False
  then show ?thesis
    by (cases "itoa_loop (view m buf) 0 v radix")
       (auto simp: ece391_itoa_def itoa_def itoa_loop_view ece391_strrev_view view_upd view_unview)
qed

section \<open>Comparing and copying\<close>

lemma cstr_head: "cstr (view m s) (c # cs) \<longleftrightarrow> m s = c \<and> c \<noteq> 0 \<and> cstr (view m (s + 1)) cs \<and> Suc (length cs) < 4294967296"
  by (auto simp: cstr_def view_def All_less_Suc2 algebra_simps)

lemma cstr_nil: "cstr (view m s) [] \<longleftrightarrow> m s = 0"
  by (simp add: cstr_def view_def)

lemma cstr_drop: "cstr (view m a) cs \<Longrightarrow> i \<le> length cs \<Longrightarrow> cstr (view m (a + of_nat i)) (drop i cs)"
  unfolding cstr_def view_def by (auto simp: add.assoc simp flip: of_nat_add)

lemma byte_eq: "(ucast a :: u32) = ucast b \<longleftrightarrow> a = b" for a b :: u8
  by (metis unat_ucast8 word_unat_eq_iff)

lemma byte_0: "(ucast a :: u32) = 0 \<longleftrightarrow> a = 0" for a :: u8
  using byte_eq [of a 0] by simp

lemma ece391_strcmp_cstr:
  "cstr (view m s1) cs \<Longrightarrow> cstr (view m s2) ds \<Longrightarrow> \<exists>r. ece391_strcmp m s1 s2 = Some r \<and> (r = 0 \<longleftrightarrow> cs = ds)"
proof (induction cs arbitrary: s1 s2 ds)
  case Nil
  then show ?case
    by (cases ds) (subst ece391_strcmp.simps, auto simp: cstr_nil cstr_head byte_eq byte_0)+
next
  case (Cons c cs)
  show ?case
  proof (cases "m s1 = m s2")
    case True
    then obtain es where ds: "ds = c # es" using Cons.prems by (cases ds) (auto simp: cstr_nil cstr_head)
    then obtain r where "ece391_strcmp m (s1 + 1) (s2 + 1) = Some r" "r = 0 \<longleftrightarrow> cs = es"
      using Cons.IH [of "s1 + 1" "s2 + 1" es] Cons.prems by (auto simp: cstr_head)
    then show ?thesis using True Cons.prems by (subst ece391_strcmp.simps) (auto simp: cstr_head ds)
  next
    case False
    then have "c # cs \<noteq> ds" using Cons.prems by (auto simp: cstr_head)
    then show ?thesis using False by (subst ece391_strcmp.simps) (auto simp: byte_eq)
  qed
qed

lemma ece391_strncmp_cstr:
  "cstr (view m s1) cs \<Longrightarrow> cstr (view m s2) ds \<Longrightarrow> \<exists>r. ece391_strncmp m s1 s2 n = Some r \<and> (r = 0 \<longleftrightarrow> take (unat n) cs = take (unat n) ds)"
proof (cases "n = 0")
  case False
  have "\<exists>r. ece391_strncmp_loop m s1 s2 n = Some r \<and> (r = 0 \<longleftrightarrow> take (unat n) cs = take (unat n) ds)"
    if "n \<noteq> 0" "cstr (view m s1) cs" "cstr (view m s2) ds" for n
    using that
  proof (induction cs arbitrary: s1 s2 ds n)
    case Nil
    then show ?case
      by (cases ds) (subst ece391_strncmp_loop.simps, auto simp: cstr_nil cstr_head byte_eq byte_0 unat_eq_0)+
  next
    case (Cons c cs)
    obtain k where k: "unat n = Suc k" using Cons.prems(1) by (cases "unat n") (auto simp: unat_eq_0)
    then have k1: "unat (n - 1) = k" using Cons.prems(1) by (simp add: unat_minus_one)
    then have last: "n - 1 = 0 \<longleftrightarrow> k = 0" using unat_eq_0 [of "n - 1"] by simp
    show ?case
    proof (cases "m s1 = m s2")
      case True
      then obtain es where ds: "ds = c # es" using Cons.prems by (cases ds) (auto simp: cstr_nil cstr_head)
      show ?thesis
      proof (cases "k = 0")
        case True
        then show ?thesis using \<open>m s1 = m s2\<close> k last by (subst ece391_strncmp_loop.simps) (simp add: ds)
      next
        case False
        then obtain r where "ece391_strncmp_loop m (s1 + 1) (s2 + 1) (n - 1) = Some r" "r = 0 \<longleftrightarrow> take k cs = take k es"
          using Cons.IH [of "n - 1" "s1 + 1" "s2 + 1" es] Cons.prems k1 last by (auto simp: cstr_head ds)
        then show ?thesis using True False Cons.prems k k1 last by (subst ece391_strncmp_loop.simps) (auto simp: cstr_head ds)
      qed
    next
      case False
      then have "take (unat n) (c # cs) \<noteq> take (unat n) ds" using Cons.prems k by (cases ds) (auto simp: cstr_head)
      then show ?thesis using False by (subst ece391_strncmp_loop.simps) (auto simp: byte_eq)
    qed
  qed
  then show "cstr (view m s1) cs \<Longrightarrow> cstr (view m s2) ds \<Longrightarrow> ?thesis" using False by (simp add: ece391_strncmp_def)
qed (simp add: ece391_strncmp_def)

text \<open>
  The copy is right when the destination does not start inside the part of the source that is still to be
  read; moving a string down, as \<open>grep\<close> does, is such a case.
\<close>

lemma ece391_strcpy_cstr:
  assumes "cstr (view m src) cs" "dst = src \<or> length cs < unat (dst - src)"
  shows "ece391_strcpy dst src m =
     Some (\<lambda>a. if unat (a - dst) \<le> length cs then (cs @ [0]) ! unat (a - dst) else m a)"
  using assms
proof (induction cs arbitrary: src dst m)
  case Nil
  then have "m src = 0" by (simp add: cstr_nil)
  then show ?case by (subst ece391_strcpy.simps) (auto simp: fun_eq_iff unat_eq_0)
next
  case (Cons c cs)
  let ?m = "m(dst := m src)"
  have c: "m src = c" "c \<noteq> 0" "cstr (view m (src + 1)) cs" and len: "Suc (length cs) < 4294967296"
    using Cons.prems(1) by (auto simp: cstr_head)
  have "src + 1 + of_nat i \<noteq> dst" if "i \<le> length cs" for i
  proof
    assume "src + 1 + of_nat i = dst"
    then have "dst - src = of_nat (Suc i)" by (auto simp: algebra_simps)
    moreover have "Suc i < 4294967296" using that len by simp
    ultimately have "unat (dst - src) = Suc i" by (simp only: unat_of_nat32)
    then show False using Cons.prems(2) that by auto
  qed
  then have "cstr (view ?m (src + 1)) cs" using c(3) by (simp add: cstr_def view_def)
  moreover have "dst + 1 = src + 1 \<or> length cs < unat (dst + 1 - (src + 1))" using Cons.prems(2) by auto
  ultimately have "ece391_strcpy (dst + 1) (src + 1) ?m =
      Some (\<lambda>a. if unat (a - (dst + 1)) \<le> length cs then (cs @ [0]) ! unat (a - (dst + 1)) else ?m a)"
    by (rule Cons.IH)
  moreover have "(if unat (a - (dst + 1)) \<le> length cs then (cs @ [0]) ! unat (a - (dst + 1)) else ?m a) =
      (if unat (a - dst) \<le> length (c # cs) then ((c # cs) @ [0]) ! unat (a - dst) else m a)" for a
  proof (cases "a = dst")
    case True
    have "unat (- 1 :: u32) = 4294967295" by (simp add: unsigned_minus_1_eq_mask mask_eq_exp_minus_1)
    then show ?thesis using True c(1) len by simp
  next
    case False
    have pred: "a - (dst + 1) = (a - dst) - 1" by (simp add: algebra_simps)
    have "0 < unat (a - dst)" using False by (simp add: unat_gt_0)
    then have "unat (a - dst) = Suc (unat (a - (dst + 1)))" unfolding pred using False by (subst unat_minus_one) auto
    then show ?thesis using False by simp
  qed
  ultimately show ?case using c(1,2) by (subst ece391_strcpy.simps) simp
qed

section \<open>Properties\<close>

text \<open>
  C32: the string routines that user programs link against compute the same as the kernel's, through the
  pointer they are given: the length, the reversal in place and the number conversion agree for every
  memory, number and base, and one returns exactly when the other does.
\<close>

theorem support_equals_kernel:
  "ece391_strlen m s = strlen (view m s) \<and> ece391_strrev s m = map_option (unview s) (strrev (view m s))
   \<and> ece391_itoa v s radix m = map_option (unview s) (itoa v (view m s) radix)"
  by (simp add: ece391_strlen_view ece391_strrev_view ece391_itoa_view)

end
