(* ===== verification/UserCalls.thy ===== *)
theory UserCalls
  imports System UserLib
begin

text \<open>
  The system calls as the user programs see them: the wrappers of \<^verbatim>\<open>syscalls/ece391syscall.S\<close>, which load the
  number and the arguments into registers and raise interrupt 0x80, and \<open>ece391_fdputs\<close> of
  \<^verbatim>\<open>syscalls/ece391support.c\<close>. The programs are written against the record \<open>os\<close> of calls over any system state;
  \<open>kernel_os\<close> is the instance that goes through the kernel's entry point \<^const>\<open>sys_call\<close>. A call that enters
  another program returns to the caller through the parameter \<open>child\<close>: what the machine does from the
  entry of that program until it has halted. \<open>os_call\<close> is a call by number alone, whose other registers
  are taken to be 0. The interfaces that the programs' proofs rely on are
  locales, each interpreted on \<open>kernel_os\<close>.
\<close>

section \<open>Model\<close>

record 's os =
  os_mem :: "'s \<Rightarrow> mem"
  os_poke :: "mem \<Rightarrow> 's \<Rightarrow> 's"
  os_execute :: "addr \<Rightarrow> 's \<Rightarrow> ('s \<times> i32) option"
  os_read :: "i32 \<Rightarrow> addr \<Rightarrow> i32 \<Rightarrow> 's \<Rightarrow> ('s \<times> i32) option"
  os_write :: "i32 \<Rightarrow> addr \<Rightarrow> i32 \<Rightarrow> 's \<Rightarrow> ('s \<times> i32) option"
  os_open :: "addr \<Rightarrow> 's \<Rightarrow> ('s \<times> i32) option"
  os_close :: "i32 \<Rightarrow> 's \<Rightarrow> ('s \<times> i32) option"
  os_getargs :: "addr \<Rightarrow> i32 \<Rightarrow> 's \<Rightarrow> ('s \<times> i32) option"
  os_vidmap :: "addr \<Rightarrow> 's \<Rightarrow> ('s \<times> i32) option"
  os_call :: "i32 \<Rightarrow> 's \<Rightarrow> ('s \<times> i32) option"

definition do_call ::
  "env \<Rightarrow> (kernel \<Rightarrow> u32 \<Rightarrow> u32 \<Rightarrow> (kernel \<times> i32) option) \<Rightarrow> i32 \<Rightarrow> u32 \<Rightarrow> u32 \<Rightarrow> u32 \<Rightarrow> kernel \<Rightarrow> (kernel \<times> i32) option" where
  "do_call e child number ebx ecx edx k =
     (case sys_call e number ebx ecx edx k of
        None \<Rightarrow> None | Some (Returns k' v) \<Rightarrow> Some (k', v) | Some (Enters k' eip sp) \<Rightarrow> child k' eip sp)"

definition kernel_os :: "env \<Rightarrow> (kernel \<Rightarrow> u32 \<Rightarrow> u32 \<Rightarrow> (kernel \<times> i32) option) \<Rightarrow> kernel os" where
  "kernel_os e child =
     \<lparr>os_mem = user_mem, os_poke = set_user_mem,
      os_execute = (\<lambda>command. do_call e child 2 command 0 0),
      os_read = (\<lambda>fd buf nbytes. do_call e child 3 fd buf nbytes),
      os_write = (\<lambda>fd buf nbytes. do_call e child 4 fd buf nbytes),
      os_open = (\<lambda>filename. do_call e child 5 filename 0 0),
      os_close = (\<lambda>fd. do_call e child 6 fd 0 0),
      os_getargs = (\<lambda>buf nbytes. do_call e child 7 buf nbytes 0),
      os_vidmap = (\<lambda>p. do_call e child 8 p 0 0),
      os_call = (\<lambda>number. do_call e child number 0 0 0)\<rparr>"

definition ece391_fdputs :: "'s os \<Rightarrow> i32 \<Rightarrow> addr \<Rightarrow> 's \<Rightarrow> 's option" where
  "ece391_fdputs os fd p s =
     do { n \<leftarrow> ece391_strlen (os_mem os s) p; (s', _) \<leftarrow> os_write os fd p n s; Some s' }"

section \<open>The interfaces\<close>

text \<open>
  Output, memory and descriptors of a process: \<open>out\<close> is what standard output shows, \<open>emit\<close> adds a byte to
  it, and \<open>descr\<close> is all that reads, opens and closes depend on.
\<close>

locale user_system =
  fixes os :: "'s os"
    and ok :: "'s \<Rightarrow> bool"
    and emit :: "u8 \<Rightarrow> 'o \<Rightarrow> 'o"
    and out :: "'s \<Rightarrow> 'o"
    and descr :: "'s \<Rightarrow> 'd"
  assumes write_out: "ok s \<Longrightarrow> 0 \<le> sint n \<Longrightarrow>
      \<exists>s'. os_write os 1 buf n s = Some (s', n) \<and> ok s' \<and> os_mem os s' = os_mem os s \<and> descr s' = descr s
        \<and> out s' = fold emit (map (\<lambda>i. os_mem os s (buf + of_nat i)) [0..<unat n]) (out s)"
    and poke: "os_mem os (os_poke os m s) = m" "ok (os_poke os m s) = ok s" "out (os_poke os m s) = out s"
      "descr (os_poke os m s) = descr s"
begin

lemma fdputs_out:
  assumes "ok s" "cstr (view (os_mem os s) p) cs" "length cs < 2147483648"
  shows "\<exists>s'. ece391_fdputs os 1 p s = Some s' \<and> ok s' \<and> os_mem os s' = os_mem os s \<and> descr s' = descr s
    \<and> out s' = fold emit cs (out s)"
proof -
  have n: "0 \<le> sint (of_nat (length cs) :: u32)" "unat (of_nat (length cs) :: u32) = length cs"
    using assms(3) by (simp_all add: sint_of_nat32)
  have "map (\<lambda>i. os_mem os s (p + of_nat i)) [0..<length cs] = cs"
    using assms(2) by (intro nth_equalityI) (auto simp: cstr_def view_def)
  then show ?thesis
    using write_out [OF assms(1) n(1), of p] assms(2) by (auto simp: ece391_fdputs_def ece391_strlen_view strlen_cstr n(2))
qed

end

text \<open>Descriptors open on regular files: the bytes that are left to read.\<close>

locale file_calls = user_system os ok emit out descr
  for os :: "'s os" and ok and emit :: "u8 \<Rightarrow> 'o \<Rightarrow> 'o" and out and descr :: "'s \<Rightarrow> 'd" +
  fixes file_at :: "i32 \<Rightarrow> u8 list \<Rightarrow> 'd \<Rightarrow> bool"
  assumes read_file: "ok s \<Longrightarrow> file_at fd bs (descr s) \<Longrightarrow> k = min (unat n) (length bs) \<Longrightarrow>
      \<exists>s'. os_read os fd buf n s = Some (s', of_nat k) \<and> ok s' \<and> out s' = out s \<and> file_at fd (drop k bs) (descr s')
        \<and> os_mem os s' = (\<lambda>a. if unat (a - buf) < k then bs ! unat (a - buf) else os_mem os s a)"

text \<open>Descriptors open on the directory: the position, and the names of the entries.\<close>

locale dir_calls = user_system os ok emit out descr
  for os :: "'s os" and ok and emit :: "u8 \<Rightarrow> 'o \<Rightarrow> 'o" and out and descr :: "'s \<Rightarrow> 'd" +
  fixes dir_at :: "i32 \<Rightarrow> nat \<Rightarrow> 'd \<Rightarrow> bool"
    and names :: "'d \<Rightarrow> nat \<Rightarrow> u8 list"
  assumes read_dir: "ok s \<Longrightarrow> dir_at fd j (descr s) \<Longrightarrow> j \<le> 63 \<Longrightarrow>
      \<exists>s'. os_read os fd buf 32 s = Some (s', of_nat (length (names (descr s) j))) \<and> ok s' \<and> out s' = out s \<and> dir_at fd (j + 1) (descr s')
        \<and> names (descr s') = names (descr s)
        \<and> os_mem os s' = (\<lambda>a. if unat (a - buf) < 32
             then (if unat (a - buf) < length (names (descr s) j) then names (descr s) j ! unat (a - buf) else 0) else os_mem os s a)"
    and name_length: "length (names d j) \<le> 32"

section \<open>The kernel's calls\<close>

text \<open>The control block that the kernel finds when the running process makes a call.\<close>

definition proc :: "kernel \<Rightarrow> pcb" where
  "proc k = curr_pcb (trap_entry k)"

definition user_ok :: "kernel \<Rightarrow> bool" where
  "user_ok k \<longleftrightarrow> fds_ok (proc k)
     \<and> (\<forall>i \<in> {2..<8}. file_operations (fd_array (proc k) i) \<notin> {Some terminal_input_jump_table, Some terminal_output_jump_table})
     \<and> names_end (boot_block k) \<and> num_dir (boot_block k) \<le> NUM_DIR"

definition descriptors :: "kernel \<Rightarrow> (nat \<Rightarrow> fd_struct) \<times> str" where
  "descriptors k = (fd_array (proc k), boot_block k)"

text \<open>What a call leaves when it only touched the screen, the memory and the interrupt flag.\<close>

lemma trap_entry_again: "kesp k' = kesp (trap_entry k) \<Longrightarrow> tss_esp0 k' = tss_esp0 k \<Longrightarrow> trap_entry k' = k'"
proof -
  assume "kesp k' = kesp (trap_entry k)" "tss_esp0 k' = tss_esp0 k"
  then have "tss_esp0 k' - 48 = kesp k'" by (simp add: trap_entry_def)
  then have "trap_entry k' = k'\<lparr>kesp := kesp k'\<rparr>" by (simp only: trap_entry_def)
  then show ?thesis by simp
qed

lemma proc_after: "kesp k' = kesp (trap_entry k) \<Longrightarrow> tss_esp0 k' = tss_esp0 k \<Longrightarrow> proc k' = curr_pcb k'"
  using trap_entry_again [of k' k] by (simp only: proc_def)

lemma trap_entry_sel [simp]:
  "user_mem (trap_entry k) = user_mem k" "scr (trap_entry k) = scr k" "boot_block (trap_entry k) = boot_block k"
  "tss_esp0 (trap_entry k) = tss_esp0 k" "pcbs (trap_entry k) = pcbs k" "active_tty (trap_entry k) = active_tty k"
  "enter_status (trap_entry k) = enter_status k" "line t (trap_entry k) = line t k" "line_ok t (trap_entry k) = line_ok t k"
  by (simp_all add: trap_entry_def user_mem_def line_def line_ok_def)

text \<open>
  What the calls of a process leave of the rest of the system: its own descriptors and memory apart, every
  process, page, terminal owner and the task state segment.
\<close>

definition same_rest :: "kernel \<Rightarrow> kernel \<Rightarrow> bool" where
  "same_rest k k' \<longleftrightarrow>
     tss_esp0 k' = tss_esp0 k \<and> tss_ss0 k' = tss_ss0 k \<and> boot_block k' = boot_block k \<and> pg k' = pg k \<and> pt_addr k' = pt_addr k
     \<and> processes k' = processes k \<and> curr_process k' = curr_process k \<and> tty_top_pid k' = tty_top_pid k
     \<and> next_one_is_root_shell k' = next_one_is_root_shell k \<and> active_tty k' = active_tty k
     \<and> (\<exists>m. umem k' = (umem k)(window (pg k) := m))
     \<and> (\<exists>f. pcbs k' = (pcbs k)(get_pcb (trap_entry k) := (proc k)\<lparr>fd_array := f\<rparr>))"

lemma same_rest_trap: "same_rest k k' \<Longrightarrow> get_pcb (trap_entry k') = get_pcb (trap_entry k)"
  by (simp add: same_rest_def trap_entry_def get_pcb_def)

lemma same_refl [simp]: "same_rest k k"
proof -
  have "umem k = (umem k)(window (pg k) := umem k (window (pg k)))" by simp
  moreover have "pcbs k = (pcbs k)(get_pcb (trap_entry k) := (proc k)\<lparr>fd_array := fd_array (proc k)\<rparr>)"
    by (simp add: proc_def curr_pcb_def trap_entry_def)
  ultimately show ?thesis unfolding same_rest_def by blast
qed

lemma same_trans: "same_rest k k' \<Longrightarrow> same_rest k' k'' \<Longrightarrow> same_rest k k''"
proof -
  assume a: "same_rest k k'" "same_rest k' k''"
  from a(1) obtain m f where 1: "umem k' = (umem k)(window (pg k) := m)" "pcbs k' = (pcbs k)(get_pcb (trap_entry k) := (proc k)\<lparr>fd_array := f\<rparr>)"
    by (auto simp: same_rest_def)
  from a(2) obtain m' f' where 2: "umem k'' = (umem k')(window (pg k') := m')"
    "pcbs k'' = (pcbs k')(get_pcb (trap_entry k') := (proc k')\<lparr>fd_array := f'\<rparr>)" by (auto simp: same_rest_def)
  have "proc k' = (proc k)\<lparr>fd_array := f\<rparr>" using 1(2) same_rest_trap [OF a(1)] by (simp add: proc_def curr_pcb_def trap_entry_def)
  then have "umem k'' = (umem k)(window (pg k) := m')" "pcbs k'' = (pcbs k)(get_pcb (trap_entry k) := (proc k)\<lparr>fd_array := f'\<rparr>)"
    using 1 2 same_rest_trap [OF a(1)] a(1) by (simp_all add: same_rest_def)
  then show "same_rest k k''" using a by (auto simp: same_rest_def)
qed

text \<open>A call that keeps the fields that only \<open>execute\<close> and \<open>halt\<close> change, the memory and the descriptors apart.\<close>

definition fixed :: "kernel \<Rightarrow> addr \<times> u32 \<times> str \<times> paging \<times> addr \<times> (nat \<Rightarrow> u32) \<times> u32 \<times> (nat \<Rightarrow> u8) \<times> u8 \<times> u8" where
  "fixed k = (tss_esp0 k, tss_ss0 k, boot_block k, pg k, pt_addr k, processes k, curr_process k, tty_top_pid k, next_one_is_root_shell k,
     active_tty k)"

lemma same_restI:
  "fixed k' = fixed k \<Longrightarrow> umem k' = (umem k)(window (pg k) := m) \<Longrightarrow>
   pcbs k' = (pcbs k)(get_pcb (trap_entry k) := (proc k)\<lparr>fd_array := f\<rparr>) \<Longrightarrow> same_rest k k'"
  by (auto simp: same_rest_def fixed_def)

lemma same_rest_kept: "fixed k' = fixed k \<Longrightarrow> umem k' = umem k \<Longrightarrow> pcbs k' = pcbs k \<Longrightarrow> same_rest k k'"
  by (rule same_restI [of _ _ "umem k (window (pg k))" "fd_array (proc k)"]) (simp_all add: proc_def curr_pcb_def trap_entry_def)

lemma user_ok_cong: "descriptors k' = descriptors k \<Longrightarrow> user_ok k' = user_ok k"
  by (simp add: user_ok_def descriptors_def fds_ok_def)

text \<open>The state after a call that kept the stack pointers.\<close>

lemma call_state:
  assumes "kesp k' = kesp (trap_entry k)" "tss_esp0 k' = tss_esp0 k" "curr_pcb k' = curr_pcb (trap_entry k)" "boot_block k' = boot_block k"
  shows "descriptors k' = descriptors k" "user_ok k' = user_ok k"
proof -
  show "descriptors k' = descriptors k" using proc_after [OF assms(1,2)] assms(3,4) by (simp add: descriptors_def proc_def)
  then show "user_ok k' = user_ok k" by (rule user_ok_cong)
qed

lemma kernel_os_mem [simp]: "os_mem (kernel_os e child) = user_mem" "os_poke (kernel_os e child) = set_user_mem"
  by (simp_all add: kernel_os_def)

definition after_write :: "u8 list \<Rightarrow> kernel \<Rightarrow> kernel" where
  "after_write cs k = sti (sti (on_scr (fold putc cs) (cli (trap_entry k))))"

lemma kernel_write_state:
  assumes "user_ok k" "0 \<le> sint n"
  shows "os_write (kernel_os e child) 1 buf n k = Some (after_write (map (\<lambda>i. user_mem k (buf + of_nat i)) [0..<unat n]) k, n)"
proof -
  have fd: "\<not> fd_bad 1" "unat (1 :: u32) = 1" by (simp_all add: fd_bad_def FD_ARRAY_SIZE_def)
  have n: "nat (sint n) = unat n"
  proof -
    have "n = of_nat (nat (sint n))" using assms(2) by simp
    moreover have "nat (sint n) < 4294967296" using sint_less [of n] by simp
    ultimately show ?thesis by (metis unat_of_nat32)
  qed
  have "flags (curr_fd 1 (trap_entry k)) = 1" "file_operations (curr_fd 1 (trap_entry k)) = Some terminal_output_jump_table"
    using assms(1) by (simp_all add: user_ok_def fds_ok_def proc_def)
  then have "sys_write e 1 buf n (trap_entry k) = Some (terminal_write 1 (user_mem k) buf n (trap_entry k))"
    using fd by (simp add: sys_write_def Let_def)
  then show ?thesis
    by (simp add: kernel_os_def do_call_def sys_call_def returns_def terminal_write_out [OF assms(2)] after_write_def n)
qed

lemma after_write_sel:
  "user_mem (after_write cs k) = user_mem k" "scr (after_write cs k) = fold putc cs (scr k)"
  "descriptors (after_write cs k) = descriptors k" "user_ok (after_write cs k) = user_ok k"
  "line t (after_write cs k) = line t k" "line_ok t (after_write cs k) = line_ok t k"
  "enter_status (after_write cs k) = enter_status k" "active_tty (after_write cs k) = active_tty k"
  "same_rest k (after_write cs k)"
proof -
  let ?k' = "after_write cs k"
  have "kesp ?k' = kesp (trap_entry k)" "tss_esp0 ?k' = tss_esp0 k" "boot_block ?k' = boot_block k"
    by (simp_all add: after_write_def hw_defs on_scr_def)
  moreover have "curr_pcb ?k' = curr_pcb (trap_entry k)" by (simp add: after_write_def curr_pcb_frame)
  ultimately show "descriptors ?k' = descriptors k" "user_ok ?k' = user_ok k" using call_state [of ?k' k] by simp_all
  show "user_mem ?k' = user_mem k" "scr ?k' = fold putc cs (scr k)" "line t ?k' = line t k" "line_ok t ?k' = line_ok t k"
    "enter_status ?k' = enter_status k" "active_tty ?k' = active_tty k"
    by (simp_all add: after_write_def hw_defs on_scr_def trap_entry_def user_mem_def line_def line_ok_def)
  show "same_rest k ?k'"
    by (rule same_rest_kept) (simp_all add: fixed_def after_write_def hw_defs on_scr_def trap_entry_def)
qed

lemma kernel_write:
  assumes "user_ok k" "0 \<le> sint n"
  shows "\<exists>k'. os_write (kernel_os e child) 1 buf n k = Some (k', n) \<and> user_ok k' \<and> user_mem k' = user_mem k
    \<and> descriptors k' = descriptors k \<and> scr k' = fold putc (map (\<lambda>i. user_mem k (buf + of_nat i)) [0..<unat n]) (scr k)"
  using kernel_write_state [OF assms, of e child buf] assms(1) by (simp add: after_write_sel)

interpretation ku: user_system "kernel_os e child" user_ok putc scr descriptors for e child
proof
  show "user_ok k \<Longrightarrow> 0 \<le> sint n \<Longrightarrow> \<exists>k'. os_write (kernel_os e child) 1 buf n k = Some (k', n) \<and> user_ok k'
      \<and> os_mem (kernel_os e child) k' = os_mem (kernel_os e child) k \<and> descriptors k' = descriptors k
      \<and> scr k' = fold putc (map (\<lambda>i. os_mem (kernel_os e child) k (buf + of_nat i)) [0..<unat n]) (scr k)" for k n buf
    using kernel_write [of k n e child buf] by (simp add: kernel_os_def)
  show "os_mem (kernel_os e child) (os_poke (kernel_os e child) m k) = m" for m k by (simp add: kernel_os_def)
  show descr: "descriptors (os_poke (kernel_os e child) m k) = descriptors k" for m k
    by (simp add: kernel_os_def descriptors_def proc_def trap_entry_def set_user_mem_def curr_pcb_def get_pcb_def)
  show "user_ok (os_poke (kernel_os e child) m k) = user_ok k" for m k by (rule user_ok_cong [OF descr])
  show "scr (os_poke (kernel_os e child) m k) = scr k" for m k by (simp add: kernel_os_def set_user_mem_def)
qed

text \<open>The same calls, of a process that started in the state \<open>k0\<close>: they keep what is not the process's own.\<close>

definition kept :: "kernel \<Rightarrow> kernel \<Rightarrow> bool" where
  "kept k0 k \<longleftrightarrow> user_ok k \<and> same_rest k0 k"

lemma kept_step: "kept k0 k \<Longrightarrow> user_ok k' \<Longrightarrow> same_rest k k' \<Longrightarrow> kept k0 k'"
  using same_trans by (auto simp: kept_def)

lemma kept_poke: "kept k0 (set_user_mem m k) = kept k0 k"
proof -
  have "user_ok (set_user_mem m k) = user_ok k" using ku.poke(2) [of undefined undefined m k] by simp
  moreover have "same_rest k0 (set_user_mem m k) = same_rest k0 k"
  proof -
    have "pg k = pg k0 \<Longrightarrow> (\<exists>m'. (umem k)(window (pg k) := m) = (umem k0)(window (pg k0) := m'))
        = (\<exists>m'. umem k = (umem k0)(window (pg k0) := m'))"
      by (metis fun_upd_triv fun_upd_upd)
    then show ?thesis by (auto simp: same_rest_def set_user_mem_def)
  qed
  ultimately show ?thesis by (simp add: kept_def)
qed

interpretation ks: user_system "kernel_os e child" "kept k0" putc scr descriptors for e child k0
proof
  show "\<exists>k'. os_write (kernel_os e child) 1 buf n k = Some (k', n) \<and> kept k0 k'
      \<and> os_mem (kernel_os e child) k' = os_mem (kernel_os e child) k \<and> descriptors k' = descriptors k
      \<and> scr k' = fold putc (map (\<lambda>i. os_mem (kernel_os e child) k (buf + of_nat i)) [0..<unat n]) (scr k)"
    if "kept k0 k" "0 \<le> sint n" for k n buf
  proof -
    have ok: "user_ok k" using that(1) by (simp add: kept_def)
    then show ?thesis
      using kernel_write_state [OF ok that(2), of e child buf] kept_step [OF that(1) _ after_write_sel(9)] by (simp add: after_write_sel)
  qed
qed (simp_all add: ku.poke [of undefined undefined, unfolded kernel_os_mem] kept_poke)

text \<open>Reading a regular file.\<close>

definition file_open_at :: "i32 \<Rightarrow> u8 list \<Rightarrow> (nat \<Rightarrow> fd_struct) \<times> str \<Rightarrow> bool" where
  "file_open_at fd bs d \<longleftrightarrow> \<not> fd_bad fd \<and> (let f = fst d (unat fd); img = snd d in
     flags f \<noteq> 0 \<and> file_operations f = Some file_jump_table \<and> fd_inode_num f \<le> num_inodes img
     \<and> (\<exists>p. file_pos f = of_nat p \<and> p \<le> length (file_bytes img (fd_inode_num f)) \<and> bs = drop p (file_bytes img (fd_inode_num f))))"

lemma file_open_at_reading:
  "file_open_at fd bs (descriptors k) \<longleftrightarrow>
     (\<exists>inode p. reading (trap_entry k) fd inode p \<and> bs = drop p (file_bytes (boot_block k) inode))"
  by (auto simp: file_open_at_def reading_def descriptors_def proc_def Let_def)

text \<open>What a call changes of the current block beside the memory: one descriptor.\<close>

lemma sys_read_file_state:
  assumes "reading k fd inode p" "m = min (unat n) (length (file_bytes (boot_block k) inode) - p)"
  shows "sys_read e fd buf n k = Some (on_fd (unat fd) (\<lambda>f. f\<lparr>file_pos := file_pos f + of_nat m\<rparr>)
      (set_user_mem (\<lambda>a. if unat (a - buf) < m then file_bytes (boot_block k) inode ! (p + unat (a - buf)) else user_mem k a) k), of_nat m)"
  using assms(1) read_data_view [of inode "boot_block k" p "user_mem k" buf n, folded assms(2)]
  by (simp add: sys_read_def Let_def file_read_def reading_def)

lemma user_ok_fd:
  assumes "user_ok k" "i < 8" "2 \<le> i" "fd_array (proc k') = (fd_array (proc k))(i := f)" "boot_block k' = boot_block k"
    "flags f \<in> {0, 1}" "file_operations f \<notin> {None, Some terminal_input_jump_table, Some terminal_output_jump_table}"
  shows "user_ok k'"
  using assms by (auto simp: user_ok_def fds_ok_def)

definition after_fd :: "nat \<Rightarrow> (fd_struct \<Rightarrow> fd_struct) \<Rightarrow> mem \<Rightarrow> kernel \<Rightarrow> kernel" where
  "after_fd i f m k = sti (on_fd i f (set_user_mem m (trap_entry k)))"

lemma after_fd_sel:
  "fd_array (proc (after_fd i f m k)) = (fd_array (proc k))(i := f (fd_array (proc k) i))"
  "user_mem (after_fd i f m k) = m" "boot_block (after_fd i f m k) = boot_block k" "scr (after_fd i f m k) = scr k"
  "same_rest k (after_fd i f m k)"
proof -
  have "kesp (after_fd i f m k) = kesp (trap_entry k)" "tss_esp0 (after_fd i f m k) = tss_esp0 k"
    by (simp_all add: after_fd_def sti_def on_fd_def on_pcb_def set_user_mem_def)
  from proc_after [OF this]
  show "fd_array (proc (after_fd i f m k)) = (fd_array (proc k))(i := f (fd_array (proc k) i))"
    by (simp add: proc_def after_fd_def curr_pcb_frame fun_eq_iff curr_fd_on_fd)
  show "user_mem (after_fd i f m k) = m"
    by (simp add: after_fd_def user_mem_def sti_def on_fd_def on_pcb_def set_user_mem_def)
  show "boot_block (after_fd i f m k) = boot_block k" "scr (after_fd i f m k) = scr k"
    by (simp_all add: after_fd_def sti_def on_fd_def on_pcb_def set_user_mem_def trap_entry_def)
  have "pcbs (after_fd i f m k) =
      (pcbs k)(get_pcb (trap_entry k) := (proc k)\<lparr>fd_array := (fd_array (proc k))(i := f (fd_array (proc k) i))\<rparr>)"
    by (simp add: after_fd_def sti_def on_fd_def on_pcb_def set_user_mem_def trap_entry_def proc_def curr_pcb_def get_pcb_def)
  then show "same_rest k (after_fd i f m k)"
    by (rule same_restI [rotated 2]) (simp_all add: fixed_def after_fd_def sti_def on_fd_def on_pcb_def set_user_mem_def trap_entry_def)
qed

lemma kernel_read_file:
  assumes "user_ok k" "file_open_at fd bs (descriptors k)" "m = min (unat n) (length bs)"
  shows "\<exists>k'. os_read (kernel_os e child) fd buf n k = Some (k', of_nat m) \<and> user_ok k' \<and> scr k' = scr k
     \<and> file_open_at fd (drop m bs) (descriptors k') \<and> same_rest k k'
     \<and> boot_block k' = boot_block k \<and> (\<exists>f. fd_array (proc k') = (fd_array (proc k))(unat fd := f))
     \<and> user_mem k' = (\<lambda>a. if unat (a - buf) < m then bs ! unat (a - buf) else user_mem k a)"
proof -
  from assms(2) obtain inode p where r: "reading (trap_entry k) fd inode p" "bs = drop p (file_bytes (boot_block k) inode)"
    by (auto simp: file_open_at_reading)
  have m: "m = min (unat n) (length (file_bytes (boot_block (trap_entry k)) inode) - p)" using assms(3) r(2) by simp
  let ?m = "\<lambda>a. if unat (a - buf) < m then file_bytes (boot_block k) inode ! (p + unat (a - buf)) else user_mem k a"
  let ?k' = "after_fd (unat fd) (\<lambda>f. f\<lparr>file_pos := file_pos f + of_nat m\<rparr>) ?m k"
  have "os_read (kernel_os e child) fd buf n k = Some (?k', of_nat m)"
    by (simp add: kernel_os_def do_call_def sys_call_def returns_def after_fd_def sys_read_file_state [OF r(1) m] cong: if_cong)
  moreover have fd: "unat fd < 8" "flags (fd_array (proc k) (unat fd)) = 1" "2 \<le> unat fd"
    "file_operations (fd_array (proc k) (unat fd)) = Some file_jump_table"
  proof -
    show "unat fd < 8" "file_operations (fd_array (proc k) (unat fd)) = Some file_jump_table"
      using r(1) fd_good [of fd] by (simp_all add: reading_def proc_def)
    then show "flags (fd_array (proc k) (unat fd)) = 1"
      using assms(1) r(1) by (auto simp: user_ok_def fds_ok_def reading_def proc_def)
    have "file_operations (fd_array (proc k) 0) = Some terminal_input_jump_table"
      "file_operations (fd_array (proc k) 1) = Some terminal_output_jump_table"
      using assms(1) by (simp_all add: user_ok_def fds_ok_def)
    then have "unat fd \<noteq> 0" "unat fd \<noteq> 1"
      using \<open>file_operations (fd_array (proc k) (unat fd)) = Some file_jump_table\<close>
      by (metis file_op_table.distinct(7) option.inject, metis file_op_table.distinct(13) option.inject)
    then show "2 \<le> unat fd" by linarith
  qed
  moreover have "user_ok ?k'"
    by (rule user_ok_fd [OF assms(1) fd(1,3) after_fd_sel(1,3)]) (simp_all add: fd)
  moreover have "file_open_at fd (drop m bs) (descriptors ?k')"
    using assms(2,3) unfolding file_open_at_def descriptors_def Let_def
    by (auto simp: after_fd_sel) (metis add.commute drop_drop le_add_diff_inverse length_drop min.cobounded2 nat_add_left_cancel_le of_nat_add)
  moreover have "?m = (\<lambda>a. if unat (a - buf) < m then bs ! unat (a - buf) else user_mem k a)"
    using r m by (auto simp: reading_def fun_eq_iff)
  moreover have "\<exists>f. fd_array (proc ?k') = (fd_array (proc k))(unat fd := f)" unfolding after_fd_sel by blast
  ultimately show ?thesis using after_fd_sel by (intro exI [of _ ?k']) simp
qed

interpretation kf: file_calls "kernel_os e child" "kept k0" putc scr descriptors file_open_at for e child k0
proof
  show "\<exists>k'. os_read (kernel_os e child) fd buf n k = Some (k', of_nat m) \<and> kept k0 k' \<and> scr k' = scr k
        \<and> file_open_at fd (drop m bs) (descriptors k')
        \<and> os_mem (kernel_os e child) k' = (\<lambda>a. if unat (a - buf) < m then bs ! unat (a - buf) else os_mem (kernel_os e child) k a)"
    if "kept k0 k" "file_open_at fd bs (descriptors k)" "m = min (unat n) (length bs)" for k fd bs m n buf
    using kernel_read_file [OF _ that(2,3), of e child buf] kept_step [OF that(1)] that(1) unfolding kernel_os_mem kept_def by blast
qed

text \<open>Reading the directory.\<close>

definition dir_open_at :: "i32 \<Rightarrow> nat \<Rightarrow> (nat \<Rightarrow> fd_struct) \<times> str \<Rightarrow> bool" where
  "dir_open_at fd j d \<longleftrightarrow> \<not> fd_bad fd \<and> 2 \<le> unat fd \<and> flags (fst d (unat fd)) = 1
     \<and> file_operations (fst d (unat fd)) = Some directory_jump_table \<and> file_pos (fst d (unat fd)) = of_nat j"

lemma dir_name_props: "length (dir_name img j) \<le> 32" "0 \<notin> set (dir_name img j)"
  using length_chars [of "directory_name img (of_nat j)" 0 32] chars_no_NUL by (simp_all add: dir_name_def)

lemma sys_read_dir_state:
  assumes "\<not> fd_bad fd" "flags (fds k (unat fd)) \<noteq> 0" "file_operations (fds k (unat fd)) = Some directory_jump_table"
    "file_pos (fds k (unat fd)) = of_nat j" "j \<le> 63" "cs = dir_name (boot_block k) j"
  shows "sys_read e fd buf 32 k = Some (on_fd (unat fd) (\<lambda>f. f\<lparr>file_pos := file_pos f + 1\<rparr>)
      (set_user_mem (\<lambda>a. if unat (a - buf) < 32 then (if unat (a - buf) < length cs then cs ! unat (a - buf) else 0)
                         else user_mem k a) k), of_nat (length cs))"
proof -
  have cs: "length cs \<le> 32" "0 \<notin> set cs" unfolding assms(6) by (rule dir_name_props)+
  have j: "\<not> (of_nat j :: u32) > NUM_DIR" using assms(5) by (simp add: NUM_DIR_def word_less_nat_alt)
  have "nat (sint (32 :: u32)) = 32" by simp
  then have m: "min (length cs) (nat (sint (32 :: u32))) = length cs" using cs(1) by simp
  note copied = copy_name_eq [OF cs(1) dir_name_strncpy [of _ "file_name (uninit_dentry e)" "boot_block k" j, folded assms(6)] cs(2),
      of 32 "user_mem k" buf, unfolded m]
  show ?thesis
    using assms(1-4) j by (simp add: sys_read_def dir_read_def read_dentry_by_index_def copied Let_def)
qed

lemma kernel_read_dir:
  assumes "user_ok k" "dir_open_at fd j (descriptors k)" "j \<le> 63" "cs = dir_name (snd (descriptors k)) j"
  shows "\<exists>k'. os_read (kernel_os e child) fd buf 32 k = Some (k', of_nat (length cs)) \<and> user_ok k' \<and> scr k' = scr k
     \<and> dir_open_at fd (j + 1) (descriptors k') \<and> dir_name (snd (descriptors k')) = dir_name (snd (descriptors k))
     \<and> same_rest k k' \<and> boot_block k' = boot_block k \<and> (\<forall>i. flags (fd_array (proc k') i) = flags (fd_array (proc k) i))
     \<and> user_mem k' = (\<lambda>a. if unat (a - buf) < 32 then (if unat (a - buf) < length cs then cs ! unat (a - buf) else 0) else user_mem k a)"
proof -
  let ?m = "\<lambda>a. if unat (a - buf) < 32 then (if unat (a - buf) < length cs then cs ! unat (a - buf) else 0) else user_mem k a"
  let ?k' = "after_fd (unat fd) (\<lambda>f. f\<lparr>file_pos := file_pos f + 1\<rparr>) ?m k"
  have d: "\<not> fd_bad fd" "2 \<le> unat fd" "unat fd < 8" "flags (fd_array (proc k) (unat fd)) = 1"
    "file_operations (fd_array (proc k) (unat fd)) = Some directory_jump_table" "file_pos (fd_array (proc k) (unat fd)) = of_nat j"
    using assms(2) fd_good [of fd] by (simp_all add: dir_open_at_def descriptors_def)
  have "sys_read e fd buf 32 (trap_entry k) = Some (on_fd (unat fd) (\<lambda>f. f\<lparr>file_pos := file_pos f + 1\<rparr>)
      (set_user_mem (\<lambda>a. if unat (a - buf) < 32 then (if unat (a - buf) < length cs then cs ! unat (a - buf) else 0)
         else user_mem (trap_entry k) a) (trap_entry k)), of_nat (length cs))"
    by (rule sys_read_dir_state) (use d assms(3,4) in \<open>simp_all add: proc_def descriptors_def\<close>)
  then have "os_read (kernel_os e child) fd buf 32 k = Some (?k', of_nat (length cs))"
    by (simp add: kernel_os_def do_call_def sys_call_def returns_def after_fd_def cong: if_cong)
  moreover have "user_ok ?k'" by (rule user_ok_fd [OF assms(1) d(3,2) after_fd_sel(1,3)]) (simp_all add: d)
  moreover have "dir_open_at fd (j + 1) (descriptors ?k')"
    using d by (simp add: dir_open_at_def descriptors_def after_fd_sel)
  moreover have "snd (descriptors ?k') = snd (descriptors k)" by (simp add: descriptors_def after_fd_sel)
  ultimately show ?thesis using after_fd_sel by (intro exI [of _ ?k']) simp
qed

interpretation kd: dir_calls "kernel_os e child" "kept k0" putc scr descriptors dir_open_at "\<lambda>d. dir_name (snd d)" for e child k0
proof
  show "\<exists>k'. os_read (kernel_os e child) fd buf 32 k = Some (k', of_nat (length (dir_name (snd (descriptors k)) j))) \<and> kept k0 k'
        \<and> scr k' = scr k \<and> dir_open_at fd (j + 1) (descriptors k') \<and> dir_name (snd (descriptors k')) = dir_name (snd (descriptors k))
        \<and> os_mem (kernel_os e child) k' = (\<lambda>a. if unat (a - buf) < 32
             then (if unat (a - buf) < length (dir_name (snd (descriptors k)) j) then dir_name (snd (descriptors k)) j ! unat (a - buf) else 0)
             else os_mem (kernel_os e child) k a)"
    if "kept k0 k" "dir_open_at fd j (descriptors k)" "j \<le> 63" for k fd j buf
    using kernel_read_dir [OF _ that(2,3) refl, of e child buf] kept_step [OF that(1)] that(1) unfolding kernel_os_mem kept_def by blast
  show "length (dir_name (snd d) j) \<le> 32" for d :: "(nat \<Rightarrow> fd_struct) \<times> str" and j by (rule dir_name_props)
qed

text \<open>Opening a file by name, and reading the arguments.\<close>

text \<open>What \<open>open\<close> finds: the lowest free descriptor, and the first entry with the name.\<close>

lemma free_fd_lowest:
  assumes "i < 8" "2 \<le> i" "flags (fd_array (proc k) i) = 0" "\<forall>l. 2 \<le> l \<longrightarrow> l < i \<longrightarrow> flags (fd_array (proc k) l) \<noteq> 0"
  shows "free_fd (trap_entry k) = Some i"
proof -
  have nth: "[2..<8] ! l = l + 2" if "l < 6" for l using nth_upt [of 2 l 8] that by simp
  have "i - 2 < 6" "i - 2 + 2 = i" using assms(1,2) by auto
  then have "\<exists>l < length [2..<8]. flags (fd_array (proc k) ([2..<8] ! l)) = 0 \<and> i = [2..<8] ! l
      \<and> (\<forall>l' < l. flags (fd_array (proc k) ([2..<8] ! l')) \<noteq> 0)"
    using assms(3,4) by (intro exI [of _ "i - 2"]) (simp add: nth del: upt_rec_numeral)
  then show ?thesis unfolding free_fd_def find_Some_iff FD_ARRAY_SIZE_def proc_def nat_numeral .
qed

lemma dentry_found:
  assumes "user_ok k" "cstr (view (user_mem k) p) cs" "length cs \<le> 32"
    "find (\<lambda>j. dir_name (boot_block k) j = cs) [0..<unat (num_dir (boot_block k))] = Some j"
  shows "\<exists>d. read_dentry_by_name (boot_block k) (Some (view (user_mem k) p)) (Some (uninit_dentry e)) = Some (0, Some d)
     \<and> file_type d = load32 (boot_block k) (directory_offset (of_nat j) + 32)
     \<and> inode_num d = load32 (boot_block k) (directory_offset (of_nat j) + 36)"
proof -
  have img: "names_end (boot_block k)" "num_dir (boot_block k) \<le> NUM_DIR" using assms(1) by (simp_all add: user_ok_def)
  have "unat (of_nat j :: u32) < unat (num_dir (boot_block k))"
    using assms(4) unat_lt32 [of "num_dir (boot_block k)"] by (auto simp: find_Some_iff)
  then have "\<not> (of_nat j :: u32) > NUM_DIR" using img(2) by (simp add: word_le_nat_alt word_less_nat_alt)
  then show ?thesis
    using read_dentry_by_name_eq [OF assms(2) img(1), of "uninit_dentry e"] assms(3,4) by (simp add: read_dentry_by_index_def)
qed

lemma kernel_open:
  assumes "user_ok k" "p \<noteq> 0" "cstr (view (user_mem k) p) cs" "length cs \<le> 32"
    "find (\<lambda>j. dir_name (boot_block k) j = cs) [0..<unat (num_dir (boot_block k))] = Some j"
    "ty = load32 (boot_block k) (directory_offset (of_nat j) + 32)" "ty = 1 \<or> ty = 2"
    "i < 8" "2 \<le> i" "flags (fd_array (proc k) i) = 0" "\<forall>l. 2 \<le> l \<longrightarrow> l < i \<longrightarrow> flags (fd_array (proc k) l) \<noteq> 0"
  shows "\<exists>k'. os_open (kernel_os e child) p k = Some (k', of_nat i) \<and> user_ok k' \<and> scr k' = scr k \<and> user_mem k' = user_mem k
     \<and> boot_block k' = boot_block k \<and> same_rest k k'
     \<and> fd_array (proc k') = (fd_array (proc k))(i := opened (if ty = 2 then load32 (boot_block k) (directory_offset (of_nat j) + 36) else 0)
          (if ty = 1 then directory_jump_table else file_jump_table) (fd_array (proc k) i))"
proof -
  let ?n = "if ty = 2 then load32 (boot_block k) (directory_offset (of_nat j) + 36) else 0"
  let ?t = "if ty = 1 then directory_jump_table else file_jump_table"
  let ?k' = "after_fd i (opened ?n ?t) (user_mem k) k"
  have free: "free_fd (trap_entry k) = Some i" by (rule free_fd_lowest [OF assms(8-11)])
  have str: "str_at (trap_entry k) p = Some (view (user_mem k) p)" using assms(2) by (simp add: str_at_def)
  have mem: "set_user_mem (user_mem k) (trap_entry k) = trap_entry k"
    by (simp add: set_user_mem_def user_mem_def trap_entry_def)
  from dentry_found [OF assms(1,3-5)] obtain d where d: "read_dentry_by_name (boot_block k) (Some (view (user_mem k) p)) (Some (uninit_dentry e)) = Some (0, Some d)"
    "file_type d = ty" "inode_num d = load32 (boot_block k) (directory_offset (of_nat j) + 36)" using assms(6) by blast
  have "sys_open e p (trap_entry k) = Some (on_fd i (opened ?n ?t) (trap_entry k), of_nat i)"
    using assms(7) d by (auto simp: sys_open_def free str Let_def opened_def [abs_def])
  then have "os_open (kernel_os e child) p k = Some (?k', of_nat i)"
    by (simp add: kernel_os_def do_call_def sys_call_def returns_def after_fd_def mem)
  moreover have "user_ok ?k'" by (rule user_ok_fd [OF assms(1,8,9) after_fd_sel(1,3)]) (simp_all add: opened_def)
  ultimately show ?thesis using after_fd_sel by (intro exI [of _ ?k']) simp
qed

lemma kernel_getargs:
  assumes "user_ok k" "0 \<le> sint n"
  shows "\<exists>k'. os_getargs (kernel_os e child) buf n k = Some (k', 0) \<and> user_ok k' \<and> scr k' = scr k \<and> descriptors k' = descriptors k \<and> same_rest k k'
     \<and> tail k' = tail k \<and> terminal_buffer k' = terminal_buffer k \<and> enter_status k' = enter_status k
     \<and> user_mem k' = (\<lambda>a. if unat (a - buf) < min 140 (nat (sint n)) then args (proc k) (unat (a - buf)) else user_mem k a)"
proof -
  define t where "t = (if sint n > ARGS_ARR_SIZE then ARGS_ARR_SIZE else sint n)"
  have t: "0 \<le> t" "t < 4294967296" "nat t = min 140 (nat (sint n))"
    using assms(2) by (auto simp: t_def ARGS_ARR_SIZE_def)
  have less: "uint (a - buf) < t \<longleftrightarrow> unat (a - buf) < min 140 (nat (sint n))" for a
    using uint_less_int_iff [of "a - buf" "nat t"] t(1) unfolding t(3) [symmetric] by simp
  let ?m = "\<lambda>a. if unat (a - buf) < min 140 (nat (sint n)) then args (proc k) (unat (a - buf)) else user_mem k a"
  let ?k' = "sti (set_user_mem ?m (trap_entry k))"
  have "getargs buf n (trap_entry k) = (set_user_mem ?m (trap_entry k), 0)"
    using copy_args_eq [of 0 t "args (proc k)" buf "user_mem k", OF _ t(1,2)]
    by (simp add: getargs_def Let_def t_def [symmetric] proc_def less cong: if_cong)
  then have "os_getargs (kernel_os e child) buf n k = Some (?k', 0)"
    by (simp add: kernel_os_def do_call_def sys_call_def returns_def)
  moreover have "kesp ?k' = kesp (trap_entry k)" "tss_esp0 ?k' = tss_esp0 k" "boot_block ?k' = boot_block k" "scr ?k' = scr k"
    by (simp_all add: sti_def set_user_mem_def trap_entry_def)
  moreover have "curr_pcb ?k' = curr_pcb (trap_entry k)" by (simp add: curr_pcb_frame)
  moreover have "tail ?k' = tail k" "terminal_buffer ?k' = terminal_buffer k" "enter_status ?k' = enter_status k"
    by (simp_all add: sti_def set_user_mem_def trap_entry_def)
  moreover have "user_mem ?k' = ?m" by (simp add: user_mem_def sti_def set_user_mem_def)
  moreover have "same_rest k ?k'"
    by (rule same_restI [of _ _ ?m "fd_array (proc k)"])
      (simp_all add: fixed_def sti_def set_user_mem_def trap_entry_def proc_def curr_pcb_def)
  ultimately show ?thesis using call_state [of ?k' k] assms(1) by (intro exI [of _ ?k']) blast
qed

end
