(* ===== verification/UserProgs.thy ===== *)
theory UserProgs
  imports UserCalls
begin

text \<open>
  User programs: \<^verbatim>\<open>syscalls/ece391cat.c\<close>, \<^verbatim>\<open>ece391ls.c\<close>, \<^verbatim>\<open>ece391hello.c\<close>, \<^verbatim>\<open>ece391testprint.c\<close>, \<^verbatim>\<open>ece391counter.c\<close> and
  \<^verbatim>\<open>ece391shell.c\<close>, each \<open>main\<close> as a function of the system-call interface. The address of a string constant is
  \<open>lits\<close> of its text, and that of a local array an argument; calls within a program use the stack below
  these arrays, which is not modelled. The lemmas are proved once against the interfaces; the properties
  are their instances for the kernel, from the program's calls down to the screen.
\<close>

section \<open>Model\<close>

abbreviation nl :: string where "nl \<equiv> [CHR 0x0A]"

subsection \<open>cat\<close>

partial_function (option) cat_loop :: "'s os \<Rightarrow> (string \<Rightarrow> addr) \<Rightarrow> i32 \<Rightarrow> addr \<Rightarrow> 's \<Rightarrow> ('s \<times> i32) option" where
  "cat_loop os lits fd buf s =
     Option.bind (os_read os fd buf 1024 s) (\<lambda>(s, cnt).
       if cnt = 0 then Some (s, 0)
       else if cnt = -1 then Option.bind (ece391_fdputs os 1 (lits (''file read failed'' @ nl)) s) (\<lambda>s. Some (s, 3))
       else Option.bind (os_write os 1 buf cnt s) (\<lambda>(s, r). if r = -1 then Some (s, 3) else cat_loop os lits fd buf s))"

definition cat_main :: "'s os \<Rightarrow> (string \<Rightarrow> addr) \<Rightarrow> addr \<Rightarrow> 's \<Rightarrow> ('s \<times> i32) option" where
  "cat_main os lits buf s =
     do {
       (s, r) \<leftarrow> os_getargs os buf 1024 s;
       if r \<noteq> 0 then do { s \<leftarrow> ece391_fdputs os 1 (lits (''could not read arguments'' @ nl)) s; Some (s, 3) }
       else do {
         (s, fd) \<leftarrow> os_open os buf s;
         if fd = -1 then do { s \<leftarrow> ece391_fdputs os 1 (lits (''file not found'' @ nl)) s; Some (s, 2) }
         else cat_loop os lits fd buf s
       }
     }"

subsection \<open>ls\<close>

partial_function (option) ls_loop :: "'s os \<Rightarrow> (string \<Rightarrow> addr) \<Rightarrow> i32 \<Rightarrow> addr \<Rightarrow> 's \<Rightarrow> ('s \<times> i32) option" where
  "ls_loop os lits fd buf s =
     Option.bind (os_read os fd buf 32 s) (\<lambda>(s, cnt).
       if cnt = 0 then Some (s, 0)
       else if cnt = -1 then Option.bind (ece391_fdputs os 1 (lits (''directory entry read failed'' @ nl)) s) (\<lambda>s. Some (s, 3))
       else let s = os_poke os ((os_mem os s)(buf + cnt := 10)) s in
         Option.bind (os_write os 1 buf (cnt + 1) s) (\<lambda>(s, r). if r = -1 then Some (s, 3) else ls_loop os lits fd buf s))"

definition ls_main :: "'s os \<Rightarrow> (string \<Rightarrow> addr) \<Rightarrow> addr \<Rightarrow> 's \<Rightarrow> ('s \<times> i32) option" where
  "ls_main os lits buf s =
     do {
       (s, fd) \<leftarrow> os_open os (lits ''.'') s;
       if fd = -1 then do { s \<leftarrow> ece391_fdputs os 1 (lits (''directory open failed'' @ nl)) s; Some (s, 2) }
       else ls_loop os lits fd buf s
     }"

subsection \<open>hello and testprint\<close>

definition hello_main :: "'s os \<Rightarrow> (string \<Rightarrow> addr) \<Rightarrow> addr \<Rightarrow> 's \<Rightarrow> ('s \<times> i32) option" where
  "hello_main os lits buf s =
     do {
       s \<leftarrow> ece391_fdputs os 1 (lits (''Hi, what'' @ [CHR 0x27] @ ''s your name? '')) s;
       (s, cnt) \<leftarrow> os_read os 0 buf 1023 s;
       if cnt = -1 then do { s \<leftarrow> ece391_fdputs os 1 (lits (''Can'' @ [CHR 0x27] @ ''t read name from keyboard.'' @ nl)) s; Some (s, 3) }
       else do {
         let s = os_poke os ((os_mem os s)(buf + cnt := 0)) s;
         s \<leftarrow> ece391_fdputs os 1 (lits ''Hello, '') s;
         s \<leftarrow> ece391_fdputs os 1 buf s;
         Some (s, 0)
       }
     }"

definition testprint_main :: "'s os \<Rightarrow> (string \<Rightarrow> addr) \<Rightarrow> 's \<Rightarrow> ('s \<times> i32) option" where
  "testprint_main os lits s =
     do { s \<leftarrow> ece391_fdputs os 1 (lits (''Hello, if this ran, the program was correct. Yay!'' @ nl)) s; Some (s, 0) }"

subsection \<open>counter\<close>

text \<open>The counting loop; the first argument is \<open>max - i\<close>.\<close>

primrec count_loop :: "nat \<Rightarrow> 's os \<Rightarrow> (string \<Rightarrow> addr) \<Rightarrow> addr \<Rightarrow> u32 \<Rightarrow> 's \<Rightarrow> 's option" where
  "count_loop 0 os lits buf i s = Some s"
| "count_loop (Suc n) os lits buf i s =
     do {
       m \<leftarrow> ece391_itoa (i + 1) buf 10 (os_mem os s);
       s \<leftarrow> ece391_fdputs os 1 buf (os_poke os m s);
       s \<leftarrow> ece391_fdputs os 1 (lits nl) s;
       count_loop n os lits buf (i + 1) s
     }"

definition counter_main :: "'s os \<Rightarrow> (string \<Rightarrow> addr) \<Rightarrow> addr \<Rightarrow> 's \<Rightarrow> ('s \<times> i32) option" where
  "counter_main os lits buf s =
     do {
       s \<leftarrow> ece391_fdputs os 1 (lits (''Enter the Test Number: (0): 100, (1): 10000, (2): 100000'' @ nl)) s;
       (s, cnt) \<leftarrow> os_read os 0 buf 1023 s;
       if cnt = -1 then do { s \<leftarrow> ece391_fdputs os 1 (lits (''Can'' @ [CHR 0x27] @ ''t read the number from keyboard.'' @ nl)) s; Some (s, 3) }
       else do {
         let s = os_poke os ((os_mem os s)(buf + cnt := 0)) s;
         n \<leftarrow> ece391_strlen (os_mem os s) buf;
         let c = os_mem os s buf;
         if n > 2 \<or> n = 2 \<and> (c < 48 \<or> c > 50)
         then do { s \<leftarrow> ece391_fdputs os 1 (lits (''Wrong Choice!'' @ nl)) s; Some (s, 0) }
         else do {
           let max = (if c = 48 then 100 else if c = 49 then 10000 else if c = 50 then 100000 else 0);
           s \<leftarrow> count_loop max os lits buf 0 s;
           Some (s, 0)
         }
       }
     }"

subsection \<open>shell\<close>

text \<open>One round of the loop: \<open>None\<close> to go round again, or the value that \<open>main\<close> returns.\<close>

definition shell_body :: "'s os \<Rightarrow> (string \<Rightarrow> addr) \<Rightarrow> addr \<Rightarrow> 's \<Rightarrow> ('s \<times> i32 option) option" where
  "shell_body os lits buf s =
     do {
       s \<leftarrow> ece391_fdputs os 1 (lits ''391OS> '') s;
       (s, cnt) \<leftarrow> os_read os 0 buf 1023 s;
       if cnt = -1 then do { s \<leftarrow> ece391_fdputs os 1 (lits (''read from keyboard failed'' @ nl)) s; Some (s, Some 3) }
       else do {
         let cnt = (if sint cnt > 0 \<and> os_mem os s (buf + (cnt - 1)) = 10 then cnt - 1 else cnt);
         let s = os_poke os ((os_mem os s)(buf + cnt := 0)) s;
         c \<leftarrow> ece391_strcmp (os_mem os s) buf (lits ''exit'');
         if c = 0 then Some (s, Some 0)
         else if os_mem os s buf = 0 then Some (s, None)
         else do {
           (s, rval) \<leftarrow> os_execute os buf s;
           s \<leftarrow> (if rval = -1 then ece391_fdputs os 1 (lits (''no such command'' @ nl)) s
                else if rval = 256 then ece391_fdputs os 1 (lits (''program terminated by exception'' @ nl)) s
                else if rval \<noteq> 0 then ece391_fdputs os 1 (lits (''program terminated abnormally'' @ nl)) s
                else Some s);
           Some (s, None)
         }
       }
     }"

partial_function (option) shell_loop :: "'s os \<Rightarrow> (string \<Rightarrow> addr) \<Rightarrow> addr \<Rightarrow> 's \<Rightarrow> ('s \<times> i32) option" where
  "shell_loop os lits buf s =
     Option.bind (shell_body os lits buf s) (\<lambda>(s, r).
       case r of None \<Rightarrow> shell_loop os lits buf s | Some rval \<Rightarrow> Some (s, rval))"

definition shell_main :: "'s os \<Rightarrow> (string \<Rightarrow> addr) \<Rightarrow> addr \<Rightarrow> 's \<Rightarrow> ('s \<times> i32) option" where
  "shell_main os lits buf s =
     do { s \<leftarrow> ece391_fdputs os 1 (lits (''Starting 391 Shell'' @ nl)) s; shell_loop os lits buf s }"

section \<open>Loops over files and directories\<close>

lemma mem_bytes:
  fixes buf :: addr
  assumes "k \<le> length bs" "length bs < 4294967296" "\<And>a. unat (a - buf) < k \<Longrightarrow> m a = bs ! unat (a - buf)"
  shows "map (\<lambda>i. m (buf + of_nat i)) [0..<k] = take k bs"
proof (rule nth_equalityI)
  fix i assume "i < length (map (\<lambda>i. m (buf + of_nat i)) [0..<k])"
  then have i: "i < k" by simp
  then have "unat (of_nat i :: u32) = i" using assms(1,2) by (intro unat_of_nat32) simp
  then have "m (buf + of_nat i) = bs ! i" using assms(3) [of "buf + of_nat i"] i by simp
  then show "map (\<lambda>i. m (buf + of_nat i)) [0..<k] ! i = take k bs ! i" using i by simp
qed (use assms(1) in simp)

lemma find_upt: "find P [a..<b] = Some i \<Longrightarrow> a \<le> i \<and> i < b \<and> P i \<and> (\<forall>l. a \<le> l \<longrightarrow> l < i \<longrightarrow> \<not> P l)"
proof -
  assume "find P [a..<b] = Some i"
  then obtain n where n: "n < b - a" "P (a + n)" "i = a + n" "\<forall>j < n. \<not> P (a + j)"
    by (auto simp: find_Some_iff)
  have "\<not> P l" if "a \<le> l" "l < i" for l using n(3,4) that by (metis add_less_cancel_left le_add_diff_inverse)
  then show ?thesis using n by simp
qed

lemma small_count:
  assumes "k \<le> 1024"
  shows "unat (of_nat k :: u32) = k" "0 \<le> sint (of_nat k :: u32)" "(of_nat k :: u32) = 0 \<longleftrightarrow> k = 0" "(of_nat k :: u32) \<noteq> -1"
proof -
  show k: "unat (of_nat k :: u32) = k" "0 \<le> sint (of_nat k :: u32)" "(of_nat k :: u32) = 0 \<longleftrightarrow> k = 0"
    using assms of_nat32_eq_iff [of k 0] by (simp_all add: sint_of_nat32)
  show "(of_nat k :: u32) \<noteq> -1"
  proof
    assume "(of_nat k :: u32) = -1"
    then have "unat (of_nat k :: u32) = 4294967295" by (simp add: unsigned_minus_1_eq_mask mask_eq_exp_minus_1)
    then show False using k(1) assms by simp
  qed
qed

context file_calls
begin

lemma cat_loop_prints:
  "ok s \<Longrightarrow> file_at fd bs (descr s) \<Longrightarrow> length bs < 4294967296 \<Longrightarrow>
    \<exists>s'. cat_loop os lits fd buf s = Some (s', 0) \<and> ok s' \<and> out s' = fold emit bs (out s)"
proof (induction "length bs" arbitrary: bs s rule: less_induct)
  case less
  define k where "k = min (unat (1024 :: u32)) (length bs)"
  have k: "k = min 1024 (length bs)" "k \<le> 1024" "k \<le> length bs" by (simp_all add: k_def)
  from read_file [OF less.prems(1,2) k_def, of buf] obtain s1 where s1: "os_read os fd buf 1024 s = Some (s1, of_nat k)" "ok s1"
    "out s1 = out s" "file_at fd (drop k bs) (descr s1)"
    "os_mem os s1 = (\<lambda>a. if unat (a - buf) < k then bs ! unat (a - buf) else os_mem os s a)" by blast
  show ?case
  proof (cases "bs = []")
    case True
    then show ?thesis using s1 small_count [OF k(2)] k(1) by (subst cat_loop.simps) simp
  next
    case False
    then have pos: "0 < k" using k(1) by simp
    from write_out [OF s1(2) small_count(2) [OF k(2)], of buf] obtain s2 where s2: "os_write os 1 buf (of_nat k) s1 = Some (s2, of_nat k)"
      "ok s2" "descr s2 = descr s1" "out s2 = fold emit (map (\<lambda>i. os_mem os s1 (buf + of_nat i)) [0..<k]) (out s1)"
      by (auto simp: small_count [OF k(2)])
    have "map (\<lambda>i. os_mem os s1 (buf + of_nat i)) [0..<k] = take k bs"
      by (rule mem_bytes [OF k(3) less.prems(3)]) (simp add: s1(5))
    then have out: "fold emit (drop k bs) (out s2) = fold emit bs (out s)"
      using s2(4) s1(3) by (metis append_take_drop_id comp_apply fold_append)
    have "length (drop k bs) < length bs" "length (drop k bs) < 4294967296" using pos False less.prems(3) by simp_all
    then obtain s3 where "cat_loop os lits fd buf s2 = Some (s3, 0)" "ok s3" "out s3 = fold emit (drop k bs) (out s2)"
      using less.hyps [of "drop k bs" s2] s1(4) s2(2,3) by auto
    then show ?thesis
      using s1(1) s2(1) small_count [OF k(2)] pos out by (subst cat_loop.simps) simp
  qed
qed

end

context dir_calls
begin

lemma ls_loop_prints:
  assumes "ok s" "dir_at fd j (descr s)" "j \<le> n" "n \<le> 63" "\<And>i. j \<le> i \<Longrightarrow> i < n \<Longrightarrow> names (descr s) i \<noteq> []" "names (descr s) n = []"
  shows "\<exists>s'. ls_loop os lits fd buf s = Some (s', 0) \<and> ok s'
    \<and> out s' = fold emit (concat (map (\<lambda>i. names (descr s) i @ [10]) [j..<n])) (out s)"
  using assms
proof (induction "n - j" arbitrary: j s)
  case 0
  then have "j = n" by simp
  then obtain s1 where "os_read os fd buf 32 s = Some (s1, 0)" "ok s1" "out s1 = out s"
    using read_dir [OF "0.prems"(1,2), of buf] "0.prems" by auto
  then show ?case using \<open>j = n\<close> by (subst ls_loop.simps) simp
next
  case (Suc d)
  let ?cs = "names (descr s) j"
  have j: "j < n" "j \<le> 63" "d = n - (j + 1)" using Suc.hyps(2) Suc.prems by auto
  have len: "length ?cs \<le> 1024" "length ?cs \<le> 32" "length ?cs \<noteq> 0" "length ?cs + 1 \<le> 1024"
    using name_length [of "descr s" j] Suc.prems(5) [of j] j(1) by auto
  from read_dir [OF Suc.prems(1,2) j(2), of buf] obtain s1 where s1: "os_read os fd buf 32 s = Some (s1, of_nat (length ?cs))"
    "ok s1" "out s1 = out s" "dir_at fd (j + 1) (descr s1)" "names (descr s1) = names (descr s)"
    "os_mem os s1 = (\<lambda>a. if unat (a - buf) < 32 then (if unat (a - buf) < length ?cs then ?cs ! unat (a - buf) else 0) else os_mem os s a)"
    by blast
  let ?s = "os_poke os ((os_mem os s1)(buf + of_nat (length ?cs) := 10)) s1"
  have n1: "of_nat (length ?cs) + 1 = (of_nat (length ?cs + 1) :: u32)" by simp
  have "ok ?s" using s1(2) by (simp only: poke)
  from write_out [OF this small_count(2) [OF len(4)], of buf, unfolded small_count(1) [OF len(4)] poke] obtain s2 where
    s2: "os_write os 1 buf (of_nat (length ?cs + 1)) ?s = Some (s2, of_nat (length ?cs + 1))" "ok s2" "descr s2 = descr s1"
      "out s2 = fold emit (map (\<lambda>i. ((os_mem os s1)(buf + of_nat (length ?cs) := 10)) (buf + of_nat i)) [0..<length ?cs + 1]) (out s1)"
    by blast
  have "map (\<lambda>i. ((os_mem os s1)(buf + of_nat (length ?cs) := 10)) (buf + of_nat i)) [0..<length ?cs + 1] = ?cs @ [10]"
    using len(2) by (intro nth_equalityI) (auto simp: s1(6) nth_append of_nat32_eq_iff less_Suc_eq)
  then have out2: "out s2 = fold emit (?cs @ [10]) (out s)" using s2(4) s1(3) by simp
  from Suc.hyps(1) [OF j(3) s2(2)] obtain s3 where "ls_loop os lits fd buf s2 = Some (s3, 0)" "ok s3"
    "out s3 = fold emit (concat (map (\<lambda>i. names (descr s) i @ [10]) [j + 1..<n])) (out s2)"
    using s1(4,5) s2(3) Suc.prems j(1) by auto
  moreover have "[j..<n] = j # [j + 1..<n]" using j(1) by (simp add: upt_conv_Cons)
  moreover obtain c where "os_write os 1 buf (of_nat (length ?cs) + 1) ?s = Some (s2, c)" "c \<noteq> -1"
    using s2(1) small_count(4) [OF len(4)] unfolding n1 by blast
  ultimately show ?case
    using s1(1) out2 len(3) small_count [OF len(1)] by (subst ls_loop.simps) (simp add: Let_def)
qed

end

section \<open>Properties\<close>

lemma file_bytes_small: "length (file_bytes img inode) < 4294967296"
  using unat_lt32 [of "inode_length img inode"] by (simp add: file_bytes_eq)

text \<open>A slot of the descriptor table names the same descriptor as a number.\<close>

lemma fd_number: "i < 8 \<Longrightarrow> unat (of_nat i :: u32) = i \<and> \<not> fd_bad (of_nat i) \<and> (of_nat i :: u32) \<noteq> -1"
  using small_count(4) [of i] by (auto simp: fd_bad_def sint_of_nat32 FD_ARRAY_SIZE_def)

text \<open>Closing an open descriptor.\<close>

lemma kernel_close:
  assumes "user_ok k" "2 \<le> i" "i < 8" "flags (fd_array (proc k) i) = 1"
  shows "os_close (kernel_os e child) (of_nat i) k = Some (after_fd i (\<lambda>f. f\<lparr>flags := 0\<rparr>) (user_mem k) k, 0)"
proof -
  note i = fd_number [OF assms(3)]
  have s: "2 \<le> sint (of_nat i :: u32)" "sint (of_nat i :: u32) < 8" using assms(2,3) by (simp_all add: sint_of_nat32)
  let ?t = "file_operations (curr_fd i (trap_entry k))"
  have "?t \<noteq> None" "?t \<noteq> Some terminal_input_jump_table" "?t \<noteq> Some terminal_output_jump_table"
    using assms by (auto simp: user_ok_def fds_ok_def proc_def)
  then obtain t where "?t = Some t" "t \<in> {rtc_jump_table, directory_jump_table, file_jump_table}"
    by (cases ?t) (auto, metis file_op_table.exhaust)
  moreover have "sti (on_fd i f (cli k1)) = sti (on_fd i f k1)" for f and k1 :: kernel
    by (simp add: on_fd_def on_pcb_def sti_def cli_def get_pcb_def)
  moreover have "set_user_mem (user_mem k) (trap_entry k) = trap_entry k" by (simp add: set_user_mem_def user_mem_def trap_entry_def)
  ultimately show ?thesis
    using sys_close_eq [OF s, of "trap_entry k"] i assms(4)
    by (auto simp: kernel_os_def do_call_def sys_call_def returns_def proc_def after_fd_def rtc_close_def dir_close_def file_close_def)
qed

lemma cat_runs:
  assumes "user_ok k" "buf \<noteq> 0" "length cs \<le> 32" "cstr (\<lambda>i. args (proc k) (unat i)) cs"
    "find (\<lambda>j. dir_name (boot_block k) j = cs) [0..<unat (num_dir (boot_block k))] = Some j"
    "load32 (boot_block k) (directory_offset (of_nat j) + 32) = 2"
    "inode = load32 (boot_block k) (directory_offset (of_nat j) + 36)" "inode \<le> num_inodes (boot_block k)"
    "find (\<lambda>i. flags (fd_array (proc k) i) = 0) [2..<8] = Some i"
  shows "\<exists>k'. cat_main (kernel_os e child) lits buf k = Some (k', 0)
     \<and> scr k' = fold putc (file_bytes (boot_block k) inode) (scr k) \<and> user_ok k' \<and> same_rest k k'"
proof -
  let ?os = "kernel_os e child"
  from kernel_getargs [OF assms(1), of 1024 e child buf] obtain k1 where k1: "os_getargs ?os buf 1024 k = Some (k1, 0)" "user_ok k1"
    "scr k1 = scr k" "descriptors k1 = descriptors k" "same_rest k k1"
    "user_mem k1 = (\<lambda>a. if unat (a - buf) < 140 then args (proc k) (unat (a - buf)) else user_mem k a)"
    by auto
  have d: "fd_array (proc k1) = fd_array (proc k)" "boot_block k1 = boot_block k" using k1(4) by (simp_all add: descriptors_def)
  have name: "cstr (view (user_mem k1) buf) cs"
    using assms(3,4) by (simp add: cstr_def view_def k1(6))
  have i: "i < 8" "2 \<le> i" "flags (fd_array (proc k1) i) = 0" "\<forall>l. 2 \<le> l \<longrightarrow> l < i \<longrightarrow> flags (fd_array (proc k1) l) \<noteq> 0"
    using find_upt [OF assms(9)] d by auto
  from kernel_open [OF k1(2) assms(2) name assms(3), unfolded d, OF assms(5) assms(6) [symmetric] _ i(1,2) i(3,4) [unfolded d]]
  obtain k2 where k2: "os_open ?os buf k1 = Some (k2, of_nat i)" "user_ok k2" "scr k2 = scr k1" "boot_block k2 = boot_block k" "same_rest k1 k2"
    "fd_array (proc k2) = (fd_array (proc k))(i := opened inode file_jump_table (fd_array (proc k) i))"
    by (auto simp: assms(7))
  have "file_open_at (of_nat i) (file_bytes (boot_block k) inode) (descriptors k2)"
    using fd_number [OF i(1)] assms(8) by (auto simp: file_open_at_def descriptors_def k2(4,6) opened_def Let_def intro: exI [of _ 0])
  moreover have "kept k k2" using same_trans [OF k1(5) k2(5)] k2(2) by (simp add: kept_def)
  ultimately obtain k3 where "cat_loop ?os lits (of_nat i) buf k2 = Some (k3, 0)" "kept k k3"
    "scr k3 = fold putc (file_bytes (boot_block k) inode) (scr k2)"
    using kf.cat_loop_prints [OF _ _ file_bytes_small, where s = k2] by blast
  then show ?thesis using k1(1,3) k2(1,3) fd_number [OF i(1)] by (auto simp: cat_main_def kept_def)
qed

text \<open>
  C3: \<open>cat\<close>, started with the name of a regular file of the image as its argument and a free descriptor,
  prints exactly the bytes of the file, in order, and returns 0: the arguments, the search of the
  directory, the descriptor and the repeated reads of 1024 bytes work together through the entry point
  of the system calls, for a file of any length.
\<close>

theorem cat_prints_file:
  assumes "user_ok k" "buf \<noteq> 0" "length cs \<le> 32" "cstr (\<lambda>i. args (proc k) (unat i)) cs"
    "find (\<lambda>j. dir_name (boot_block k) j = cs) [0..<unat (num_dir (boot_block k))] = Some j"
    "load32 (boot_block k) (directory_offset (of_nat j) + 32) = 2"
    "inode = load32 (boot_block k) (directory_offset (of_nat j) + 36)" "inode \<le> num_inodes (boot_block k)"
    "find (\<lambda>i. flags (fd_array (proc k) i) = 0) [2..<8] = Some i"
  shows "\<exists>k'. cat_main (kernel_os e child) lits buf k = Some (k', 0)
     \<and> scr k' = fold putc (file_bytes (boot_block k) inode) (scr k)"
  using cat_runs [OF assms] by blast

definition cat_kernel :: kernel where
  "cat_kernel = tiny_kernel\<lparr>pcbs := (\<lambda>_. blank_pcb\<lparr>args := (\<lambda>_. 0)(0 := 97)\<rparr>)\<rparr>"

lemma cat_kernel_sel:
  "boot_block cat_kernel = tiny_image" "proc cat_kernel = blank_pcb\<lparr>args := (\<lambda>_. 0)(0 := 97)\<rparr>" "user_ok cat_kernel"
proof -
  show b: "boot_block cat_kernel = tiny_image" and p: "proc cat_kernel = blank_pcb\<lparr>args := (\<lambda>_. 0)(0 := 97)\<rparr>"
    by (simp_all add: cat_kernel_def tiny_kernel_def proc_def curr_pcb_def trap_entry_def)
  show "user_ok cat_kernel"
    by (simp add: user_ok_def b p fds_ok_def tiny_image_names_end tiny_image_fields NUM_DIR_def)
qed

theorem cat_prints_file_witness:
  "\<exists>k'. cat_main (kernel_os no_wait (\<lambda>_ _ _. None)) (\<lambda>_. 0) 0x083FFB00 cat_kernel = Some (k', 0)
     \<and> scr k' = fold putc [120, 121, 122] (scr cat_kernel)"
proof -
  have "cstr (\<lambda>i. args (proc cat_kernel) (unat i)) [97]" by (simp add: cat_kernel_sel cstr_def)
  moreover have "dir_name tiny_image 0 = [97]" using tiny_image_name by (simp add: dir_name_def chars_cstr)
  moreover have "load32 tiny_image (directory_offset 0 + 32) = 2" "load32 tiny_image (directory_offset 0 + 36) = 0"
    by (simp_all add: load32_def directory_offset_def tiny_image_def)
  moreover have "find (\<lambda>i. flags (fd_array (proc cat_kernel) i) = 0) [2..<8] = Some 2" by (simp add: cat_kernel_sel)
  ultimately show ?thesis
    using cat_prints_file [OF cat_kernel_sel(3), of "0x083FFB00" "[97]" 0 0 2] 
    by (simp add: cat_kernel_sel(1) tiny_image_fields tiny_image_bytes)
qed

lemma ls_runs:
  assumes "user_ok k" "lits ''.'' \<noteq> 0" "cstr (view (user_mem k) (lits ''.'')) [46]"
    "find (\<lambda>j. dir_name (boot_block k) j = [46]) [0..<unat (num_dir (boot_block k))] = Some j"
    "load32 (boot_block k) (directory_offset (of_nat j) + 32) = 1"
    "find (\<lambda>i. flags (fd_array (proc k) i) = 0) [2..<8] = Some i"
    "n \<le> 63" "\<forall>l < n. dir_name (boot_block k) l \<noteq> []" "dir_name (boot_block k) n = []"
  shows "\<exists>k'. ls_main (kernel_os e child) lits buf k = Some (k', 0)
     \<and> scr k' = fold putc (concat (map (\<lambda>l. dir_name (boot_block k) l @ [10]) [0..<n])) (scr k) \<and> user_ok k' \<and> same_rest k k'"
proof -
  let ?os = "kernel_os e child"
  have i: "i < 8" "2 \<le> i" "flags (fd_array (proc k) i) = 0" "\<forall>l. 2 \<le> l \<longrightarrow> l < i \<longrightarrow> flags (fd_array (proc k) l) \<noteq> 0"
    using find_upt [OF assms(6)] by auto
  from kernel_open [OF assms(1-3) _ assms(4) assms(5) [symmetric] _ i]
  obtain k1 where k1: "os_open ?os (lits ''.'') k = Some (k1, of_nat i)" "user_ok k1" "scr k1 = scr k" "boot_block k1 = boot_block k" "same_rest k k1"
    "fd_array (proc k1) = (fd_array (proc k))(i := opened 0 directory_jump_table (fd_array (proc k) i))"
    by auto
  have "dir_open_at (of_nat i) 0 (descriptors k1)"
    using fd_number [OF i(1)] i(2) by (simp add: dir_open_at_def descriptors_def k1(6) opened_def)
  moreover have "kept k k1" using k1(2,5) by (simp add: kept_def)
  ultimately obtain k2 where "ls_loop ?os lits (of_nat i) buf k1 = Some (k2, 0)" "kept k k2"
    "scr k2 = fold putc (concat (map (\<lambda>l. dir_name (boot_block k) l @ [10]) [0..<n])) (scr k1)"
    using kd.ls_loop_prints [OF _ _ _ assms(7), where s = k1 and j = 0 and ?k0.0 = k and fd = "of_nat i" and e = e and child = child and lits = lits and buf = buf] assms(8,9) by (auto simp: descriptors_def k1(4))
  then show ?thesis using k1(1,3) fd_number [OF i(1)] by (auto simp: ls_main_def kept_def)
qed

text \<open>
  C18: \<open>ls\<close>, on an image whose entry named \<open>.\<close> is the directory and whose first empty name comes within its 64 entries,
  prints the names of the entries before that one in order, each on a line of its own, and returns 0; a
  name that fills its 32 bytes is printed whole.
\<close>

theorem ls_lists_directory:
  assumes "user_ok k" "lits ''.'' \<noteq> 0" "cstr (view (user_mem k) (lits ''.'')) [46]"
    "find (\<lambda>j. dir_name (boot_block k) j = [46]) [0..<unat (num_dir (boot_block k))] = Some j"
    "load32 (boot_block k) (directory_offset (of_nat j) + 32) = 1"
    "find (\<lambda>i. flags (fd_array (proc k) i) = 0) [2..<8] = Some i"
    "n \<le> 63" "\<forall>l < n. dir_name (boot_block k) l \<noteq> []" "dir_name (boot_block k) n = []"
  shows "\<exists>k'. ls_main (kernel_os e child) lits buf k = Some (k', 0)
     \<and> scr k' = fold putc (concat (map (\<lambda>l. dir_name (boot_block k) l @ [10]) [0..<n])) (scr k)"
  using ls_runs [of k lits j i n e child buf, OF assms] by blast

definition dot_image :: str where
  "dot_image = (\<lambda>_. 0)(0 := 2, 4 := 1, 8 := 1, 64 := 46, 96 := 1, 128 := 97, 160 := 2)"

definition dot_kernel :: kernel where
  "dot_kernel = set_user_mem ((\<lambda>_. 0)(0x08048000 := 46)) (tiny_kernel\<lparr>boot_block := dot_image\<rparr>)"

lemma dot_image_names:
  "num_dir dot_image = 2" "dir_name dot_image 0 = [46]" "dir_name dot_image (Suc 0) = [97]" "dir_name dot_image 2 = []" "names_end dot_image"
proof -
  show n: "num_dir dot_image = 2" by (simp add: num_dir_def load32_def dot_image_def)
  have c: "cstr (directory_name dot_image 0) [46]" "cstr (directory_name dot_image 1) [97]" "cstr (directory_name dot_image 2) []"
    by (simp_all add: cstr_def directory_name_def directory_offset_def view_def dot_image_def)
  then show "dir_name dot_image 0 = [46]" "dir_name dot_image (Suc 0) = [97]" "dir_name dot_image 2 = []"
    by (simp_all add: dir_name_def chars_cstr)
  show "names_end dot_image"
    unfolding names_end_def
  proof (intro allI impI)
    fix i assume "i < unat (num_dir dot_image)"
    then consider "i = 0" | "i = 1" by (auto simp: n less_2_cases_iff)
    then show "\<exists>ds. cstr (directory_name dot_image (of_nat i)) ds" using c by cases auto
  qed
qed

theorem ls_lists_directory_witness:
  "\<exists>k'. ls_main (kernel_os no_wait (\<lambda>_ _ _. None)) (\<lambda>_. 0x08048000) 0x083FFB00 dot_kernel = Some (k', 0)
     \<and> scr k' = fold putc [46, 10, 97, 10] (scr dot_kernel)"
proof -
  have sel: "boot_block dot_kernel = dot_image" "proc dot_kernel = blank_pcb" "cstr (view (user_mem dot_kernel) 0x08048000) [46]"
    by (simp_all add: dot_kernel_def tiny_kernel_def proc_def curr_pcb_def trap_entry_def set_user_mem_def user_mem_def cstr_def view_def)
  have "user_ok dot_kernel" by (simp add: user_ok_def sel fds_ok_def dot_image_names NUM_DIR_def)
  moreover have "load32 dot_image (directory_offset 0 + 32) = 1" by (simp add: load32_def directory_offset_def dot_image_def)
  moreover have "find (\<lambda>i. flags (fd_array (proc dot_kernel) i) = 0) [2..<8] = Some 2" by (simp add: sel)
  moreover have "\<forall>l < 2. dir_name dot_image l \<noteq> []" by (auto simp: dot_image_names less_2_cases_iff)
  moreover have "[0..<2] = [0, Suc 0]" by (simp add: upt_rec)
  ultimately show ?thesis
    using ls_lists_directory [of dot_kernel "\<lambda>_. 0x08048000" 0 2 2] sel
    by (simp add: dot_image_names)
qed

end
