(* ===== verification/UserInput.thy ===== *)
theory UserInput
  imports UserProgs Keyboard
begin

text \<open>
  The programs that read the keyboard, \<^verbatim>\<open>syscalls/ece391hello.c\<close>, \<^verbatim>\<open>ece391shell.c\<close> and \<^verbatim>\<open>ece391counter.c\<close>: an interface for
  reading a line that the user types while the call waits, its interpretation on the kernel, where the
  keys arrive as keyboard interrupts during the wait of \<open>terminal_read\<close>, and the programs' properties.
\<close>

section \<open>The interface\<close>

text \<open>
  \<open>typing cs\<close> holds of a state when the user answers the next read with the line \<open>cs\<close>. The read shows the
  keys on the screen, newline included, stores the line without it, and keeps the descriptors.
\<close>

locale line_calls = user_system os ok emit out descr
  for os :: "'s os" and ok and emit :: "u8 \<Rightarrow> 'o \<Rightarrow> 'o" and out and descr :: "'s \<Rightarrow> 'd" +
  fixes typing :: "u8 list \<Rightarrow> 's \<Rightarrow> bool"
  assumes typing_write: "ok s \<Longrightarrow> 0 \<le> sint n \<Longrightarrow> os_write os 1 buf n s = Some (s', r) \<Longrightarrow> typing cs s' = typing cs s"
    and typing_poke: "typing cs (os_poke os m s) = typing cs s"
    and typed_length: "typing cs s \<Longrightarrow> length cs \<le> 1023"
    and read_line: "ok s \<Longrightarrow> typing cs s \<Longrightarrow> int (length cs) \<le> sint n \<Longrightarrow>
      \<exists>s'. os_read os 0 buf n s = Some (s', of_nat (length cs)) \<and> ok s' \<and> typing cs s' \<and> descr s' = descr s
        \<and> out s' = fold emit (cs @ [10]) (out s)
        \<and> os_mem os s' = (\<lambda>a. if unat (a - buf) < length cs then cs ! unat (a - buf)
             else if unat (a - buf) = length cs \<and> cs \<noteq> [] then 0 else os_mem os s a)"

text \<open>A string constant of a program lies in memory, outside the array the program reads into.\<close>

definition literal :: "(string \<Rightarrow> addr) \<Rightarrow> addr \<Rightarrow> mem \<Rightarrow> string \<Rightarrow> bool" where
  "literal lits buf m cs \<longleftrightarrow> cstr (view m (lits cs)) (bytes_of cs) \<and> length cs < 4096
     \<and> (\<forall>i \<le> length cs. 1024 \<le> unat (lits cs + of_nat i - buf))"

lemma literal_cong:
  assumes "\<And>a. 1024 \<le> unat (a - buf) \<Longrightarrow> m' a = m a" "literal lits buf m cs"
  shows "literal lits buf m' cs"
  using assms by (auto simp: literal_def cstr_def view_def)

text \<open>Memory after a line was read and its end marked.\<close>

lemma line_stored:
  assumes "length cs \<le> 1023"
    "m = (\<lambda>a. if unat (a - buf) < length cs then cs ! unat (a - buf) else if unat (a - buf) = length cs \<and> cs \<noteq> [] then 0 else m0 a)"
  shows "(0 \<notin> set cs \<longrightarrow> cstr (view (m(buf + of_nat (length cs) := 0)) buf) cs)
     \<and> (literal lits buf m0 s \<longrightarrow> literal lits buf (m(buf + of_nat (length cs) := 0)) s)"
proof (intro conjI impI)
  have other: "buf + of_nat i \<noteq> buf + of_nat (length cs)" "unat (of_nat i :: u32) = i" if "i < length cs" for i
    using that assms(1) by (auto simp: of_nat32_eq_iff)
  show "cstr (view (m(buf + of_nat (length cs) := 0)) buf) cs" if "0 \<notin> set cs"
    using assms(1) that other unfolding cstr_def view_def by (auto simp: assms(2) in_set_conv_nth)
  show "literal lits buf (m(buf + of_nat (length cs) := 0)) s" if "literal lits buf m0 s"
    by (rule literal_cong [OF _ that]) (use assms(1) in \<open>auto simp: assms(2)\<close>)
qed

context line_calls
begin

lemma fdputs_typing:
  assumes "ok s" "typing ls s" "cstr (view (os_mem os s) p) cs" "length cs < 2147483648"
  shows "\<exists>s'. ece391_fdputs os 1 p s = Some s' \<and> ok s' \<and> typing ls s' \<and> os_mem os s' = os_mem os s \<and> descr s' = descr s
    \<and> out s' = fold emit cs (out s)"
proof -
  have n: "0 \<le> sint (of_nat (length cs) :: u32)" using assms(4) by (simp add: sint_of_nat32)
  from fdputs_out [OF assms(1,3,4)] obtain s' where s': "ece391_fdputs os 1 p s = Some s'" "ok s'" "os_mem os s' = os_mem os s"
    "descr s' = descr s" "out s' = fold emit cs (out s)" by blast
  then obtain r where "os_write os 1 p (of_nat (length cs)) s = Some (s', r)"
    using assms(3) by (auto simp: ece391_fdputs_def ece391_strlen_view strlen_cstr bind_eq_Some_conv)
  then show ?thesis using s' typing_write [OF assms(1) n] assms(2) by blast
qed

lemma fdputs_literal:
  assumes "ok s" "typing ls s" "literal lits buf (os_mem os s) cs"
  shows "\<exists>s'. ece391_fdputs os 1 (lits cs) s = Some s' \<and> ok s' \<and> typing ls s' \<and> os_mem os s' = os_mem os s
    \<and> descr s' = descr s \<and> out s' = fold emit (bytes_of cs) (out s)"
  using fdputs_typing [OF assms(1,2), of "lits cs" "bytes_of cs"] assms(3) by (simp add: literal_def)

text \<open>A prompt, the read and the end mark, as the three programs start.\<close>

lemma prompt_line:
  assumes "ok s" "typing cs s" "literal lits buf (os_mem os s) prompt"
  shows "\<exists>s1 s2 s3. ece391_fdputs os 1 (lits prompt) s = Some s1 \<and> os_read os 0 buf 1023 s1 = Some (s2, of_nat (length cs))
     \<and> s3 = os_poke os ((os_mem os s2)(buf + of_nat (length cs) := 0)) s2 \<and> ok s3 \<and> typing cs s3 \<and> descr s3 = descr s
     \<and> out s3 = fold emit (bytes_of prompt @ cs @ [10]) (out s)
     \<and> (0 \<notin> set cs \<longrightarrow> cstr (view (os_mem os s3) buf) cs)
     \<and> (0 < length cs \<longrightarrow> os_mem os s2 (buf + (of_nat (length cs) - 1)) = last cs)
     \<and> (\<forall>l. literal lits buf (os_mem os s) l \<longrightarrow> literal lits buf (os_mem os s3) l)"
proof -
  from fdputs_literal [OF assms] obtain s1 where s1: "ece391_fdputs os 1 (lits prompt) s = Some s1" "ok s1" "typing cs s1"
    "os_mem os s1 = os_mem os s" "out s1 = fold emit (bytes_of prompt) (out s)" "descr s1 = descr s" by blast
  from read_line [OF s1(2,3), of 1023 buf] typed_length [OF assms(2)] obtain s2 where s2: "os_read os 0 buf 1023 s1 = Some (s2, of_nat (length cs))" "ok s2" "typing cs s2"
    "out s2 = fold emit (cs @ [10]) (out s1)"
    "os_mem os s2 = (\<lambda>a. if unat (a - buf) < length cs then cs ! unat (a - buf)
       else if unat (a - buf) = length cs \<and> cs \<noteq> [] then 0 else os_mem os s1 a)" "descr s2 = descr s1" by auto
  have len: "length cs \<le> 1023" by (rule typed_length [OF assms(2)])
  note stored = line_stored [OF len s2(5), of lits]
  have "os_mem os s2 (buf + (of_nat (length cs) - 1)) = last cs" if "0 < length cs"
  proof -
    have "of_nat (length cs) - 1 = (of_nat (length cs - 1) :: u32)" using that of_nat_diff [of 1 "length cs", where 'a = "32 word"] by (simp add: Suc_le_eq)
    moreover have "unat (of_nat (length cs - 1) :: u32) = length cs - 1" using len by (intro unat_of_nat32) simp
    ultimately show ?thesis using that by (simp add: s2(5) last_conv_nth)
  qed
  then show ?thesis
    using s1(1) s2 stored by (intro exI conjI) (rule s1(1), rule s2(1), rule refl, simp_all add: poke typing_poke s1(4-6))
qed

lemma hello_greets:
  assumes "ok s" "typing cs s" "0 \<notin> set cs" "literal lits buf (os_mem os s) (''Hi, what'' @ [CHR 0x27] @ ''s your name? '')"
    "literal lits buf (os_mem os s) ''Hello, ''"
  shows "\<exists>s'. hello_main os lits buf s = Some (s', 0)
    \<and> out s' = fold emit (bytes_of (''Hi, what'' @ [CHR 0x27] @ ''s your name? '') @ cs @ [10] @ bytes_of ''Hello, '' @ cs) (out s)"
proof -
  from prompt_line [OF assms(1,2,4)] obtain s1 s2 s3 where r: "ece391_fdputs os 1 (lits (''Hi, what'' @ [CHR 0x27] @ ''s your name? '')) s = Some s1"
    "os_read os 0 buf 1023 s1 = Some (s2, of_nat (length cs))" "s3 = os_poke os ((os_mem os s2)(buf + of_nat (length cs) := 0)) s2"
    "ok s3" "typing cs s3" "out s3 = fold emit (bytes_of (''Hi, what'' @ [CHR 0x27] @ ''s your name? '') @ cs @ [10]) (out s)"
    "cstr (view (os_mem os s3) buf) cs" "literal lits buf (os_mem os s3) ''Hello, ''" using assms(3,5) by blast
  from fdputs_literal [OF r(4,5,8)] obtain s4 where s4: "ece391_fdputs os 1 (lits ''Hello, '') s3 = Some s4" "ok s4" "typing cs s4"
    "os_mem os s4 = os_mem os s3" "out s4 = fold emit (bytes_of ''Hello, '') (out s3)" by blast
  have len: "length cs \<le> 1023" by (rule typed_length [OF assms(2)])
  from fdputs_typing [OF s4(2,3), unfolded s4(4), OF r(7)] len obtain s5 where s5: "ece391_fdputs os 1 buf s4 = Some s5"
    "out s5 = fold emit cs (out s4)" by auto
  have cnt: "(of_nat (length cs) :: u32) \<noteq> -1" by (rule small_count) (use len in simp)
  have "out s5 = fold emit (bytes_of (''Hi, what'' @ [CHR 0x27] @ ''s your name? '') @ cs @ [10] @ bytes_of ''Hello, '' @ cs) (out s)"
    unfolding s5(2) s4(5) r(6) fold_append comp_apply ..
  moreover have "hello_main os lits buf s = Some (s5, 0)"
    unfolding hello_main_def r(1,2) bind.bind_lunit Let_def prod.case r(3) [symmetric] s4(1) s5(1) using cnt by simp
  ultimately show ?thesis by blast
qed

text \<open>One round of the shell, by the line that is typed.\<close>

lemma shell_round:
  assumes "ok s" "typing cs s" "0 \<notin> set cs" "10 \<notin> set cs" "literal lits buf (os_mem os s) ''391OS> ''" "literal lits buf (os_mem os s) ''exit''"
  shows "\<exists>s'. ok s' \<and> typing cs s' \<and> descr s' = descr s \<and> cstr (view (os_mem os s') buf) cs
    \<and> out s' = fold emit (bytes_of ''391OS> '' @ cs @ [10]) (out s)
    \<and> (\<forall>l. literal lits buf (os_mem os s) l \<longrightarrow> literal lits buf (os_mem os s') l)
    \<and> shell_body os lits buf s =
        (if cs = bytes_of ''exit'' then Some (s', Some 0)
         else if cs = [] then Some (s', None)
         else do {
           (s, rval) \<leftarrow> os_execute os buf s';
           s \<leftarrow> (if rval = -1 then ece391_fdputs os 1 (lits (''no such command'' @ nl)) s
                else if rval = 256 then ece391_fdputs os 1 (lits (''program terminated by exception'' @ nl)) s
                else if rval \<noteq> 0 then ece391_fdputs os 1 (lits (''program terminated abnormally'' @ nl)) s
                else Some s);
           Some (s, None)
         })"
proof -
  from prompt_line [OF assms(1,2,5)] obtain s1 s2 s3 where r: "ece391_fdputs os 1 (lits ''391OS> '') s = Some s1"
    "os_read os 0 buf 1023 s1 = Some (s2, of_nat (length cs))" "s3 = os_poke os ((os_mem os s2)(buf + of_nat (length cs) := 0)) s2"
    "ok s3" "typing cs s3" "descr s3 = descr s" "out s3 = fold emit (bytes_of ''391OS> '' @ cs @ [10]) (out s)" "cstr (view (os_mem os s3) buf) cs"
    "0 < length cs \<longrightarrow> os_mem os s2 (buf + (of_nat (length cs) - 1)) = last cs"
    "\<forall>l. literal lits buf (os_mem os s) l \<longrightarrow> literal lits buf (os_mem os s3) l"
    using assms(3) by blast
  have len: "length cs \<le> 1024" using typed_length [OF assms(2)] by simp
  note cnt = small_count [OF len]
  have "sint (of_nat (length cs) :: u32) = int (length cs)" using len by (simp add: sint_of_nat32)
  then have keep: "\<not> (0 < sint (of_nat (length cs) :: u32) \<and> os_mem os s2 (buf + (of_nat (length cs) - 1)) = 10)"
    using r(9) assms(4) by (auto dest: last_in_set)
  have "cstr (view (os_mem os s3) (lits ''exit'')) (bytes_of ''exit'')" using r(10) [rule_format, OF assms(6)] unfolding literal_def by blast
  then obtain c where c: "ece391_strcmp (os_mem os s3) buf (lits ''exit'') = Some c" "c = 0 \<longleftrightarrow> cs = bytes_of ''exit''"
    using ece391_strcmp_cstr r(8) by blast
  have head: "os_mem os s3 buf = 0 \<longleftrightarrow> cs = []" using r(8) by (cases cs) (auto simp: cstr_nil cstr_head)
  show ?thesis
    by (rule exI [of _ s3], intro conjI r(4-8,10))
      (simp only: shell_body_def r(1,2) bind.bind_lunit prod.case cnt(4) keep if_False Let_def r(3) [symmetric] c head)
qed

text \<open>The numbers of the counting loop, each on a line.\<close>

lemma count_loop_prints:
  "ok s \<Longrightarrow> typing ls s \<Longrightarrow> literal lits buf (os_mem os s) nl \<Longrightarrow> i + n < 4294967296 \<Longrightarrow>
    \<exists>s'. count_loop n os lits buf (of_nat i) s = Some s'
      \<and> out s' = fold emit (concat (map (\<lambda>v. numeral_of 10 v @ [10]) [i + 1..<i + 1 + n])) (out s)"
proof (induction n arbitrary: i s)
  case (Suc n)
  let ?ds = "numeral_of 10 (i + 1)"
  have v: "unat (of_nat i + 1 :: u32) = i + 1" using Suc.prems(4) unat_of_nat32 [of "i + 1"] by (simp add: add.commute)
  have len: "length ?ds \<le> 10" using Suc.prems(4) by (intro length_numeral_of) simp_all
  from itoa_numeral_of [of 10 "of_nat i + 1" "view (os_mem os s) buf"] obtain b where
    b: "itoa (of_nat i + 1) (view (os_mem os s) buf) 10 = Some b" "cstr b ?ds" "\<forall>x. length ?ds < unat x \<longrightarrow> b x = view (os_mem os s) buf x"
    by (auto simp: v)
  let ?s = "os_poke os (unview buf b) s"
  have lit: "literal lits buf (os_mem os ?s) nl"
    by (rule literal_cong [OF _ Suc.prems(3)]) (use b(3) len in \<open>simp add: poke unview_def view_def\<close>)
  from fdputs_typing [of ?s ls buf ?ds] Suc.prems(1,2) b(2) len obtain s1 where s1: "ece391_fdputs os 1 buf ?s = Some s1" "ok s1" "typing ls s1"
    "os_mem os s1 = os_mem os ?s" "out s1 = fold emit ?ds (out s)" by (auto simp: poke typing_poke)
  from fdputs_literal [OF s1(2,3) lit [folded s1(4)]] obtain s2 where s2: "ece391_fdputs os 1 (lits nl) s1 = Some s2" "ok s2" "typing ls s2"
    "os_mem os s2 = os_mem os s1" "out s2 = fold emit [10] (out s1)" by auto
  have "literal lits buf (os_mem os s2) nl" using lit by (simp only: s2(4) s1(4))
  with Suc.IH [of s2 "i + 1"] s2(2,3) Suc.prems(4) obtain s3 where s3: "count_loop n os lits buf (of_nat (i + 1)) s2 = Some s3"
    "out s3 = fold emit (concat (map (\<lambda>v. numeral_of 10 v @ [10]) [i + 1 + 1..<i + 1 + 1 + n])) (out s2)" by auto
  have upt: "[i + 1..<i + 1 + Suc n] = (i + 1) # [i + 1 + 1..<i + 1 + 1 + n]" by (simp add: upt_conv_Cons del: upt_Suc)
  have "out s3 = fold emit (concat (map (\<lambda>v. numeral_of 10 v @ [10]) [i + 1..<i + 1 + Suc n])) (out s)"
    unfolding upt list.map concat.simps fold_append comp_apply s3(2) s2(5) s1(5) ..
  moreover have "count_loop (Suc n) os lits buf (of_nat i) s = Some s3"
    using s3(1) s1(1) s2(1) b(1) by (simp add: ece391_itoa_view add.commute)
  ultimately show ?case by blast
qed simp

end

text \<open>How far \<open>counter\<close> counts for a line, \<open>None\<close> for a wrong choice.\<close>

definition choice :: "u8 list \<Rightarrow> nat option" where
  "choice cs =
     (if 2 < length cs \<or> length cs = 2 \<and> \<not> (48 \<le> hd cs \<and> hd cs \<le> 50) then None
      else Some (if cs = [] then 0 else if hd cs = 48 then 100 else if hd cs = 49 then 10000 else if hd cs = 50 then 100000 else 0))"

definition counted :: "u8 list \<Rightarrow> u8 list" where
  "counted cs = (case choice cs of None \<Rightarrow> bytes_of (''Wrong Choice!'' @ nl)
     | Some m \<Rightarrow> concat (map (\<lambda>v. numeral_of 10 v @ [10]) [1..<1 + m]))"

abbreviation counter_prompt :: string where
  "counter_prompt \<equiv> ''Enter the Test Number: (0): 100, (1): 10000, (2): 100000'' @ nl"

context line_calls
begin

lemma counter_counts:
  assumes "ok s" "typing cs s" "0 \<notin> set cs"
    "literal lits buf (os_mem os s) counter_prompt" "literal lits buf (os_mem os s) (''Wrong Choice!'' @ nl)" "literal lits buf (os_mem os s) nl"
  shows "\<exists>s'. counter_main os lits buf s = Some (s', 0) \<and> out s' = fold emit (bytes_of counter_prompt @ cs @ [10] @ counted cs) (out s)"
proof -
  from prompt_line [OF assms(1,2,4)] obtain s1 s2 s3 where r: "ece391_fdputs os 1 (lits counter_prompt) s = Some s1"
    "os_read os 0 buf 1023 s1 = Some (s2, of_nat (length cs))" "s3 = os_poke os ((os_mem os s2)(buf + of_nat (length cs) := 0)) s2"
    "ok s3" "typing cs s3" "out s3 = fold emit (bytes_of counter_prompt @ cs @ [10]) (out s)" "cstr (view (os_mem os s3) buf) cs"
    "literal lits buf (os_mem os s3) (''Wrong Choice!'' @ nl)" "literal lits buf (os_mem os s3) nl"
    using assms(3,5,6) by blast
  have len: "length cs \<le> 1024" using typed_length [OF assms(2)] by simp
  note cnt = small_count [OF len]
  have n: "ece391_strlen (os_mem os s3) buf = Some (of_nat (length cs))" using r(7) by (simp add: ece391_strlen_view strlen_cstr)
  have cmp: "(2 :: u32) < of_nat (length cs) \<longleftrightarrow> 2 < length cs" "(of_nat (length cs) :: u32) = 2 \<longleftrightarrow> length cs = 2"
    by (simp_all add: word_less_nat_alt word_unat_eq_iff cnt(1))
  define c where "c = os_mem os s3 buf"
  have c: "cs \<noteq> [] \<longrightarrow> c = hd cs" "cs = [] \<longrightarrow> c = 0" using r(7) by (cases cs; simp add: c_def cstr_head cstr_nil)+
  define m where "m = (if c = 48 then 100 else if c = 49 then 10000 else if c = 50 then 100000 else 0 :: nat)"
  have ch: "choice cs = (if 2 < length cs \<or> length cs = 2 \<and> (c < 48 \<or> 50 < c) then None else Some m)"
    using c by (cases "cs = []") (auto simp: choice_def m_def not_le)
  have main: "counter_main os lits buf s =
      (if choice cs = None then Option.bind (ece391_fdputs os 1 (lits (''Wrong Choice!'' @ nl)) s3) (\<lambda>s. Some (s, 0))
       else Option.bind (count_loop m os lits buf 0 s3) (\<lambda>s. Some (s, 0)))"
    unfolding counter_main_def r(1,2) bind.bind_lunit prod.case Let_def r(3) [symmetric] n c_def [symmetric] m_def [symmetric] ch cmp
    using cnt(4) by auto
  have "\<exists>s'. counter_main os lits buf s = Some (s', 0) \<and> out s' = fold emit (counted cs) (out s3)"
  proof (cases "choice cs")
    case None
    then show ?thesis using fdputs_literal [OF r(4,5,8)] unfolding main counted_def by (auto simp del: fold_append)
  next
    case (Some x)
    then have "x = m" by (simp add: ch split: if_splits)
    moreover have "0 + m < 4294967296" by (simp add: m_def)
    ultimately show ?thesis
      using count_loop_prints [OF r(4,5,9), of 0 m] Some unfolding main counted_def by (auto simp del: fold_append)
  qed
  then show ?thesis unfolding r(6) fold_append comp_apply .
qed

end

section \<open>Typing at the kernel\<close>

text \<open>The handler of a key that types a character, and the kernel state it keeps.\<close>

definition press :: "u8 \<Rightarrow> kernel \<Rightarrow> kernel" where
  "press c k = on_pic (send_eoi 1) (key c k)"

lemma press_interrupt:
  "types sc b \<Longrightarrow> typed sc b = Some c \<Longrightarrow> kb_interrupt_do e sc b k = Some (modifiers sc b, Back (press c k))"
  by (simp add: kb_interrupt_types kb_done_def press_def)

definition frame where
  "frame k = (kesp k, fixed k, pcbs k, umem k)"

lemma press_sel:
  "frame (press c k) = frame k" "enter_status (press c k) = (if c = 10 then 1 else enter_status k)"
  "c \<noteq> 8 \<Longrightarrow> scr (press c k) = putc c (scr k)"
  by (simp_all add: press_def frame_def fixed_def key_def terminal_write_one Let_def hw_defs on_scr_def)

lemma fold_press_sel:
  "frame (fold press cs k) = frame k" "8 \<notin> set cs \<Longrightarrow> scr (fold press cs k) = fold putc cs (scr k)"
  by (induction cs arbitrary: k) (auto simp: press_sel)

lemma fold_press: "fold press cs k = (on_pic (send_eoi 1) ^^ length cs) (fold key cs k)"
proof (induction cs arbitrary: k)
  case (Cons c cs)
  then show ?case by (simp add: press_def fold_key_on_pic funpow_swap1)
qed simp

lemma spin_press:
  "enter_status k = 0 \<Longrightarrow> 10 \<notin> set cs \<Longrightarrow>
    spin (\<lambda>s. enter_status s \<noteq> 0) (map press (cs @ [10])) k = Some (fold press (cs @ [10]) k)"
  by (induction cs arbitrary: k) (auto simp: press_sel)

text \<open>The user types \<open>cs\<close> and enter at the active terminal, on an empty line.\<close>

definition types_line :: "env \<Rightarrow> u8 list \<Rightarrow> kernel \<Rightarrow> bool" where
  "types_line e cs k \<longleftrightarrow> waits e = map press (cs @ [10]) \<and> 8 \<notin> set cs \<and> 10 \<notin> set cs \<and> length cs \<le> 1023
     \<and> enter_status k = 0 \<and> line (unat (active_tty k)) k = [] \<and> line_ok (unat (active_tty k)) k"

lemma pressed_line:
  assumes "types_line e cs k" "t = unat (active_tty k)"
  shows "line t (fold press (cs @ [10]) k) = cs" "line_ok t (fold press (cs @ [10]) k)"
proof -
  have edits: "fold edit ls l = l @ ls" if "8 \<notin> set ls" "10 \<notin> set ls" for l ls
    using that by (induction ls arbitrary: l) (auto simp: edit_def)
  have "line t (fold key (cs @ [10]) k) = fold edit (cs @ [10]) (line t k) \<and> line_ok t (fold key (cs @ [10]) k)"
    by (rule ed.type_text [of t k "cs @ [10]", THEN conjE]) (use assms in \<open>auto simp: types_line_def\<close>)
  moreover have "fold edit (cs @ [10]) (line t k) = cs" using assms edits by (simp add: types_line_def) (simp add: edit_def)
  moreover have "line_ok t ((on_pic f ^^ n) s) = line_ok t s" for f n and s :: kernel by (induction n) simp_all
  ultimately show "line t (fold press (cs @ [10]) k) = cs" "line_ok t (fold press (cs @ [10]) k)"
    by (simp_all only: fold_press line_on_pic_pow)
qed

text \<open>The terminal's read of the line: only the terminal and the user memory change.\<close>

lemma terminal_read_typed:
  assumes "types_line e cs k" "int (length cs) \<le> sint n"
  shows "\<exists>k' m. terminal_read (waits e) 0 user_mem buf n k = Some (k', m, of_nat (length cs)) \<and> frame k' = frame k
     \<and> scr k' = fold putc (cs @ [10]) (scr k) \<and> types_line e cs k'
     \<and> m = (\<lambda>a. if unat (a - buf) < length cs then cs ! unat (a - buf)
            else if unat (a - buf) = length cs \<and> cs \<noteq> [] then 0 else user_mem k a)"
proof -
  let ?t = "unat (active_tty k)"
  define s where "s = fold press (cs @ [10]) k"
  have t: "8 \<notin> set cs" "10 \<notin> set cs" "length cs \<le> 1023" "waits e = map press (cs @ [10])" "enter_status k = 0"
    using assms(1) by (simp_all add: types_line_def)
  have sp: "spin (\<lambda>s. enter_status s \<noteq> 0) (waits e) k = Some s" unfolding t(4) s_def by (rule spin_press [OF t(5,2)])
  have l: "line ?t s = cs" "line_ok ?t s" unfolding s_def by (rule pressed_line [OF assms(1) refl])+
  have f: "frame s = frame k" "scr s = fold putc (cs @ [10]) (scr k)"
    unfolding s_def by (rule fold_press_sel) (rule fold_press_sel, use t(1) in simp)
  have um: "user_mem (s\<lparr>enter_status := 0\<rparr>) = user_mem k" "active_tty s = active_tty k"
    using f(1) by (simp_all add: frame_def fixed_def user_mem_def)
  show ?thesis
  proof (cases "cs = []")
    case True
    then have tl: "tail s ?t = -1" using length_line [OF l(2)] l(1) by simp
    have "terminal_read (waits e) 0 user_mem buf n k = Some (s\<lparr>enter_status := 0\<rparr>, user_mem k, 0)"
      by (simp add: terminal_read_def Let_def sp tl um)
    moreover have "types_line e cs (s\<lparr>enter_status := 0\<rparr>)"
      using t l by (simp add: types_line_def um(2) line_def line_ok_def True)
    ultimately show ?thesis using f True by (intro exI [of _ "s\<lparr>enter_status := 0\<rparr>"] exI [of _ "user_mem k"]) (simp add: frame_def fixed_def)
  next
    case False
    have n: "length cs = min (nat (sint n)) (length (line ?t s))" "0 \<le> sint n" using l(1) assms(2) by auto
    from terminal_read_taken [OF sp refl l(2) n(2) _ n(1), of 0 user_mem buf] False obtain tb where
      r: "terminal_read (waits e) 0 user_mem buf n k =
        Some (s\<lparr>enter_status := 0, terminal_buffer := tb, tail := (tail s)(?t := tail s ?t - int (length cs))\<rparr>,
          (\<lambda>a. if unat (a - buf) < length cs then cs ! unat (a - buf) else if unat (a - buf) = length cs then 0 else user_mem k a),
          of_nat (length cs))"
        "line ?t (s\<lparr>enter_status := 0, terminal_buffer := tb, tail := (tail s)(?t := tail s ?t - int (length cs))\<rparr>) = []"
      unfolding l(1) um(1) by auto
    have "tail s ?t - int (length cs) = -1" using length_line [OF l(2)] l(1) by simp
    then have "types_line e cs (s\<lparr>enter_status := 0, terminal_buffer := tb, tail := (tail s)(?t := tail s ?t - int (length cs))\<rparr>)"
      using t r(2) by (simp add: types_line_def um(2) line_ok_def MAX_BUFFER_SIZE_def)
    then show ?thesis using f r(1) False by (intro exI conjI) (assumption, simp_all add: frame_def fixed_def cong: if_cong)
  qed
qed

lemma kernel_read_line:
  assumes "user_ok k" "types_line e cs k" "int (length cs) \<le> sint n"
  shows "\<exists>k'. os_read (kernel_os e child) 0 buf n k = Some (k', of_nat (length cs)) \<and> user_ok k' \<and> types_line e cs k'
     \<and> descriptors k' = descriptors k \<and> scr k' = fold putc (cs @ [10]) (scr k) \<and> same_rest k k'
     \<and> user_mem k' = (\<lambda>a. if unat (a - buf) < length cs then cs ! unat (a - buf)
          else if unat (a - buf) = length cs \<and> cs \<noteq> [] then 0 else user_mem k a)"
proof -
  have "types_line e cs (trap_entry k)" using assms(2) by (simp add: types_line_def)
  from terminal_read_typed [OF this assms(3), of buf, unfolded trap_entry_sel] obtain k1 m where k1: "terminal_read (waits e) 0 user_mem buf n (trap_entry k) = Some (k1, m, of_nat (length cs))"
    "frame k1 = frame (trap_entry k)" "scr k1 = fold putc (cs @ [10]) (scr k)" "types_line e cs k1"
    "m = (\<lambda>a. if unat (a - buf) < length cs then cs ! unat (a - buf)
       else if unat (a - buf) = length cs \<and> cs \<noteq> [] then 0 else user_mem k a)" by blast
  let ?k' = "sti (set_user_mem m k1)"
  have fd: "\<not> fd_bad 0" by (simp add: fd_bad_def FD_ARRAY_SIZE_def)
  have "flags (curr_fd 0 (trap_entry k)) = 1" "file_operations (curr_fd 0 (trap_entry k)) = Some terminal_input_jump_table"
    using assms(1) by (simp_all add: user_ok_def fds_ok_def proc_def)
  then have "os_read (kernel_os e child) 0 buf n k = Some (?k', of_nat (length cs))"
    using fd k1(1) by (simp add: kernel_os_def do_call_def sys_call_def returns_def sys_read_def Let_def)
  moreover have "kesp ?k' = kesp (trap_entry k)" "tss_esp0 ?k' = tss_esp0 k" "boot_block ?k' = boot_block k" "curr_pcb ?k' = curr_pcb (trap_entry k)"
    using k1(2) by (simp_all add: frame_def fixed_def sti_def set_user_mem_def curr_pcb_def get_pcb_def trap_entry_def)
  then have "user_ok ?k'" "descriptors ?k' = descriptors k" using call_state [of ?k' k] assms(1) by simp_all
  moreover have "types_line e cs ?k'" using k1(4) by (simp add: types_line_def line_def line_ok_def set_user_mem_def)
  moreover have "scr ?k' = fold putc (cs @ [10]) (scr k)" "user_mem ?k' = m"
    using k1(3) by (simp_all add: user_mem_def sti_def set_user_mem_def)
  moreover have "same_rest k ?k'"
    by (rule same_restI [of _ _ m "fd_array (proc k)"])
      (use k1(2) in \<open>simp_all add: frame_def fixed_def sti_def set_user_mem_def trap_entry_def proc_def curr_pcb_def\<close>)
  ultimately show ?thesis unfolding k1(5) by blast
qed

interpretation kl: line_calls "kernel_os e child" user_ok putc scr descriptors "types_line e" for e child
proof
  show "types_line e cs k' = types_line e cs k"
    if "user_ok k" "0 \<le> sint n" "os_write (kernel_os e child) 1 buf n k = Some (k', r)" for k k' n buf r cs
    using that(3) unfolding kernel_write_state [OF that(1,2)] by (auto simp: types_line_def after_write_sel)
  show "types_line e cs (os_poke (kernel_os e child) m k) = types_line e cs k" for cs m k
    by (simp add: types_line_def line_def line_ok_def set_user_mem_def)
  show "length cs \<le> 1023" if "types_line e cs k" for cs k using that by (simp add: types_line_def)
  show "\<exists>k'. os_read (kernel_os e child) 0 buf n k = Some (k', of_nat (length cs)) \<and> user_ok k' \<and> types_line e cs k'
      \<and> descriptors k' = descriptors k \<and> scr k' = fold putc (cs @ [10]) (scr k)
      \<and> os_mem (kernel_os e child) k' = (\<lambda>a. if unat (a - buf) < length cs then cs ! unat (a - buf)
           else if unat (a - buf) = length cs \<and> cs \<noteq> [] then 0 else os_mem (kernel_os e child) k a)"
    if "user_ok k" "types_line e cs k" "int (length cs) \<le> sint n" for k cs buf n
    unfolding kernel_os_mem using kernel_read_line [OF that, of child buf] by blast
qed

interpretation kr: line_calls "kernel_os e child" "kept k0" putc scr descriptors "types_line e" for e child k0
proof
  show "types_line e cs k' = types_line e cs k"
    if "kept k0 k" "0 \<le> sint n" "os_write (kernel_os e child) 1 buf n k = Some (k', r)" for k k' n buf r cs
    using kl.typing_write that by (simp add: kept_def)
  show "\<exists>k'. os_read (kernel_os e child) 0 buf n k = Some (k', of_nat (length cs)) \<and> kept k0 k' \<and> types_line e cs k'
      \<and> descriptors k' = descriptors k \<and> scr k' = fold putc (cs @ [10]) (scr k)
      \<and> os_mem (kernel_os e child) k' = (\<lambda>a. if unat (a - buf) < length cs then cs ! unat (a - buf)
           else if unat (a - buf) = length cs \<and> cs \<noteq> [] then 0 else os_mem (kernel_os e child) k a)"
    if "kept k0 k" "types_line e cs k" "int (length cs) \<le> sint n" for k cs buf n
    using kernel_read_line [OF _ that(2,3), of child buf] kept_step [OF that(1)] that(1) unfolding kernel_os_mem kept_def by blast
qed (rule kl.typing_poke kl.typed_length, assumption?)+

section \<open>Properties\<close>

text \<open>The image of a program's constants: each text on a page of its own.\<close>

definition program_lits :: "string list \<Rightarrow> string \<Rightarrow> addr" where
  "program_lits texts s = 0x08048000 + of_nat (4096 * length (takeWhile (\<lambda>t. t \<noteq> s) texts))"

definition program_mem :: "string list \<Rightarrow> mem" where
  "program_mem texts = (\<lambda>a. let x = unat (a - 0x08048000) in
     if x div 4096 < length texts then lit (texts ! (x div 4096)) (of_nat (x mod 4096)) else 0)"

definition program :: "string list \<Rightarrow> kernel" where
  "program texts = set_user_mem (program_mem texts) tiny_kernel"

lemma byte_of_char: "(of_nat (of_char c) :: u8) = 0 \<longleftrightarrow> c = CHR 0x00"
proof
  assume "(of_nat (of_char c) :: u8) = 0"
  then have "unat (of_nat (of_char c) :: u8) = 0" by simp
  then have "(of_char c :: nat) = of_char (CHR 0x00)" using nat_of_char_less_256 [of c] by (simp add: unat_of_nat)
  then show "c = CHR 0x00" by (simp only: of_char_eq_iff)
qed simp

lemma bytes_nonzero:
  assumes "CHR 0x00 \<notin> set t" "i < length t"
  shows "bytes_of t ! i \<noteq> 0"
proof -
  have "t ! i \<noteq> CHR 0x00" by (rule contrapos_nn [OF assms(1)]) (use nth_mem [OF assms(2)] in \<open>simp only:\<close>)
  then show ?thesis using assms(2) by (simp add: byte_of_char)
qed

lemma lit_cstr: "CHR 0x00 \<notin> set t \<Longrightarrow> length t < 4294967296 \<Longrightarrow> cstr (lit t) (bytes_of t)"
  using bytes_nonzero [of t] by (auto simp: cstr_def lit_nth lit_end simp del: nth_map)

lemma program_literal:
  assumes "s \<in> set texts" "length s < 4096" "CHR 0x00 \<notin> set s" "length texts \<le> 16"
  shows "literal (program_lits texts) 0x083FF000 (program_mem texts) s"
proof -
  let ?j = "length (takeWhile (\<lambda>t. t \<noteq> s) texts)"
  have j: "?j < length texts" "texts ! ?j = s"
  proof -
    have "takeWhile (\<lambda>t. t \<noteq> s) texts \<noteq> texts" using assms(1) by (auto simp: takeWhile_eq_all_conv)
    then show "?j < length texts" by (metis le_neq_implies_less length_takeWhile_le takeWhile_eq_take take_all_iff order_refl)
    then show "texts ! ?j = s" using nth_length_takeWhile [of "\<lambda>t. t \<noteq> s" texts] by simp
  qed
  have at: "program_mem texts (program_lits texts s + of_nat i) = lit s (of_nat i)" if "i \<le> length s" for i
  proof -
    have "program_lits texts s + of_nat i - 0x08048000 = of_nat (4096 * ?j + i)" by (simp add: program_lits_def)
    moreover have "unat (of_nat (4096 * ?j + i) :: u32) = 4096 * ?j + i"
      using j(1) assms(2,4) that by (intro unat_of_nat32) simp
    moreover have "(4096 * ?j + i) div 4096 = ?j" "(4096 * ?j + i) mod 4096 = i" using assms(2) that by simp_all
    ultimately show ?thesis using j by (simp only: program_mem_def Let_def if_True)
  qed
  have far: "1024 \<le> unat (program_lits texts s + of_nat i - 0x083FF000)" if "i \<le> length s" for i
  proof -
    have "program_lits texts s + of_nat i - 0x083FF000 = of_nat (4096 * ?j + i + 4291072000)" by (simp add: program_lits_def)
    moreover have "unat (of_nat (4096 * ?j + i + 4291072000) :: u32) = 4096 * ?j + i + 4291072000"
      using j(1) assms(2,4) that by (intro unat_of_nat32) simp
    ultimately show ?thesis by (simp only:)
  qed
  have "cstr (view (program_mem texts) (program_lits texts s)) (bytes_of s)"
    using lit_cstr [OF assms(3)] assms(2) at by (simp add: cstr_def view_def)
  then show ?thesis using assms(2) far by (simp add: literal_def)
qed

lemma program_ok: "user_ok (program texts)" "user_mem (program texts) = program_mem texts"
proof -
  have "boot_block (program texts) = tiny_image" "proc (program texts) = blank_pcb"
    by (simp_all add: program_def tiny_kernel_def proc_def curr_pcb_def trap_entry_def set_user_mem_def)
  then show "user_ok (program texts)" by (simp add: user_ok_def fds_ok_def tiny_image_names_end tiny_image_fields NUM_DIR_def)
  show "user_mem (program texts) = program_mem texts" by (simp add: program_def)
qed

definition typist :: "u8 list \<Rightarrow> env" where
  "typist cs = no_wait\<lparr>waits := map press (cs @ [10])\<rparr>"

lemma program_types:
  "8 \<notin> set cs \<Longrightarrow> 10 \<notin> set cs \<Longrightarrow> length cs \<le> 1023 \<Longrightarrow> types_line (typist cs) cs (program texts)"
  by (simp add: types_line_def typist_def program_def set_user_mem_def tiny_kernel_def line_def line_ok_def MAX_BUFFER_SIZE_def)

text \<open>
  \<open>hello\<close> prompts, waits until the user has typed a line and enter, echoes the keys and greets the user by the
  line: the keyboard handler, the terminal's line and its read, the string routines and the screen work
  together. The newline is not part of what \<open>read\<close> returns, so the greeting ends in the name.
\<close>

theorem hello_greets_user:
  assumes "user_ok k" "types_line e cs k" "0 \<notin> set cs"
    "literal lits buf (user_mem k) (''Hi, what'' @ [CHR 0x27] @ ''s your name? '')" "literal lits buf (user_mem k) ''Hello, ''"
  shows "\<exists>k'. hello_main (kernel_os e child) lits buf k = Some (k', 0)
     \<and> scr k' = fold putc (bytes_of (''Hi, what'' @ [CHR 0x27] @ ''s your name? '') @ cs @ [10] @ bytes_of ''Hello, '' @ cs) (scr k)"
  by (rule kl.hello_greets [OF assms(1-3), unfolded kernel_os_mem, OF assms(4,5)])

theorem hello_greets_user_witness:
  "let texts = [''Hi, what'' @ [CHR 0x27] @ ''s your name? '', ''Hello, '']; cs = [66, 111, 98] in
   \<exists>k'. hello_main (kernel_os (typist cs) (\<lambda>_ _ _. None)) (program_lits texts) 0x083FF000 (program texts) = Some (k', 0)
     \<and> scr k' = fold putc (bytes_of (hd texts) @ [66, 111, 98, 10] @ bytes_of ''Hello, '' @ [66, 111, 98]) (scr (program texts))"
proof -
  let ?t = "[''Hi, what'' @ [CHR 0x27] @ ''s your name? '', ''Hello, '']"
  have "literal (program_lits ?t) 0x083FF000 (user_mem (program ?t)) (hd ?t)"
    "literal (program_lits ?t) 0x083FF000 (user_mem (program ?t)) ''Hello, ''"
    unfolding program_ok(2) by (rule program_literal; simp)+
  from hello_greets_user [OF program_ok(1) program_types [of "[66, 111, 98]"], unfolded list.sel, OF _ _ _ _ this [unfolded list.sel], of "\<lambda>_ _ _. None"]
  show ?thesis by (simp add: Let_def)
qed

text \<open>
  C13: in each round of its loop the shell prints its prompt, reads the line the user types and then ends with status 0 when the line is
  \<open>exit\<close>, prompts again when it is empty, and otherwise executes the line as a command, with the text of
  the line in its buffer as a C string, and reports a status of -1, 256 or any other than 0 before it
  prompts again.
\<close>

theorem shell_commands:
  assumes "user_ok k" "types_line e cs k" "0 \<notin> set cs"
    "literal lits buf (user_mem k) ''391OS> ''" "literal lits buf (user_mem k) ''exit''"
  shows "\<exists>k'. user_ok k' \<and> types_line e cs k' \<and> cstr (view (user_mem k') buf) cs
    \<and> scr k' = fold putc (bytes_of ''391OS> '' @ cs @ [10]) (scr k)
    \<and> shell_body (kernel_os e child) lits buf k =
        (if cs = bytes_of ''exit'' then Some (k', Some 0)
         else if cs = [] then Some (k', None)
         else do {
           (k, rval) \<leftarrow> os_execute (kernel_os e child) buf k';
           k \<leftarrow> (if rval = -1 then ece391_fdputs (kernel_os e child) 1 (lits (''no such command'' @ nl)) k
                else if rval = 256 then ece391_fdputs (kernel_os e child) 1 (lits (''program terminated by exception'' @ nl)) k
                else if rval \<noteq> 0 then ece391_fdputs (kernel_os e child) 1 (lits (''program terminated abnormally'' @ nl)) k
                else Some k);
           Some (k, None)
         })"
proof -
  have "10 \<notin> set cs" using assms(2) by (simp add: types_line_def)
  from kl.shell_round [OF assms(1-3) this, unfolded kernel_os_mem, OF assms(4,5), where child = child] show ?thesis
    by blast
qed

theorem shell_commands_witness:
  "let texts = [''391OS> '', ''exit'']; cs = bytes_of ''exit'' in
   \<exists>k'. shell_body (kernel_os (typist cs) (\<lambda>_ _ _. None)) (program_lits texts) 0x083FF000 (program texts) = Some (k', Some 0)
     \<and> scr k' = fold putc (bytes_of ''391OS> '' @ bytes_of ''exit'' @ [10]) (scr (program texts))"
proof -
  let ?t = "[''391OS> '', ''exit'']"
  have "literal (program_lits ?t) 0x083FF000 (user_mem (program ?t)) ''391OS> ''"
    "literal (program_lits ?t) 0x083FF000 (user_mem (program ?t)) ''exit''"
    unfolding program_ok(2) by (rule program_literal; simp)+
  from shell_commands [OF program_ok(1) program_types [of "bytes_of ''exit''"] _ this, of "\<lambda>_ _ _. None"]
  show ?thesis by (auto simp: Let_def)
qed

text \<open>
  \<open>counter\<close> counts from 1 in decimal, one number on a line, to the limit that the first character of the line
  selects, and prints its complaint exactly for lines of more than two characters or of two that do not
  start with 0, 1 or 2. Since the line comes without its newline, a single wrong character is not such a
  line: nothing is counted and nothing said, and two characters pass by their first.
\<close>

theorem counter_counts_up:
  assumes "user_ok k" "types_line e cs k" "0 \<notin> set cs" "literal lits buf (user_mem k) counter_prompt"
    "literal lits buf (user_mem k) (''Wrong Choice!'' @ nl)" "literal lits buf (user_mem k) nl"
  shows "\<exists>k'. counter_main (kernel_os e child) lits buf k = Some (k', 0)
     \<and> scr k' = fold putc (bytes_of counter_prompt @ cs @ [10] @ counted cs) (scr k)"
  by (rule kl.counter_counts [OF assms(1-3), unfolded kernel_os_mem, OF assms(4-6)])

theorem counter_counts_up_witness:
  "let texts = [counter_prompt, ''Wrong Choice!'' @ nl, nl] in
   \<exists>k'. counter_main (kernel_os (typist [55]) (\<lambda>_ _ _. None)) (program_lits texts) 0x083FF000 (program texts) = Some (k', 0)
     \<and> scr k' = fold putc (bytes_of counter_prompt @ [55, 10]) (scr (program texts))"
proof -
  let ?t = "[counter_prompt, ''Wrong Choice!'' @ nl, nl]"
  have "literal (program_lits ?t) 0x083FF000 (user_mem (program ?t)) counter_prompt"
    "literal (program_lits ?t) 0x083FF000 (user_mem (program ?t)) (''Wrong Choice!'' @ nl)"
    "literal (program_lits ?t) 0x083FF000 (user_mem (program ?t)) nl"
    unfolding program_ok(2) by (rule program_literal; simp)+
  from counter_counts_up [OF program_ok(1) program_types [of "[55]"] _ this, of "\<lambda>_ _ _. None"]
  show ?thesis by (simp add: Let_def counted_def choice_def)
qed

end
