(* ===== verification/SysErr.thy ===== *)
theory SysErr
  imports UserInput
begin

text \<open>
  The error test of the system calls, \<^verbatim>\<open>syscalls/ece391syserr.c\<close>: its eight tests and \<open>main\<close> over the record of
  calls, an interface that states which calls fail, its interpretation on the kernel, and the proof that
  the kernel passes every test. The local arrays of the tests, which every call refuses to use, lie at
  an address \<open>tbuf\<close>; \<open>buf\<close> is the array that \<open>main\<close> reads the number of the test into.
\<close>

section \<open>Model\<close>

text \<open>A call that has to fail: a complaint is printed and 2 recorded when it does not.\<close>

definition expect :: "'s os \<Rightarrow> addr \<Rightarrow> ('s \<Rightarrow> ('s \<times> i32) option) \<Rightarrow> 's \<times> i32 \<Rightarrow> ('s \<times> i32) option" where
  "expect os complaint call = (\<lambda>(s, fail).
     do {
       (s, r) \<leftarrow> call s;
       if r \<noteq> -1 then do { s \<leftarrow> ece391_fdputs os 1 complaint s; Some (s, 2) } else Some (s, fail)
     })"

primrec expect_each :: "'s os \<Rightarrow> addr \<Rightarrow> (i32 \<Rightarrow> 's \<Rightarrow> ('s \<times> i32) option) \<Rightarrow> nat list \<Rightarrow> 's \<times> i32 \<Rightarrow> ('s \<times> i32) option" where
  "expect_each os complaint call [] sf = Some sf"
| "expect_each os complaint call (i # is) sf =
     Option.bind (expect os complaint (call (of_nat i)) sf) (expect_each os complaint call is)"

text \<open>The last lines of a test.\<close>

definition report :: "'s os \<Rightarrow> (string \<Rightarrow> addr) \<Rightarrow> string \<Rightarrow> 's \<times> i32 \<Rightarrow> ('s \<times> i32) option" where
  "report os lits name = (\<lambda>(s, fail).
     do {
       s \<leftarrow> (if fail \<noteq> 0 then ece391_fdputs os 1 (lits (name @ '': FAIL'' @ nl)) s
            else ece391_fdputs os 1 (lits (name @ '': PASS'' @ nl)) s);
       Some (s, fail)
     })"

definition NEG_FD :: i32 where "NEG_FD = -1073741823"
definition BIG_FD :: i32 where "BIG_FD = 1073741823"
definition BIG_NUM :: i32 where "BIG_NUM = 1073741823"
definition NEG_NUM :: i32 where "NEG_NUM = -1073741823"

definition call_sys :: "'s os \<Rightarrow> i32 \<Rightarrow> 's \<Rightarrow> ('s \<times> i32) option" where
  "call_sys os num = os_call os num"

definition err_neg_fd :: "'s os \<Rightarrow> (string \<Rightarrow> addr) \<Rightarrow> addr \<Rightarrow> 's \<Rightarrow> ('s \<times> i32) option" where
  "err_neg_fd os lits tbuf s =
     do {
       sf \<leftarrow> expect os (lits (''read fail'' @ nl)) (os_read os NEG_FD tbuf 31) (s, 0);
       sf \<leftarrow> expect os (lits (''write fail'' @ nl)) (os_write os NEG_FD tbuf 31) sf;
       sf \<leftarrow> expect os (lits (''close fail'' @ nl)) (os_close os NEG_FD) sf;
       report os lits ''err_neg_fd'' sf
     }"

definition err_big_fd :: "'s os \<Rightarrow> (string \<Rightarrow> addr) \<Rightarrow> addr \<Rightarrow> 's \<Rightarrow> ('s \<times> i32) option" where
  "err_big_fd os lits tbuf s =
     do {
       sf \<leftarrow> expect os (lits (''read fail'' @ nl)) (os_read os BIG_FD tbuf 31) (s, 0);
       sf \<leftarrow> expect os (lits (''write fail'' @ nl)) (os_write os BIG_FD tbuf 31) sf;
       sf \<leftarrow> expect os (lits (''close fail'' @ nl)) (os_close os BIG_FD) sf;
       report os lits ''err_big_fd'' sf
     }"

text \<open>The loops of \<open>err_open_lots\<close>: seven opens with the failures counted, and the closes.\<close>

primrec open_lots :: "nat \<Rightarrow> 's os \<Rightarrow> addr \<Rightarrow> 's \<times> i32 \<Rightarrow> ('s \<times> i32) option" where
  "open_lots 0 os p sc = Some sc"
| "open_lots (Suc n) os p sc =
     Option.bind (os_open os p (fst sc)) (\<lambda>(s, r). open_lots n os p (s, if r = -1 then snd sc + 1 else snd sc))"

primrec close_lots :: "'s os \<Rightarrow> nat list \<Rightarrow> 's \<Rightarrow> 's option" where
  "close_lots os [] s = Some s"
| "close_lots os (i # is) s = Option.bind (os_close os (of_nat i) s) (\<lambda>(s, _). close_lots os is s)"

definition err_open_lots :: "'s os \<Rightarrow> (string \<Rightarrow> addr) \<Rightarrow> 's \<Rightarrow> ('s \<times> i32) option" where
  "err_open_lots os lits s =
     do {
       (s, cnt) \<leftarrow> open_lots 7 os (lits ''.'') (s, 0);
       s \<leftarrow> close_lots os [2..<8] s;
       if cnt = 1 then do { s \<leftarrow> ece391_fdputs os 1 (lits (''err_open_lots: PASS'' @ nl)) s; Some (s, 0) }
       else do { s \<leftarrow> ece391_fdputs os 1 (lits (''err_open_lots: FAIL'' @ nl)) s; Some (s, 2) }
     }"

abbreviation quoted :: "string \<Rightarrow> string" where
  "quoted cs \<equiv> [CHR 0x27] @ cs @ [CHR 0x27]"

definition err_open :: "'s os \<Rightarrow> (string \<Rightarrow> addr) \<Rightarrow> 's \<Rightarrow> ('s \<times> i32) option" where
  "err_open os lits s =
     do {
       sf \<leftarrow> expect os (lits (quoted ''helloo'' @ '' fail'' @ nl)) (os_open os (lits ''helloo'')) (s, 0);
       sf \<leftarrow> expect os (lits (quoted ''shel'' @ '' fail'' @ nl)) (os_open os (lits ''shel'')) sf;
       sf \<leftarrow> expect os (lits (''empty string fail'' @ nl)) (os_open os (lits [])) sf;
       report os lits ''err_open'' sf
     }"

definition err_unopened :: "'s os \<Rightarrow> (string \<Rightarrow> addr) \<Rightarrow> addr \<Rightarrow> 's \<Rightarrow> ('s \<times> i32) option" where
  "err_unopened os lits tbuf s =
     do {
       sf \<leftarrow> expect_each os (lits (''close unopened or invalid fd fail'' @ nl)) (os_close os) [0..<8] (s, 0);
       sf \<leftarrow> expect_each os (lits (''read from unopened fd fail'' @ nl)) (\<lambda>i. os_read os i tbuf 31) [2..<8] sf;
       sf \<leftarrow> expect_each os (lits (''write to unopened fd fail'' @ nl)) (\<lambda>i. os_write os i tbuf 31) [2..<8] sf;
       report os lits ''err_unopened'' sf
     }"

definition err_vidmap :: "'s os \<Rightarrow> (string \<Rightarrow> addr) \<Rightarrow> 's \<Rightarrow> ('s \<times> i32) option" where
  "err_vidmap os lits s =
     do {
       sf \<leftarrow> expect os (lits (''Null pointer fail'' @ nl)) (os_vidmap os 0) (s, 0);
       sf \<leftarrow> expect os (lits (''Kernel pointer fail fail'' @ nl)) (os_vidmap os 0x400000) sf;
       report os lits ''err_vidmap'' sf
     }"

definition err_stdin_out :: "'s os \<Rightarrow> (string \<Rightarrow> addr) \<Rightarrow> addr \<Rightarrow> 's \<Rightarrow> ('s \<times> i32) option" where
  "err_stdin_out os lits tbuf s =
     do {
       sf \<leftarrow> expect os (lits (''write to stdin fail'' @ nl)) (os_write os 0 tbuf 31) (s, 0);
       sf \<leftarrow> expect os (lits (''read from stdout fail'' @ nl)) (os_read os 1 tbuf 31) sf;
       report os lits ''err_stdin_out'' sf
     }"

definition err_syscall_num :: "'s os \<Rightarrow> (string \<Rightarrow> addr) \<Rightarrow> 's \<Rightarrow> ('s \<times> i32) option" where
  "err_syscall_num os lits s =
     do {
       sf \<leftarrow> expect os (lits (''syscall 0 fail'' @ nl)) (call_sys os BIG_NUM) (s, 0);
       sf \<leftarrow> expect os (lits (''big num syscall fail'' @ nl)) (call_sys os NEG_NUM) sf;
       sf \<leftarrow> expect os (lits (''neg num syscall fail'' @ nl)) (call_sys os 0) sf;
       report os lits ''err_syscall_num'' sf
     }"

text \<open>The test that \<open>main\<close> selects, and all tests with their results added.\<close>

definition syserr_tests :: "'s os \<Rightarrow> (string \<Rightarrow> addr) \<Rightarrow> addr \<Rightarrow> ('s \<Rightarrow> ('s \<times> i32) option) list" where
  "syserr_tests os lits tbuf =
     [err_neg_fd os lits tbuf, err_big_fd os lits tbuf, err_open_lots os lits, err_open os lits, err_unopened os lits tbuf,
      err_vidmap os lits, err_stdin_out os lits tbuf, err_syscall_num os lits]"

primrec run_tests :: "('s \<Rightarrow> ('s \<times> i32) option) list \<Rightarrow> 's \<times> i32 \<Rightarrow> ('s \<times> i32) option" where
  "run_tests [] sf = Some sf"
| "run_tests (t # ts) sf = Option.bind (t (fst sf)) (\<lambda>(s, r). run_tests ts (s, snd sf + r))"

text \<open>The switch of \<open>main\<close>, and \<open>main\<close>.\<close>

definition syserr_switch :: "'s os \<Rightarrow> (string \<Rightarrow> addr) \<Rightarrow> addr \<Rightarrow> int \<Rightarrow> 's \<Rightarrow> ('s \<times> i32) option" where
  "syserr_switch os lits tbuf select s =
     (if select = 0
      then do {
        (s, fail) \<leftarrow> run_tests (syserr_tests os lits tbuf) (s, 0);
        s \<leftarrow> (if fail \<noteq> 0 then ece391_fdputs os 1 (lits (nl @ ''Overall Tests: FAIL'' @ nl)) s
             else ece391_fdputs os 1 (lits (nl @ ''Overall Tests: PASS'' @ nl)) s);
        Some (s, fail)
      }
      else if 1 \<le> select \<and> select \<le> 8 then (syserr_tests os lits tbuf ! nat (select - 1)) s
      else do { s \<leftarrow> ece391_fdputs os 1 (lits ''Invalid test number. Choose from tests 1-8 or 0'') s; Some (s, 0) })"

definition syserr_main :: "'s os \<Rightarrow> (string \<Rightarrow> addr) \<Rightarrow> addr \<Rightarrow> addr \<Rightarrow> 's \<Rightarrow> ('s \<times> i32) option" where
  "syserr_main os lits buf tbuf s =
     do {
       s \<leftarrow> ece391_fdputs os 1 (lits ''Choose from tests 1-8. 0 to run all: '') s;
       (s, cnt) \<leftarrow> os_read os 0 buf 127 s;
       if cnt = -1 then do { s \<leftarrow> ece391_fdputs os 1 (lits (''Can'' @ [CHR 0x27] @ ''t read test #'' @ nl)) s; Some (s, 2) }
       else syserr_switch os lits tbuf (uint (os_mem os s buf) - 48) s
     }"

section \<open>The interface\<close>

text \<open>A call that fails and changes nothing the program can see.\<close>

definition refused :: "'s os \<Rightarrow> ('s \<Rightarrow> bool) \<Rightarrow> ('s \<Rightarrow> 'o) \<Rightarrow> ('s \<Rightarrow> 'd) \<Rightarrow> ('s \<Rightarrow> ('s \<times> i32) option) \<Rightarrow> 's \<Rightarrow> bool" where
  "refused os ok out descr call s \<longleftrightarrow>
     (\<exists>s'. call s = Some (s', -1) \<and> ok s' \<and> os_mem os s' = os_mem os s \<and> descr s' = descr s \<and> out s' = out s)"

text \<open>
  The descriptors from 2 to 7 that are open, the names that can be opened and those the directory does not
  have; the calls that fail, and how \<open>open\<close> and \<open>close\<close> take and give back descriptors.
\<close>

locale error_calls = line_calls os ok emit out descr typing
  for os :: "'s os" and ok and emit :: "u8 \<Rightarrow> 'o \<Rightarrow> 'o" and out and descr :: "'s \<Rightarrow> 'd" and typing +
  fixes fds_open :: "nat set \<Rightarrow> 'd \<Rightarrow> bool"
    and openable :: "u8 list \<Rightarrow> 'd \<Rightarrow> bool"
    and missing :: "u8 list \<Rightarrow> 'd \<Rightarrow> bool"
  assumes bad_fd: "ok s \<Longrightarrow> sint fd < 0 \<or> 8 \<le> sint fd \<Longrightarrow> refused os ok out descr (os_read os fd b n) s
        \<and> refused os ok out descr (os_write os fd b n) s \<and> refused os ok out descr (os_close os fd) s"
    and unopened: "ok s \<Longrightarrow> fds_open S (descr s) \<Longrightarrow> 2 \<le> i \<Longrightarrow> i < 8 \<Longrightarrow> i \<notin> S \<Longrightarrow> refused os ok out descr (os_read os (of_nat i) b n) s
        \<and> refused os ok out descr (os_write os (of_nat i) b n) s \<and> refused os ok out descr (os_close os (of_nat i)) s"
    and standard: "ok s \<Longrightarrow> refused os ok out descr (os_write os 0 b n) s \<and> refused os ok out descr (os_read os 1 b n) s
        \<and> refused os ok out descr (os_close os 0) s \<and> refused os ok out descr (os_close os 1) s"
    and kernel_pointer: "ok s \<Longrightarrow> unat p < 0x08000000 \<Longrightarrow> refused os ok out descr (os_vidmap os p) s"
    and no_call: "ok s \<Longrightarrow> sint m < 1 \<or> 10 < sint m \<Longrightarrow> refused os ok out descr (os_call os m) s"
    and open_missing: "ok s \<Longrightarrow> p \<noteq> 0 \<Longrightarrow> cstr (view (os_mem os s) p) cs \<Longrightarrow> missing cs (descr s) \<Longrightarrow> refused os ok out descr (os_open os p) s"
    and open_full: "ok s \<Longrightarrow> fds_open {2..<8} (descr s) \<Longrightarrow> refused os ok out descr (os_open os p) s"
    and open_free: "ok s \<Longrightarrow> fds_open {2..<i} (descr s) \<Longrightarrow> 2 \<le> i \<Longrightarrow> i < 8 \<Longrightarrow> p \<noteq> 0 \<Longrightarrow> cstr (view (os_mem os s) p) cs \<Longrightarrow>
        openable cs (descr s) \<Longrightarrow>
        \<exists>s'. os_open os p s = Some (s', of_nat i) \<and> ok s' \<and> os_mem os s' = os_mem os s \<and> out s' = out s
          \<and> fds_open {2..<Suc i} (descr s') \<and> (\<forall>cs. openable cs (descr s') = openable cs (descr s) \<and> missing cs (descr s') = missing cs (descr s))"
    and close_open: "ok s \<Longrightarrow> fds_open S (descr s) \<Longrightarrow> i \<in> S \<Longrightarrow>
        \<exists>s'. os_close os (of_nat i) s = Some (s', 0) \<and> ok s' \<and> os_mem os s' = os_mem os s \<and> out s' = out s
          \<and> fds_open (S - {i}) (descr s') \<and> (\<forall>cs. openable cs (descr s') = openable cs (descr s) \<and> missing cs (descr s') = missing cs (descr s))"

text \<open>What the tests print when they pass.\<close>

definition pass_line :: "string \<Rightarrow> string" where
  "pass_line name = name @ '': PASS'' @ nl"

definition syserr_names :: "string list" where
  "syserr_names = [''err_neg_fd'', ''err_big_fd'', ''err_open_lots'', ''err_open'', ''err_unopened'', ''err_vidmap'', ''err_stdin_out'',
     ''err_syscall_num'']"

definition syserr_texts :: "string list" where
  "syserr_texts = map pass_line syserr_names @ [''.'', ''helloo'', ''shel'', [], nl @ ''Overall Tests: PASS'' @ nl,
     ''Invalid test number. Choose from tests 1-8 or 0'']"

definition verdict :: "u8 \<Rightarrow> string" where
  "verdict c =
     (if c = 48 then concat (map pass_line syserr_names) @ nl @ ''Overall Tests: PASS'' @ nl
      else if 49 \<le> unat c \<and> unat c \<le> 56 then pass_line (syserr_names ! (unat c - 49))
      else ''Invalid test number. Choose from tests 1-8 or 0'')"

text \<open>The state between two calls of a test, with the descriptors \<open>S\<close> open.\<close>

definition testing ::
  "'s os \<Rightarrow> ('s \<Rightarrow> bool) \<Rightarrow> ('s \<Rightarrow> 'd) \<Rightarrow> (nat set \<Rightarrow> 'd \<Rightarrow> bool) \<Rightarrow> (u8 list \<Rightarrow> 'd \<Rightarrow> bool) \<Rightarrow> (u8 list \<Rightarrow> 'd \<Rightarrow> bool)
     \<Rightarrow> (string \<Rightarrow> addr) \<Rightarrow> addr \<Rightarrow> nat set \<Rightarrow> 's \<Rightarrow> bool" where
  "testing os ok descr fds_open openable missing lits buf S s \<longleftrightarrow>
     ok s \<and> fds_open S (descr s) \<and> openable (bytes_of ''.'') (descr s)
     \<and> (\<forall>t \<in> {''helloo'', ''shel'', []}. missing (bytes_of t) (descr s))
     \<and> (\<forall>t \<in> set syserr_texts. lits t \<noteq> 0 \<and> literal lits buf (os_mem os s) t)"

definition passes :: "('s \<Rightarrow> bool) \<Rightarrow> (u8 \<Rightarrow> 'o \<Rightarrow> 'o) \<Rightarrow> ('s \<Rightarrow> 'o) \<Rightarrow> string \<Rightarrow> ('s \<Rightarrow> ('s \<times> i32) option) \<Rightarrow> bool" where
  "passes holds emit out text t \<longleftrightarrow>
     (\<forall>s. holds s \<longrightarrow> (\<exists>s'. t s = Some (s', 0) \<and> holds s' \<and> out s' = fold emit (bytes_of text) (out s)))"

context error_calls
begin

abbreviation tst :: "(string \<Rightarrow> addr) \<Rightarrow> addr \<Rightarrow> nat set \<Rightarrow> 's \<Rightarrow> bool" where
  "tst \<equiv> testing os ok descr fds_open openable missing"

abbreviation denied :: "('s \<Rightarrow> ('s \<times> i32) option) \<Rightarrow> 's \<Rightarrow> bool" where
  "denied \<equiv> refused os ok out descr"

lemma tst_cong:
  assumes "tst lits buf S s" "ok s'" "os_mem os s' = os_mem os s" "fds_open T (descr s')"
    "\<forall>cs. openable cs (descr s') = openable cs (descr s) \<and> missing cs (descr s') = missing cs (descr s)"
  shows "tst lits buf T s'"
  using assms by (simp add: testing_def)

lemma tst_text:
  assumes "tst lits buf S s" "t \<in> set syserr_texts"
  shows "lits t \<noteq> 0" "cstr (view (os_mem os s) (lits t)) (bytes_of t)" "literal lits buf (os_mem os s) t"
  using assms unfolding testing_def literal_def by blast+

lemma tst_ok: "tst lits buf S s \<Longrightarrow> ok s" "tst lits buf S s \<Longrightarrow> fds_open S (descr s)"
  by (simp_all add: testing_def)

lemma puts_text:
  assumes "tst lits buf S s" "t \<in> set syserr_texts"
  shows "\<exists>s'. ece391_fdputs os 1 (lits t) s = Some s' \<and> tst lits buf S s' \<and> out s' = fold emit (bytes_of t) (out s)"
proof -
  have "length (bytes_of t) < 2147483648" using tst_text(3) [OF assms] by (simp add: literal_def)
  from fdputs_out [OF tst_ok(1) [OF assms(1)] tst_text(2) [OF assms] this] obtain s' where
    s': "ece391_fdputs os 1 (lits t) s = Some s'" "ok s'" "os_mem os s' = os_mem os s" "descr s' = descr s" "out s' = fold emit (bytes_of t) (out s)"
    by blast
  have "tst lits buf S s'" by (rule tst_cong [OF assms(1) s'(2,3)]) (use tst_ok(2) [OF assms(1)] s'(4) in simp_all)
  then show ?thesis using s' by blast
qed

lemma expect_denied:
  assumes "tst lits buf S s" "denied call s"
  shows "\<exists>s'. expect os p call (s, f) = Some (s', f) \<and> tst lits buf S s' \<and> out s' = out s"
proof -
  from assms(2) obtain s' where s': "call s = Some (s', -1)" "ok s'" "os_mem os s' = os_mem os s" "descr s' = descr s" "out s' = out s"
    by (auto simp: refused_def)
  have "tst lits buf S s'" by (rule tst_cong [OF assms(1) s'(2,3)]) (use tst_ok(2) [OF assms(1)] s'(4) in simp_all)
  then show ?thesis using s' by (simp add: expect_def)
qed

lemma expect_each_denied:
  "tst lits buf S s \<Longrightarrow> (\<And>i s. i \<in> set is \<Longrightarrow> tst lits buf S s \<Longrightarrow> denied (call (of_nat i)) s) \<Longrightarrow>
    \<exists>s'. expect_each os p call is (s, f) = Some (s', f) \<and> tst lits buf S s' \<and> out s' = out s"
proof (induction "is" arbitrary: s)
  case (Cons i "is")
  from expect_denied [OF Cons.prems(1), of "call (of_nat i)" p f] Cons.prems obtain s1 where
    s1: "expect os p (call (of_nat i)) (s, f) = Some (s1, f)" "tst lits buf S s1" "out s1 = out s" by auto
  from Cons.IH [OF s1(2)] Cons.prems(2) s1 show ?case by auto
qed simp

lemma report_pass:
  assumes "tst lits buf S s" "name \<in> set syserr_names"
  shows "\<exists>s'. report os lits name (s, 0) = Some (s', 0) \<and> tst lits buf S s' \<and> out s' = fold emit (bytes_of (pass_line name)) (out s)"
proof -
  have "pass_line name \<in> set syserr_texts" using assms(2) by (simp add: syserr_texts_def)
  from puts_text [OF assms(1) this] show ?thesis by (auto simp: report_def pass_line_def)
qed

text \<open>A test made of calls that are refused one after the other.\<close>

lemma passes_expect:
  assumes "\<And>s. tst lits buf S s \<Longrightarrow> denied call s" "\<And>s. tst lits buf S s \<Longrightarrow> \<exists>s'. rest (s, 0) = Some (s', 0) \<and> tst lits buf S s' \<and> out s' = w (out s)"
    "tst lits buf S s"
  shows "\<exists>s'. Option.bind (expect os p call (s, 0)) rest = Some (s', 0) \<and> tst lits buf S s' \<and> out s' = w (out s)"
  using expect_denied [OF assms(3) assms(1) [OF assms(3)], of p 0] assms(2) by fastforce

lemma passes_each:
  assumes "\<And>i s. i \<in> set is \<Longrightarrow> tst lits buf S s \<Longrightarrow> denied (call (of_nat i)) s"
    "\<And>s. tst lits buf S s \<Longrightarrow> \<exists>s'. rest (s, 0) = Some (s', 0) \<and> tst lits buf S s' \<and> out s' = w (out s)" "tst lits buf S s"
  shows "\<exists>s'. Option.bind (expect_each os p call is (s, 0)) rest = Some (s', 0) \<and> tst lits buf S s' \<and> out s' = w (out s)"
  using expect_each_denied [where call = call and f = 0 and p = p, OF assms(3), OF assms(1)] assms(2) by fastforce

abbreviation passed :: "(string \<Rightarrow> addr) \<Rightarrow> addr \<Rightarrow> string \<Rightarrow> ('s \<Rightarrow> ('s \<times> i32) option) \<Rightarrow> bool" where
  "passed lits buf name \<equiv> passes (tst lits buf {}) emit out (pass_line name)"

lemma fd_numbers: "sint NEG_FD < 0" "8 \<le> sint BIG_FD" "sint NEG_NUM < 1" "10 < sint BIG_NUM"
  by (simp_all add: NEG_FD_def BIG_FD_def NEG_NUM_def BIG_NUM_def)

lemma err_fd_passes: "passed lits buf ''err_neg_fd'' (err_neg_fd os lits tbuf)" "passed lits buf ''err_big_fd'' (err_big_fd os lits tbuf)"
  unfolding passes_def err_neg_fd_def err_big_fd_def
  by (safe; (intro passes_expect report_pass; (simp add: syserr_names_def)?; use bad_fd tst_ok(1) fd_numbers in blast))+

lemma err_vidmap_passes: "passed lits buf ''err_vidmap'' (err_vidmap os lits)"
  unfolding passes_def err_vidmap_def
  by (safe, intro passes_expect report_pass) (simp_all add: syserr_names_def kernel_pointer tst_ok)

lemma err_stdin_out_passes: "passed lits buf ''err_stdin_out'' (err_stdin_out os lits tbuf)"
  unfolding passes_def err_stdin_out_def
  by (safe, intro passes_expect report_pass) (simp_all add: syserr_names_def standard tst_ok)

lemma err_syscall_num_passes: "passed lits buf ''err_syscall_num'' (err_syscall_num os lits)"
  unfolding passes_def err_syscall_num_def call_sys_def
  by (safe, intro passes_expect report_pass) (simp_all add: syserr_names_def no_call tst_ok fd_numbers)

lemma open_denied: "tst lits buf S s \<Longrightarrow> t \<in> {''helloo'', ''shel'', []} \<Longrightarrow> denied (os_open os (lits t)) s"
proof -
  assume a: "tst lits buf S s" "t \<in> {''helloo'', ''shel'', []}"
  have t: "t \<in> set syserr_texts" using a(2) by (auto simp: syserr_texts_def)
  have "missing (bytes_of t) (descr s)" using a unfolding testing_def by blast
  with open_missing [OF tst_ok(1) [OF a(1)] tst_text(1,2) [OF a(1) t]] show ?thesis .
qed

lemma err_open_passes: "passed lits buf ''err_open'' (err_open os lits)"
  unfolding passes_def err_open_def
  by (safe, intro passes_expect report_pass) (simp_all add: syserr_names_def open_denied)

lemma err_unopened_passes: "passed lits buf ''err_unopened'' (err_unopened os lits tbuf)"
proof -
  have "denied (os_close os (of_nat i)) s" if "i \<in> set [0..<8]" "tst lits buf {} s" for i s
  proof (cases "i < 2")
    case True
    then show ?thesis using standard [OF tst_ok(1) [OF that(2)]] by (auto simp: less_2_cases_iff)
  next
    case False
    then show ?thesis using unopened [OF tst_ok [OF that(2)], of i] that(1) by simp
  qed
  moreover have "denied (os_read os (of_nat i) tbuf 31) s \<and> denied (os_write os (of_nat i) tbuf 31) s"
    if "i \<in> set [2..<8]" "tst lits buf {} s" for i s
  proof -
    have "2 \<le> i" "i < 8" using that(1) by (auto simp del: upt_rec_numeral)
    from unopened [OF tst_ok [OF that(2)] this, of tbuf 31] show ?thesis by blast
  qed
  ultimately show ?thesis
    unfolding passes_def err_unopened_def
    by (safe, intro passes_each report_pass) (blast+, simp add: syserr_names_def)
qed

text \<open>The six opens that succeed, the one that fails, and the closes.\<close>

lemma open_lots_full:
  "tst lits buf {2..<i} s \<Longrightarrow> 2 \<le> i \<Longrightarrow> i \<le> 8 \<Longrightarrow> n + i = 9 \<Longrightarrow>
    \<exists>s'. open_lots n os (lits ''.'') (s, c) = Some (s', c + 1) \<and> tst lits buf {2..<8} s' \<and> out s' = out s"
proof (induction n arbitrary: i s)
  case (Suc n)
  have t: "''.'' \<in> set syserr_texts" by (simp add: syserr_texts_def)
  show ?case
  proof (cases "i < 8")
    case True
    have "openable (bytes_of ''.'') (descr s)" using Suc.prems(1) by (simp only: testing_def)
    from open_free [OF tst_ok [OF Suc.prems(1)] Suc.prems(2) True tst_text(1,2) [OF Suc.prems(1) t] this] obtain s1 where
      s1: "os_open os (lits ''.'') s = Some (s1, of_nat i)" "ok s1" "os_mem os s1 = os_mem os s" "out s1 = out s" "fds_open {2..<Suc i} (descr s1)"
        "\<forall>cs. openable cs (descr s1) = openable cs (descr s) \<and> missing cs (descr s1) = missing cs (descr s)" by blast
    have "tst lits buf {2..<Suc i} s1" by (rule tst_cong [OF Suc.prems(1) s1(2,3,5,6)])
    from Suc.IH [OF this] Suc.prems True s1(1,4) small_count(4) [of i] show ?thesis by simp
  next
    case False
    then have "i = 8" "n = 0" using Suc.prems by simp_all
    with open_full [OF tst_ok(1) [OF Suc.prems(1)], of "lits ''.''"] tst_ok(2) [OF Suc.prems(1)] obtain s1 where
      s1: "os_open os (lits ''.'') s = Some (s1, -1)" "ok s1" "os_mem os s1 = os_mem os s" "descr s1 = descr s" "out s1 = out s"
      by (auto simp: refused_def)
    have "tst lits buf {2..<8} s1" by (rule tst_cong [OF Suc.prems(1) s1(2,3)]) (use tst_ok(2) [OF Suc.prems(1)] s1(4) \<open>i = 8\<close> in simp_all)
    then show ?thesis using s1 \<open>n = 0\<close> by simp
  qed
qed simp

lemma close_lots_all:
  "tst lits buf {i..<8} s \<Longrightarrow> i \<le> 8 \<Longrightarrow>
    \<exists>s'. close_lots os [i..<8] s = Some s' \<and> tst lits buf {} s' \<and> out s' = out s"
proof (induction "8 - i" arbitrary: i s)
  case 0
  then show ?case by simp
next
  case (Suc d)
  then have i: "i < 8" "d = 8 - Suc i" "Suc i \<le> 8" "i \<in> {i..<8}" "{i..<8} - {i} = {Suc i..<8}" by auto
  from close_open [OF tst_ok [OF Suc.prems(1)] i(4)] obtain s1 where
    s1: "os_close os (of_nat i) s = Some (s1, 0)" "ok s1" "os_mem os s1 = os_mem os s" "out s1 = out s" "fds_open {Suc i..<8} (descr s1)"
      "\<forall>cs. openable cs (descr s1) = openable cs (descr s) \<and> missing cs (descr s1) = missing cs (descr s)" unfolding i(5) by blast
  have "tst lits buf {Suc i..<8} s1" by (rule tst_cong [OF Suc.prems(1) s1(2,3,5,6)])
  from Suc.hyps(1) [OF i(2) this i(3)] s1(1,4) show ?case unfolding upt_conv_Cons [OF i(1)] by simp
qed

lemma err_open_lots_passes: "passed lits buf ''err_open_lots'' (err_open_lots os lits)"
  unfolding passes_def
proof (intro allI impI)
  fix s assume s: "tst lits buf {} s"
  from open_lots_full [of lits buf 2 s 7 0] s obtain s1 where
    s1: "open_lots 7 os (lits ''.'') (s, 0) = Some (s1, 1)" "tst lits buf {2..<8} s1" "out s1 = out s" by auto
  from close_lots_all [OF s1(2)] obtain s2 where s2: "close_lots os [2..<8] s1 = Some s2" "tst lits buf {} s2" "out s2 = out s1" by auto
  have "''err_open_lots: PASS'' @ nl = pass_line ''err_open_lots''" "pass_line ''err_open_lots'' \<in> set syserr_texts"
    by (simp_all add: pass_line_def syserr_texts_def syserr_names_def)
  with puts_text [OF s2(2), of "pass_line ''err_open_lots''"] obtain s3 where
    "ece391_fdputs os 1 (lits (''err_open_lots: PASS'' @ nl)) s2 = Some s3" "tst lits buf {} s3"
    "out s3 = fold emit (bytes_of (pass_line ''err_open_lots'')) (out s2)" by metis
  then show "\<exists>s'. err_open_lots os lits s = Some (s', 0) \<and> tst lits buf {} s' \<and> out s' = fold emit (bytes_of (pass_line ''err_open_lots'')) (out s)"
    unfolding err_open_lots_def s1(1) bind.bind_lunit prod.case s2(1) using s1(3) s2(3) by simp
qed

text \<open>All tests, and the choice of one.\<close>

lemma tests_pass: "list_all2 (passed lits buf) syserr_names (syserr_tests os lits tbuf)"
  by (simp add: syserr_names_def syserr_tests_def err_fd_passes err_open_lots_passes err_open_passes err_unopened_passes
      err_vidmap_passes err_stdin_out_passes err_syscall_num_passes)

lemma run_tests_pass:
  "list_all2 (passed lits buf) ns ts \<Longrightarrow> tst lits buf {} s \<Longrightarrow>
    \<exists>s'. run_tests ts (s, 0) = Some (s', 0) \<and> tst lits buf {} s' \<and> out s' = fold emit (bytes_of (concat (map pass_line ns))) (out s)"
proof (induction arbitrary: s rule: list_all2_induct)
  case (Cons n ns t ts)
  from Cons.hyps(1) Cons.prems obtain s1 where s1: "t s = Some (s1, 0)" "tst lits buf {} s1"
    "out s1 = fold emit (bytes_of (pass_line n)) (out s)" by (auto simp: passes_def)
  from Cons.IH [OF s1(2)] s1 show ?case by auto
qed simp

lemma syserr_switch_passes:
  assumes "tst lits buf {} s"
  shows "\<exists>s'. syserr_switch os lits tbuf (uint c - 48) s = Some (s', 0) \<and> out s' = fold emit (bytes_of (verdict c)) (out s)"
proof -
  have sel: "uint c - 48 = 0 \<longleftrightarrow> c = 48" "(1 \<le> uint c - 48 \<and> uint c - 48 \<le> 8) \<longleftrightarrow> 49 \<le> unat c \<and> unat c \<le> 56"
    "nat (uint c - 48 - 1) = unat c - 49"
    by (auto simp: word_uint_eq_iff simp flip: uint_nat nat_uint_eq)
  consider (all) "c = 48" | (one) "c \<noteq> 48" "49 \<le> unat c" "unat c \<le> 56" | (other) "c \<noteq> 48" "\<not> (49 \<le> unat c \<and> unat c \<le> 56)"
    by blast
  then show ?thesis
  proof cases
    case all
    let ?o = "nl @ ''Overall Tests: PASS'' @ nl"
    from run_tests_pass [OF tests_pass assms] obtain s3 where s3: "run_tests (syserr_tests os lits tbuf) (s, 0) = Some (s3, 0)" "tst lits buf {} s3"
      "out s3 = fold emit (bytes_of (concat (map pass_line syserr_names))) (out s)" by blast
    have "?o \<in> set syserr_texts" by (simp add: syserr_texts_def)
    from puts_text [OF s3(2) this] obtain s4 where s4: "ece391_fdputs os 1 (lits ?o) s3 = Some s4" "out s4 = fold emit (bytes_of ?o) (out s3)" by blast
    have "syserr_switch os lits tbuf (uint c - 48) s = Some (s4, 0)"
      unfolding syserr_switch_def sel if_P [OF all] s3(1) using s4(1) by simp
    moreover have "out s4 = fold emit (bytes_of (verdict c)) (out s)"
      unfolding s4(2) s3(3) all verdict_def if_P [OF refl] map_append fold_append comp_apply ..
    ultimately show ?thesis by blast
  next
    case one
    have j: "unat c - 49 < length syserr_names" using one by (simp add: syserr_names_def)
    from list_all2_nthD [OF tests_pass j, of lits buf tbuf] assms show ?thesis
      unfolding passes_def syserr_switch_def sel verdict_def using one by auto
  next
    case other
    have "''Invalid test number. Choose from tests 1-8 or 0'' \<in> set syserr_texts" by (simp add: syserr_texts_def)
    from puts_text [OF assms this] show ?thesis
      unfolding syserr_switch_def sel verdict_def if_not_P [OF other(1)] if_not_P [OF other(2)] by auto
  qed
qed

lemma syserr_main_passes:
  assumes "tst lits buf {} s" "typing cs s" "cs \<noteq> []" "length cs \<le> 127"
    "literal lits buf (os_mem os s) ''Choose from tests 1-8. 0 to run all: ''"
  shows "\<exists>s'. syserr_main os lits buf tbuf s = Some (s', 0)
    \<and> out s' = fold emit (bytes_of ''Choose from tests 1-8. 0 to run all: '' @ cs @ [10] @ bytes_of (verdict (hd cs))) (out s)"
proof -
  let ?prompt = "''Choose from tests 1-8. 0 to run all: ''"
  from fdputs_literal [OF tst_ok(1) [OF assms(1)] assms(2,5)] obtain s1 where s1: "ece391_fdputs os 1 (lits ?prompt) s = Some s1" "ok s1"
    "typing cs s1" "os_mem os s1 = os_mem os s" "descr s1 = descr s" "out s1 = fold emit (bytes_of ?prompt) (out s)" by blast
  have "int (length cs) \<le> sint (127 :: u32)" using assms(4) by simp
  from read_line [OF s1(2,3) this, of buf] obtain s2 where s2: "os_read os 0 buf 127 s1 = Some (s2, of_nat (length cs))" "ok s2"
    "descr s2 = descr s1" "out s2 = fold emit (cs @ [10]) (out s1)"
    "os_mem os s2 = (\<lambda>a. if unat (a - buf) < length cs then cs ! unat (a - buf)
       else if unat (a - buf) = length cs \<and> cs \<noteq> [] then 0 else os_mem os s1 a)" by blast
  have lit: "literal lits buf (os_mem os s2) t" if "literal lits buf (os_mem os s) t" for t
    by (rule literal_cong [OF _ that]) (use assms(4) in \<open>simp add: s2(5) s1(4)\<close>)
  then have t2: "tst lits buf {} s2" using assms(1) s2(2,3) s1(5) unfolding testing_def by simp
  have c: "os_mem os s2 buf = hd cs" using assms(3) by (simp add: s2(5) hd_conv_nth)
  have cnt: "(of_nat (length cs) :: u32) \<noteq> -1" using small_count(4) [of "length cs"] assms(4) by simp
  have "syserr_main os lits buf tbuf s = syserr_switch os lits tbuf (uint (hd cs) - 48) s2"
    unfolding syserr_main_def s1(1) bind.bind_lunit s2(1) prod.case c if_not_P [OF cnt] ..
  with syserr_switch_passes [OF t2, of tbuf "hd cs"] show ?thesis unfolding s2(4) s1(6) fold_append comp_apply by simp
qed

end

section \<open>The kernel's refusals\<close>

definition open_set :: "nat set \<Rightarrow> (nat \<Rightarrow> fd_struct) \<times> str \<Rightarrow> bool" where
  "open_set S d \<longleftrightarrow> S \<subseteq> {2..<8} \<and> (\<forall>i. 2 \<le> i \<longrightarrow> i < 8 \<longrightarrow> flags (fst d i) = (if i \<in> S then 1 else 0))"

definition has_entry :: "u8 list \<Rightarrow> (nat \<Rightarrow> fd_struct) \<times> str \<Rightarrow> bool" where
  "has_entry cs d \<longleftrightarrow> length cs \<le> 32 \<and> (\<exists>j. find (\<lambda>j. dir_name (snd d) j = cs) [0..<unat (num_dir (snd d))] = Some j
     \<and> load32 (snd d) (directory_offset (of_nat j) + 32) \<in> {1, 2})"

definition no_entry :: "u8 list \<Rightarrow> (nat \<Rightarrow> fd_struct) \<times> str \<Rightarrow> bool" where
  "no_entry cs d \<longleftrightarrow> cs \<notin> dir_name (snd d) ` {0..<unat (num_dir (snd d))}"

lemma kernel_calls:
  "os_read (kernel_os e child) fd b n = do_call e child 3 fd b n" "os_write (kernel_os e child) fd b n = do_call e child 4 fd b n"
  "os_open (kernel_os e child) p = do_call e child 5 p 0 0" "os_close (kernel_os e child) fd = do_call e child 6 fd 0 0"
  "os_vidmap (kernel_os e child) p = do_call e child 8 p 0 0" "os_call (kernel_os e child) m = do_call e child m 0 0 0"
  by (simp_all add: kernel_os_def)

abbreviation kernel_denies :: "env \<Rightarrow> (kernel \<Rightarrow> u32 \<Rightarrow> u32 \<Rightarrow> (kernel \<times> i32) option) \<Rightarrow> (kernel \<Rightarrow> (kernel \<times> i32) option) \<Rightarrow> kernel \<Rightarrow> bool" where
  "kernel_denies e child \<equiv> refused (kernel_os e child) user_ok scr descriptors"

lemma denied_call:
  assumes "user_ok k" "sys_call e m x y z k = Some (Returns (sti k1) (-1))" "k1 = trap_entry k \<or> k1 = cli (trap_entry k)"
  shows "kernel_denies e child (do_call e child m x y z) k"
proof -
  have "do_call e child m x y z k = Some (sti k1, -1)" by (simp add: do_call_def assms(2))
  moreover have "kesp (sti k1) = kesp (trap_entry k)" "tss_esp0 (sti k1) = tss_esp0 k" "boot_block (sti k1) = boot_block k" "scr (sti k1) = scr k"
    "user_mem (sti k1) = user_mem k"
    using assms(3) by (auto simp: sti_def cli_def trap_entry_def user_mem_def)
  moreover have "curr_pcb (sti k1) = curr_pcb (trap_entry k)" using assms(3) by (auto simp: curr_pcb_frame)
  ultimately show ?thesis using call_state [of "sti k1" k] assms(1) by (auto simp: refused_def)
qed

lemma denied_read:
  assumes "user_ok k" "sys_read e fd b n (trap_entry k) = Some (trap_entry k, -1)"
  shows "kernel_denies e child (os_read (kernel_os e child) fd b n) k"
  unfolding kernel_calls by (rule denied_call [OF assms(1)]) (simp add: sys_call_def returns_def assms(2), simp)

lemma denied_write:
  assumes "user_ok k" "sys_write e fd b n (trap_entry k) = Some (trap_entry k, -1)"
  shows "kernel_denies e child (os_write (kernel_os e child) fd b n) k"
  unfolding kernel_calls by (rule denied_call [OF assms(1)]) (simp add: sys_call_def returns_def assms(2), simp)

lemma denied_close:
  assumes "user_ok k" "sint fd < 2 \<or> 8 \<le> sint fd \<or> flags (fd_array (proc k) (unat fd)) = 0"
  shows "kernel_denies e child (os_close (kernel_os e child) fd) k"
proof -
  have "sys_close fd (trap_entry k) = (cli (trap_entry k), -1)" by (rule sys_close_refused) (use assms(2) in \<open>simp add: proc_def\<close>)
  then show ?thesis
    unfolding kernel_calls by (intro denied_call [OF assms(1)]) (simp add: sys_call_def returns_def, simp)
qed

lemma kernel_bad_fd:
  assumes "user_ok k" "sint fd < 0 \<or> 8 \<le> sint fd"
  shows "kernel_denies e child (os_read (kernel_os e child) fd b n) k" "kernel_denies e child (os_write (kernel_os e child) fd b n) k"
    "kernel_denies e child (os_close (kernel_os e child) fd) k"
proof -
  have "fd_bad fd" using assms(2) by (simp add: fd_bad_def FD_ARRAY_SIZE_def)
  then show "kernel_denies e child (os_read (kernel_os e child) fd b n) k" "kernel_denies e child (os_write (kernel_os e child) fd b n) k"
    by (simp_all add: denied_read denied_write assms(1) sys_read_def sys_write_def)
  show "kernel_denies e child (os_close (kernel_os e child) fd) k" by (rule denied_close) (use assms in auto)
qed

lemma kernel_unopened:
  assumes "user_ok k" "2 \<le> i" "i < 8" "flags (fd_array (proc k) i) = 0"
  shows "kernel_denies e child (os_read (kernel_os e child) (of_nat i) b n) k" "kernel_denies e child (os_write (kernel_os e child) (of_nat i) b n) k"
    "kernel_denies e child (os_close (kernel_os e child) (of_nat i)) k"
proof -
  note i = fd_number [OF assms(3)] assms(4) [unfolded proc_def]
  then show "kernel_denies e child (os_read (kernel_os e child) (of_nat i) b n) k" "kernel_denies e child (os_write (kernel_os e child) (of_nat i) b n) k"
    by (simp_all add: denied_read denied_write assms(1) sys_read_def sys_write_def Let_def)
  show "kernel_denies e child (os_close (kernel_os e child) (of_nat i)) k" by (rule denied_close) (use assms i in auto)
qed

lemma kernel_standard:
  assumes "user_ok k"
  shows "kernel_denies e child (os_write (kernel_os e child) 0 b n) k" "kernel_denies e child (os_read (kernel_os e child) 1 b n) k"
    "kernel_denies e child (os_close (kernel_os e child) 0) k" "kernel_denies e child (os_close (kernel_os e child) 1) k"
proof -
  have fd: "\<not> fd_bad 0" "\<not> fd_bad 1" by (simp_all add: fd_bad_def FD_ARRAY_SIZE_def)
  have t: "flags (curr_fd 0 (trap_entry k)) = 1" "file_operations (curr_fd 0 (trap_entry k)) = Some terminal_input_jump_table"
    "flags (curr_fd 1 (trap_entry k)) = 1" "file_operations (curr_fd 1 (trap_entry k)) = Some terminal_output_jump_table"
    using assms by (simp_all add: user_ok_def fds_ok_def proc_def)
  show "kernel_denies e child (os_write (kernel_os e child) 0 b n) k" "kernel_denies e child (os_read (kernel_os e child) 1 b n) k"
    by (rule denied_write denied_read; use assms fd t in \<open>simp add: sys_read_def sys_write_def Let_def null_func_def\<close>)+
  show "kernel_denies e child (os_close (kernel_os e child) 0) k" "kernel_denies e child (os_close (kernel_os e child) 1) k"
    by (rule denied_close [OF assms]; simp)+
qed

lemma kernel_vidmap_refused:
  assumes "user_ok k" "unat p < 0x08000000"
  shows "kernel_denies e child (os_vidmap (kernel_os e child) p) k"
proof -
  have "p < USER_PROG_LOC" using assms(2) by (simp add: USER_PROG_LOC_def word_less_nat_alt)
  then have "vidmap p (trap_entry k) = Some (trap_entry k, -1)" by (simp add: vidmap_def)
  then show ?thesis unfolding kernel_calls by (intro denied_call [OF assms(1)]) (simp add: sys_call_def returns_def, simp)
qed

lemma kernel_no_call: "user_ok k \<Longrightarrow> sint m < 1 \<or> 10 < sint m \<Longrightarrow> kernel_denies e child (os_call (kernel_os e child) m) k"
  unfolding kernel_calls by (rule denied_call) (assumption, simp add: sys_call_def returns_def, simp)

lemma kernel_open_refused:
  assumes "user_ok k" "free_fd (trap_entry k) = None \<or> p \<noteq> 0 \<and> cstr (view (user_mem k) p) cs \<and> no_entry cs (descriptors k)"
  shows "kernel_denies e child (os_open (kernel_os e child) p) k"
proof -
  have "sys_open e p (trap_entry k) = Some (trap_entry k, -1)"
  proof (cases "free_fd (trap_entry k)")
    case None
    then show ?thesis by (simp add: sys_open_def)
  next
    case (Some i)
    with assms(2) have p: "p \<noteq> 0" "cstr (view (user_mem k) p) cs" "no_entry cs (descriptors k)" by simp_all
    have "find (\<lambda>j. dir_name (boot_block k) j = cs) [0..<unat (num_dir (boot_block k))] = None"
      using p(3) by (auto simp: find_None_iff no_entry_def descriptors_def)
    moreover have "names_end (boot_block k)" using assms(1) by (simp add: user_ok_def)
    ultimately have "read_dentry_by_name (boot_block k) (Some (view (user_mem k) p)) (Some (uninit_dentry e)) = Some (-1, Some (uninit_dentry e))"
      using read_dentry_by_name_eq [OF p(2), of "boot_block k" "uninit_dentry e"] by simp
    then show ?thesis using Some p(1) by (simp add: sys_open_def str_at_def)
  qed
  then show ?thesis unfolding kernel_calls by (intro denied_call [OF assms(1)]) (simp add: sys_call_def returns_def, simp)
qed

lemma open_set_insert:
  assumes "open_set {2..<i} d" "2 \<le> i" "i < 8" "fst d' = (fst d)(i := f)" "flags f = 1"
  shows "open_set {2..<Suc i} d'"
  using assms by (auto simp: open_set_def less_Suc_eq)

interpretation ke: error_calls "kernel_os e child" user_ok putc scr descriptors "types_line e" open_set has_entry no_entry for e child
proof
  show "kernel_denies e child (os_read (kernel_os e child) fd b n) k \<and> kernel_denies e child (os_write (kernel_os e child) fd b n) k
      \<and> kernel_denies e child (os_close (kernel_os e child) fd) k" if "user_ok k" "sint fd < 0 \<or> 8 \<le> sint fd" for k fd b n
    by (intro conjI kernel_bad_fd [OF that])
  show "kernel_denies e child (os_read (kernel_os e child) (of_nat i) b n) k \<and> kernel_denies e child (os_write (kernel_os e child) (of_nat i) b n) k
      \<and> kernel_denies e child (os_close (kernel_os e child) (of_nat i)) k"
    if "user_ok k" "open_set S (descriptors k)" "2 \<le> i" "i < 8" "i \<notin> S" for k S i b n
    by (intro conjI kernel_unopened [OF that(1,3,4)]) (use that in \<open>simp_all add: open_set_def descriptors_def\<close>)
  show "kernel_denies e child (os_write (kernel_os e child) 0 b n) k \<and> kernel_denies e child (os_read (kernel_os e child) 1 b n) k
      \<and> kernel_denies e child (os_close (kernel_os e child) 0) k \<and> kernel_denies e child (os_close (kernel_os e child) 1) k"
    if "user_ok k" for k b n
    by (intro conjI kernel_standard [OF that])
  show "kernel_denies e child (os_vidmap (kernel_os e child) p) k" if "user_ok k" "unat p < 0x08000000" for k p
    by (rule kernel_vidmap_refused [OF that])
  show "kernel_denies e child (os_call (kernel_os e child) m) k" if "user_ok k" "sint m < 1 \<or> 10 < sint m" for k m
    by (rule kernel_no_call [OF that])
  show "kernel_denies e child (os_open (kernel_os e child) p) k"
    if "user_ok k" "p \<noteq> 0" "cstr (view (os_mem (kernel_os e child) k) p) cs" "no_entry cs (descriptors k)" for k p cs
    by (rule kernel_open_refused [OF that(1), of p cs]) (use that in simp)
  show "kernel_denies e child (os_open (kernel_os e child) p) k" if "user_ok k" "open_set {2..<8} (descriptors k)" for k p
  proof (rule kernel_open_refused [OF that(1)], rule disjI1)
    show "free_fd (trap_entry k) = None"
      using that(2) by (auto simp: free_fd_def find_None_iff FD_ARRAY_SIZE_def open_set_def descriptors_def proc_def simp del: upt_rec_numeral)
  qed
  show "\<exists>k'. os_open (kernel_os e child) p k = Some (k', of_nat i) \<and> user_ok k' \<and> os_mem (kernel_os e child) k' = os_mem (kernel_os e child) k
      \<and> scr k' = scr k \<and> open_set {2..<Suc i} (descriptors k')
      \<and> (\<forall>cs. has_entry cs (descriptors k') = has_entry cs (descriptors k) \<and> no_entry cs (descriptors k') = no_entry cs (descriptors k))"
    if "user_ok k" "open_set {2..<i} (descriptors k)" "2 \<le> i" "i < 8" "p \<noteq> 0" "cstr (view (os_mem (kernel_os e child) k) p) cs"
      "has_entry cs (descriptors k)" for k i p cs
  proof -
    from that(7) obtain j where j: "length cs \<le> 32" "find (\<lambda>j. dir_name (boot_block k) j = cs) [0..<unat (num_dir (boot_block k))] = Some j"
      "load32 (boot_block k) (directory_offset (of_nat j) + 32) \<in> {1, 2}" by (auto simp: has_entry_def descriptors_def)
    have fl: "flags (fd_array (proc k) i) = 0" "\<forall>l. 2 \<le> l \<longrightarrow> l < i \<longrightarrow> flags (fd_array (proc k) l) \<noteq> 0"
      using that(2-4) by (auto simp: open_set_def descriptors_def)
    from kernel_open [OF that(1,5) that(6) [unfolded kernel_os_mem] j(1,2) refl _ that(4,3) fl, of e child] j(3)
    show ?thesis
      using open_set_insert [OF that(2-4)] by (auto simp: descriptors_def has_entry_def no_entry_def opened_def)
  qed
  show "\<exists>k'. os_close (kernel_os e child) (of_nat i) k = Some (k', 0) \<and> user_ok k' \<and> os_mem (kernel_os e child) k' = os_mem (kernel_os e child) k
      \<and> scr k' = scr k \<and> open_set (S - {i}) (descriptors k')
      \<and> (\<forall>cs. has_entry cs (descriptors k') = has_entry cs (descriptors k) \<and> no_entry cs (descriptors k') = no_entry cs (descriptors k))"
    if "user_ok k" "open_set S (descriptors k)" "i \<in> S" for k S i
  proof -
    have i: "2 \<le> i" "i < 8" "flags (fd_array (proc k) i) = 1" using that(2,3) by (auto simp: open_set_def descriptors_def)
    have "file_operations (fd_array (proc k) i) \<notin> {None, Some terminal_input_jump_table, Some terminal_output_jump_table}"
      using that(1) i by (auto simp: user_ok_def fds_ok_def)
    then have "user_ok (after_fd i (\<lambda>f. f\<lparr>flags := 0\<rparr>) (user_mem k) k)"
      by (intro user_ok_fd [OF that(1) i(2,1) after_fd_sel(1,3)]) simp_all
    then show ?thesis
      using kernel_close [OF that(1) i, of e child] that(2) i
      by (auto simp: after_fd_sel descriptors_def has_entry_def no_entry_def open_set_def)
  qed
qed

section \<open>Properties\<close>

text \<open>
  C9: the kernel passes the error test that comes with it: on a process with no files open, whose image has
  the directory and no files called \<open>helloo\<close>, \<open>shel\<close> or by an empty name, \<open>syserr\<close> returns 0 for every line typed
  that is not empty and prints that the chosen test passed, that all eight passed, or that there is no such test. So calls on
  negative, too big and closed descriptors, on the wrong direction of the terminal, with unknown names,
  on a full table, with kernel pointers and with wrong numbers all return -1, and the process goes on.
\<close>

theorem syserr_passes:
  assumes "user_ok k" "\<forall>i. 2 \<le> i \<longrightarrow> i < 8 \<longrightarrow> flags (fd_array (proc k) i) = 0"
    "has_entry (bytes_of ''.'') (descriptors k)" "\<forall>t \<in> {''helloo'', ''shel'', []}. no_entry (bytes_of t) (descriptors k)"
    "types_line e cs k" "cs \<noteq> []" "length cs \<le> 127"
    "\<forall>t \<in> set syserr_texts. lits t \<noteq> 0 \<and> literal lits buf (user_mem k) t"
    "literal lits buf (user_mem k) ''Choose from tests 1-8. 0 to run all: ''"
  shows "\<exists>k'. syserr_main (kernel_os e child) lits buf tbuf k = Some (k', 0)
     \<and> scr k' = fold putc (bytes_of ''Choose from tests 1-8. 0 to run all: '' @ cs @ [10] @ bytes_of (verdict (hd cs))) (scr k)"
proof -
  have "open_set {} (descriptors k)" using assms(2) by (simp add: open_set_def descriptors_def)
  then have "testing (kernel_os e child) user_ok descriptors open_set has_entry no_entry lits buf {} k"
    using assms(1,3,4,8) unfolding testing_def kernel_os_mem by blast
  then show ?thesis using ke.syserr_main_passes [OF _ assms(5-7), of child lits buf tbuf] assms(9) unfolding kernel_os_mem by blast
qed

definition syserr_kernel :: kernel where
  "syserr_kernel = set_user_mem (program_mem (syserr_texts @ [''Choose from tests 1-8. 0 to run all: ''])) (tiny_kernel\<lparr>boot_block := dot_image\<rparr>)"

lemma syserr_kernel_sel:
  "boot_block syserr_kernel = dot_image" "proc syserr_kernel = blank_pcb" "user_ok syserr_kernel"
  "user_mem syserr_kernel = program_mem (syserr_texts @ [''Choose from tests 1-8. 0 to run all: ''])" "types_line (typist [48]) [48] syserr_kernel"
proof -
  show s: "boot_block syserr_kernel = dot_image" "proc syserr_kernel = blank_pcb"
    by (simp_all add: syserr_kernel_def tiny_kernel_def proc_def curr_pcb_def trap_entry_def set_user_mem_def)
  show "user_ok syserr_kernel" by (simp add: user_ok_def s fds_ok_def dot_image_names NUM_DIR_def)
  show "user_mem syserr_kernel = program_mem (syserr_texts @ [''Choose from tests 1-8. 0 to run all: ''])" by (simp add: syserr_kernel_def)
  show "types_line (typist [48]) [48] syserr_kernel"
    by (simp add: types_line_def typist_def syserr_kernel_def set_user_mem_def tiny_kernel_def line_def line_ok_def MAX_BUFFER_SIZE_def)
qed

lemma program_lits_nonzero: "length texts \<le> 16 \<Longrightarrow> program_lits texts s \<noteq> 0"
proof -
  assume l: "length texts \<le> 16"
  let ?j = "length (takeWhile (\<lambda>t. t \<noteq> s) texts)"
  have "program_lits texts s = of_nat (134512640 + 4096 * ?j)" by (simp add: program_lits_def)
  moreover have "unat (of_nat (134512640 + 4096 * ?j) :: u32) = 134512640 + 4096 * ?j"
    using l length_takeWhile_le [of "\<lambda>t. t \<noteq> s" texts] by (intro unat_of_nat32) linarith
  ultimately have "unat (program_lits texts s) \<noteq> 0" by (simp only:)
  then show ?thesis by auto
qed

theorem syserr_passes_witness:
  "\<exists>k'. syserr_main (kernel_os (typist [48]) (\<lambda>_ _ _. None)) (program_lits (syserr_texts @ [''Choose from tests 1-8. 0 to run all: '']))
        0x083FF000 0x083FE000 syserr_kernel = Some (k', 0)
     \<and> scr k' = fold putc (bytes_of ''Choose from tests 1-8. 0 to run all: '' @ [48, 10] @ bytes_of (verdict 48)) (scr syserr_kernel)"
proof -
  let ?t = "syserr_texts @ [''Choose from tests 1-8. 0 to run all: '']"
  have len: "length ?t \<le> 16" by (simp add: syserr_texts_def syserr_names_def)
  have "\<forall>t \<in> set ?t. length t < 4096 \<and> CHR 0x00 \<notin> set t"
    by (simp add: syserr_texts_def syserr_names_def pass_line_def)
  then have lit: "literal (program_lits ?t) 0x083FF000 (user_mem syserr_kernel) t" if "t \<in> set ?t" for t
    unfolding syserr_kernel_sel(4) using that len by (intro program_literal) blast+
  have d: "unat (num_dir dot_image) = 2" "[0..<2] = [0, Suc 0]" "load32 dot_image (directory_offset 0 + 32) = 1"
    by (simp_all add: dot_image_names upt_rec) (simp add: load32_def directory_offset_def dot_image_def)
  have "has_entry (bytes_of ''.'') (descriptors syserr_kernel)"
    by (simp add: has_entry_def descriptors_def syserr_kernel_sel d dot_image_names)
  moreover have "\<forall>t \<in> {''helloo'', ''shel'', []}. no_entry (bytes_of t) (descriptors syserr_kernel)"
    by (simp add: no_entry_def descriptors_def syserr_kernel_sel d atLeast0LessThan lessThan_nat_numeral dot_image_names lessThan_Suc)
  moreover have "\<forall>i. 2 \<le> i \<longrightarrow> i < 8 \<longrightarrow> flags (fd_array (proc syserr_kernel) i) = 0" by (simp add: syserr_kernel_sel)
  ultimately show ?thesis
    using syserr_passes [OF syserr_kernel_sel(3) _ _ _ syserr_kernel_sel(5), of "program_lits ?t" "0x083FF000" "\<lambda>_ _ _. None" "0x083FE000"]
      lit program_lits_nonzero [OF len] by simp
qed

end
