(* ===== verification/Session.thy ===== *)
theory Session
  imports UserInput
begin

text \<open>
  Programs run by the shell, from the keyboard to the screen and back: a command line is typed, the shell
  calls \<open>execute\<close>, the kernel loads the program and enters it, \<open>_start\<close> of \<^verbatim>\<open>syscalls/ece391syscall.S\<close> calls its \<open>main\<close> and
  then \<open>halt\<close>, and the shell goes on. That the loaded file is the program of the source is the hypothesis on
  \<open>child\<close>, the parameter that stands for the user code of a process: from the entry point of the file it
  behaves as \<open>start_program\<close> of the modelled \<open>main\<close> (over \<open>child'\<close>, for the programs it may start in turn).
\<close>

section \<open>Model\<close>

definition start_program ::
  "env \<Rightarrow> (kernel \<Rightarrow> u32 \<Rightarrow> u32 \<Rightarrow> (kernel \<times> i32) option) \<Rightarrow> (kernel os \<Rightarrow> kernel \<Rightarrow> (kernel \<times> i32) option)
    \<Rightarrow> kernel \<Rightarrow> (kernel \<times> i32) option" where
  "start_program e child main k = do { (k, r) \<leftarrow> main (kernel_os e child) k; do_call e child 1 r 0 0 k }"

section \<open>One program\<close>

text \<open>Process \<open>m\<close> runs in the foreground of the active terminal.\<close>

definition running :: "u32 \<Rightarrow> kernel \<Rightarrow> bool" where
  "running m k \<longleftrightarrow> unat m < 6 \<and> tss_esp0 k = kstack_top m \<and> processes k (unat m) = 1 \<and> process_num (proc k) = m
     \<and> window (pg k) = m \<and> tty_top_pid k (unat (active_tty k)) = ucast m \<and> next_one_is_root_shell k = 0"

lemma running_pcb: "running m k \<Longrightarrow> get_pcb (trap_entry k) = pcb_loc m \<and> proc k = pcbs k (pcb_loc m)"
  using get_pcb_trap [of k m] by (simp add: running_def proc_def curr_pcb_def)

lemma running_same:
  assumes "running m k" "same_rest k k'"
  shows "running m k'"
proof -
  from assms(2) obtain f where "pcbs k' = (pcbs k)(get_pcb (trap_entry k) := (proc k)\<lparr>fd_array := f\<rparr>)" by (auto simp: same_rest_def)
  then have "process_num (proc k') = process_num (proc k)"
    using same_rest_trap [OF assms(2)] by (simp add: proc_def curr_pcb_def)
  then show ?thesis using assms by (simp add: running_def same_rest_def)
qed

text \<open>A process that has just been entered with the arguments \<open>arg\<close>.\<close>

definition entered :: "u8 list \<Rightarrow> kernel \<Rightarrow> bool" where
  "entered arg k \<longleftrightarrow> user_ok k \<and> cstr (\<lambda>i. args (proc k) (unat i)) arg \<and> (\<forall>i \<in> {2..<8}. flags (fd_array (proc k) i) = 0)"

lemma command_line:
  assumes "cstr s (name @ 32 # arg)" "32 \<notin> set name" "length name + length arg < 132"
  shows "\<forall>j < length name. s (of_nat j) \<noteq> 32 \<and> s (of_nat j) \<noteq> 0" "s (of_nat (length name)) = 32"
    "map (\<lambda>j. s (of_nat j)) [0..<length name] = name" "chars (view s (of_nat (length name + 1))) 0 (132 - length name) = arg"
proof -
  have at: "s (of_nat j) = name ! j" if "j < length name" for j using assms(1) that by (auto simp: cstr_def nth_append)
  have no: "0 \<notin> set (name @ 32 # arg)" using assms(1) unfolding cstr_def in_set_conv_nth by blast
  show "\<forall>j < length name. s (of_nat j) \<noteq> 32 \<and> s (of_nat j) \<noteq> 0" using at assms(2) no by (auto dest: nth_mem)
  show "s (of_nat (length name)) = 32" using assms(1) by (auto simp: cstr_def nth_append dest: spec [of _ "length name"])
  show "map (\<lambda>j. s (of_nat j)) [0..<length name] = name" using at by (auto intro: nth_equalityI)
  have "cstr (view s (of_nat (length name + 1))) arg"
    unfolding cstr_def view_def
  proof (intro conjI allI impI)
    fix i assume "i < length arg"
    then have "length name + 1 + i < length (name @ 32 # arg)" by simp
    then have "s (of_nat (length name + 1 + i)) = (name @ 32 # arg) ! (length name + 1 + i) \<and> (name @ 32 # arg) ! (length name + 1 + i) \<noteq> 0"
      using assms(1) unfolding cstr_def by blast
    then show "s (of_nat (length name + 1) + of_nat i) = arg ! i" "arg ! i \<noteq> 0"
      by (simp_all add: nth_append add.assoc)
  qed (use assms(1) in \<open>simp_all add: cstr_def add.assoc\<close>)
  then show "chars (view s (of_nat (length name + 1))) 0 (132 - length name) = arg" using assms(3) by (intro chars_cstr) auto
qed

text \<open>Process \<open>m\<close> in state \<open>k\<close> has started process \<open>n\<close>, which is entered in \<open>k'\<close>.\<close>

definition child_of :: "u32 \<Rightarrow> u32 \<Rightarrow> kernel \<Rightarrow> kernel \<Rightarrow> bool" where
  "child_of m n k k' \<longleftrightarrow>
     boot_block k' = boot_block k \<and> active_tty k' = active_tty k \<and> pt_addr k' = pt_addr k
     \<and> processes k (unat n) = 0 \<and> processes k' = (processes k)(unat n := 1)
     \<and> tty_top_pid k' = (tty_top_pid k)(unat (active_tty k) := ucast n) \<and> (\<exists>mem. umem k' = (umem k)(n := mem))
     \<and> (\<exists>p b s. parent p = pcb_loc m \<and> process_num p = n \<and> tty p = active_tty k
          \<and> pcbs k' = (pcbs k)(pcb_loc m := (proc k)\<lparr>ebp := b, esp := s\<rparr>, pcb_loc n := p))"

lemma execute_enters:
  assumes "running m k" "user_ok k" "free_process k = Some i" "i \<noteq> 0" "cstr (view (user_mem k) c) (name @ 32 # arg)" "32 \<notin> set name"
    "length name + length arg < 132" "runnable (boot_block k) name ino" "bs = file_bytes (boot_block k) ino" "40 \<le> length bs"
  obtains k' where "sys_call e 2 c 0 0 k = Some (Enters k' (entry_of bs) 0x083FFFFC)" "entered arg k'" "running (of_nat i) k'"
    "child_of m (of_nat i) k k'" "scr k' = scr k" "user_mem k' = loaded bs (umem k (of_nat i))"
    "tail k' = tail k" "terminal_buffer k' = terminal_buffer k" "enter_status k' = enter_status k"
    "pg k' = create_page (pt_addr k) (of_nat i) (pg k)"
proof -
  define kt where "kt = trap_entry k"
  define n :: u32 where "n = of_nat i"
  have fr: "free_process kt = Some i" using assms(3) by (simp add: free_process_def kt_def trap_entry_def)
  note slot = slot_number [OF fr, folded n_def]
  note line = command_line [OF assms(5-7)]
  have "length name < 133" "runnable (boot_block kt) (map (\<lambda>j. view (user_mem k) c (of_nat j)) [0..<length name]) ino"
    "bs = file_bytes (boot_block kt) ino"
    using assms(7-9) line(3) by (simp_all add: kt_def)
  from execute_named [OF fr this(1) line(1) disjI1 [OF line(2)] this(2,3) assms(10) line(4) [symmetric], of e]
  obtain argv where run: "execute e (view (user_mem k) c) kt = Some (Enters (started (new_pcb e argv n kt) n (loaded bs (umem kt n)) kt)
      (entry_of bs) 0x083FFFFC)" "cstr argv arg" "length arg < 133"
    unfolding n_def by blast
  define p where "p = new_pcb e argv n kt"
  define k' where "k' = started p n (loaded bs (umem kt n)) kt"
  have m: "get_pcb kt = pcb_loc m" "proc k = pcbs k (pcb_loc m)" using running_pcb [OF assms(1)] by (simp_all add: kt_def)
  have par: "parent p = pcb_loc m" "process_num p = n" "tty p = active_tty k"
    using assms(1,4) slot(5) m(1) by (simp_all add: p_def new_pcb_def Let_def running_def kt_def trap_entry_def)
  have "unat n < 512" using slot(1,4) by simp
  moreover have esp0: "tss_esp0 k' = kstack_top n" by (simp add: k'_def started_def)
  ultimately have a: "get_pcb (trap_entry k') = pcb_loc n" by (intro get_pcb_trap)
  then have proc: "proc k' = p" by (simp add: proc_def curr_pcb_def trap_entry_def k'_def started_def)
  have fds: "fd_array p j = fd_array (create_pcb (uninit_pcb e)) j" for j by (simp add: p_def new_pcb_def Let_def)
  have sel: "boot_block k' = boot_block k" "scr k' = scr k" "user_mem k' = loaded bs (umem k n)" "tail k' = tail k"
    "terminal_buffer k' = terminal_buffer k" "enter_status k' = enter_status k" "pg k' = create_page (pt_addr k) n (pg k)"
    using slot(3) by (simp_all add: k'_def started_def kt_def trap_entry_def user_mem_def window_create)
  have "cstr (\<lambda>x. args p (unat x)) arg"
    using run(2,3) unfolding cstr_def by (simp add: p_def new_pcb_def Let_def ARGS_ARR_SIZE_def)
  moreover have "fds_ok p" using create_pcb_ok [of "uninit_pcb e"] by (simp add: fds_ok_def fds)
  ultimately have "entered arg k'"
    using assms(2) by (auto simp: entered_def user_ok_def proc sel fds create_pcb_fds)
  moreover have "running n k'"
    using slot esp0 proc par(2) by (simp add: running_def k'_def started_def window_create kt_def trap_entry_def)
  moreover have "child_of m n k k'"
  proof -
    have "processes k i = 0" using free_process_less [OF assms(3)] by blast
    then show ?thesis
      using par m slot(4) unfolding child_of_def
      by (intro conjI exI [of _ p] exI [of _ "kebp kt"] exI [of _ "kesp kt"] exI [of _ "loaded bs (umem kt n)"])
        (simp_all add: k'_def started_def kt_def trap_entry_def)
  qed
  moreover have "sys_call e 2 c 0 0 k = Some (Enters k' (entry_of bs) 0x083FFFFC)"
    using run(1) by (simp add: sys_call_def Let_def kt_def k'_def p_def)
  ultimately show thesis using that sel unfolding n_def by blast
qed

text \<open>The state in which process \<open>m\<close> goes on after its child \<open>n\<close> has ended in \<open>k1\<close>.\<close>

lemma parent_resumed:
  assumes "running m k" "child_of m n k k0" "running n k0" "same_rest k0 k1"
  shows "pcb_loc m \<noteq> pcb_loc n" "tss_esp0 k1 = kstack_top n" "unat n < 512" "parent (pcbs k1 (pcb_loc n)) = pcb_loc m"
    "process_num (pcbs k1 (pcb_loc n)) = n" "process_num (pcbs k1 (pcb_loc m)) = m"
    "running m (resumed m n t f k1)" "descriptors (resumed m n t f k1) = descriptors k" "umem (resumed m n t f k1) m = umem k m"
    "processes (resumed m n t f k1) = processes k" "scr (resumed m n t f k1) = scr k1"
proof -
  from assms(2) obtain mem p b s where c: "umem k0 = (umem k)(n := mem)" "parent p = pcb_loc m" "process_num p = n" "tty p = active_tty k"
    "pcbs k0 = (pcbs k)(pcb_loc m := (proc k)\<lparr>ebp := b, esp := s\<rparr>, pcb_loc n := p)" by (auto simp: child_of_def)
  from assms(4) obtain mem' f' where r: "umem k1 = (umem k0)(window (pg k0) := mem')"
    "pcbs k1 = (pcbs k0)(get_pcb (trap_entry k0) := (proc k0)\<lparr>fd_array := f'\<rparr>)" by (auto simp: same_rest_def)
  have mn: "unat m < 6" "unat n < 6" "processes k (unat m) = 1" "processes k (unat n) = 0" "window (pg k) = m"
    using assms(1-3) by (auto simp: running_def child_of_def)
  have ne: "m \<noteq> n" using mn(3,4) by auto
  have locs: "pcb_loc m \<noteq> pcb_loc n" using pcb_loc_inject [of m n] mn ne by simp
  have at: "get_pcb (trap_entry k0) = pcb_loc n" "proc k0 = p" "window (pg k0) = n"
    using running_pcb [OF assms(3)] assms(3) by (simp_all add: c(5) running_def)
  have pm: "process_num (proc k) = m" "get_pcb (trap_entry k) = pcb_loc m" "proc k = pcbs k (pcb_loc m)"
    using assms(1) running_pcb [OF assms(1)] by (auto simp: running_def)
  have pcbs1: "pcbs k1 = (pcbs k)(pcb_loc m := (proc k)\<lparr>ebp := b, esp := s\<rparr>, pcb_loc n := p\<lparr>fd_array := f'\<rparr>)"
    using r(2) at by (simp add: c(5))
  let ?k' = "resumed m n t f k1"
  show "pcb_loc m \<noteq> pcb_loc n" by (rule locs)
  show "tss_esp0 k1 = kstack_top n" using assms(3,4) by (simp add: running_def same_rest_def)
  show "unat n < 512" using mn(2) by simp
  show "parent (pcbs k1 (pcb_loc n)) = pcb_loc m" "process_num (pcbs k1 (pcb_loc n)) = n" "process_num (pcbs k1 (pcb_loc m)) = m"
    using locs c pm by (simp_all add: pcbs1)
  have kept: "processes k1 = (processes k)(unat n := 1)" "tty_top_pid k1 = (tty_top_pid k)(unat (active_tty k) := ucast n)"
    "boot_block k1 = boot_block k" "active_tty k1 = active_tty k" "next_one_is_root_shell k1 = 0" "tss_esp0 k1 = kstack_top n"
    using assms(2-4) by (simp_all add: child_of_def same_rest_def running_def)
  have trap: "get_pcb (trap_entry k1) = pcb_loc n" using same_rest_trap [OF assms(4)] at by simp
  have res: "processes ?k' = processes k" "tty_top_pid ?k' = tty_top_pid k" "tss_esp0 ?k' = kstack_top m" "boot_block ?k' = boot_block k"
    "active_tty ?k' = active_tty k" "next_one_is_root_shell ?k' = 0" "window (pg ?k') = m" "umem ?k' m = umem k m" "scr ?k' = scr k1"
    "pcbs ?k' (pcb_loc m) = (proc k)\<lparr>ebp := b, esp := s\<rparr>"
  proof -
    have "m < 1022" using mn(1) by (simp add: word_less_nat_alt)
    then show "window (pg ?k') = m" by (simp add: resumed_def sti_def window_create)
    have "tty_top_pid k (unat (active_tty k)) = ucast m" using assms(1) by (simp add: running_def)
    then show "tty_top_pid ?k' = tty_top_pid k" by (auto simp: resumed_def sti_def kept pcbs1 c(4) fun_eq_iff)
    show "processes ?k' = processes k" using mn by (auto simp: resumed_def sti_def kept fun_eq_iff)
    show "pcbs ?k' (pcb_loc m) = (proc k)\<lparr>ebp := b, esp := s\<rparr>"
      using locs by (simp add: resumed_def sti_def closed_state_def trap) (simp add: trap_entry_def pcbs1)
    show "umem ?k' m = umem k m" using ne by (simp add: resumed_def sti_def closed_state_def trap_entry_def r(1) at(3) c(1))
  qed (simp_all add: resumed_def sti_def closed_state_def trap_entry_def kept)
  have "get_pcb (trap_entry ?k') = pcb_loc m" by (rule get_pcb_trap [OF res(3)]) (use mn in simp)
  then have proc: "proc ?k' = (proc k)\<lparr>ebp := b, esp := s\<rparr>" by (simp add: proc_def curr_pcb_def trap_entry_def res(10))
  show "running m ?k'" using assms(1) mn pm(1) by (simp add: running_def res proc)
  show "descriptors ?k' = descriptors k" by (simp add: descriptors_def proc res)
  show "umem ?k' m = umem k m" "processes ?k' = processes k" "scr ?k' = scr k1" by (rule res)+
qed

text \<open>A program that is entered in \<open>k0\<close> and ends in \<open>k1\<close>, by whatever way the kernel takes, gives the machine back to its parent.\<close>

lemma program_ends:
  assumes "running m k" "user_ok k" "free_process k = Some i" "i \<noteq> 0" "cstr (view (user_mem k) c) (name @ 32 # arg)" "32 \<notin> set name"
    "length name + length arg < 132" "runnable (boot_block k) name ino" "bs = file_bytes (boot_block k) ino" "40 \<le> length bs"
    "\<And>k0. entered arg k0 \<Longrightarrow> running (of_nat i) k0 \<Longrightarrow> child_of m (of_nat i) k k0 \<Longrightarrow> user_mem k0 = loaded bs (umem k (of_nat i)) \<Longrightarrow>
       tail k0 = tail k \<Longrightarrow> terminal_buffer k0 = terminal_buffer k \<Longrightarrow> enter_status k0 = enter_status k \<Longrightarrow>
       pg k0 = create_page (pt_addr k) (of_nat i) (pg k) \<Longrightarrow>
       \<exists>k1 t f. child k0 (entry_of bs) 0x083FFFFC = Some (resumed m (of_nat i) t f k1, 0) \<and> same_rest k0 k1 \<and> scr k1 = fold putc shown (scr k0)"
  shows "\<exists>k'. os_execute (kernel_os e child) c k = Some (k', 0) \<and> scr k' = fold putc shown (scr k) \<and> running m k'
     \<and> descriptors k' = descriptors k \<and> user_mem k' = user_mem k \<and> processes k' = processes k"
proof -
  obtain k0 where k0: "sys_call e 2 c 0 0 k = Some (Enters k0 (entry_of bs) 0x083FFFFC)" "entered arg k0" "running (of_nat i) k0"
    "child_of m (of_nat i) k k0" "scr k0 = scr k" "user_mem k0 = loaded bs (umem k (of_nat i))" "tail k0 = tail k"
    "terminal_buffer k0 = terminal_buffer k" "enter_status k0 = enter_status k" "pg k0 = create_page (pt_addr k) (of_nat i) (pg k)"
    using execute_enters [OF assms(1-10)] by blast
  from assms(11) [OF k0(2-4,6-10)] obtain k1 t f where k1: "child k0 (entry_of bs) 0x083FFFFC = Some (resumed m (of_nat i) t f k1, 0)"
    "same_rest k0 k1" "scr k1 = fold putc shown (scr k0)" by blast
  note p = parent_resumed(7-) [OF assms(1) k0(4,3) k1(2), of t f]
  have "os_execute (kernel_os e child) c k = Some (resumed m (of_nat i) t f k1, 0)"
    by (simp add: kernel_os_def do_call_def k0(1) k1(1))
  moreover have "user_mem (resumed m (of_nat i) t f k1) = user_mem k" using p(1,3) assms(1) by (simp add: user_mem_def running_def)
  ultimately show ?thesis using p k1(3) k0(5) by auto
qed

text \<open>A program that only makes calls and returns.\<close>

lemma program_runs:
  assumes "running m k" "user_ok k" "free_process k = Some i" "i \<noteq> 0" "cstr (view (user_mem k) c) (name @ 32 # arg)" "32 \<notin> set name"
    "length name + length arg < 132" "runnable (boot_block k) name ino" "bs = file_bytes (boot_block k) ino" "40 \<le> length bs"
    "\<And>k'. child k' (entry_of bs) 0x083FFFFC = start_program e child' main k'"
    "\<And>k'. entered arg k' \<Longrightarrow> boot_block k' = boot_block k \<Longrightarrow> user_mem k' = loaded bs (umem k (of_nat i)) \<Longrightarrow>
       \<exists>k'' r. main (kernel_os e child') k' = Some (k'', r) \<and> same_rest k' k'' \<and> scr k'' = fold putc shown (scr k')"
  shows "\<exists>k'. os_execute (kernel_os e child) c k = Some (k', 0) \<and> scr k' = fold putc shown (scr k) \<and> running m k'
     \<and> descriptors k' = descriptors k \<and> user_mem k' = user_mem k \<and> processes k' = processes k"
proof (rule program_ends [OF assms(1-10)])
  fix k0 assume k0: "entered arg k0" "running (of_nat i) k0" "child_of m (of_nat i) k k0" "user_mem k0 = loaded bs (umem k (of_nat i))"
  have "boot_block k0 = boot_block k" using k0(3) by (simp add: child_of_def)
  from assms(12) [OF k0(1) this k0(4)] obtain k1 r where k1: "main (kernel_os e child') k0 = Some (k1, r)" "same_rest k0 k1"
    "scr k1 = fold putc shown (scr k0)" by blast
  note p = parent_resumed [OF assms(1) k0(3,2) k1(2)]
  obtain t f where "sys_call e 1 r 0 0 k1 = Some (Returns (resumed m (of_nat i) t f k1) 0)"
    using halt_resumes [OF p(2,3,1,4-6), of e r 0 0] by blast
  then show "\<exists>k1 t f. child k0 (entry_of bs) 0x083FFFFC = Some (resumed m (of_nat i) t f k1, 0) \<and> same_rest k0 k1 \<and> scr k1 = fold putc shown (scr k0)"
    using k1 by (auto simp: assms(11) start_program_def do_call_def)
qed

section \<open>Properties\<close>

text \<open>
  C5: typing \<open>cat\<close> and the name of a file at the shell's prompt shows the prompt, the line and then the bytes of
  the file, in one round of the shell's loop that ends ready for the next: the keyboard, the terminal,
  \<open>execute\<close>, the loader, the arguments, the directory, the descriptors, the screen and \<open>halt\<close> work together, and
  the shell is again the process in the foreground, with its descriptors and the process table as before.
\<close>

theorem shell_runs_cat:
  assumes "running m k" "user_ok k" "free_process k = Some i" "i \<noteq> 0"
    "types_line e (bytes_of ''cat '' @ cs) k" "0 \<notin> set cs" "length cs \<le> 32"
    "literal lits buf (user_mem k) ''391OS> ''" "literal lits buf (user_mem k) ''exit''"
    "runnable (boot_block k) (bytes_of ''cat'') ino" "40 \<le> length (file_bytes (boot_block k) ino)"
    "\<forall>k'. child k' (entry_of (file_bytes (boot_block k) ino)) 0x083FFFFC = start_program e child' (\<lambda>os. cat_main os clits cbuf) k'"
    "cbuf \<noteq> 0" "find (\<lambda>j. dir_name (boot_block k) j = cs) [0..<unat (num_dir (boot_block k))] = Some j"
    "load32 (boot_block k) (directory_offset (of_nat j) + 32) = 2"
    "inode = load32 (boot_block k) (directory_offset (of_nat j) + 36)" "inode \<le> num_inodes (boot_block k)"
  shows "\<exists>k'. shell_body (kernel_os e child) lits buf k = Some (k', None)
     \<and> scr k' = fold putc (bytes_of ''391OS> '' @ bytes_of ''cat '' @ cs @ [10] @ file_bytes (boot_block k) inode) (scr k)
     \<and> running m k' \<and> user_ok k' \<and> descriptors k' = descriptors k \<and> processes k' = processes k"
proof -
  let ?os = "kernel_os e child" and ?line = "bytes_of ''cat '' @ cs"
  have "0 \<notin> set ?line" "10 \<notin> set ?line" "kept k k" using assms(2,5,6) by (auto simp: types_line_def kept_def)
  from kr.shell_round [OF this(3) assms(5) this(1,2), unfolded kernel_os_mem, OF assms(8,9), where child = child]
  obtain k1 where k1: "kept k k1" "descriptors k1 = descriptors k" "cstr (view (user_mem k1) buf) ?line" "scr k1 = fold putc (bytes_of ''391OS> '' @ ?line @ [10]) (scr k)"
    "shell_body ?os lits buf k = do {
         (k, rval) \<leftarrow> os_execute ?os buf k1;
         k \<leftarrow> (if rval = -1 then ece391_fdputs ?os 1 (lits (''no such command'' @ nl)) k
              else if rval = 256 then ece391_fdputs ?os 1 (lits (''program terminated by exception'' @ nl)) k
              else if rval \<noteq> 0 then ece391_fdputs ?os 1 (lits (''program terminated abnormally'' @ nl)) k
              else Some k);
         Some (k, None)
       }"
    by auto
  have same: "same_rest k k1" "user_ok k1" using k1(1) by (simp_all add: kept_def)
  then have at: "boot_block k1 = boot_block k" "free_process k1 = Some i" "processes k1 = processes k"
    using assms(3) by (simp_all add: same_rest_def free_process_def)
  have cmd: "cstr (view (user_mem k1) buf) (bytes_of ''cat'' @ 32 # cs)" "32 \<notin> set (bytes_of ''cat'')"
    "length (bytes_of ''cat'') + length cs < 132"
    using k1(3) assms(7) by simp_all
  have runs: "\<exists>k'' r. cat_main (kernel_os e child') clits cbuf k' = Some (k'', r) \<and> same_rest k' k''
      \<and> scr k'' = fold putc (file_bytes (boot_block k) inode) (scr k')" if "entered cs k'" "boot_block k' = boot_block k" for k'
  proof -
    have "find (\<lambda>i. flags (fd_array (proc k') i) = 0) [2..<8] = Some 2" using that(1) by (simp add: entered_def upt_rec)
    then show ?thesis
      using cat_runs [of k' cbuf cs j inode 2 e child' clits] assms(7,13-17) that by (auto simp: entered_def)
  qed
  from program_runs [OF running_same [OF assms(1) same(1)] same(2) at(2) assms(4) cmd, unfolded at, OF assms(10) refl assms(11),
      where child = child and e = e and child' = child' and main = "\<lambda>os. cat_main os clits cbuf" and shown = "file_bytes (boot_block k) inode",
      OF assms(12) [rule_format] runs]
  obtain k' where k': "os_execute ?os buf k1 = Some (k', 0)" "scr k' = fold putc (file_bytes (boot_block k) inode) (scr k1)"
    "running m k'" "descriptors k' = descriptors k1" "processes k' = processes k"
    by blast
  moreover have "shell_body ?os lits buf k = Some (k', None)" using k1(5) k'(1) by simp
  moreover have "user_ok k'" using user_ok_cong [OF k'(4)] same(2) by simp
  moreover have "scr k' = fold putc (bytes_of ''391OS> '' @ bytes_of ''cat '' @ cs @ [10] @ file_bytes (boot_block k) inode) (scr k)"
    by (simp only: k'(2) k1(4) fold_append comp_apply append_assoc)
  ultimately show ?thesis using k1(2) by metis
qed

text \<open>An image whose only file is an executable of the given name, and a shell at its prompt.\<close>

definition named_image :: "string \<Rightarrow> str" where
  "named_image cs = (\<lambda>a. if a - 64 < 32 then lit cs (a - 64) else exe_image a)"

definition session_kernel :: "string list \<Rightarrow> string \<Rightarrow> kernel" where
  "session_kernel texts cs = (program texts)\<lparr>boot_block := named_image cs\<rparr>"

lemma named_image_fields:
  "num_dir (named_image cs) = 1" "num_inodes (named_image cs) = 1" "inode_length (named_image cs) 0 = 40"
  "load32 (named_image cs) (directory_offset 0 + 32) = 2" "load32 (named_image cs) (directory_offset 0 + 36) = 0"
  by (simp_all add: num_dir_def num_inodes_def inode_length_def inode_offset_def load32_def directory_offset_def
      named_image_def exe_image_def DATA_BLOCK_SIZE_def)

lemma named_image_name:
  assumes "length cs < 32" "CHR 0x00 \<notin> set cs"
  shows "dir_name (named_image cs) 0 = bytes_of cs" "names_end (named_image cs)"
proof -
  have "directory_name (named_image cs) 0 (of_nat i) = lit cs (of_nat i)" if "i \<le> length cs" for i
    using that assms(1) by (simp add: directory_name_def directory_offset_def view_def named_image_def word_less_nat_alt)
  then have "cstr (directory_name (named_image cs) 0) (bytes_of cs)"
    using assms(1) lit_cstr [OF assms(2)] by (simp add: cstr_def)
  then show "dir_name (named_image cs) 0 = bytes_of cs" "names_end (named_image cs)"
    using assms(1) by (auto simp: dir_name_def chars_cstr names_end_def named_image_fields)
qed

lemma named_runnable:
  assumes "length cs < 32" "CHR 0x00 \<notin> set cs"
  shows "runnable (named_image cs) (bytes_of cs) 0" "length (file_bytes (named_image cs) 0) = 40"
proof -
  have "data_byte (named_image cs) 0 (of_nat i) = named_image cs (8192 + of_nat i)" if "i < 4" for i
  proof -
    have "(of_nat i :: u32) div 4096 = 0" "(of_nat i :: u32) mod 4096 = of_nat i"
      using that by (simp_all add: word_unat_eq_iff unat_div_distrib unat_mod_distrib)
    moreover have "data_block_num (named_image cs) 0 0 = 0"
      by (simp add: data_block_num_def load32_def inode_offset_def DATA_BLOCK_SIZE_def exe_image_def named_image_def)
    ultimately show ?thesis by (simp add: data_byte_def DATA_BLOCK_SIZE_def Let_def named_image_fields)
  qed
  then have "take 4 (file_bytes (named_image cs) 0) = map (\<lambda>i. named_image cs (8192 + of_nat i)) [0..<4]"
    by (simp add: file_bytes_eq named_image_fields take_map)
  also have "\<dots> = [0x7f, 0x45, 0x4c, 0x46]" by (simp add: upt_rec) (simp add: named_image_def exe_image_def)
  finally have "take 4 (file_bytes (named_image cs) 0) = [0x7f, 0x45, 0x4c, 0x46]" .
  moreover show len: "length (file_bytes (named_image cs) 0) = 40" by (simp add: file_bytes_eq named_image_fields)
  ultimately show "runnable (named_image cs) (bytes_of cs) 0"
    using assms by (simp add: runnable_def named_image_fields named_image_name NUM_DIR_def)
qed

lemma session_kernel_sel:
  "boot_block (session_kernel texts cs) = named_image cs" "proc (session_kernel texts cs) = blank_pcb"
  "user_mem (session_kernel texts cs) = program_mem texts" "processes (session_kernel texts cs) = (\<lambda>_. 0)(0 := 1)"
  by (simp_all add: session_kernel_def program_def tiny_kernel_def proc_def curr_pcb_def trap_entry_def set_user_mem_def user_mem_def)

lemma session_kernel_ok:
  assumes "length cs < 32" "CHR 0x00 \<notin> set cs"
  shows "user_ok (session_kernel texts cs)" "running 0 (session_kernel texts cs)" "free_process (session_kernel texts cs) = Some 1"
proof -
  show "user_ok (session_kernel texts cs)"
    using named_image_name(2) [OF assms] by (simp add: user_ok_def session_kernel_sel fds_ok_def named_image_fields NUM_DIR_def)
  have "process_num blank_pcb = 0" by (simp add: blank_pcb_def create_pcb_def Let_def)
  then show "running 0 (session_kernel texts cs)"
    unfolding running_def session_kernel_sel by (simp add: session_kernel_def program_def tiny_kernel_def set_user_mem_def window_create)
  show "free_process (session_kernel texts cs) = Some 1" by (simp add: free_process_def MAX_NUM_PROCESSES_def session_kernel_sel upt_rec)
qed

lemma session_kernel_types:
  "8 \<notin> set ls \<Longrightarrow> 10 \<notin> set ls \<Longrightarrow> length ls \<le> 1023 \<Longrightarrow> types_line (typist ls) ls (session_kernel texts cs)"
  using program_types [of ls texts] by (simp add: session_kernel_def types_line_def line_def line_ok_def)

theorem shell_runs_cat_witness:
  "let e = typist (bytes_of ''cat cat''); child = (\<lambda>k' _ _. start_program e (\<lambda>_ _ _. None) (\<lambda>os. cat_main os (\<lambda>_. 0) 0x083FFB00) k');
     texts = [''391OS> '', ''exit'']; k = session_kernel texts ''cat'' in
   \<exists>k'. shell_body (kernel_os e child) (program_lits texts) 0x083FF000 k = Some (k', None)
     \<and> scr k' = fold putc (bytes_of ''391OS> cat cat'' @ [10] @ file_bytes (named_image ''cat'') 0) (scr k)
     \<and> processes k' = processes k"
proof -
  let ?t = "[''391OS> '', ''exit'']" and ?e = "typist (bytes_of ''cat cat'')"
  let ?k = "session_kernel ?t ''cat''"
  have "types_line ?e (bytes_of ''cat cat'') ?k" by (rule session_kernel_types) simp_all
  moreover have "literal (program_lits ?t) 0x083FF000 (user_mem ?k) ''391OS> ''" "literal (program_lits ?t) 0x083FF000 (user_mem ?k) ''exit''"
    unfolding session_kernel_sel by (rule program_literal; simp)+
  ultimately show ?thesis
    using shell_runs_cat [of 0 ?k 1 ?e "bytes_of ''cat''" "program_lits ?t" "0x083FF000" 0
        "\<lambda>k' _ _. start_program ?e (\<lambda>_ _ _. None) (\<lambda>os. cat_main os (\<lambda>_. 0) 0x083FFB00) k'" "\<lambda>_ _ _. None" "\<lambda>_. 0" "0x083FFB00" 0 0]
      session_kernel_ok [of "''cat''" ?t] named_runnable [of "''cat''"] named_image_name [of "''cat''"]
    by (auto simp: Let_def session_kernel_sel named_image_fields)
qed

end
