(* ===== verification/Sigtest.thy ===== *)
theory Sigtest
  imports Session
begin

text \<open>
  The signal test \<^verbatim>\<open>syscalls/ece391sigtest.c\<close>: its \<open>main\<close> and its two handlers over the calls, an interface for
  the calls it makes and for its store through a null pointer, the interpretation on the kernel, and
  what the kernel makes of the fault. The processor side of a fault is modelled here: the store goes through the page tables of the
  process, and where they give no translation the processor enters \<open>page_fault_exception\<close> of
  \<^verbatim>\<open>student-distrib/idt.c\<close> on the kernel stack of the process.
\<close>

section \<open>Model\<close>

definition SEGFAULT :: i32 where "SEGFAULT = 1"
definition ALARM :: i32 where "ALARM = 3"

text \<open>The call \<open>set_handler\<close> and the store of a byte through a pointer, which faults with \<open>None\<close>.\<close>

record 's sigs =
  ece391_set_handler :: "i32 \<Rightarrow> addr \<Rightarrow> 's \<Rightarrow> ('s \<times> i32) option"
  put_byte :: "addr \<Rightarrow> u8 \<Rightarrow> 's \<Rightarrow> 's option"

text \<open>Where the program's variables and handlers lie: \<open>buf\<close> of \<open>main\<close>, the two static variables, the handlers.\<close>

record sig_addrs =
  sbuf :: addr
  charbuf :: addr
  badbuf :: addr
  at_segfault_sighandler :: addr
  at_alarm_sighandler :: addr

text \<open>A program ends by returning from \<open>main\<close> or in a fault.\<close>

datatype 's ending = Exits 's i32 | Faults 's

abbreviation name_prompt :: string where
  "name_prompt \<equiv> ''Hi, what'' @ [CHR 0x27] @ ''s your name? ''"

definition sigtest_main :: "'s os \<Rightarrow> 's sigs \<Rightarrow> (string \<Rightarrow> addr) \<Rightarrow> sig_addrs \<Rightarrow> 's \<Rightarrow> 's ending option" where
  "sigtest_main os w lits a s =
     do {
       (s, r) \<leftarrow> os_getargs os (sbuf a) 1024 s;
       if r \<noteq> 0 then do { s \<leftarrow> ece391_fdputs os 1 (lits (''could not read argument'' @ nl)) s; Some (Exits s 3) }
       else do {
         s \<leftarrow> (if os_mem os s (sbuf a) = 49
              then do {
                s \<leftarrow> ece391_fdputs os 1 (lits (''Installing signal handlers'' @ nl)) s;
                (s, _) \<leftarrow> ece391_set_handler w SEGFAULT (at_segfault_sighandler a) s;
                (s, _) \<leftarrow> ece391_set_handler w ALARM (at_alarm_sighandler a) s;
                Some s
              }
              else Some s);
         s \<leftarrow> ece391_fdputs os 1 (lits name_prompt) s;
         (s, cnt) \<leftarrow> os_read os 0 (sbuf a) 1023 s;
         if cnt = -1 then do { s \<leftarrow> ece391_fdputs os 1 (lits (''Can'' @ [CHR 0x27] @ ''t read name from keyboard.'' @ nl)) s; Some (Exits s 3) }
         else (case put_byte w (load32 (os_mem os s) (badbuf a)) 1 s of
             None \<Rightarrow> Some (Faults s)
           | Some s \<Rightarrow>
               do {
                 let s = os_poke os ((os_mem os s)(sbuf a + cnt := 0)) s;
                 s \<leftarrow> ece391_fdputs os 1 (lits ''Hello, '') s;
                 s \<leftarrow> ece391_fdputs os 1 (sbuf a) s;
                 s \<leftarrow> (if os_mem os s (charbuf a) = 1 then ece391_fdputs os 1 (lits (''success'' @ nl)) s
                      else ece391_fdputs os 1 (lits (''failure'' @ nl)) s);
                 Some (Exits s 0)
               })
       }
     }"

text \<open>The \<open>switch\<close> of both handlers.\<close>

definition put_signum :: "'s os \<Rightarrow> (string \<Rightarrow> addr) \<Rightarrow> i32 \<Rightarrow> 's \<Rightarrow> 's option" where
  "put_signum os lits signum s =
     (if signum = 0 then ece391_fdputs os 1 (lits (''0'' @ nl)) s
      else if signum = 1 then ece391_fdputs os 1 (lits (''1'' @ nl)) s
      else if signum = 2 then ece391_fdputs os 1 (lits (''2'' @ nl)) s
      else if signum = 3 then ece391_fdputs os 1 (lits (''3'' @ nl)) s
      else ece391_fdputs os 1 (lits (''invalid'' @ nl)) s)"

text \<open>\<open>cbuf\<close> is the handler's one-character array and \<open>p\<close> the address of its parameter \<open>signum\<close>.\<close>

definition segfault_sighandler :: "'s os \<Rightarrow> (string \<Rightarrow> addr) \<Rightarrow> sig_addrs \<Rightarrow> addr \<Rightarrow> addr \<Rightarrow> i32 \<Rightarrow> 's \<Rightarrow> 's option" where
  "segfault_sighandler os lits a cbuf p signum s =
     do {
       s \<leftarrow> ece391_fdputs os 1 (lits ''Segfault signal handler called, signum: '') s;
       s \<leftarrow> put_signum os lits signum s;
       s \<leftarrow> ece391_fdputs os 1 (lits (''Press enter to continue...'' @ nl)) s;
       (s, _) \<leftarrow> os_read os 0 cbuf 1 s;
       let s = os_poke os (store32 (os_mem os s) (badbuf a) (charbuf a)) s;
       let s = os_poke os (store32 (os_mem os s) (p + 28) (charbuf a)) s;
       ece391_fdputs os 1 (lits (''Signal handler returning'' @ nl)) s
     }"

definition alarm_sighandler :: "'s os \<Rightarrow> (string \<Rightarrow> addr) \<Rightarrow> i32 \<Rightarrow> 's \<Rightarrow> 's option" where
  "alarm_sighandler os lits signum s =
     do {
       s \<leftarrow> ece391_fdputs os 1 (lits ''Alarm signal handler called, signum: '') s;
       put_signum os lits signum s
     }"

subsection \<open>On the kernel\<close>

text \<open>A store in user mode: through the page tables into the process's frame or the video page, or a fault.\<close>

definition user_store :: "addr \<Rightarrow> u8 \<Rightarrow> kernel \<Rightarrow> kernel option" where
  "user_store p c k =
     (case translate (pt_addr k) (pg k) True p of
        None \<Rightarrow> None
      | Some b \<Rightarrow>
          if 0xB8000 \<le> b \<and> b < 0xB9000
          then Some (k\<lparr>scr := (scr k)\<lparr>video_mem := (video_mem (scr k))(uint (b - 0xB8000) := c)\<rparr>\<rparr>)
          else Some (set_user_mem ((user_mem k)(p := c)) k))"

definition kernel_sigs :: "env \<Rightarrow> (kernel \<Rightarrow> u32 \<Rightarrow> u32 \<Rightarrow> (kernel \<times> i32) option) \<Rightarrow> kernel sigs" where
  "kernel_sigs e child = \<lparr>ece391_set_handler = (\<lambda>signum h. do_call e child 9 signum h 0), put_byte = user_store\<rparr>"

text \<open>
  The fault: the processor loads the stack pointer of the task state segment and pushes five words and the error
  code, and the gate of vector 14 leads to \<open>page_fault_exception\<close>. Its \<open>halt\<close> goes on in the parent's \<open>execute\<close>, whose
  way out turns interrupts on.
\<close>

definition user_page_fault :: "env \<Rightarrow> kernel \<Rightarrow> outcome option" where
  "user_page_fault e k =
     map_option (\<lambda>r. case r of Returns k v \<Rightarrow> Returns (sti k) v | r \<Rightarrow> r) (page_fault_exception e (k\<lparr>kesp := tss_esp0 k - 24\<rparr>))"

definition end_program ::
  "env \<Rightarrow> (kernel \<Rightarrow> u32 \<Rightarrow> u32 \<Rightarrow> (kernel \<times> i32) option) \<Rightarrow> kernel ending \<Rightarrow> (kernel \<times> i32) option" where
  "end_program e child r =
     (case r of
        Exits k v \<Rightarrow> do_call e child 1 v 0 0 k
      | Faults k \<Rightarrow>
          (case user_page_fault e k of
             None \<Rightarrow> None | Some (Returns k' v) \<Rightarrow> Some (k', v) | Some (Enters k' eip sp) \<Rightarrow> child k' eip sp))"

definition start_sigtest ::
  "env \<Rightarrow> (kernel \<Rightarrow> u32 \<Rightarrow> u32 \<Rightarrow> (kernel \<times> i32) option) \<Rightarrow> (string \<Rightarrow> addr) \<Rightarrow> sig_addrs \<Rightarrow> kernel \<Rightarrow> (kernel \<times> i32) option" where
  "start_sigtest e child lits a k =
     Option.bind (sigtest_main (kernel_os e child) (kernel_sigs e child) lits a k) (end_program e child)"

section \<open>The interface\<close>

text \<open>
  The calls as the test meets them: its arguments can be read, a handler is never accepted, and a store
  through the null pointer faults.
\<close>

locale fault_calls = line_calls os ok emit out descr typing
  for os :: "'s os" and ok and emit :: "u8 \<Rightarrow> 'o \<Rightarrow> 'o" and out and descr :: "'s \<Rightarrow> 'd" and typing +
  fixes w :: "'s sigs"
    and arguments :: "u8 list \<Rightarrow> 's \<Rightarrow> bool"
  assumes get_arguments: "ok s \<Longrightarrow> arguments arg s \<Longrightarrow> length arg < 133 \<Longrightarrow>
      \<exists>s'. os_getargs os buf 1024 s = Some (s', 0) \<and> ok s' \<and> out s' = out s \<and> typing cs s' = typing cs s
        \<and> cstr (view (os_mem os s') buf) arg \<and> (\<forall>x. 1024 \<le> unat (x - buf) \<longrightarrow> os_mem os s' x = os_mem os s x)"
    and no_handler: "ok s \<Longrightarrow>
      \<exists>s'. ece391_set_handler w n h s = Some (s', -1) \<and> ok s' \<and> out s' = out s \<and> typing cs s' = typing cs s \<and> os_mem os s' = os_mem os s"
    and null_faults: "ok s \<Longrightarrow> put_byte w 0 c s = None"

text \<open>A null pointer variable outside the array.\<close>

definition null_at :: "addr \<Rightarrow> addr \<Rightarrow> mem \<Rightarrow> bool" where
  "null_at buf p m \<longleftrightarrow> load32 m p = 0 \<and> (\<forall>i < 4. 1024 \<le> unat (p + of_nat i - buf))"

lemma null_at_cong:
  assumes "\<And>x. 1024 \<le> unat (x - buf) \<Longrightarrow> m' x = m x" "null_at buf p m"
  shows "null_at buf p m'"
proof -
  have "m' (p + of_nat i) = m (p + of_nat i)" if "i < 4" for i using assms that by (simp add: null_at_def)
  from this [of 0] this [of 1] this [of 2] this [of 3] show ?thesis using assms(2) by (simp add: null_at_def load32_def)
qed

context fault_calls
begin

lemma sigtest_faults:
  assumes "ok s" "typing cs s" "arguments arg s" "length arg < 133" "null_at (sbuf a) (badbuf a) (os_mem os s)"
    "literal lits (sbuf a) (os_mem os s) name_prompt" "literal lits (sbuf a) (os_mem os s) (''Installing signal handlers'' @ nl)"
  shows "\<exists>s'. sigtest_main os w lits a s = Some (Faults s') \<and> ok s'
    \<and> out s' = fold emit ((if take 1 arg = [49] then bytes_of (''Installing signal handlers'' @ nl) else []) @ bytes_of name_prompt @ cs @ [10]) (out s)"
proof -
  from get_arguments [OF assms(1,3,4)] obtain s1 where s1: "os_getargs os (sbuf a) 1024 s = Some (s1, 0)" "ok s1" "out s1 = out s"
    "typing cs s1" "cstr (view (os_mem os s1) (sbuf a)) arg" "\<And>x. 1024 \<le> unat (x - sbuf a) \<Longrightarrow> os_mem os s1 x = os_mem os s x"
    using assms(2) by meson
  note lits1 = literal_cong [OF s1(6) assms(6)] literal_cong [OF s1(6) assms(7)] null_at_cong [OF s1(6) assms(5)]
  have first: "os_mem os s1 (sbuf a) = 49 \<longleftrightarrow> take 1 arg = [49]" using s1(5) by (cases arg) (auto simp: cstr_nil cstr_head)
  define install where "install = (if take 1 arg = [49]
    then do {
      s \<leftarrow> ece391_fdputs os 1 (lits (''Installing signal handlers'' @ nl)) s1;
      (s, _) \<leftarrow> ece391_set_handler w SEGFAULT (at_segfault_sighandler a) s;
      (s, _) \<leftarrow> ece391_set_handler w ALARM (at_alarm_sighandler a) s;
      Some s
    }
    else Some s1)"
  have "\<exists>s2. install = Some s2 \<and> ok s2 \<and> typing cs s2 \<and> os_mem os s2 = os_mem os s1
      \<and> out s2 = fold emit (if take 1 arg = [49] then bytes_of (''Installing signal handlers'' @ nl) else []) (out s)"
  proof (cases "take 1 arg = [49]")
    case True
    from fdputs_literal [OF s1(2,4) lits1(2)] obtain sa where sa: "ece391_fdputs os 1 (lits (''Installing signal handlers'' @ nl)) s1 = Some sa"
      "ok sa" "typing cs sa" "os_mem os sa = os_mem os s1" "out sa = fold emit (bytes_of (''Installing signal handlers'' @ nl)) (out s1)" by blast
    from no_handler [OF sa(2)] obtain sb where sb: "ece391_set_handler w SEGFAULT (at_segfault_sighandler a) sa = Some (sb, -1)"
      "ok sb" "out sb = out sa" "typing cs sb = typing cs sa" "os_mem os sb = os_mem os sa" by blast
    from no_handler [OF sb(2)] obtain sc where sc: "ece391_set_handler w ALARM (at_alarm_sighandler a) sb = Some (sc, -1)"
      "ok sc" "out sc = out sb" "typing cs sc = typing cs sb" "os_mem os sc = os_mem os sb" by blast
    have "install = Some sc" using True sa(1) sb(1) sc(1) by (simp add: install_def)
    then show ?thesis using True sa(3-5) sb(3-5) sc(2-5) s1(3) by (simp del: fold_append map_append)
  qed (use s1(2-4) in \<open>simp add: install_def\<close>)
  then obtain s2 where s2: "install = Some s2" "ok s2" "typing cs s2" "os_mem os s2 = os_mem os s1"
    "out s2 = fold emit (if take 1 arg = [49] then bytes_of (''Installing signal handlers'' @ nl) else []) (out s)" by blast
  from fdputs_literal [OF s2(2,3) lits1(1) [folded s2(4)]] obtain s3 where s3: "ece391_fdputs os 1 (lits name_prompt) s2 = Some s3" "ok s3"
    "typing cs s3" "os_mem os s3 = os_mem os s2" "out s3 = fold emit (bytes_of name_prompt) (out s2)" by blast
  have len: "length cs \<le> 1023" by (rule typed_length [OF assms(2)])
  from read_line [OF s3(2,3), of 1023 "sbuf a"] len obtain s4 where s4: "os_read os 0 (sbuf a) 1023 s3 = Some (s4, of_nat (length cs))"
    "ok s4" "out s4 = fold emit (cs @ [10]) (out s3)" "os_mem os s4 = (\<lambda>x. if unat (x - sbuf a) < length cs then cs ! unat (x - sbuf a)
       else if unat (x - sbuf a) = length cs \<and> cs \<noteq> [] then 0 else os_mem os s3 x)" by auto
  have "null_at (sbuf a) (badbuf a) (os_mem os s4)"
    by (rule null_at_cong [OF _ lits1(3)]) (use len in \<open>auto simp: s4(4) s3(4) s2(4)\<close>)
  then have null: "put_byte w (load32 (os_mem os s4) (badbuf a)) 1 s4 = None" using null_faults [OF s4(2)] by (simp add: null_at_def)
  have cnt: "(of_nat (length cs) :: u32) \<noteq> -1" by (rule small_count) (use len in simp)
  have "sigtest_main os w lits a s = Some (Faults s4)"
    unfolding sigtest_main_def s1(1) bind.bind_lunit prod.case first install_def [symmetric] s2(1) s3(1) s4(1) null using cnt by simp
  moreover have "out s4 = fold emit ((if take 1 arg = [49] then bytes_of (''Installing signal handlers'' @ nl) else []) @ bytes_of name_prompt @ cs @ [10]) (out s)"
    by (simp only: s4(3) s3(5) s2(5) fold_append comp_apply)
  ultimately show ?thesis using s4(2) by blast
qed

end

text \<open>The line that the handlers print for a signal.\<close>

definition signum_text :: "i32 \<Rightarrow> string" where
  "signum_text n = (if n = 0 then ''0'' else if n = 1 then ''1'' else if n = 2 then ''2'' else if n = 3 then ''3'' else ''invalid'') @ nl"

lemma put_signum_eq: "put_signum os lits n s = ece391_fdputs os 1 (lits (signum_text n)) s"
  by (simp add: put_signum_def signum_text_def)

context line_calls
begin

lemma alarm_reports:
  assumes "ok s" "typing cs s" "literal lits buf (os_mem os s) ''Alarm signal handler called, signum: ''" "literal lits buf (os_mem os s) (signum_text n)"
  shows "\<exists>s'. alarm_sighandler os lits n s = Some s' \<and> ok s' \<and> typing cs s' \<and> os_mem os s' = os_mem os s
    \<and> out s' = fold emit (bytes_of (''Alarm signal handler called, signum: '' @ signum_text n)) (out s)"
proof -
  from fdputs_literal [OF assms(1-3)] obtain s1 where s1: "ece391_fdputs os 1 (lits ''Alarm signal handler called, signum: '') s = Some s1"
    "ok s1" "typing cs s1" "os_mem os s1 = os_mem os s" "out s1 = fold emit (bytes_of ''Alarm signal handler called, signum: '') (out s)" by blast
  from fdputs_literal [OF s1(2,3) assms(4) [folded s1(4)]] obtain s2 where s2: "ece391_fdputs os 1 (lits (signum_text n)) s1 = Some s2"
    "ok s2" "typing cs s2" "os_mem os s2 = os_mem os s1" "out s2 = fold emit (bytes_of (signum_text n)) (out s1)" by blast
  have "alarm_sighandler os lits n s = Some s2" by (simp only: alarm_sighandler_def put_signum_eq s1(1) s2(1) bind.bind_lunit)
  then show ?thesis using s1(4,5) s2 by (simp only: map_append fold_append comp_apply) blast
qed

text \<open>The handler of the fault, called when the user then presses enter alone, turns both copies of the pointer to \<open>charbuf\<close>.\<close>

lemma segfault_redirects:
  assumes "ok s" "typing [] s" "literal lits cbuf (os_mem os s) ''Segfault signal handler called, signum: ''"
    "literal lits cbuf (os_mem os s) (signum_text n)" "literal lits cbuf (os_mem os s) (''Press enter to continue...'' @ nl)"
    "m = store32 (store32 (os_mem os s) (badbuf a) (charbuf a)) (p + 28) (charbuf a)"
    "literal lits cbuf m (''Signal handler returning'' @ nl)"
  shows "\<exists>s'. segfault_sighandler os lits a cbuf p n s = Some s' \<and> ok s' \<and> os_mem os s' = m
    \<and> out s' = fold emit (bytes_of (''Segfault signal handler called, signum: '' @ signum_text n @ ''Press enter to continue...'' @ nl)
        @ [10] @ bytes_of (''Signal handler returning'' @ nl)) (out s)"
proof -
  from fdputs_literal [OF assms(1-3)] obtain s1 where s1: "ece391_fdputs os 1 (lits ''Segfault signal handler called, signum: '') s = Some s1"
    "ok s1" "typing [] s1" "os_mem os s1 = os_mem os s" "out s1 = fold emit (bytes_of ''Segfault signal handler called, signum: '') (out s)" by blast
  from fdputs_literal [OF s1(2,3) assms(4) [folded s1(4)]] obtain s2 where s2: "ece391_fdputs os 1 (lits (signum_text n)) s1 = Some s2"
    "ok s2" "typing [] s2" "os_mem os s2 = os_mem os s" "out s2 = fold emit (bytes_of (signum_text n)) (out s1)" using s1(4) by auto
  from fdputs_literal [OF s2(2,3) assms(5) [folded s2(4)]] obtain s3 where s3: "ece391_fdputs os 1 (lits (''Press enter to continue...'' @ nl)) s2 = Some s3"
    "ok s3" "typing [] s3" "os_mem os s3 = os_mem os s" "out s3 = fold emit (bytes_of (''Press enter to continue...'' @ nl)) (out s2)" using s2(4) by auto
  from read_line [OF s3(2,3), of 1 cbuf] obtain s4 where s4: "os_read os 0 cbuf 1 s3 = Some (s4, 0)" "ok s4" "typing [] s4"
    "out s4 = fold emit [10] (out s3)" "os_mem os s4 = os_mem os s" using s3(4) by auto
  define s5 where "s5 = os_poke os m (os_poke os (store32 (os_mem os s) (badbuf a) (charbuf a)) s4)"
  have s5: "ok s5" "typing [] s5" "os_mem os s5 = m" "out s5 = out s4" using s4(2,3) by (simp_all add: s5_def poke typing_poke)
  from fdputs_literal [OF s5(1,2) assms(7) [folded s5(3)]] obtain s6 where s6: "ece391_fdputs os 1 (lits (''Signal handler returning'' @ nl)) s5 = Some s6"
    "ok s6" "os_mem os s6 = m" "out s6 = fold emit (bytes_of (''Signal handler returning'' @ nl)) (out s5)" using s5(3) by auto
  have "segfault_sighandler os lits a cbuf p n s = Some s6"
    unfolding segfault_sighandler_def put_signum_eq s1(1) s2(1) s3(1) s4(1) bind.bind_lunit prod.case Let_def poke(1) s4(5) assms(6) [symmetric]
      s5_def [symmetric] s6(1) ..
  moreover have "out s6 = fold emit (bytes_of (''Segfault signal handler called, signum: '' @ signum_text n @ ''Press enter to continue...'' @ nl)
        @ [10] @ bytes_of (''Signal handler returning'' @ nl)) (out s)"
    unfolding s6(4) s5(4) s4(4) s3(5) s2(5) s1(5) map_append fold_append comp_apply ..
  ultimately show ?thesis using s6(2,3) by blast
qed

end

section \<open>The kernel's side\<close>

text \<open>No page table of the kernel maps address 0 for a user program.\<close>

definition null_unmapped :: "kernel \<Rightarrow> bool" where
  "null_unmapped k \<longleftrightarrow> translate (pt_addr k) (pg k) True 0 = None"

lemma null_unmapped_reach:
  "paging_reach (pt_addr k) pd q v (pg k) \<Longrightarrow> aligned4k (pt_addr k) \<Longrightarrow> null_unmapped k"
  by (simp add: null_unmapped_def translate_reach address_map_def dir_index_def table_index_def)

lemma null_unmapped_same: "same_rest k k' \<Longrightarrow> null_unmapped k' = null_unmapped k"
  by (simp add: null_unmapped_def same_rest_def)

definition has_arguments :: "u8 list \<Rightarrow> kernel \<Rightarrow> bool" where
  "has_arguments arg k \<longleftrightarrow> cstr (\<lambda>i. args (proc k) (unat i)) arg"

lemma kernel_no_handler:
  "do_call e child 9 n h 0 k = Some (k\<lparr>if_flag := True, kesp := tss_esp0 k - 48\<rparr>, -1)"
  using sys_call_rejects [of 9 e n h 0 k] by (simp add: do_call_def)

lemma rejected_sel:
  fixes k :: kernel
  defines "k' \<equiv> k\<lparr>if_flag := True, kesp := tss_esp0 k - 48\<rparr>"
  shows "same_rest k k'" "user_ok k' = user_ok k" "scr k' = scr k" "user_mem k' = user_mem k" "types_line e cs k' = types_line e cs k"
proof -
  show "same_rest k k'" by (rule same_rest_kept) (simp_all add: k'_def fixed_def)
  have "proc k' = proc k" by (simp add: k'_def proc_def trap_entry_def curr_pcb_def get_pcb_def)
  then show "user_ok k' = user_ok k" by (simp add: user_ok_def k'_def)
  show "scr k' = scr k" "user_mem k' = user_mem k" "types_line e cs k' = types_line e cs k"
    by (simp_all add: k'_def user_mem_def types_line_def line_def line_ok_def)
qed

interpretation kg: fault_calls "kernel_os e child" "\<lambda>k. kept k0 k \<and> null_unmapped k0" putc scr descriptors "types_line e" "kernel_sigs e child" has_arguments
  for e child k0
proof
  fix s buf and n :: i32 assume "kept k0 s \<and> null_unmapped k0" "0 \<le> sint n"
  then show "\<exists>s'. os_write (kernel_os e child) 1 buf n s = Some (s', n) \<and> (kept k0 s' \<and> null_unmapped k0)
      \<and> os_mem (kernel_os e child) s' = os_mem (kernel_os e child) s \<and> descriptors s' = descriptors s
      \<and> scr s' = fold putc (map (\<lambda>i. os_mem (kernel_os e child) s (buf + of_nat i)) [0..<unat n]) (scr s)"
    using ks.write_out by blast
next
  fix m k show "os_mem (kernel_os e child) (os_poke (kernel_os e child) m k) = m" by simp
  show "(kept k0 (os_poke (kernel_os e child) m k) \<and> null_unmapped k0) = (kept k0 k \<and> null_unmapped k0)" by (simp add: kept_poke)
  show "scr (os_poke (kernel_os e child) m k) = scr k" "descriptors (os_poke (kernel_os e child) m k) = descriptors k"
    by (rule ks.poke)+
next
  fix s buf s' r cs and n :: i32
  assume "kept k0 s \<and> null_unmapped k0" "0 \<le> sint n" "os_write (kernel_os e child) 1 buf n s = Some (s', r)"
  then show "types_line e cs s' = types_line e cs s" using kr.typing_write by blast
next
  fix cs m k show "types_line e cs (os_poke (kernel_os e child) m k) = types_line e cs k" by (rule kl.typing_poke)
  assume "types_line e cs k"
  then show "length cs \<le> 1023" by (rule kl.typed_length)
next
  fix s cs buf and n :: i32 assume "kept k0 s \<and> null_unmapped k0" "types_line e cs s" "int (length cs) \<le> sint n"
  then show "\<exists>s'. os_read (kernel_os e child) 0 buf n s = Some (s', of_nat (length cs)) \<and> (kept k0 s' \<and> null_unmapped k0) \<and> types_line e cs s'
      \<and> descriptors s' = descriptors s \<and> scr s' = fold putc (cs @ [10]) (scr s)
      \<and> os_mem (kernel_os e child) s' = (\<lambda>a. if unat (a - buf) < length cs then cs ! unat (a - buf)
           else if unat (a - buf) = length cs \<and> cs \<noteq> [] then 0 else os_mem (kernel_os e child) s a)"
    using kr.read_line by blast
next
  fix s arg buf cs assume a: "kept k0 s \<and> null_unmapped k0" "has_arguments arg s" "length arg < 133"
  then have ok: "user_ok s" by (simp add: kept_def)
  from kernel_getargs [OF ok, of 1024 e child buf] obtain k1 where k1: "os_getargs (kernel_os e child) buf 1024 s = Some (k1, 0)" "user_ok k1"
    "scr k1 = scr s" "same_rest s k1" "tail k1 = tail s" "terminal_buffer k1 = terminal_buffer s" "enter_status k1 = enter_status s"
    "user_mem k1 = (\<lambda>a. if unat (a - buf) < 140 then args (proc s) (unat (a - buf)) else user_mem s a)"
    by auto
  have "cstr (view (user_mem k1) buf) arg" using a(2,3) by (simp add: has_arguments_def cstr_def view_def k1(8))
  moreover have "types_line e cs k1 = types_line e cs s" using k1(4-7) by (simp add: types_line_def same_rest_def line_def line_ok_def)
  moreover have "kept k0 k1" using kept_step [OF _ k1(2,4)] a(1) by blast
  ultimately show "\<exists>s'. os_getargs (kernel_os e child) buf 1024 s = Some (s', 0) \<and> (kept k0 s' \<and> null_unmapped k0) \<and> scr s' = scr s
      \<and> types_line e cs s' = types_line e cs s \<and> cstr (view (os_mem (kernel_os e child) s') buf) arg
      \<and> (\<forall>x. 1024 \<le> unat (x - buf) \<longrightarrow> os_mem (kernel_os e child) s' x = os_mem (kernel_os e child) s x)"
    unfolding kernel_os_mem using a(1) k1(1,3,8) by (intro exI [of _ k1]) auto
next
  fix s h cs and n :: i32 assume a: "kept k0 s \<and> null_unmapped k0"
  then have "kept k0 (s\<lparr>if_flag := True, kesp := tss_esp0 s - 48\<rparr>)"
    using kept_step [of k0 s, OF _ _ rejected_sel(1)] by (simp add: rejected_sel(2) kept_def)
  then show "\<exists>s'. ece391_set_handler (kernel_sigs e child) n h s = Some (s', -1) \<and> (kept k0 s' \<and> null_unmapped k0) \<and> scr s' = scr s
      \<and> types_line e cs s' = types_line e cs s \<and> os_mem (kernel_os e child) s' = os_mem (kernel_os e child) s"
    unfolding kernel_os_mem using a by (simp add: kernel_sigs_def kernel_no_handler rejected_sel(4,5))
next
  fix s c assume "kept k0 s \<and> null_unmapped k0"
  then have "null_unmapped s" using null_unmapped_same by (auto simp: kept_def)
  then show "put_byte (kernel_sigs e child) 0 c s = None" by (simp add: kernel_sigs_def user_store_def null_unmapped_def)
qed

text \<open>A fault ends the process in the same way as \<open>halt\<close>, after the message.\<close>

lemma fault_resumes:
  assumes "tss_esp0 k = kstack_top n" "unat n < 512" "pcb_loc m \<noteq> pcb_loc n" "parent (pcbs k (pcb_loc n)) = pcb_loc m"
    "process_num (pcbs k (pcb_loc n)) = n" "process_num (pcbs k (pcb_loc m)) = m"
  shows "\<exists>t f. user_page_fault e k =
     Some (Returns (resumed m n t f (k\<lparr>scr := fold putc (bytes_of (''Page fault exception.'' @ nl)) (scr k)\<rparr>)) 0)"
proof -
  define sc where "sc = fold putc (bytes_of (''Page fault exception.'' @ nl)) (scr k)"
  define k1 where "k1 = cli (k\<lparr>kesp := tss_esp0 k - 24\<rparr>)\<lparr>scr := sc\<rparr>"
  have a: "get_pcb k1 = pcb_loc n"
  proof (rule get_pcb_on_stack [OF assms(2)])
    have "unat (kstack_top n - 24) = 0x800000 - unat n * 8192 - 28"
      using unat_kstack_top [OF assms(2)] assms(2) by (subst unat_sub) (auto simp: word_le_nat_alt)
    then show "0x800000 - (unat n + 1) * 8192 \<le> unat (kesp k1)" "unat (kesp k1) < 0x800000 - unat n * 8192"
      using assms by (simp_all add: k1_def cli_def)
  qed
  have k1: "pcbs k1 = pcbs k" "processes k1 = processes k" "tty_top_pid k1 = tty_top_pid k" "pt_addr k1 = pt_addr k" "pg k1 = pg k"
    by (simp_all add: k1_def cli_def)
  have "parent (curr_pcb k1) \<noteq> get_pcb k1" using assms(3,4) by (simp add: curr_pcb_def a k1)
  then obtain t f where h: "halt e 1 k1 = Some (to_parent (pcb_loc n) (closed_state t f k1))"
    using halt_child [where k = k1 and e = e] a by metis
  have "pcb_loc n = get_pcb k1" "pcb_loc m = parent (pcbs k1 (pcb_loc n))" "m = process_num (pcbs k1 (pcb_loc m))"
    using assms(4,6) by (simp_all add: a k1)
  note ret = to_parent_eq [OF this(1,2) assms(3) this(3), of t f]
  have msg: "page_fault_exception e (k\<lparr>kesp := tss_esp0 k - 24\<rparr>) = halt e 1 k1"
    by (simp add: page_fault_exception_def exception_with_def kprintf_plain k1_def cli_def sc_def)
  have trap: "get_pcb (trap_entry (k\<lparr>scr := sc\<rparr>)) = pcb_loc n" by (rule get_pcb_trap) (use assms(1,2) in simp_all)
  have "user_page_fault e k = Some (Returns (resumed m n t f (k\<lparr>scr := sc\<rparr>)) 0)"
    unfolding user_page_fault_def msg h option.map ret outcome.case resumed_def
    unfolding closed_state_def trap a k1 assms(5) by (simp add: k1_def cli_def trap_entry_def sti_def)
  then show ?thesis unfolding sc_def by blast
qed

section \<open>Properties\<close>

text \<open>
  C10: the signal test, started from a running process with a command line, prompts and reads the name and then stores
  through a null pointer. The page tables give address 0 to no user program, not even after \<open>vidmap\<close>, so the
  store faults, and the kernel prints its message and ends the process: \<open>execute\<close> returns 0 and the parent runs again with its
  memory, its descriptors and the process table as before. An argument that starts with 1 only adds the
  line about the handlers, since \<open>set_handler\<close> refuses them.
\<close>

theorem sigtest_ends_in_fault:
  assumes "running m k" "user_ok k" "free_process k = Some i" "i \<noteq> 0" "cstr (view (user_mem k) c) (name @ 32 # arg)" "32 \<notin> set name"
    "length name + length arg < 132" "runnable (boot_block k) name ino" "bs = file_bytes (boot_block k) ino" "40 \<le> length bs"
    "\<forall>k'. child k' (entry_of bs) 0x083FFFFC = start_sigtest e child' lits a k'"
    "paging_reach (pt_addr k) (pd_addr k) q v (pg k)" "aligned4k (pt_addr k)" "types_line e cs k"
    "null_at (sbuf a) (badbuf a) (loaded bs (umem k (of_nat i)))"
    "literal lits (sbuf a) (loaded bs (umem k (of_nat i))) name_prompt"
    "literal lits (sbuf a) (loaded bs (umem k (of_nat i))) (''Installing signal handlers'' @ nl)"
  shows "\<exists>k'. os_execute (kernel_os e child) c k = Some (k', 0)
     \<and> scr k' = fold putc ((if take 1 arg = [49] then bytes_of (''Installing signal handlers'' @ nl) else [])
          @ bytes_of name_prompt @ cs @ [10] @ bytes_of (''Page fault exception.'' @ nl)) (scr k)
     \<and> running m k' \<and> descriptors k' = descriptors k \<and> user_mem k' = user_mem k \<and> processes k' = processes k"
proof (rule program_ends [OF assms(1-10)])
  let ?hi = "(if take 1 arg = [49] then bytes_of (''Installing signal handlers'' @ nl) else []) @ bytes_of name_prompt @ cs @ [10]"
  fix k0 assume k0: "entered arg k0" "running (of_nat i) k0" "child_of m (of_nat i) k k0" "user_mem k0 = loaded bs (umem k (of_nat i))"
    "tail k0 = tail k" "terminal_buffer k0 = terminal_buffer k" "enter_status k0 = enter_status k" "pg k0 = create_page (pt_addr k) (of_nat i) (pg k)"
  have at: "pt_addr k0 = pt_addr k" "active_tty k0 = active_tty k" using k0(3) by (simp_all add: child_of_def)
  have "(of_nat i :: u32) < 1022" using slot_number [OF assms(3)] by simp
  from paging_reach.create [OF assms(12) this] have "null_unmapped k0"
    using assms(13) null_unmapped_reach by (simp add: k0(8) at)
  moreover have "kept k0 k0" "has_arguments arg k0" using k0(1) by (simp_all add: kept_def entered_def has_arguments_def)
  moreover have "types_line e cs k0" using assms(14) k0(5-7) at by (simp add: types_line_def line_def line_ok_def)
  moreover have "length arg < 133" using assms(7) by simp
  ultimately obtain k1 where k1: "sigtest_main (kernel_os e child') (kernel_sigs e child') lits a k0 = Some (Faults k1)" "kept k0 k1"
    "scr k1 = fold putc ?hi (scr k0)"
    using kg.sigtest_faults [of k0 k0 e cs arg a child' lits, unfolded kernel_os_mem k0(4)] assms(15-17) by blast
  let ?k = "k1\<lparr>scr := fold putc (bytes_of (''Page fault exception.'' @ nl)) (scr k1)\<rparr>"
  have same: "same_rest k0 k1" using k1(2) by (simp add: kept_def)
  have "same_rest k1 ?k" by (rule same_rest_kept) (simp_all add: fixed_def)
  with same have "same_rest k0 ?k" by (rule same_trans)
  moreover obtain t f where "user_page_fault e k1 = Some (Returns (resumed m (of_nat i) t f ?k) 0)"
    using fault_resumes [OF parent_resumed(2,3,1,4-6) [OF assms(1) k0(3,2) same]] by blast
  then have "child k0 (entry_of bs) 0x083FFFFC = Some (resumed m (of_nat i) t f ?k, 0)"
    using assms(11) k1(1) by (simp add: start_sigtest_def end_program_def)
  moreover have "scr ?k = fold putc (?hi @ bytes_of (''Page fault exception.'' @ nl)) (scr k0)"
    by (simp add: k1(3) del: map_append)
  ultimately show "\<exists>k1 t f. child k0 (entry_of bs) 0x083FFFFC = Some (resumed m (of_nat i) t f k1, 0) \<and> same_rest k0 k1
      \<and> scr k1 = fold putc ((if take 1 arg = [49] then bytes_of (''Installing signal handlers'' @ nl) else [])
          @ bytes_of name_prompt @ cs @ [10] @ bytes_of (''Page fault exception.'' @ nl)) (scr k0)"
    unfolding append_assoc by blast
qed

text \<open>A process with the command in its memory, and the memory that the test will be loaded into.\<close>

abbreviation sig_texts :: "string list" where
  "sig_texts \<equiv> [[], name_prompt, ''Installing signal handlers'' @ nl]"

definition sig_kernel :: kernel where
  "sig_kernel = (let k = session_kernel [''sigtest 1''] ''sigtest'' in k\<lparr>umem := (umem k)(1 := program_mem sig_texts)\<rparr>)"

definition sig_at :: sig_addrs where
  "sig_at = \<lparr>sbuf = 0x083FF000, charbuf = 0x08060004, badbuf = 0x08060000, at_segfault_sighandler = 0x08048100, at_alarm_sighandler = 0x08048200\<rparr>"

lemma sig_kernel_ok:
  "user_ok sig_kernel" "running 0 sig_kernel" "free_process sig_kernel = Some 1" "user_mem sig_kernel = program_mem [''sigtest 1'']"
  "umem sig_kernel 1 = program_mem sig_texts" "boot_block sig_kernel = named_image ''sigtest''"
  "types_line (typist [66, 111, 98]) [66, 111, 98] sig_kernel" "pt_addr sig_kernel = 0x407000"
  "paging_reach (pt_addr sig_kernel) (pd_addr sig_kernel) (Some 0) False (pg sig_kernel)"
proof -
  let ?k = "session_kernel [''sigtest 1''] ''sigtest''"
  have ok: "user_ok ?k" "running 0 ?k" "free_process ?k = Some 1" by (rule session_kernel_ok; simp)+
  have p: "proc sig_kernel = proc ?k" by (simp add: sig_kernel_def Let_def proc_def curr_pcb_def trap_entry_def get_pcb_def)
  then have "descriptors sig_kernel = descriptors ?k" by (simp add: descriptors_def sig_kernel_def Let_def)
  then show "user_ok sig_kernel" using user_ok_cong ok(1) by blast
  show "running 0 sig_kernel" using ok(2) by (simp add: running_def p) (simp add: sig_kernel_def Let_def)
  show "free_process sig_kernel = Some 1" using ok(3) by (simp add: free_process_def sig_kernel_def Let_def)
  have "window (pg ?k) = 0" using ok(2) by (simp add: running_def)
  then show "user_mem sig_kernel = program_mem [''sigtest 1'']" 
    using session_kernel_sel(3) [of "[''sigtest 1'']" "''sigtest''"] by (simp add: sig_kernel_def Let_def user_mem_def)
  show "umem sig_kernel 1 = program_mem sig_texts" "boot_block sig_kernel = named_image ''sigtest''"
    by (simp_all add: sig_kernel_def Let_def session_kernel_sel)
  have "types_line (typist [66, 111, 98]) [66, 111, 98] ?k" by (rule session_kernel_types) simp_all
  then show "types_line (typist [66, 111, 98]) [66, 111, 98] sig_kernel"
    by (simp add: types_line_def sig_kernel_def Let_def line_def line_ok_def)
  show "pt_addr sig_kernel = 0x407000" "paging_reach (pt_addr sig_kernel) (pd_addr sig_kernel) (Some 0) False (pg sig_kernel)"
    by (simp_all add: sig_kernel_def session_kernel_def program_def set_user_mem_def tiny_kernel_def Let_def paging_reach.create [OF paging_reach.boot])
qed

text \<open>Loading the file leaves the texts behind its first page.\<close>

lemma loaded_literal:
  assumes "literal (program_lits (t # texts)) buf m s" "s \<noteq> t" "length bs \<le> 4096" "length texts < 16"
  shows "literal (program_lits (t # texts)) buf (loaded bs m) s"
proof -
  let ?l = "program_lits (t # texts) s"
  have "loaded bs m (?l + of_nat i) = m (?l + of_nat i)" if "i \<le> length s" for i
  proof -
    let ?j = "length (takeWhile (\<lambda>t. t \<noteq> s) texts)"
    have "?l + of_nat i - 0x08048000 = of_nat (4096 * (?j + 1) + i)" using assms(2) by (simp add: program_lits_def)
    moreover have "?j \<le> length texts" by (rule length_takeWhile_le)
    then have "unat (of_nat (4096 * (?j + 1) + i) :: u32) = 4096 * (?j + 1) + i"
      using assms(1,4) that by (intro unat_of_nat32) (simp add: literal_def)
    ultimately show ?thesis using assms(3) by (simp only: loaded_def VIRTUAL_ADDR_def) simp
  qed
  then show ?thesis using assms(1) by (auto simp: literal_def cstr_def view_def)
qed

theorem sigtest_ends_in_fault_witness:
  "let e = typist [66, 111, 98]; child = (\<lambda>k' _ _. start_sigtest e (\<lambda>_ _ _. None) (program_lits sig_texts) sig_at k') in
   \<exists>k'. os_execute (kernel_os e child) 0x08048000 sig_kernel = Some (k', 0)
     \<and> scr k' = fold putc (bytes_of (''Installing signal handlers'' @ nl @ name_prompt) @ [66, 111, 98, 10]
          @ bytes_of (''Page fault exception.'' @ nl)) (scr sig_kernel)
     \<and> running 0 k' \<and> processes k' = processes sig_kernel"
proof -
  let ?e = "typist [66, 111, 98]" and ?l = "program_lits sig_texts" and ?n = "bytes_of ''sigtest''"
  let ?c = "\<lambda>k' _ _. start_sigtest ?e (\<lambda>_ _ _. None) ?l sig_at k'" and ?bs = "file_bytes (named_image ''sigtest'') 0"
  have "literal (program_lits [''sigtest 1'']) 0x083FF000 (program_mem [''sigtest 1'']) ''sigtest 1''" by (rule program_literal) simp_all
  then have cmd: "cstr (view (user_mem sig_kernel) 0x08048000) (?n @ 32 # [49])"
    by (simp add: literal_def program_lits_def sig_kernel_ok)
  have image: "runnable (boot_block sig_kernel) ?n 0" "length ?bs = 40" unfolding sig_kernel_ok by (rule named_runnable; simp)+
  have lits: "literal ?l (sbuf sig_at) (loaded ?bs (umem sig_kernel (of_nat 1))) s" if "s \<in> {name_prompt, ''Installing signal handlers'' @ nl}" for s
  proof -
    have "literal ?l 0x083FF000 (program_mem sig_texts) s" using that by (intro program_literal) auto
    moreover have "s \<noteq> []" "length ?bs \<le> 4096" using that image(2) by auto
    ultimately have "literal ?l 0x083FF000 (loaded ?bs (program_mem sig_texts)) s" by (rule loaded_literal) simp
    moreover have "sbuf sig_at = 0x083FF000" "umem sig_kernel (of_nat 1) = program_mem sig_texts" by (simp_all add: sig_at_def sig_kernel_ok)
    ultimately show ?thesis by (simp only:)
  qed
  have null: "null_at (sbuf sig_at) (badbuf sig_at) (loaded ?bs (umem sig_kernel (of_nat 1)))"
  proof -
    have "loaded ?bs (umem sig_kernel (of_nat 1)) (0x08060000 + of_nat i) = 0 \<and> 1024 \<le> unat (0x08060000 + of_nat i - 0x083FF000 :: u32)" if "i < 4" for i
    proof -
      have "0x08060000 + of_nat i - 0x08048000 = (of_nat (0x18000 + i) :: u32)" "0x08060000 + of_nat i - 0x083FF000 = (of_nat (4291170304 + i) :: u32)"
        by simp_all
      moreover have "unat (of_nat (0x18000 + i) :: u32) = 0x18000 + i" "unat (of_nat (4291170304 + i) :: u32) = 4291170304 + i"
        using that by (intro unat_of_nat32; simp)+
      moreover have "(0x18000 + i) div 4096 = 24" using that by simp
      ultimately show ?thesis by (simp only: loaded_def image(2) VIRTUAL_ADDR_def sig_kernel_ok program_mem_def Let_def of_nat_1) simp
    qed
    from this [of 0] this [of 1] this [of 2] this [of 3] this show ?thesis by (simp add: null_at_def sig_at_def load32_def)
  qed
  have "\<exists>k'. os_execute (kernel_os ?e ?c) 0x08048000 sig_kernel = Some (k', 0)
     \<and> scr k' = fold putc ((if take 1 [49] = [49 :: u8] then bytes_of (''Installing signal handlers'' @ nl) else [])
          @ bytes_of name_prompt @ [66, 111, 98] @ [10] @ bytes_of (''Page fault exception.'' @ nl)) (scr sig_kernel)
     \<and> running 0 k' \<and> descriptors k' = descriptors sig_kernel \<and> user_mem k' = user_mem sig_kernel \<and> processes k' = processes sig_kernel"
    by (rule sigtest_ends_in_fault [OF sig_kernel_ok(2,1,3) _ cmd _ _ image(1) refl _ _ sig_kernel_ok(9) _ sig_kernel_ok(7), of ?c "\<lambda>_ _ _. None" ?l sig_at])
      (use lits null image(2) in \<open>simp_all add: sig_kernel_ok(6,8) aligned4k_def\<close>)
  then show ?thesis by (auto simp: Let_def)
qed

end
