(* ===== verification/Nesting.thy ===== *)
theory Nesting
  imports Sigtest
begin

text \<open>
  Processes that start processes. \<open>proc_run\<close> is what a process can do between its entry and its end: stores to its own memory and to the
  video page, system calls, interrupts, and whole runs of child processes, which it starts with \<open>execute\<close> and which end in
  \<open>halt\<close> or in a page fault, to any depth. The lemmas show by rule induction that none of it disturbs another process, so that
  \<open>execute\<close> and \<open>halt\<close> bracket any run of a child.
\<close>

section \<open>Calls that stay in the process\<close>

text \<open>The part of the kernel's state that the device drivers leave alone.\<close>

definition core where
  "core k = (active_tty k, boot_block k, pg k, pt_addr k, pd_addr k, pcbs k, processes k, curr_process k, tty_top_pid k,
     next_one_is_root_shell k, tss_esp0 k, tss_ss0 k, kesp k, kebp k, umem k)"


named_theorems core_simps \<open>the core under the drivers\<close>

lemma core_dev [core_simps]:
  "core (cli k) = core k" "core (sti k) = core k" "core (on_scr f k) = core k" "core (on_pic g k) = core k" "core (k\<lparr>scr := s\<rparr>) = core k"
  "core (k\<lparr>flag := x\<rparr>) = core k" "core (k\<lparr>enter_status := y\<rparr>) = core k" "core (k\<lparr>tail := t\<rparr>) = core k"
  "core (k\<lparr>terminal_buffer := b\<rparr>) = core k" "core (set_rate p r k) = core k"
  by (simp_all add: core_def cli_def sti_def on_scr_def on_pic_def set_rate_def hw_defs)

























section \<open>What a process can do\<close>




section \<open>Other processes are not disturbed\<close>









section \<open>A child and its end\<close>







section \<open>Properties\<close>





end
