(* ===== verification/Grep.thy ===== *)
theory Grep
  imports UserProgs "HOL-Library.Sublist"
begin

text \<open>
  \<^verbatim>\<open>syscalls/ece391grep.c\<close>: the search for a string in the lines of files that are read through a buffer of 1024
  bytes. A line that the end of the buffer cuts is moved to its front before the next read. The reference
  definition works on the whole text, with lines longer than the buffer taken in pieces; the equivalence holds for files
  without NUL bytes (the move of a cut line is a string copy and ends at a NUL).
\<close>

section \<open>Model\<close>

lemma sint_add_1: "sint x < sint y \<Longrightarrow> sint (x + 1) = sint x + 1" for x y :: i32
proof -
  assume "sint x < sint y"
  then have "- 2147483648 \<le> sint x + 1" "sint x + 1 < 2147483648" using sint_ge [of x] sint_less [of y] by simp_all
  then show ?thesis by (simp add: sint_word_ariths signed_take_bit_int_eq_self)
qed

text \<open>The end of the line that starts at \<open>line_end\<close>: its newline, or the end of the data.\<close>

function scan_line :: "mem \<Rightarrow> addr \<Rightarrow> i32 \<Rightarrow> i32 \<Rightarrow> i32" where
  "scan_line m data line_end last' =
     (if sint line_end < sint last' \<and> m (data + line_end) \<noteq> 10 then scan_line m data (line_end + 1) last' else line_end)"
  by auto
termination by (relation "measure (\<lambda>(m, data, line_end, last'). nat (sint last' - sint line_end))") (auto simp: sint_add_1)

declare scan_line.simps [simp del]

text \<open>The search in one line; \<open>srch\<close> is the address of the string, \<open>fname\<close> that of the file's name.\<close>

partial_function (option) check_loop ::
  "'s os \<Rightarrow> (string \<Rightarrow> addr) \<Rightarrow> addr \<Rightarrow> addr \<Rightarrow> i32 \<Rightarrow> addr \<Rightarrow> i32 \<Rightarrow> i32 \<Rightarrow> i32 \<Rightarrow> 's \<Rightarrow> 's option" where
  "check_loop os lits srch fname s_len data line_start check line_end s =
     (if sint check < sint line_end
      then if os_mem os s srch = os_mem os s (data + check)
           then Option.bind (ece391_strncmp (os_mem os s) (data + check) srch s_len) (\<lambda>c.
             if c = 0
             then Option.bind (ece391_fdputs os 1 fname s) (\<lambda>s.
                  Option.bind (ece391_fdputs os 1 (lits '':'') s) (\<lambda>s.
                  Option.bind (ece391_fdputs os 1 (data + line_start) s) (\<lambda>s.
                  ece391_fdputs os 1 (lits nl) s)))
             else check_loop os lits srch fname s_len data line_start (check + 1) line_end s)
           else check_loop os lits srch fname s_len data line_start (check + 1) line_end s
      else Some s)"

text \<open>The lines of one buffer; the result is the new value of \<open>last\<close>.\<close>

partial_function (option) line_loop ::
  "'s os \<Rightarrow> (string \<Rightarrow> addr) \<Rightarrow> addr \<Rightarrow> addr \<Rightarrow> i32 \<Rightarrow> addr \<Rightarrow> i32 \<Rightarrow> i32 \<Rightarrow> i32 \<Rightarrow> 's \<Rightarrow> ('s \<times> i32) option" where
  "line_loop os lits srch fname s_len data cnt last' line_start s =
     (let line_end = scan_line (os_mem os s) data line_start last' in
      if os_mem os s (data + line_end) \<noteq> 10 \<and> cnt \<noteq> 0 \<and> line_start \<noteq> 0
      then Option.bind (ece391_strcpy data (data + line_start) ((os_mem os s)(data + line_end := 0))) (\<lambda>m.
             Some (os_poke os m s, last' - line_start))
      else let s = os_poke os ((os_mem os s)(data + line_end := 0)) s in
        Option.bind (check_loop os lits srch fname s_len data line_start line_start line_end s) (\<lambda>s.
          let line_start = line_end + 1
          in if sint line_start \<ge> sint last' then Some (s, 0)
             else line_loop os lits srch fname s_len data cnt last' line_start s))"

text \<open>The reads of one file; \<open>None\<close> beside the state means that the loop was left by \<^verbatim>\<open>break\<close>.\<close>

partial_function (option) file_loop ::
  "'s os \<Rightarrow> (string \<Rightarrow> addr) \<Rightarrow> addr \<Rightarrow> addr \<Rightarrow> i32 \<Rightarrow> addr \<Rightarrow> i32 \<Rightarrow> i32 \<Rightarrow> 's \<Rightarrow> ('s \<times> i32 option) option" where
  "file_loop os lits srch fname s_len data fd last' s =
     Option.bind (os_read os fd (data + last') (1024 - last') s) (\<lambda>(s, cnt).
       if cnt = -1 then Option.bind (ece391_fdputs os 1 (lits (''file read failed'' @ nl)) s) (\<lambda>s. Some (s, Some (-1)))
       else Option.bind (line_loop os lits srch fname s_len data cnt (last' + cnt) 0 s) (\<lambda>(s, last').
         if cnt = 0 then Some (s, None) else file_loop os lits srch fname s_len data fd last' s))"

definition do_one_file :: "'s os \<Rightarrow> (string \<Rightarrow> addr) \<Rightarrow> addr \<Rightarrow> addr \<Rightarrow> addr \<Rightarrow> 's \<Rightarrow> ('s \<times> i32) option" where
  "do_one_file os lits data srch fname s =
     do {
       s_len \<leftarrow> ece391_strlen (os_mem os s) srch;
       (s, fd) \<leftarrow> os_open os fname s;
       if fd = -1 then do { s \<leftarrow> ece391_fdputs os 1 (lits (''file open failed'' @ nl)) s; Some (s, -1) }
       else do {
         (s, r) \<leftarrow> file_loop os lits srch fname s_len data fd 0 s;
         case r of
           Some v \<Rightarrow> Some (s, v)
         | None \<Rightarrow>
             do {
               (s, c) \<leftarrow> os_close os fd s;
               if c = -1 then do { s \<leftarrow> ece391_fdputs os 1 (lits (''file close failed'' @ nl)) s; Some (s, -1) }
               else Some (s, 0)
             }
       }
     }"

partial_function (option) grep_loop ::
  "'s os \<Rightarrow> (string \<Rightarrow> addr) \<Rightarrow> addr \<Rightarrow> addr \<Rightarrow> addr \<Rightarrow> i32 \<Rightarrow> 's \<Rightarrow> ('s \<times> i32) option" where
  "grep_loop os lits data srch buf fd s =
     Option.bind (os_read os fd buf 32 s) (\<lambda>(s, cnt).
       if cnt = 0 then Some (s, 0)
       else if cnt = -1 then Option.bind (ece391_fdputs os 1 (lits (''directory entry read failed'' @ nl)) s) (\<lambda>s. Some (s, 3))
       else if os_mem os s buf = 46 then grep_loop os lits data srch buf fd s
       else Option.bind (do_one_file os lits data srch buf (os_poke os ((os_mem os s)(buf + cnt := 0)) s)) (\<lambda>(s, r).
         if r \<noteq> 0 then Some (s, 3) else grep_loop os lits data srch buf fd s))"

definition grep_main :: "'s os \<Rightarrow> (string \<Rightarrow> addr) \<Rightarrow> addr \<Rightarrow> addr \<Rightarrow> addr \<Rightarrow> 's \<Rightarrow> ('s \<times> i32) option" where
  "grep_main os lits data srch buf s =
     do {
       (s, r) \<leftarrow> os_getargs os srch 1024 s;
       if r \<noteq> 0 then do { s \<leftarrow> ece391_fdputs os 1 (lits (''could not read argument'' @ nl)) s; Some (s, 3) }
       else do {
         (s, fd) \<leftarrow> os_open os (lits ''.'') s;
         if fd = -1 then do { s \<leftarrow> ece391_fdputs os 1 (lits (''directory open failed'' @ nl)) s; Some (s, 2) }
         else grep_loop os lits data srch buf fd s
       }
     }"

section \<open>Lines of a text\<close>

text \<open>The lines of a text; a line of 1024 characters or more, which the buffer cannot hold with its end, counts as pieces of 1024.\<close>

function text_lines :: "u8 list \<Rightarrow> u8 list list" where
  "text_lines [] = []"
| "text_lines (b # bs) =
     (let l = take 1024 (takeWhile (\<lambda>c. c \<noteq> 10) (b # bs))
      in l # text_lines (drop (if length l < 1024 then Suc (length l) else 1024) (b # bs)))"
  by pat_completeness auto
termination by (relation "measure length") auto

declare text_lines.simps(2) [simp del]

lemma text_lines_unfold:
  "bs \<noteq> [] \<Longrightarrow> l = take 1024 (takeWhile (\<lambda>c. c \<noteq> 10) bs) \<Longrightarrow>
   text_lines bs = l # text_lines (drop (if length l < 1024 then Suc (length l) else 1024) bs)"
  using text_lines.simps(2) [of "hd bs" "tl bs"] by (simp add: Let_def)

lemma takeWhile_line: "10 \<notin> set l \<Longrightarrow> takeWhile (\<lambda>c. c \<noteq> 10) (l @ bs) = l @ takeWhile (\<lambda>c. c \<noteq> 10) bs" for l :: "u8 list"
  by (rule takeWhile_append2) auto

lemma text_lines_newline: "10 \<notin> set l \<Longrightarrow> length l < 1024 \<Longrightarrow> text_lines (l @ 10 # bs) = l # text_lines bs"
  using text_lines_unfold [of "l @ 10 # bs" l] takeWhile_line [of l "10 # bs"] by simp

lemma text_lines_full: "10 \<notin> set l \<Longrightarrow> length l = 1024 \<Longrightarrow> text_lines (l @ bs) = l # text_lines bs"
  using text_lines_unfold [of "l @ bs" l] takeWhile_line [of l bs] by (cases "l = []") simp_all

lemma text_lines_last: "10 \<notin> set t \<Longrightarrow> t \<noteq> [] \<Longrightarrow> length t \<le> 1024 \<Longrightarrow> text_lines t = [t]"
  using text_lines_unfold [of t t] takeWhile_line [of t "[]"] by (simp del: takeWhile_eq_all_conv)

text \<open>Complete lines, each with its newline.\<close>

abbreviation ended :: "u8 list list \<Rightarrow> u8 list" where
  "ended ls \<equiv> concat (map (\<lambda>l. l @ [10]) ls)"

lemma text_lines_ended: "(\<forall>l \<in> set ls. 10 \<notin> set l \<and> length l < 1024) \<Longrightarrow> text_lines (ended ls @ bs) = ls @ text_lines bs"
  by (induction ls) (simp_all add: text_lines_newline)

definition hits :: "u8 list \<Rightarrow> u8 list \<Rightarrow> u8 list list \<Rightarrow> u8 list" where
  "hits pat fname ls = concat (map (\<lambda>l. fname @ 58 # l @ [10]) (filter (\<lambda>l. pat \<noteq> [] \<and> sublist pat l) ls))"

lemma hits_simps [simp]: "hits pat fname [] = []" "hits pat fname (ls @ ls') = hits pat fname ls @ hits pat fname ls'"
  "hits pat fname [[]] = []"
  by (auto simp: hits_def)

section \<open>The search through the buffer\<close>

text \<open>A string outside the buffer of 1025 bytes at \<open>data\<close>.\<close>

definition apart :: "addr \<Rightarrow> mem \<Rightarrow> addr \<Rightarrow> u8 list \<Rightarrow> bool" where
  "apart data m p cs \<longleftrightarrow> cstr (view m p) cs \<and> length cs < 4096 \<and> (\<forall>i \<le> length cs. 1025 \<le> unat (p + of_nat i - data))"

text \<open>The buffer holds the bytes \<open>ws\<close>, from offset \<open>p\<close> on.\<close>

definition holds :: "addr \<Rightarrow> nat \<Rightarrow> mem \<Rightarrow> u8 list \<Rightarrow> bool" where
  "holds data p m ws \<longleftrightarrow> (\<forall>i < length ws. p \<le> i \<longrightarrow> m (data + of_nat i) = ws ! i)"

definition texts :: "(string \<Rightarrow> addr) \<Rightarrow> addr \<Rightarrow> addr \<Rightarrow> u8 list \<Rightarrow> addr \<Rightarrow> u8 list \<Rightarrow> mem \<Rightarrow> bool" where
  "texts lits data srch pat fname name m \<longleftrightarrow> apart data m srch pat \<and> apart data m fname name \<and> apart data m (lits '':'') [58]
     \<and> apart data m (lits nl) [10]"

lemma apart_cong: "apart data m p cs \<Longrightarrow> (\<And>a. 1025 \<le> unat (a - data) \<Longrightarrow> m' a = m a) \<Longrightarrow> apart data m' p cs"
  unfolding apart_def cstr_def view_def by simp

lemma texts_cong:
  "texts lits data srch pat fname name m \<Longrightarrow> (\<And>a. 1025 \<le> unat (a - data) \<Longrightarrow> m' a = m a) \<Longrightarrow> texts lits data srch pat fname name m'"
  using apart_cong unfolding texts_def by metis

lemma scan_line_eq:
  assumes "holds data p m ws" "length ws \<le> 1024" "p \<le> length ws"
  shows "scan_line m data (of_nat p) (of_nat (length ws)) = of_nat (p + length (takeWhile (\<lambda>c. c \<noteq> 10) (drop p ws)))"
  using assms(1,3)
proof (induction "length ws - p" arbitrary: p)
  case 0
  then show ?case by (subst scan_line.simps) simp
next
  case (Suc n)
  then have p: "p < length ws" "n = length ws - Suc p" by auto
  then have s: "sint (of_nat p :: i32) < sint (of_nat (length ws) :: i32)" using assms(2) by (simp add: sint_of_nat32)
  have at: "m (data + of_nat p) = ws ! p" using Suc.prems(1) p by (simp add: holds_def)
  have d: "drop p ws = ws ! p # drop (Suc p) ws" using p by (simp add: Cons_nth_drop_Suc)
  show ?case
  proof (cases "ws ! p = 10")
    case True
    then show ?thesis by (subst scan_line.simps) (simp add: at d)
  next
    case False
    have "scan_line m data (of_nat (Suc p)) (of_nat (length ws)) = of_nat (Suc p + length (takeWhile (\<lambda>c. c \<noteq> 10) (drop (Suc p) ws)))"
      by (rule Suc.hyps(1) [OF p(2)]) (use p Suc.prems(1) in \<open>simp_all add: holds_def\<close>)
    then show ?thesis using False s by (subst scan_line.simps) (simp add: at d add.commute)
  qed
qed

text \<open>The line that starts at offset \<open>p\<close>.\<close>

lemma line_cut:
  assumes "p \<le> length ws" "l = takeWhile (\<lambda>c. c \<noteq> 10) (drop p ws)" "q = p + length l"
  shows "drop p ws = l @ drop q ws" "q \<le> length ws" "10 \<notin> set l" "set l \<subseteq> set ws"
    "q < length ws \<Longrightarrow> ws ! q = 10 \<and> drop p ws = l @ 10 # drop (Suc q) ws"
proof -
  show pre: "drop p ws = l @ drop q ws"
    using takeWhile_dropWhile_id [of "\<lambda>c. c \<noteq> 10" "drop p ws"] by (simp add: assms(2,3) dropWhile_eq_drop add.commute)
  have "length l \<le> length ws - p" unfolding assms(2) by (metis length_drop length_takeWhile_le)
  then show "q \<le> length ws" using assms(1,3) by simp
  show "10 \<notin> set l" "set l \<subseteq> set ws" by (auto simp: assms(2) dest: set_takeWhileD in_set_dropD)
  show "ws ! q = 10 \<and> drop p ws = l @ 10 # drop (Suc q) ws" if "q < length ws"
  proof -
    have "length l < length (drop p ws)" using that by (simp add: assms(3))
    from nth_length_takeWhile [OF this [unfolded assms(2)], folded assms(2)] have "drop p ws ! length l = 10" by simp
    then have "ws ! q = 10" using that by (simp add: assms(3))
    then show ?thesis using pre that by (metis Cons_nth_drop_Suc)
  qed
qed

lemma line_marked:
  assumes "holds data p m ws" "drop p ws = l @ drop q ws" "q = p + length l" "q \<le> length ws" "q \<le> 1024" "0 \<notin> set l"
  shows "cstr (view (m(data + of_nat q := 0)) (data + of_nat p)) l"
  unfolding cstr_def view_def
proof (intro conjI allI impI)
  fix i assume i: "i < length l"
  then have "p + i < q" by (simp add: assms(3))
  then have "(m(data + of_nat q := 0)) (data + of_nat (p + i)) = ws ! (p + i)"
    using assms(1,4,5) by (simp add: holds_def of_nat32_eq_iff del: of_nat_add)
  moreover have "ws ! (p + i) = l ! i" using arg_cong [OF assms(2), of "\<lambda>xs. xs ! i"] i assms(3,4) by (simp add: nth_append)
  ultimately show "(m(data + of_nat q := 0)) (data + of_nat p + of_nat i) = l ! i" by (simp add: add.assoc)
  show "l ! i \<noteq> 0" using assms(6) i by (metis nth_mem)
qed (use assms(3,5) in \<open>auto simp: add.assoc\<close>)

text \<open>The cut line is moved to the front of the buffer.\<close>

lemma move_down:
  assumes "cstr (view m (data + of_nat p)) l" "p \<noteq> 0" "p + length l \<le> 1024"
  shows "ece391_strcpy data (data + of_nat p) m = Some (\<lambda>a. if unat (a - data) \<le> length l then (l @ [0]) ! unat (a - data) else m a)"
proof (rule ece391_strcpy_cstr [OF assms(1)], rule disjI2)
  have "- (of_nat p :: u32) = of_nat (4294967296 - p)" using assms(3) by (simp add: of_nat_diff)
  then have "unat (- (of_nat p :: u32)) = 4294967296 - p" using assms(2) by (simp only: unat_of_nat32)
  then show "length l < unat (data - (data + of_nat p))" using assms(3) by simp
qed

context user_system
begin

lemma check_loop_prints:
  assumes "ok s" "texts lits data srch pat fname name (os_mem os s)" "cstr (view (os_mem os s) (data + of_nat p)) l" "i \<le> length l"
    "p + length l \<le> 1024"
  shows "\<exists>s'. check_loop os lits srch fname (of_nat (length pat)) data (of_nat p) (of_nat (p + i)) (of_nat (p + length l)) s = Some s'
    \<and> ok s' \<and> os_mem os s' = os_mem os s \<and> descr s' = descr s
    \<and> out s' = fold emit (if pat \<noteq> [] \<and> sublist pat (drop i l) then name @ 58 # l @ [10] else []) (out s)"
  using assms(4)
proof (induction "length l - i" arbitrary: i)
  case 0
  then have "drop i l = []" by simp
  moreover have "sint (of_nat (p + i) :: i32) = int (p + i)" "sint (of_nat (p + length l) :: i32) = int (p + length l)"
    using 0 assms(5) by (auto simp: sint_of_nat32 simp del: of_nat_add)
  ultimately show ?case using 0 assms(1) by (subst check_loop.simps) (auto simp del: of_nat_add)
next
  case (Suc n)
  let ?m = "os_mem os s" and ?a = "data + of_nat (p + i)"
  have i: "i < length l" "n = length l - Suc i" using Suc.hyps(2) by auto
  have lt: "sint (of_nat (p + i) :: i32) < sint (of_nat (p + length l) :: i32)"
    using i assms(5) by (simp add: sint_of_nat32 del: of_nat_add)
  have d: "drop i l = l ! i # drop (Suc i) l" using i(1) by (simp add: Cons_nth_drop_Suc)
  have here: "cstr (view ?m ?a) (drop i l)" using cstr_drop [OF assms(3), of i] i(1) by (simp add: add.assoc)
  have str: "cstr (view ?m srch) pat" "length pat < 4096" using assms(2) by (simp_all add: texts_def apart_def)
  obtain r where r: "ece391_strncmp ?m ?a srch (of_nat (length pat)) = Some r"
    "r = 0 \<longleftrightarrow> take (unat (of_nat (length pat) :: u32)) (drop i l) = take (unat (of_nat (length pat) :: u32)) pat"
    using ece391_strncmp_cstr [OF here str(1)] by blast
  have hit: "r = 0 \<longleftrightarrow> prefix pat (drop i l)"
    using r(2) str(2) by (auto simp: prefix_def take_is_prefix) (metis append_take_drop_id)
  have first: "?m srch = ?m ?a \<longleftrightarrow> pat \<noteq> [] \<and> hd pat = l ! i"
    using str(1) here unfolding d by (cases pat) (auto simp: cstr_nil cstr_head)
  obtain s' where rest: "check_loop os lits srch fname (of_nat (length pat)) data (of_nat p) (of_nat (p + Suc i)) (of_nat (p + length l)) s = Some s'"
    "ok s'" "os_mem os s' = ?m" "descr s' = descr s"
    "out s' = fold emit (if pat \<noteq> [] \<and> sublist pat (drop (Suc i) l) then name @ 58 # l @ [10] else []) (out s)"
    using Suc.hyps(1) [OF i(2)] i(1) by auto
  have next1: "of_nat (p + i) + 1 = (of_nat (p + Suc i) :: u32)" by simp
  have sub: "sublist pat (drop i l) \<longleftrightarrow> prefix pat (drop i l) \<or> sublist pat (drop (Suc i) l)" unfolding d by (rule sublist_Cons_right)
  show ?case
  proof (cases "?m srch = ?m ?a \<and> r = 0")
    case True
    have t: "cstr (view ?m fname) name" "length name < 4096" "cstr (view ?m (lits '':'')) [58]" "cstr (view ?m (lits nl)) [10]"
      using assms(2) by (simp_all add: texts_def apart_def)
    obtain s1 where s1: "ece391_fdputs os 1 fname s = Some s1" "ok s1" "os_mem os s1 = ?m" "descr s1 = descr s" "out s1 = fold emit name (out s)"
      using fdputs_out [OF assms(1) t(1)] t(2) by auto
    obtain s2 where s2: "ece391_fdputs os 1 (lits '':'') s1 = Some s2" "ok s2" "os_mem os s2 = ?m" "descr s2 = descr s"
      "out s2 = fold emit [58] (out s1)"
      using fdputs_out [OF s1(2), of "lits '':''" "[58]"] t(3) s1 by auto
    obtain s3 where s3: "ece391_fdputs os 1 (data + of_nat p) s2 = Some s3" "ok s3" "os_mem os s3 = ?m" "descr s3 = descr s"
      "out s3 = fold emit l (out s2)"
      using fdputs_out [OF s2(2), of "data + of_nat p" l] assms(3,5) s2 by auto
    obtain s4 where s4: "ece391_fdputs os 1 (lits nl) s3 = Some s4" "ok s4" "os_mem os s4 = ?m" "descr s4 = descr s"
      "out s4 = fold emit [10] (out s3)"
      using fdputs_out [OF s3(2), of "lits nl" "[10]"] t(4) s3 by auto
    have "pat \<noteq> [] \<and> sublist pat (drop i l)" using True first hit sub by blast
    moreover have "out s4 = fold emit (name @ 58 # l @ [10]) (out s)" by (simp add: s4(5) s3(5) s2(5) s1(5))
    ultimately show ?thesis
      using True lt r(1) s1(1) s2(1) s3(1) s4 by (subst check_loop.simps) (simp del: of_nat_add)
  next
    case False
    then have "pat \<noteq> [] \<and> sublist pat (drop i l) \<longleftrightarrow> pat \<noteq> [] \<and> sublist pat (drop (Suc i) l)"
      using hit first sub unfolding d by (cases pat) auto
    then show ?thesis
      using False lt r(1) rest by (subst check_loop.simps) (auto simp: next1 simp del: of_nat_add)
  qed
qed

lemma line_loop_lines:
  assumes "ok s" "texts lits data srch pat fname name (os_mem os s)" "holds data p (os_mem os s) ws" "length ws \<le> 1024" "0 \<notin> set ws"
    "p < length ws \<or> p = 0 \<and> ws = []" "os_mem os s (data + 1024) \<noteq> 10"
  shows "\<exists>s' ls t n. drop p ws = ended ls @ t \<and> 10 \<notin> set t \<and> (\<forall>l \<in> set ls. 10 \<notin> set l)
     \<and> line_loop os lits srch fname (of_nat (length pat)) data cnt (of_nat (length ws)) (of_nat p) s = Some (s', of_nat n)
     \<and> ok s' \<and> descr s' = descr s \<and> texts lits data srch pat fname name (os_mem os s') \<and> os_mem os s' (data + 1024) \<noteq> 10
     \<and> (n = 0 \<and> out s' = fold emit (hits pat name (ls @ [t])) (out s)
            \<and> (t = [] \<or> cnt = 0 \<or> p = 0 \<and> ls = [] \<or> os_mem os s (data + of_nat (length ws)) = 10)
        \<or> n = length t \<and> holds data 0 (os_mem os s') t \<and> out s' = fold emit (hits pat name ls) (out s) \<and> length t < length ws \<and> cnt \<noteq> 0)"
  using assms(1-3,6,7)
proof (induction "length ws - p" arbitrary: p s rule: less_induct)
  case less
  define m where "m = os_mem os s"
  define l where "l = takeWhile (\<lambda>c. c \<noteq> 10) (drop p ws)"
  define q where "q = p + length l"
  define m1 where "m1 = m(data + of_nat q := 0)"
  have "p \<le> length ws" using less.prems(4) by auto
  note cut = line_cut [OF this l_def q_def]
  have q: "q \<le> length ws" "q \<le> 1024" "p \<le> q" using cut(2) assms(4) by (auto simp: q_def)
  have scan: "scan_line m data (of_nat p) (of_nat (length ws)) = of_nat q"
    using scan_line_eq [OF less.prems(3) assms(4)] less.prems(4) by (auto simp: m_def q_def l_def)
  have l: "10 \<notin> set l" "0 \<notin> set l" using cut(3,4) assms(5) by auto
  have no_nl: "drop p ws = l" if "q = length ws" using cut(1) that by simp
  note nl = cut(5)
  have out: "m1 a = m a" if "1025 \<le> unat (a - data)" for a
    using that q(2) by (auto simp: m1_def)
  have t1: "texts lits data srch pat fname name m1" using texts_cong [OF less.prems(2)] out by (simp add: m_def)
  have line: "cstr (view m1 (data + of_nat p)) l"
    unfolding m1_def by (rule line_marked [OF less.prems(3) [folded m_def] cut(1) q_def q(1,2) l(2)])
  have end1: "m1 (data + 1024) \<noteq> 10" using less.prems(5) by (simp add: m1_def m_def)
  have sq: "sint (of_nat q + 1 :: i32) = int q + 1" "sint (of_nat (length ws) :: i32) = int (length ws)"
    using sint_of_nat32 [of "Suc q"] sint_of_nat32 [of "length ws"] q assms(4) by (simp_all add: add.commute)
  show ?case
  proof (cases "m (data + of_nat q) \<noteq> 10 \<and> cnt \<noteq> 0 \<and> (of_nat p :: u32) \<noteq> 0")
    case True
    moreover have "m (data + of_nat q) = 10" if "q < length ws"
      using less.prems(3) nl [OF that] q that by (simp add: holds_def m_def)
    ultimately have ql: "q = length ws" using q(1) by fastforce
    then have dl: "drop p ws = l" using no_nl by blast
    have "p \<noteq> 0" using True by (cases p) auto
    then have p: "p \<noteq> 0" "length l < 1024" "length l < length ws" "length l = length ws - p"
      using dl less.prems(4) assms(4) by auto
    define m2 where "m2 = (\<lambda>a. if unat (a - data) \<le> length l then (l @ [0]) ! unat (a - data) else m1 a)"
    have "ece391_strcpy data (data + of_nat p) m1 = Some m2"
      unfolding m2_def by (rule move_down [OF line p(1)]) (use q in \<open>simp add: q_def\<close>)
    then have "line_loop os lits srch fname (of_nat (length pat)) data cnt (of_nat (length ws)) (of_nat p) s = Some (os_poke os m2 s, of_nat (length l))"
      using True scan p(4) q by (subst line_loop.simps) (simp add: Let_def m_def m1_def)
    moreover have "texts lits data srch pat fname name m2" by (rule texts_cong [OF t1]) (use p(2) in \<open>simp add: m2_def\<close>)
    moreover have "m2 (data + 1024) \<noteq> 10" using p(2) end1 by (simp add: m2_def)
    moreover have "holds data 0 m2 l" using p(2) by (auto simp: holds_def m2_def nth_append)
    ultimately show ?thesis
      using less.prems(1) dl l p by (intro exI [of _ "os_poke os m2 s"] exI [of _ "[]"] exI [of _ l] exI [of _ "length l"]) (simp add: poke True)
  next
    case False
    have "ok (os_poke os m1 s)" using less.prems(1) by (simp only: poke)
    moreover have "p + length l \<le> 1024" using q by (simp add: q_def)
    ultimately obtain s1 where s1: "check_loop os lits srch fname (of_nat (length pat)) data (of_nat p) (of_nat p) (of_nat q) (os_poke os m1 s) = Some s1"
      "ok s1" "os_mem os s1 = m1" "descr s1 = descr s" "out s1 = fold emit (if pat \<noteq> [] \<and> sublist pat l then name @ 58 # l @ [10] else []) (out s)"
      using check_loop_prints [of "os_poke os m1 s" lits data srch pat fname name p l 0] t1 line by (auto simp: poke q_def)
    then have out1: "out s1 = fold emit (hits pat name [l]) (out s)" by (simp add: hits_def)
    have step: "line_loop os lits srch fname (of_nat (length pat)) data cnt (of_nat (length ws)) (of_nat p) s =
        (if length ws \<le> q + 1 then Some (s1, 0)
         else line_loop os lits srch fname (of_nat (length pat)) data cnt (of_nat (length ws)) (of_nat (Suc q)) s1)"
      using False scan s1(1) sq by (subst line_loop.simps) (auto simp: Let_def m_def m1_def add.commute)
    consider "q = length ws" | "q + 1 = length ws" | "q + 1 < length ws" using q(1) by linarith
    then show ?thesis
    proof cases
      case 1
      then have "drop p ws = l" by (rule no_nl)
      moreover have "l = [] \<or> cnt = 0 \<or> p = 0 \<or> m (data + of_nat (length ws)) = 10"
        using False 1 of_nat32_eq_iff [of p 0] q by auto
      ultimately show ?thesis
        using step 1 s1 out1 t1 end1 l
        by (intro exI [of _ s1] exI [of _ "[]"] exI [of _ l] exI [of _ 0]) (simp add: m_def)
    next
      case 2
      then have "drop p ws = ended [l] @ []" using nl by simp
      moreover have "hits pat name [l, []] = hits pat name [l]" using hits_simps(2) [of pat name "[l]" "[[]]"] by simp
      ultimately show ?thesis
        using step 2 s1(2-4) out1 t1 end1 l
        by (intro exI [of _ s1] exI [of _ "[l]"] exI [of _ "[]"] exI [of _ 0]) simp
    next
      case 3
      have far: "m1 (data + of_nat (length ws)) = m (data + of_nat (length ws))"
        using 3 assms(4) by (simp add: m1_def of_nat32_eq_iff)
      have d: "length ws - Suc q < length ws - p" "Suc q < length ws \<or> Suc q = 0 \<and> ws = []" using 3 q by auto
      have "holds data (Suc q) m1 ws"
        using less.prems(3) 3 assms(4) q by (auto simp: holds_def m1_def m_def of_nat32_eq_iff)
      from less.hyps [OF d(1) s1(2), unfolded s1(3) far, OF t1 this d(2) end1] obtain s' ls t n where IH: "drop (Suc q) ws = ended ls @ t" "10 \<notin> set t" "\<forall>l \<in> set ls. 10 \<notin> set l"
        "line_loop os lits srch fname (of_nat (length pat)) data cnt (of_nat (length ws)) (of_nat (Suc q)) s1 = Some (s', of_nat n)"
        "ok s'" "descr s' = descr s1" "texts lits data srch pat fname name (os_mem os s')" "os_mem os s' (data + 1024) \<noteq> 10"
        "n = 0 \<and> out s' = fold emit (hits pat name (ls @ [t])) (out s1) \<and> (t = [] \<or> cnt = 0 \<or> Suc q = 0 \<and> ls = [] \<or> m (data + of_nat (length ws)) = 10)
        \<or> n = length t \<and> holds data 0 (os_mem os s') t \<and> out s' = fold emit (hits pat name ls) (out s1) \<and> length t < length ws \<and> cnt \<noteq> 0"
        by blast
      have split: "hits pat name (l # ks) = hits pat name [l] @ hits pat name ks" for ks using hits_simps(2) [of pat name "[l]" ks] by simp
      have "drop p ws = ended (l # ls) @ t" using nl 3 IH(1) by simp
      then show ?thesis
        using step 3 IH(2-9) l out1 s1(4) m_def
        by (intro exI [of _ s'] exI [of _ "l # ls"] exI [of _ t] exI [of _ n]) (auto simp: split [of ls] split [of "ls @ [t]"] simp del: hits_simps)
    qed
  qed
qed

end

text \<open>
  Regular files by name. \<open>base fd d0 d\<close>: the descriptors \<open>d\<close> are \<open>d0\<close> with \<open>fd\<close> opened; \<open>like d0 d\<close>: the same are open in both.
\<close>

locale name_calls = file_calls os ok emit out descr file_at
  for os :: "'s os" and ok and emit :: "u8 \<Rightarrow> 'o \<Rightarrow> 'o" and out and descr :: "'s \<Rightarrow> 'd" and file_at +
  fixes on_disk :: "u8 list \<Rightarrow> u8 list \<Rightarrow> 'd \<Rightarrow> bool"
    and base :: "i32 \<Rightarrow> 'd \<Rightarrow> 'd \<Rightarrow> bool"
    and like :: "'d \<Rightarrow> 'd \<Rightarrow> bool"
  assumes open_file: "ok s \<Longrightarrow> p \<noteq> 0 \<Longrightarrow> cstr (view (os_mem os s) p) cs \<Longrightarrow> on_disk cs bs (descr s) \<Longrightarrow>
      \<exists>s' fd. os_open os p s = Some (s', fd) \<and> fd \<noteq> -1 \<and> ok s' \<and> out s' = out s \<and> os_mem os s' = os_mem os s
        \<and> file_at fd bs (descr s') \<and> base fd (descr s) (descr s')"
    and read_base: "ok s \<Longrightarrow> file_at fd bs (descr s) \<Longrightarrow> base fd d (descr s) \<Longrightarrow> os_read os fd buf n s = Some (s', c) \<Longrightarrow>
      base fd d (descr s')"
    and close_file: "ok s \<Longrightarrow> file_at fd bs (descr s) \<Longrightarrow> base fd d (descr s) \<Longrightarrow>
      \<exists>s'. os_close os fd s = Some (s', 0) \<and> ok s' \<and> out s' = out s \<and> os_mem os s' = os_mem os s \<and> like d (descr s')"
    and on_disk_like: "like d d' \<Longrightarrow> on_disk cs bs d' = on_disk cs bs d"
    and like_trans: "like d d' \<Longrightarrow> like d' d'' \<Longrightarrow> like d d''"
    and like_refl: "like d d"
begin

lemma file_loop_prints:
  assumes "ok s" "file_at fd rest (descr s)" "base fd d (descr s)" "texts lits data srch pat fname name (os_mem os s)" "holds data 0 (os_mem os s) t"
    "length t \<le> 1023" "10 \<notin> set t" "0 \<notin> set (t @ rest)" "os_mem os s (data + 1024) \<noteq> 10"
  shows "\<exists>s'. file_loop os lits srch fname (of_nat (length pat)) data fd (of_nat (length t)) s = Some (s', None) \<and> ok s'
     \<and> file_at fd [] (descr s') \<and> base fd d (descr s') \<and> out s' = fold emit (hits pat name (text_lines (t @ rest))) (out s)
     \<and> texts lits data srch pat fname name (os_mem os s') \<and> os_mem os s' (data + 1024) \<noteq> 10"
  using assms
proof (induction "length rest" arbitrary: rest t s rule: less_induct)
  case less
  define room where "room = 1024 - length t"
  have room: "1024 - of_nat (length t) = (of_nat room :: u32)" "unat (of_nat room :: u32) = room" "0 < room" "room + length t = 1024"
  proof -
    show "unat (of_nat room :: u32) = room" by (rule unat_of_nat32) (simp add: room_def)
  qed (use less.prems(6) in \<open>simp_all add: room_def of_nat_diff\<close>)
  define k where "k = min room (length rest)"
  have k: "k \<le> 1024" "k \<le> length rest" "k \<le> room" "k = 0 \<longleftrightarrow> rest = []"
    using room(3,4) by (auto simp: k_def min_def split: if_splits)
  define ws where "ws = t @ take k rest"
  have ws: "length ws = length t + k" "length ws \<le> 1024" "0 \<notin> set ws"
    using k room less.prems(8) by (auto simp: ws_def dest: in_set_takeD)
  let ?buf = "data + of_nat (length t)"
  from read_file [OF less.prems(1,2), of k "of_nat room" ?buf] obtain s1 where s1: "os_read os fd ?buf (of_nat room) s = Some (s1, of_nat k)"
    "ok s1" "out s1 = out s" "file_at fd (drop k rest) (descr s1)"
    "os_mem os s1 = (\<lambda>a. if unat (a - ?buf) < k then rest ! unat (a - ?buf) else os_mem os s a)"
    by (auto simp: room(2) k_def)
  have b1: "base fd d (descr s1)" by (rule read_base [OF less.prems(1-3) s1(1)])
  have at: "os_mem os s1 (data + of_nat i) = (if length t \<le> i \<and> i < length t + k then rest ! (i - length t) else os_mem os s (data + of_nat i))"
    if "i \<le> 1024" for i
  proof -
    have "unat (of_nat i - of_nat (length t) :: u32) = i - length t" if "length t \<le> i"
      using that \<open>i \<le> 1024\<close> by (simp flip: of_nat_diff)
    then show ?thesis
      using that less.prems(6) k(1) unat_sub_of_nat [of "length t" k "of_nat i"] by (simp add: s1(5))
  qed
  have h1: "holds data 0 (os_mem os s1) ws"
    using less.prems(5) ws(2) by (auto simp: holds_def ws(1) at ws_def nth_append)
  have t1: "texts lits data srch pat fname name (os_mem os s1)"
  proof (rule texts_cong [OF less.prems(4)])
    fix a assume "1025 \<le> unat (a - data)"
    moreover have "k \<le> 4294967296 - length t" "length t + k \<le> 1024" using room k by auto
    ultimately have "\<not> unat (a - ?buf) < k"
      using less.prems(6) unat_sub_of_nat [of "length t" k "a - data"] by (simp add: diff_diff_add)
    then show "os_mem os s1 a = os_mem os s a" by (simp add: s1(5))
  qed
  have e1: "os_mem os s1 (data + 1024) \<noteq> 10" using at [of 1024] room k(3) less.prems(9) by auto
  have "0 < length ws \<or> (0 :: nat) = 0 \<and> ws = []" by auto
  from line_loop_lines [OF s1(2) t1 h1 ws(2,3) this e1, of "of_nat k", unfolded drop_0 semiring_1_class.of_nat_0] obtain s2 ls u n where
    r: "ws = ended ls @ u" "10 \<notin> set u" "\<forall>l \<in> set ls. 10 \<notin> set l"
      "line_loop os lits srch fname (of_nat (length pat)) data (of_nat k) (of_nat (length ws)) 0 s1 = Some (s2, of_nat n)"
      "ok s2" "descr s2 = descr s1" "texts lits data srch pat fname name (os_mem os s2)" "os_mem os s2 (data + 1024) \<noteq> 10"
      "n = 0 \<and> out s2 = fold emit (hits pat name (ls @ [u])) (out s1)
         \<and> (u = [] \<or> of_nat k = (0 :: i32) \<or> (0 :: nat) = 0 \<and> ls = [] \<or> os_mem os s1 (data + of_nat (length ws)) = 10)
       \<or> n = length u \<and> holds data 0 (os_mem os s2) u \<and> out s2 = fold emit (hits pat name ls) (out s1) \<and> length u < length ws \<and> of_nat k \<noteq> (0 :: i32)"
    by (elim exE conjE) (rule that)
  have lines: "text_lines (t @ rest) = ls @ text_lines (u @ drop k rest)"
  proof -
    have "t @ rest = ended ls @ u @ drop k rest" using r(1) by (simp add: ws_def) (metis append.assoc append_take_drop_id)
    moreover have "length l < 1024" if "l \<in> set ls" for l
    proof -
      have "length (l @ [10]) \<le> length (ended ls)" using that by (induction ls) auto
      then show ?thesis using r(1) ws(2) by simp
    qed
    ultimately show ?thesis using text_lines_ended [of ls] r(3) by simp
  qed
  have step: "file_loop os lits srch fname (of_nat (length pat)) data fd (of_nat (length t)) s =
      (if k = 0 then Some (s2, None) else file_loop os lits srch fname (of_nat (length pat)) data fd (of_nat n) s2)"
    using s1(1) r(4) k small_count [OF k(1)] ws(1) by (subst file_loop.simps) (simp add: room(1))
  have u: "length u \<le> 1024" using r(1) ws(2) by simp
  have piece: "text_lines (u @ drop k rest) = u # text_lines (drop k rest)" if "u \<noteq> []"
      "of_nat k = (0 :: i32) \<or> ls = [] \<or> os_mem os s1 (data + of_nat (length ws)) = 10"
  proof (cases "drop k rest = []")
    case True
    then show ?thesis using text_lines_last [OF r(2) that(1) u] by simp
  next
    case False
    then have full: "length ws = 1024" "k \<noteq> 0" using room ws(1) by (auto simp: k_def)
    then have "ls = []" using that(2) e1 small_count [OF k(1)] by auto
    then show ?thesis using text_lines_full [OF r(2)] full(1) r(1) by simp
  qed
  have small: "length (drop k rest) < length rest" if "k \<noteq> 0" using that k by auto
  have rest0: "0 \<notin> set (drop k rest)" "0 \<notin> set u"
    using less.prems(8) ws(3) r(1) by (auto dest: in_set_dropD)
  consider (all) "n = 0" "out s2 = fold emit (hits pat name (ls @ [u])) (out s1)" "u = [] \<or> text_lines (u @ drop k rest) = u # text_lines (drop k rest)"
    | (cut) "n = length u" "holds data 0 (os_mem os s2) u" "out s2 = fold emit (hits pat name ls) (out s1)" "length u < length ws" "k \<noteq> 0"
    using r(9) piece small_count(3) [OF k(1)] by auto
  then show ?case
  proof cases
    case all
    then have shown: "hits pat name (text_lines (t @ rest)) = hits pat name (ls @ [u]) @ hits pat name (text_lines (drop k rest))"
      using lines hits_simps(2) [of pat name "[u]" "text_lines (drop k rest)"] by (elim disjE) simp_all
    show ?thesis
    proof (cases "k = 0")
      case True
      then show ?thesis using step r(5-8) s1(3,4) b1 all(2) shown k(4) by simp
    next
      case False
      obtain s3 where "file_loop os lits srch fname (of_nat (length pat)) data fd 0 s2 = Some (s3, None)" "ok s3" "file_at fd [] (descr s3)" "base fd d (descr s3)"
        "out s3 = fold emit (hits pat name (text_lines (drop k rest))) (out s2)"
        "texts lits data srch pat fname name (os_mem os s3)" "os_mem os s3 (data + 1024) \<noteq> 10"
        using less.hyps [OF small [OF False] r(5), of "[]"] r(6-8) s1(4) b1 rest0 by (auto simp: holds_def)
      then show ?thesis using step False all(1,2) s1(3) shown by simp
    qed
  next
    case cut
    obtain s3 where "file_loop os lits srch fname (of_nat (length pat)) data fd (of_nat (length u)) s2 = Some (s3, None)" "ok s3"
      "file_at fd [] (descr s3)" "base fd d (descr s3)" "out s3 = fold emit (hits pat name (text_lines (u @ drop k rest))) (out s2)"
      "texts lits data srch pat fname name (os_mem os s3)" "os_mem os s3 (data + 1024) \<noteq> 10"
      using less.hyps [OF small [OF cut(5)] r(5), of u] r(2,6-8) s1(4) b1 rest0 cut ws(2) by auto
    then show ?thesis using step cut(1,3,5) s1(3) lines by simp
  qed
qed

lemma do_one_file_prints:
  assumes "ok s" "on_disk name bs (descr s)" "fname \<noteq> 0" "texts lits data srch pat fname name (os_mem os s)" "0 \<notin> set bs"
    "os_mem os s (data + 1024) \<noteq> 10"
  shows "\<exists>s'. do_one_file os lits data srch fname s = Some (s', 0) \<and> ok s' \<and> out s' = fold emit (hits pat name (text_lines bs)) (out s)
     \<and> like (descr s) (descr s') \<and> texts lits data srch pat fname name (os_mem os s') \<and> os_mem os s' (data + 1024) \<noteq> 10"
proof -
  have str: "cstr (view (os_mem os s) fname) name" "cstr (view (os_mem os s) srch) pat"
    using assms(4) by (simp_all add: texts_def apart_def)
  from open_file [OF assms(1,3) str(1) assms(2)] obtain s1 fd where s1: "os_open os fname s = Some (s1, fd)" "fd \<noteq> -1" "ok s1" "out s1 = out s"
    "os_mem os s1 = os_mem os s" "file_at fd bs (descr s1)" "base fd (descr s) (descr s1)" by blast
  from file_loop_prints [OF s1(3,6,7), of lits data srch pat fname name "[]"] obtain s2 where
    s2: "file_loop os lits srch fname (of_nat (length pat)) data fd 0 s1 = Some (s2, None)" "ok s2" "file_at fd [] (descr s2)"
      "base fd (descr s) (descr s2)" "out s2 = fold emit (hits pat name (text_lines bs)) (out s1)"
      "texts lits data srch pat fname name (os_mem os s2)" "os_mem os s2 (data + 1024) \<noteq> 10"
    using assms(4-6) by (auto simp: s1(5) holds_def)
  from close_file [OF s2(2-4)] obtain s3 where "os_close os fd s2 = Some (s3, 0)" "ok s3" "out s3 = out s2" "os_mem os s3 = os_mem os s2"
    "like (descr s) (descr s3)" by blast
  then show ?thesis
    using s1(1,2,4) s2(1,5-7) str(2) by (auto simp: do_one_file_def ece391_strlen_view strlen_cstr)
qed

end

text \<open>
  The memory of \<open>main\<close>: the string searched for and the constants lie outside the buffer \<open>data\<close> of \<open>do_one_file\<close> and
  outside the 33 bytes for a name at \<open>buf\<close>, which lie outside the buffer.
\<close>

definition beyond :: "addr \<Rightarrow> addr \<Rightarrow> u8 list \<Rightarrow> bool" where
  "beyond b p cs \<longleftrightarrow> (\<forall>i \<le> length cs. 33 \<le> unat (p + of_nat i - b))"

definition ready :: "(string \<Rightarrow> addr) \<Rightarrow> addr \<Rightarrow> addr \<Rightarrow> u8 list \<Rightarrow> addr \<Rightarrow> mem \<Rightarrow> bool" where
  "ready lits data srch pat buf m \<longleftrightarrow> (\<forall>(p, cs) \<in> {(srch, pat), (lits '':'', [58]), (lits nl, [10])}. apart data m p cs \<and> beyond buf p cs)
     \<and> (\<forall>i \<le> 32. 1025 \<le> unat (buf + of_nat i - data)) \<and> m (data + 1024) \<noteq> 10"

lemma ready_cong:
  assumes "ready lits data srch pat buf m" "\<And>a. 33 \<le> unat (a - buf) \<Longrightarrow> m' a = m a"
  shows "ready lits data srch pat buf m'"
proof -
  have "apart data m' p cs" if "apart data m p cs" "beyond buf p cs" for p cs
    using that assms(2) unfolding apart_def cstr_def view_def beyond_def by simp
  moreover have "33 \<le> unat (data + 1024 - buf)"
  proof (rule ccontr)
    let ?i = "unat (data + 1024 - buf)"
    assume "\<not> 33 \<le> ?i"
    moreover have "\<forall>i \<le> 32. 1025 \<le> unat (buf + of_nat i - data)" using assms(1) by (simp add: ready_def)
    ultimately have "1025 \<le> unat (buf + of_nat ?i - data)" by (metis less_Suc_eq_le linorder_not_less numeral_plus_one plus_1_eq_Suc semiring_norm(5) add.commute)
    then show False by simp
  qed
  then have "m' (data + 1024) \<noteq> 10" using assms by (simp add: ready_def)
  ultimately show ?thesis using assms(1) unfolding ready_def by auto
qed

lemma ready_texts:
  "ready lits data srch pat buf m \<Longrightarrow> cstr (view m buf) name \<Longrightarrow> length name \<le> 32 \<Longrightarrow> texts lits data srch pat buf name m"
  by (auto simp: ready_def texts_def apart_def)

lemma texts_ready:
  "ready lits data srch pat buf m \<Longrightarrow> texts lits data srch pat buf name m' \<Longrightarrow> m' (data + 1024) \<noteq> 10 \<Longrightarrow> ready lits data srch pat buf m'"
  by (auto simp: ready_def texts_def)

text \<open>What is printed for an entry of the directory.\<close>

definition found :: "u8 list \<Rightarrow> u8 list \<Rightarrow> u8 list \<Rightarrow> u8 list" where
  "found pat name bs = (if hd name = 46 then [] else hits pat name (text_lines bs))"

text \<open>The directory read while files are opened and closed.\<close>

locale grep_calls = name_calls os ok emit out descr file_at on_disk base like + dir_calls os ok emit out descr dir_at names
  for os :: "'s os" and ok and emit :: "u8 \<Rightarrow> 'o \<Rightarrow> 'o" and out and descr :: "'s \<Rightarrow> 'd" and file_at on_disk base like dir_at names +
  assumes dir_like: "like d d' \<Longrightarrow> dir_at fd j d \<Longrightarrow> dir_at fd j d' \<and> names d' = names d"
    and read_dir_disk: "ok s \<Longrightarrow> dir_at fd j (descr s) \<Longrightarrow> j \<le> 63 \<Longrightarrow> os_read os fd buf 32 s = Some (s', c) \<Longrightarrow>
      on_disk cs bs (descr s') = on_disk cs bs (descr s)"
    and name_chars: "0 \<notin> set (names d j)"
begin

lemma grep_loop_prints:
  assumes "ok s" "dir_at fd j (descr s)" "j \<le> n" "n \<le> 63" "\<And>i. j \<le> i \<Longrightarrow> i < n \<Longrightarrow> names (descr s) i \<noteq> []" "names (descr s) n = []"
    "\<forall>i. j \<le> i \<longrightarrow> i < n \<longrightarrow> hd (names (descr s) i) \<noteq> 46 \<longrightarrow> on_disk (names (descr s) i) (f i) (descr s) \<and> 0 \<notin> set (f i)"
    "ready lits data srch pat buf (os_mem os s)" "buf \<noteq> 0"
  shows "\<exists>s'. grep_loop os lits data srch buf fd s = Some (s', 0) \<and> ok s'
    \<and> out s' = fold emit (concat (map (\<lambda>i. found pat (names (descr s) i) (f i)) [j..<n])) (out s)"
  using assms
proof (induction "n - j" arbitrary: j s)
  case 0
  then have "j = n" by simp
  then obtain s1 where "os_read os fd buf 32 s = Some (s1, 0)" "ok s1" "out s1 = out s"
    using read_dir [OF "0.prems"(1,2), of buf] "0.prems" by auto
  then show ?case using \<open>j = n\<close> by (subst grep_loop.simps) simp
next
  case (Suc d)
  let ?cs = "names (descr s) j"
  have j: "j < n" "j \<le> 63" "d = n - (j + 1)" "[j..<n] = j # [j + 1..<n]" using Suc.hyps(2) Suc.prems by (auto simp: upt_conv_Cons)
  have len: "length ?cs \<le> 32" "length ?cs \<le> 1024" "?cs \<noteq> []"
    using name_length [of "descr s" j] Suc.prems(5) [of j] j(1) by auto
  from read_dir [OF Suc.prems(1,2) j(2), of buf] obtain s1 where s1: "os_read os fd buf 32 s = Some (s1, of_nat (length ?cs))"
    "ok s1" "out s1 = out s" "dir_at fd (j + 1) (descr s1)" "names (descr s1) = names (descr s)"
    "os_mem os s1 = (\<lambda>a. if unat (a - buf) < 32 then (if unat (a - buf) < length ?cs then ?cs ! unat (a - buf) else 0) else os_mem os s a)"
    by blast
  have disk1: "on_disk cs bs (descr s1) = on_disk cs bs (descr s)" for cs bs by (rule read_dir_disk [OF Suc.prems(1,2) j(2) s1(1)])
  have r1: "ready lits data srch pat buf (os_mem os s1)" by (rule ready_cong [OF Suc.prems(8)]) (simp add: s1(6))
  have head: "os_mem os s1 buf = hd ?cs" using len(3) by (simp add: s1(6) hd_conv_nth)
  let ?more = "concat (map (\<lambda>i. found pat (names (descr s) i) (f i)) [j + 1..<n])"
  have go: "\<exists>s'. grep_loop os lits data srch buf fd s2 = Some (s', 0) \<and> ok s' \<and> out s' = fold emit ?more (out s2)"
    if "ok s2" "dir_at fd (j + 1) (descr s2)" "names (descr s2) = names (descr s)" "\<And>cs bs. on_disk cs bs (descr s2) = on_disk cs bs (descr s)"
      "ready lits data srch pat buf (os_mem os s2)" for s2
  proof -
    have "\<forall>i. j + 1 \<le> i \<longrightarrow> i < n \<longrightarrow> hd (names (descr s) i) \<noteq> 46 \<longrightarrow> on_disk (names (descr s) i) (f i) (descr s) \<and> 0 \<notin> set (f i)"
      using Suc.prems(7) by (meson add_leD1)
    then show ?thesis
      using Suc.hyps(1) [OF j(3) that(1,2) _ Suc.prems(4), unfolded that(3,4), OF _ _ Suc.prems(6) _ that(5) Suc.prems(9)] Suc.prems(5) j(1) by auto
  qed
  show ?case
  proof (cases "hd ?cs = 46")
    case True
    then have "found pat ?cs (f j) = []" by (simp add: found_def)
    then show ?thesis
      using go [OF s1(2,4,5) disk1 r1] s1(1,3) small_count [OF len(2)] len(3) head True j(4) by (subst grep_loop.simps) auto
  next
    case False
    let ?m = "(os_mem os s1)(buf + of_nat (length ?cs) := 0)"
    let ?s = "os_poke os ?m s1"
    have str: "cstr (view ?m buf) ?cs"
      using len(1) name_chars [of "descr s" j] unfolding cstr_def view_def by (auto simp: s1(6) of_nat32_eq_iff in_set_conv_nth)
    have r2: "ready lits data srch pat buf ?m" by (rule ready_cong [OF r1]) (use len(1) in auto)
    have fl: "on_disk ?cs (f j) (descr ?s)" "0 \<notin> set (f j)"
      using Suc.prems(7) [rule_format, OF order_refl j(1) False] unfolding poke disk1 by blast+
    have "ok ?s" "texts lits data srch pat buf ?cs (os_mem os ?s)" "os_mem os ?s (data + 1024) \<noteq> 10"
      using s1(2) ready_texts [OF r2 str len(1)] r2 by (simp_all add: poke ready_def)
    from do_one_file_prints [OF this(1) fl(1) Suc.prems(9) this(2) fl(2) this(3)] obtain s2 where
      s2: "do_one_file os lits data srch buf ?s = Some (s2, 0)" "ok s2" "out s2 = fold emit (found pat ?cs (f j)) (out s)"
        "like (descr s1) (descr s2)" "texts lits data srch pat buf ?cs (os_mem os s2)" "os_mem os s2 (data + 1024) \<noteq> 10"
      using False by (auto simp: poke s1(3) found_def)
    have "dir_at fd (j + 1) (descr s2)" "names (descr s2) = names (descr s)" "on_disk cs bs (descr s2) = on_disk cs bs (descr s)" for cs bs
      using dir_like [OF s2(4) s1(4)] on_disk_like [OF s2(4)] s1(5) disk1 by auto
    from go [OF s2(2) this texts_ready [OF r2 s2(5,6)]] show ?thesis
      using s1(1) s2(1,3) small_count [OF len(2)] len(3) head False j(4) by (subst grep_loop.simps) auto
  qed
qed

end

text \<open>On the kernel.\<close>

definition file_on_disk :: "u8 list \<Rightarrow> u8 list \<Rightarrow> (nat \<Rightarrow> fd_struct) \<times> str \<Rightarrow> bool" where
  "file_on_disk cs bs d \<longleftrightarrow> length cs \<le> 32 \<and> find (\<lambda>i. flags (fst d i) = 0) [2..<8] \<noteq> None
     \<and> (case find (\<lambda>j. dir_name (snd d) j = cs) [0..<unat (num_dir (snd d))] of
          None \<Rightarrow> False
        | Some j \<Rightarrow> let inode = load32 (snd d) (directory_offset (of_nat j) + 36)
                    in load32 (snd d) (directory_offset (of_nat j) + 32) = 2 \<and> inode \<le> num_inodes (snd d) \<and> bs = file_bytes (snd d) inode)"

lemma file_on_disk_cong:
  "snd d' = snd d \<Longrightarrow> (\<And>i. flags (fst d' i) = flags (fst d i)) \<Longrightarrow> file_on_disk cs bs d' = file_on_disk cs bs d"
  unfolding file_on_disk_def by (simp only:)

definition fd_based :: "i32 \<Rightarrow> (nat \<Rightarrow> fd_struct) \<times> str \<Rightarrow> (nat \<Rightarrow> fd_struct) \<times> str \<Rightarrow> bool" where
  "fd_based fd d0 d \<longleftrightarrow> snd d = snd d0 \<and> flags (fst d0 (unat fd)) = 0 \<and> (\<forall>i. i \<noteq> unat fd \<longrightarrow> fst d i = fst d0 i)"

definition same_open :: "(nat \<Rightarrow> fd_struct) \<times> str \<Rightarrow> (nat \<Rightarrow> fd_struct) \<times> str \<Rightarrow> bool" where
  "same_open d0 d \<longleftrightarrow> snd d = snd d0 \<and> (\<forall>i. flags (fst d i) = flags (fst d0 i) \<and> (flags (fst d0 i) \<noteq> 0 \<longrightarrow> fst d i = fst d0 i))"

lemma kernel_open_file:
  assumes "kept k0 k" "p \<noteq> 0" "cstr (view (user_mem k) p) cs" "file_on_disk cs bs (descriptors k)"
  shows "\<exists>k' fd. os_open (kernel_os e child) p k = Some (k', fd) \<and> fd \<noteq> -1 \<and> kept k0 k' \<and> scr k' = scr k \<and> user_mem k' = user_mem k
     \<and> file_open_at fd bs (descriptors k') \<and> fd_based fd (descriptors k) (descriptors k')"
proof -
  have ok: "user_ok k" using assms(1) by (simp add: kept_def)
  from assms(4) obtain j i where d: "length cs \<le> 32" "find (\<lambda>j. dir_name (boot_block k) j = cs) [0..<unat (num_dir (boot_block k))] = Some j"
    "load32 (boot_block k) (directory_offset (of_nat j) + 32) = 2"
    "load32 (boot_block k) (directory_offset (of_nat j) + 36) \<le> num_inodes (boot_block k)"
    "bs = file_bytes (boot_block k) (load32 (boot_block k) (directory_offset (of_nat j) + 36))"
    "find (\<lambda>i. flags (fd_array (proc k) i) = 0) [2..<8] = Some i"
    by (auto simp: file_on_disk_def descriptors_def Let_def split: option.splits)
  have i: "i < 8" "2 \<le> i" "flags (fd_array (proc k) i) = 0" "\<forall>l. 2 \<le> l \<longrightarrow> l < i \<longrightarrow> flags (fd_array (proc k) l) \<noteq> 0"
    using find_upt [OF d(6)] by auto
  from kernel_open [OF ok assms(2,3) d(1,2) d(3) [symmetric] _ i, of e child]
  obtain k' where k': "os_open (kernel_os e child) p k = Some (k', of_nat i)" "user_ok k'" "scr k' = scr k" "user_mem k' = user_mem k"
    "boot_block k' = boot_block k" "same_rest k k'"
    "fd_array (proc k') = (fd_array (proc k))(i := opened (load32 (boot_block k) (directory_offset (of_nat j) + 36)) file_jump_table (fd_array (proc k) i))"
    by auto
  have "file_open_at (of_nat i) bs (descriptors k')"
    using fd_number [OF i(1)] d(4,5) by (auto simp: file_open_at_def descriptors_def k'(5,7) opened_def Let_def intro: exI [of _ 0])
  moreover have "fd_based (of_nat i) (descriptors k) (descriptors k')"
    using fd_number [OF i(1)] i(3) by (simp add: fd_based_def descriptors_def k'(5,7))
  ultimately show ?thesis using k' fd_number [OF i(1)] kept_step [OF assms(1) k'(2,6)] by blast
qed

lemma kernel_close_file:
  assumes "kept k0 k" "file_open_at fd bs (descriptors k)" "fd_based fd d (descriptors k)"
  shows "\<exists>k'. os_close (kernel_os e child) fd k = Some (k', 0) \<and> kept k0 k' \<and> scr k' = scr k \<and> user_mem k' = user_mem k
     \<and> same_open d (descriptors k')"
proof -
  let ?i = "unat fd"
  have ok: "user_ok k" using assms(1) by (simp add: kept_def)
  have f: "flags (fd_array (proc k) ?i) \<noteq> 0" "file_operations (fd_array (proc k) ?i) = Some file_jump_table" "?i < 8"
    using assms(2) fd_good [of fd] by (auto simp: file_open_at_def descriptors_def Let_def)
  then have one: "flags (fd_array (proc k) ?i) = 1" using ok by (auto simp: user_ok_def fds_ok_def)
  have "?i \<noteq> 0" "?i \<noteq> 1" using ok f(2) by (auto simp: user_ok_def fds_ok_def intro: ccontr)
  then have two: "2 \<le> ?i" by linarith
  let ?k' = "after_fd ?i (\<lambda>f. f\<lparr>flags := 0\<rparr>) (user_mem k) k"
  have "os_close (kernel_os e child) fd k = Some (?k', 0)" using kernel_close [OF ok two f(3) one] by simp
  moreover have "user_ok ?k'" by (rule user_ok_fd [OF ok f(3) two after_fd_sel(1,3)]) (simp_all add: f)
  moreover have "same_open d (descriptors ?k')"
    using assms(3) by (auto simp: same_open_def fd_based_def descriptors_def after_fd_sel)
  ultimately show ?thesis using after_fd_sel kept_step [OF assms(1)] by (intro exI [of _ ?k']) simp
qed

interpretation kg: grep_calls "kernel_os e child" "kept k0" putc scr descriptors file_open_at file_on_disk fd_based same_open dir_open_at
  "\<lambda>d. dir_name (snd d)" for e child k0
proof
  show "\<exists>k' fd. os_open (kernel_os e child) p k = Some (k', fd) \<and> fd \<noteq> -1 \<and> kept k0 k' \<and> scr k' = scr k
      \<and> os_mem (kernel_os e child) k' = os_mem (kernel_os e child) k \<and> file_open_at fd bs (descriptors k') \<and> fd_based fd (descriptors k) (descriptors k')"
    if "kept k0 k" "p \<noteq> 0" "cstr (view (os_mem (kernel_os e child) k) p) cs" "file_on_disk cs bs (descriptors k)" for k p cs bs
    using kernel_open_file that unfolding kernel_os_mem by blast
  show "\<exists>k'. os_close (kernel_os e child) fd k = Some (k', 0) \<and> kept k0 k' \<and> scr k' = scr k
      \<and> os_mem (kernel_os e child) k' = os_mem (kernel_os e child) k \<and> same_open d (descriptors k')"
    if "kept k0 k" "file_open_at fd bs (descriptors k)" "fd_based fd d (descriptors k)" for k fd bs d
    using kernel_close_file that unfolding kernel_os_mem by blast
  show "fd_based fd d (descriptors k')"
    if "kept k0 k" "file_open_at fd bs (descriptors k)" "fd_based fd d (descriptors k)" "os_read (kernel_os e child) fd buf n k = Some (k', c)"
    for k fd bs d buf n k' c
    using kernel_read_file [OF _ that(2) refl, where n = n and e = e and child = child and buf = buf] that by (auto simp: kept_def fd_based_def descriptors_def)
  show "file_on_disk cs bs (descriptors k') = file_on_disk cs bs (descriptors k)"
    if "kept k0 k" "dir_open_at fd j (descriptors k)" "j \<le> 63" "os_read (kernel_os e child) fd buf 32 k = Some (k', c)" for k fd j buf k' c cs bs
    using kernel_read_dir [OF _ that(2,3) refl, where e = e and child = child and buf = buf] that(1,4)
    by (intro file_on_disk_cong) (auto simp: kept_def descriptors_def)
  show "file_on_disk cs bs d' = file_on_disk cs bs d" if "same_open d d'" for d d' cs bs
    using that by (intro file_on_disk_cong) (auto simp: same_open_def)
qed (auto simp: same_open_def dir_open_at_def dir_name_props)

section \<open>Properties\<close>

definition layout :: "(string \<Rightarrow> addr) \<Rightarrow> addr \<Rightarrow> addr \<Rightarrow> addr \<Rightarrow> bool" where
  "layout lits data srch buf \<longleftrightarrow> far data 1025 srch 1024 \<and> far buf 33 srch 1024 \<and> far data 1025 buf 33
     \<and> (\<forall>p \<in> {lits '':'', lits nl, lits ''.''}. far data 1025 p 2 \<and> far buf 33 p 2 \<and> far srch 1024 p 2)"

text \<open>The arguments stored in \<open>search\<close> leave the memory as the search needs it.\<close>

lemma layout_ready:
  assumes "layout lits data srch buf" "length pat \<le> 132" "cstr c pat" "m (data + 1024) \<noteq> 10"
    "\<forall>(p, cs) \<in> {(lits '':'', [58]), (lits nl, [10])}. cstr (view m p) cs"
    "m' = (\<lambda>a. if unat (a - srch) < 140 then c (a - srch) else m a)"
  shows "ready lits data srch pat buf m'"
proof -
  have far: "far data 1025 srch 1024" "far buf 33 srch 1024" "far data 1025 buf 33"
    "p \<in> {lits '':'', lits nl, lits ''.''} \<Longrightarrow> far data 1025 p 2 \<and> far buf 33 p 2 \<and> far srch 1024 p 2" for p
    using assms(1) by (auto simp: layout_def)
  have lit: "apart data m' p [x] \<and> beyond buf p [x]" if "p \<in> {lits '':'', lits nl, lits ''.''}" "cstr (view m p) [x]" for p x
  proof -
    have at: "1025 \<le> unat (p + of_nat i - data)" "33 \<le> unat (p + of_nat i - buf)" "1024 \<le> unat (p + of_nat i - srch)" if "i \<le> 1" for i
      using far(4) [OF \<open>p \<in> _\<close>] far_at [of _ _ p 2 i] that by auto
    from at(3) [of 0] at(3) [of 1] have "m' p = m p" "m' (p + 1) = m (p + 1)" by (simp_all add: assms(6))
    then show ?thesis using that(2) at(1,2) by (auto simp: apart_def beyond_def cstr_def view_def)
  qed
  have "cstr (view m' srch) pat" using assms(2,3) by (simp add: cstr_def view_def assms(6))
  then have "apart data m' srch pat \<and> beyond buf srch pat"
    using assms(2) far_at [OF far(1)] far_at [OF far(2)] by (auto simp: apart_def beyond_def)
  moreover have "\<forall>i \<le> 32. 1025 \<le> unat (buf + of_nat i - data)" using far_at [OF far(3)] by simp
  moreover have "m' (data + 1024) \<noteq> 10"
  proof -
    have "\<not> unat (data + 1024 - srch) < 1024"
    proof
      assume "unat (data + 1024 - srch) < 1024"
      from far_at [OF far(1) this] show False by simp
    qed
    then show ?thesis using assms(4) by (simp add: assms(6))
  qed
  ultimately show ?thesis using lit [of "lits '':''" 58] lit [of "lits nl" 10] assms(5) by (simp add: ready_def)
qed

text \<open>
  C19: \<open>do_one_file\<close> of \<open>grep\<close> on the kernel, for any regular file of the image without NUL bytes, of any length and with lines
  of any length: it opens the file, reads it through its buffer of 1024 bytes, prints exactly the lines that contain the
  string, in order, each after the name of the file and a colon, closes the file and returns 0. The result is that of the search in the
  whole text, wherever the ends of the buffer cut it, except that a line of 1024 characters or more is searched and printed
  in pieces of 1024 (\<open>text_lines\<close>). An empty string is never found. The same descriptors are open afterwards. The strings lie
  outside the buffer, and the byte behind the buffer must not hold a newline: \<open>do_one_file\<close> reads it before it writes it.
\<close>

theorem grep_searches_file:
  assumes "user_ok k" "length name \<le> 32"
    "find (\<lambda>j. dir_name (boot_block k) j = name) [0..<unat (num_dir (boot_block k))] = Some j"
    "load32 (boot_block k) (directory_offset (of_nat j) + 32) = 2"
    "inode = load32 (boot_block k) (directory_offset (of_nat j) + 36)" "inode \<le> num_inodes (boot_block k)"
    "bs = file_bytes (boot_block k) inode" "0 \<notin> set bs"
    "i \<in> {2..<8}" "flags (fd_array (proc k) i) = 0"
    "fname \<noteq> 0" "texts lits data srch pat fname name (user_mem k)" "user_mem k (data + 1024) \<noteq> 10"
  shows "\<exists>k'. do_one_file (kernel_os e child) lits data srch fname k = Some (k', 0)
     \<and> scr k' = fold putc (concat (map (\<lambda>l. name @ 58 # l @ [10]) (filter (\<lambda>l. pat \<noteq> [] \<and> sublist pat l) (text_lines bs)))) (scr k)
     \<and> user_ok k' \<and> boot_block k' = boot_block k \<and> (\<forall>i. flags (fd_array (proc k') i) = flags (fd_array (proc k) i)
          \<and> (flags (fd_array (proc k) i) \<noteq> 0 \<longrightarrow> fd_array (proc k') i = fd_array (proc k) i))"
proof -
  have "find (\<lambda>i. flags (fd_array (proc k) i) = 0) [2..<8] \<noteq> None"
    using assms(9,10) by (auto simp: find_None_iff simp del: upt_rec_numeral)
  then have "file_on_disk name bs (descriptors k)"
    unfolding file_on_disk_def descriptors_def using assms(2-7) by (simp add: Let_def del: upt_rec_numeral)
  moreover have "kept k k" using assms(1) by (simp add: kept_def)
  ultimately show ?thesis
    using kg.do_one_file_prints [of k k name bs fname lits data srch pat e child] assms(8,11-13)
    by (auto simp: hits_def same_open_def descriptors_def kept_def)
qed

text \<open>
  \<open>grep\<close>, started with a string as its argument, searches the files of the directory in order, up to the first
  empty name, leaving out those whose names start with a dot, as long as they are regular files without NUL bytes.
\<close>

theorem grep_searches_directory:
  assumes "user_ok k" "cstr (\<lambda>i. args (proc k) (unat i)) pat" "length pat \<le> 132" "layout lits data srch buf" "buf \<noteq> 0" "lits ''.'' \<noteq> 0"
    "user_mem k (data + 1024) \<noteq> 10" "\<forall>(p, cs) \<in> {(lits '':'', [58]), (lits nl, [10]), (lits ''.'', [46])}. cstr (view (user_mem k) p) cs"
    "find (\<lambda>j. dir_name (boot_block k) j = [46]) [0..<unat (num_dir (boot_block k))] = Some j"
    "load32 (boot_block k) (directory_offset (of_nat j) + 32) = 1"
    "find (\<lambda>i. flags (fd_array (proc k) i) = 0) [2..<8] = Some i" "i' \<in> {2..<8}" "i' \<noteq> i" "flags (fd_array (proc k) i') = 0"
    "n \<le> 63" "\<forall>l < n. dir_name (boot_block k) l \<noteq> []" "dir_name (boot_block k) n = []"
    "\<forall>l < n. hd (dir_name (boot_block k) l) \<noteq> 46 \<longrightarrow> file_on_disk (dir_name (boot_block k) l) (f l) (descriptors k) \<and> 0 \<notin> set (f l)"
  shows "\<exists>k'. grep_main (kernel_os e child) lits data srch buf k = Some (k', 0)
     \<and> scr k' = fold putc (concat (map (\<lambda>l. found pat (dir_name (boot_block k) l) (f l)) [0..<n])) (scr k)"
proof -
  let ?os = "kernel_os e child"
  from kernel_getargs [OF assms(1), of 1024 e child srch] obtain k1 where k1: "os_getargs ?os srch 1024 k = Some (k1, 0)" "user_ok k1"
    "scr k1 = scr k" "descriptors k1 = descriptors k" "same_rest k k1"
    "user_mem k1 = (\<lambda>a. if unat (a - srch) < 140 then args (proc k) (unat (a - srch)) else user_mem k a)"
    by auto
  have d: "fd_array (proc k1) = fd_array (proc k)" "boot_block k1 = boot_block k" using k1(4) by (simp_all add: descriptors_def)
  have r: "ready lits data srch pat buf (user_mem k1)"
    by (rule layout_ready [OF assms(4,3,2,7) _ k1(6)]) (use assms(8) in simp)
  have dot: "cstr (view (user_mem k1) (lits ''.'')) [46]"
  proof -
    have "far srch 1024 (lits ''.'') 2" using assms(4) by (simp add: layout_def)
    from far_at [OF this, of 0] far_at [OF this, of 1] show ?thesis using assms(8) by (simp add: k1(6) cstr_def view_def)
  qed
  have i: "i < 8" "2 \<le> i" "flags (fd_array (proc k) i) = 0" "\<forall>l. 2 \<le> l \<longrightarrow> l < i \<longrightarrow> flags (fd_array (proc k) l) \<noteq> 0"
    using find_upt [OF assms(11)] by auto
  from kernel_open [OF k1(2) assms(6) dot _, unfolded d, OF _ assms(9) assms(10) [symmetric] _ i, of e child]
  obtain k2 where k2: "os_open ?os (lits ''.'') k1 = Some (k2, of_nat i)" "user_ok k2" "scr k2 = scr k" "user_mem k2 = user_mem k1"
    "boot_block k2 = boot_block k" "fd_array (proc k2) = (fd_array (proc k))(i := opened 0 directory_jump_table (fd_array (proc k) i))"
    by (auto simp: k1(3))
  have "dir_open_at (of_nat i) 0 (descriptors k2)"
    using fd_number [OF i(1)] i(2) by (simp add: dir_open_at_def descriptors_def k2(6) opened_def)
  moreover have "file_on_disk cs bs (descriptors k2)" if "file_on_disk cs bs (descriptors k)" for cs bs
  proof -
    have a: "find (\<lambda>i. flags (fst (descriptors k2) i) = 0) [2..<8] \<noteq> None"
      using assms(12-14) by (auto simp: find_None_iff descriptors_def k2(6) simp del: upt_rec_numeral)
    have b: "snd (descriptors k2) = snd (descriptors k)" by (simp add: descriptors_def k2(5))
    show ?thesis using that a unfolding file_on_disk_def b by blast
  qed
  moreover have "kept k2 k2" using k2(2) by (simp add: kept_def)
  ultimately obtain k3 where "grep_loop ?os lits data srch buf (of_nat i) k2 = Some (k3, 0)"
    "scr k3 = fold putc (concat (map (\<lambda>l. found pat (dir_name (boot_block k) l) (f l)) [0..<n])) (scr k2)"
    using kg.grep_loop_prints [of k2 k2 "of_nat i" 0 n f lits data srch pat buf e child] assms(5,15-18) r
    by (auto simp: descriptors_def k2(4,5))
  then show ?thesis using k1(1) k2(1,3) fd_number [OF i(1)] by (simp add: grep_main_def)
qed

text \<open>An image with the directory and a file \<open>a\<close> that holds the lines \<open>x\<close> and \<open>y\<close>, searched for \<open>y\<close>.\<close>

definition grep_image :: str where
  "grep_image = dot_image(4096 := 3, 8192 := 120, 8193 := 10, 8194 := 121)"

definition grep_lits :: "string \<Rightarrow> addr" where
  "grep_lits s = (if s = '':'' then 0x08048000 else if s = nl then 0x08048010 else 0x08048020)"

definition grep_kernel :: kernel where
  "grep_kernel = set_user_mem ((\<lambda>_. 0)(0x08048000 := 58, 0x08048010 := 10, 0x08048020 := 46))
     (tiny_kernel\<lparr>boot_block := grep_image, pcbs := (\<lambda>_. blank_pcb\<lparr>args := (\<lambda>_. 0)(0 := 121)\<rparr>)\<rparr>)"

lemma grep_image_names:
  "num_dir grep_image = 2" "dir_name grep_image 0 = [46]" "dir_name grep_image (Suc 0) = [97]" "dir_name grep_image 2 = []" "names_end grep_image"
proof -
  show n: "num_dir grep_image = 2" by (simp add: num_dir_def load32_def dot_image_def grep_image_def)
  have c: "cstr (directory_name grep_image 0) [46]" "cstr (directory_name grep_image 1) [97]" "cstr (directory_name grep_image 2) []"
    by (simp_all add: cstr_def directory_name_def directory_offset_def view_def dot_image_def grep_image_def)
  then show "dir_name grep_image 0 = [46]" "dir_name grep_image (Suc 0) = [97]" "dir_name grep_image 2 = []"
    by (simp_all add: dir_name_def chars_cstr)
  show "names_end grep_image"
    unfolding names_end_def
  proof (intro allI impI)
    fix i assume "i < unat (num_dir grep_image)"
    then consider "i = 0" | "i = 1" by (auto simp: n less_2_cases_iff)
    then show "\<exists>ds. cstr (directory_name grep_image (of_nat i)) ds" using c by cases auto
  qed
qed

lemma grep_image_bytes: "num_inodes grep_image = 1" "file_bytes grep_image 0 = [120, 10, 121]"
proof -
  show n: "num_inodes grep_image = 1" by (simp add: num_inodes_def load32_def dot_image_def grep_image_def)
  have l: "inode_length grep_image 0 = 3" by (simp add: inode_length_def inode_offset_def load32_def dot_image_def grep_image_def DATA_BLOCK_SIZE_def)
  show "file_bytes grep_image 0 = [120, 10, 121]"
    by (simp add: file_bytes_eq l upt_rec data_byte_def data_block_num_def inode_offset_def load32_def DATA_BLOCK_SIZE_def Let_def n)
      (simp add: grep_image_def dot_image_def)
qed

definition grep_file_kernel :: kernel where
  "grep_file_kernel = set_user_mem ((\<lambda>_. 0)(0x08048000 := 58, 0x08048010 := 10, 0x08048030 := 97, 0x08048040 := 121))
     (tiny_kernel\<lparr>boot_block := grep_image\<rparr>)"

theorem grep_searches_file_witness:
  "\<exists>k'. do_one_file (kernel_os no_wait (\<lambda>_ _ _. None)) grep_lits 0x08060000 0x08048040 0x08048030 grep_file_kernel = Some (k', 0)
     \<and> scr k' = fold putc [97, 58, 121, 10] (scr grep_file_kernel)"
proof -
  have sel: "boot_block grep_file_kernel = grep_image" "proc grep_file_kernel = blank_pcb"
    "user_mem grep_file_kernel = (\<lambda>_. 0)(0x08048000 := 58, 0x08048010 := 10, 0x08048030 := 97, 0x08048040 := 121)"
    by (simp_all add: grep_file_kernel_def tiny_kernel_def proc_def curr_pcb_def trap_entry_def set_user_mem_def user_mem_def)
  have lits: "grep_lits '':'' = 0x08048000" "grep_lits nl = 0x08048010" by (simp_all add: grep_lits_def)
  have texts: "texts grep_lits 0x08060000 0x08048040 [121] 0x08048030 [97] (user_mem grep_file_kernel)"
    unfolding texts_def apart_def lits sel by (auto simp: cstr_def view_def le_Suc_eq)
  have "find (\<lambda>j. dir_name grep_image j = [97]) [0..<2] = Some 1" by (simp add: grep_image_names upt_rec)
  moreover have "load32 grep_image (directory_offset (of_nat 1) + 32) = 2" "load32 grep_image (directory_offset (of_nat 1) + 36) = 0"
    by (simp_all add: load32_def directory_offset_def dot_image_def grep_image_def)
  moreover have "user_ok grep_file_kernel" by (simp add: user_ok_def sel fds_ok_def grep_image_names NUM_DIR_def)
  moreover have "text_lines [120, 10, 121] = [[120], [121]]" by (simp add: text_lines.simps(2))
  ultimately show ?thesis
    using grep_searches_file [OF _ _ _ _ refl _ refl _ _ _ _ texts, of 1 2 no_wait "\<lambda>_ _ _. None"]
    by (auto simp: sel grep_image_names grep_image_bytes sublist_Cons_right)
qed

theorem grep_searches_directory_witness:
  "\<exists>k'. grep_main (kernel_os no_wait (\<lambda>_ _ _. None)) grep_lits 0x08060000 0x08070000 0x08080000 grep_kernel = Some (k', 0)
     \<and> scr k' = fold putc [97, 58, 121, 10] (scr grep_kernel)"
proof -
  have sel: "boot_block grep_kernel = grep_image" "proc grep_kernel = blank_pcb\<lparr>args := (\<lambda>_. 0)(0 := 121)\<rparr>"
    "user_mem grep_kernel = (\<lambda>_. 0)(0x08048000 := 58, 0x08048010 := 10, 0x08048020 := 46)"
    by (simp_all add: grep_kernel_def tiny_kernel_def proc_def curr_pcb_def trap_entry_def set_user_mem_def user_mem_def)
  have lits: "grep_lits '':'' = 0x08048000" "grep_lits nl = 0x08048010" "grep_lits ''.'' = 0x08048020" by (simp_all add: grep_lits_def)
  have ok: "user_ok grep_kernel" by (simp add: user_ok_def sel fds_ok_def grep_image_names NUM_DIR_def)
  have lay: "layout grep_lits 0x08060000 0x08070000 0x08080000" by (simp add: layout_def far_def lits)
  have arg: "cstr (\<lambda>i. args (proc grep_kernel) (unat i)) [121]" by (simp add: sel cstr_def)
  have strs: "\<forall>(p, cs) \<in> {(grep_lits '':'', [58]), (grep_lits nl, [10]), (grep_lits ''.'', [46])}. cstr (view (user_mem grep_kernel) p) cs"
    by (simp add: lits sel cstr_def view_def)
  have "[0..<unat (2 :: u32)] = [0, Suc 0]" by (simp add: upt_rec)
  then have "find (\<lambda>j. dir_name (boot_block grep_kernel) j = [46]) [0..<unat (num_dir (boot_block grep_kernel))] = Some 0"
    by (simp only: sel grep_image_names find.simps simp_thms if_True)
  moreover have "load32 (boot_block grep_kernel) (directory_offset (of_nat 0) + 32) = 1"
    by (simp add: sel load32_def directory_offset_def dot_image_def grep_image_def)
  moreover have "find (\<lambda>i. flags (fd_array (proc grep_kernel) i) = 0) [2..<8] = Some 2" "flags (fd_array (proc grep_kernel) 3) = 0"
    by (simp_all add: sel)
  ultimately have dir: "find (\<lambda>j. dir_name (boot_block grep_kernel) j = [46]) [0..<unat (num_dir (boot_block grep_kernel))] = Some 0"
    "load32 (boot_block grep_kernel) (directory_offset (of_nat 0) + 32) = 1"
    "find (\<lambda>i. flags (fd_array (proc grep_kernel) i) = 0) [2..<8] = Some 2" "flags (fd_array (proc grep_kernel) 3) = 0"
    by blast+
  have disk: "file_on_disk [97] [120, 10, 121] (descriptors grep_kernel)"
  proof -
    have "find (\<lambda>j. dir_name grep_image j = [97]) [0..<2] = Some 1" by (simp add: grep_image_names upt_rec)
    moreover have "load32 grep_image (directory_offset 1 + 32) = 2" "load32 grep_image (directory_offset 1 + 36) = 0"
      by (simp_all add: load32_def directory_offset_def dot_image_def grep_image_def)
    ultimately show ?thesis by (simp add: file_on_disk_def descriptors_def sel grep_image_names grep_image_bytes)
  qed
  have lines: "text_lines [120, 10, 121] = [[120], [121]]" by (simp add: text_lines.simps(2))
  have names: "dir_name (boot_block grep_kernel) l \<in> {[46], [97]}" "l = 0 \<Longrightarrow> dir_name (boot_block grep_kernel) l = [46]"
    "l = 1 \<Longrightarrow> dir_name (boot_block grep_kernel) l = [97]" if "l < 2" for l
    using that by (auto simp: sel grep_image_names less_2_cases_iff)
  have "dir_name (boot_block grep_kernel) 2 = []" by (simp add: sel grep_image_names)
  moreover have "\<forall>l < 2. dir_name (boot_block grep_kernel) l \<noteq> []" using names(1) by fastforce
  moreover have "\<forall>l < 2. hd (dir_name (boot_block grep_kernel) l) \<noteq> 46 \<longrightarrow> file_on_disk (dir_name (boot_block grep_kernel) l) [120, 10, 121] (descriptors grep_kernel)
      \<and> 0 \<notin> set [120, 10, 121 :: u8]"
    using disk names by (auto simp: lines less_2_cases_iff)
  ultimately have "\<exists>k'. grep_main (kernel_os no_wait (\<lambda>_ _ _. None)) grep_lits 0x08060000 0x08070000 0x08080000 grep_kernel = Some (k', 0)
     \<and> scr k' = fold putc (concat (map (\<lambda>l. found [121] (dir_name (boot_block grep_kernel) l) [120, 10, 121]) [0..<2])) (scr grep_kernel)"
    by (intro grep_searches_directory [OF ok arg _ lay _ _ _ strs dir(1,2,3) _ _ dir(4)]) (simp_all add: lits sel)
  moreover have "concat (map (\<lambda>l. found [121] (dir_name (boot_block grep_kernel) l) [120, 10, 121]) [0..<2]) = [97, 58, 121, 10]"
    using names by (simp add: upt_rec found_def lines hits_def sublist_Cons_right)
  ultimately show ?thesis by (simp only:)
qed

end
