(* ===== verification/Pingpong.thy ===== *)
theory Pingpong
  imports UserInput
begin

text \<open>
  \<^verbatim>\<open>syscalls/ece391pingpong.c\<close>: a character that runs between two walls, one step for each tick of the clock. The program never
  ends; \<open>pingpong_main n\<close> is its run through \<open>n\<close> rounds of its loop. The interface \<open>clock_calls\<close> is what it relies on of the
  clock: opening it, setting its rate, and a read that returns at a tick and changes nothing else.
\<close>

section \<open>Model\<close>

text \<open>The loops over the array: blanks from index \<open>i\<close> to \<open>n - 1\<close>.\<close>

definition blank :: "addr \<Rightarrow> nat \<Rightarrow> nat \<Rightarrow> mem \<Rightarrow> mem" where
  "blank buf i n m = fold (\<lambda>i m. m(buf + of_nat i := 32)) [i..<n] m"

definition draw_walls :: "addr \<Rightarrow> mem \<Rightarrow> mem" where
  "draw_walls buf m = (blank buf 0 81 m)(buf + 80 := 0, buf + 79 := 10, buf + 78 := 124, buf + 1 := 124)"

definition draw_char :: "'s os \<Rightarrow> i32 \<Rightarrow> addr \<Rightarrow> addr \<Rightarrow> u8 \<Rightarrow> nat \<Rightarrow> 's \<Rightarrow> 's option" where
  "draw_char os rtc_fd buf garbage curchar j s =
     do {
       s \<leftarrow> ece391_fdputs os 1 buf (os_poke os ((blank buf 2 78 (os_mem os s))(buf + of_nat j := curchar)) s);
       (s, _) \<leftarrow> os_read os rtc_fd garbage 4 s;
       Some s
     }"

primrec draw_each :: "nat list \<Rightarrow> 's os \<Rightarrow> i32 \<Rightarrow> addr \<Rightarrow> addr \<Rightarrow> u8 \<Rightarrow> 's \<Rightarrow> 's option" where
  "draw_each [] os rtc_fd buf garbage curchar s = Some s"
| "draw_each (j # js) os rtc_fd buf garbage curchar s =
     Option.bind (draw_char os rtc_fd buf garbage curchar j s) (draw_each js os rtc_fd buf garbage curchar)"

definition pingpong_round :: "'s os \<Rightarrow> i32 \<Rightarrow> addr \<Rightarrow> addr \<Rightarrow> u8 \<times> 's \<Rightarrow> (u8 \<times> 's) option" where
  "pingpong_round os rtc_fd buf garbage = (\<lambda>(curchar, s).
     do {
       s \<leftarrow> draw_each [2..<78] os rtc_fd buf garbage curchar s;
       s \<leftarrow> draw_each (rev [2..<78]) os rtc_fd buf garbage curchar s;
       Some (if curchar = 90 then 65 else curchar + 1, s)
     })"

primrec pingpong_rounds :: "nat \<Rightarrow> 's os \<Rightarrow> i32 \<Rightarrow> addr \<Rightarrow> addr \<Rightarrow> u8 \<times> 's \<Rightarrow> (u8 \<times> 's) option" where
  "pingpong_rounds 0 os rtc_fd buf garbage cs = Some cs"
| "pingpong_rounds (Suc n) os rtc_fd buf garbage cs =
     Option.bind (pingpong_round os rtc_fd buf garbage cs) (pingpong_rounds n os rtc_fd buf garbage)"

definition pingpong_main :: "nat \<Rightarrow> 's os \<Rightarrow> (string \<Rightarrow> addr) \<Rightarrow> addr \<Rightarrow> addr \<Rightarrow> addr \<Rightarrow> 's \<Rightarrow> (u8 \<times> 's) option" where
  "pingpong_main n os lits buf ret_val garbage s =
     do {
       (s, rtc_fd) \<leftarrow> os_open os (lits ''rtc'') (os_poke os (draw_walls buf (os_mem os s)) s);
       (s, r) \<leftarrow> os_write os rtc_fd ret_val 4 (os_poke os (store32 (os_mem os s) ret_val 32) s);
       pingpong_rounds n os rtc_fd buf garbage (65, os_poke os (store32 (os_mem os s) ret_val r) s)
     }"

section \<open>The interface\<close>

locale clock_calls = user_system os ok emit out descr
  for os :: "'s os" and ok and emit :: "u8 \<Rightarrow> 'o \<Rightarrow> 'o" and out and descr :: "'s \<Rightarrow> 'd" +
  fixes clock :: "i32 \<Rightarrow> 'd \<Rightarrow> bool"
    and clock_file :: "u8 list \<Rightarrow> 'd \<Rightarrow> bool"
  assumes open_clock: "ok s \<Longrightarrow> p \<noteq> 0 \<Longrightarrow> cstr (view (os_mem os s) p) cs \<Longrightarrow> clock_file cs (descr s) \<Longrightarrow>
      \<exists>s' fd. os_open os p s = Some (s', fd) \<and> ok s' \<and> out s' = out s \<and> os_mem os s' = os_mem os s \<and> clock fd (descr s')"
    and set_clock: "ok s \<Longrightarrow> clock fd (descr s) \<Longrightarrow> load32 (os_mem os s) buf = 2 ^ e \<Longrightarrow> 1 \<le> e \<Longrightarrow> e \<le> 10 \<Longrightarrow>
      \<exists>s'. os_write os fd buf 4 s = Some (s', 4) \<and> ok s' \<and> out s' = out s \<and> os_mem os s' = os_mem os s \<and> descr s' = descr s"
    and wait_clock: "ok s \<Longrightarrow> clock fd (descr s) \<Longrightarrow>
      \<exists>s'. os_read os fd buf n s = Some (s', 0) \<and> ok s' \<and> out s' = out s \<and> os_mem os s' = os_mem os s \<and> descr s' = descr s"

section \<open>The picture\<close>

definition picture :: "u8 \<Rightarrow> nat \<Rightarrow> u8 list" where
  "picture c j = [32, 124] @ (replicate 76 32)[j - 2 := c] @ [124, 10]"

text \<open>The array holds the walls around some inner part.\<close>

definition walls :: "addr \<Rightarrow> mem \<Rightarrow> bool" where
  "walls buf m \<longleftrightarrow> m buf = 32 \<and> m (buf + 1) = 124 \<and> m (buf + 78) = 124 \<and> m (buf + 79) = 10 \<and> m (buf + 80) = 0"

lemma blank_at:
  assumes "k < 81" "n \<le> 81"
  shows "blank buf i n m (buf + of_nat k) = (if i \<le> k \<and> k < n then 32 else m (buf + of_nat k))"
  using assms(2) unfolding blank_def
proof (induction n)
  case (Suc n)
  have "(of_nat k :: u32) = of_nat n \<longleftrightarrow> k = n" using assms(1) Suc.prems by (intro of_nat32_eq_iff) auto
  then show ?case using Suc by auto
qed simp

lemma blank_walls: "walls buf m \<Longrightarrow> walls buf (blank buf 2 78 m)"
  using blank_at [of 0 78 buf 2 m] blank_at [of 1 78 buf 2 m] blank_at [of 78 78 buf 2 m] blank_at [of 79 78 buf 2 m] blank_at [of 80 78 buf 2 m]
  by (simp add: walls_def)

lemma picture_string:
  assumes "walls buf m" "2 \<le> j" "j < 78" "c \<noteq> 0"
  shows "cstr (view ((blank buf 2 78 m)(buf + of_nat j := c)) buf) (picture c j)" "walls buf ((blank buf 2 78 m)(buf + of_nat j := c))"
proof -
  have at: "((blank buf 2 78 m)(buf + of_nat j := c)) (buf + of_nat k) = (if k = j then c else if 2 \<le> k \<and> k < 78 then 32 else m (buf + of_nat k))"
    if "k < 81" for k
    using that assms(3) blank_at [OF that, of 78 buf 2 m] of_nat32_eq_iff [of k j] by auto
  from at [of 0] at [of 1] at [of 78] at [of 79] at [of 80] show "walls buf ((blank buf 2 78 m)(buf + of_nat j := c))"
    using assms by (simp add: walls_def)
  have w: "m buf = 32" "m (buf + 1) = 124" "m (buf + 78) = 124" "m (buf + 79) = 10" "m (buf + 80) = 0" using assms(1) by (simp_all add: walls_def)
  have nth: "picture c j ! k = (if k = j then c else if k = 1 \<or> k = 78 then 124 else if k = 79 then 10 else 32)" if "k < 80" for k
    using that assms(2,3) unfolding picture_def
    by (auto simp: nth_append nth_list_update nth_Cons' not_less less_Suc_eq)
  have len: "length (picture c j) = 80" by (simp add: picture_def)
  show "cstr (view ((blank buf 2 78 m)(buf + of_nat j := c)) buf) (picture c j)"
    unfolding cstr_def len view_def
  proof (intro conjI allI impI)
    fix k :: nat assume k: "k < 80"
    then consider "k = 0" | "k = 1" | "2 \<le> k \<and> k < 78" | "k = 78" | "k = 79" by linarith
    then have "((blank buf 2 78 m)(buf + of_nat j := c)) (buf + of_nat k) = (if k = j then c else if k = 1 \<or> k = 78 then 124 else if k = 79 then 10 else 32)"
      using at [of k] w k by cases auto
    then show "((blank buf 2 78 m)(buf + of_nat j := c)) (buf + of_nat k) = picture c j ! k" using nth [OF k] by simp
    show "picture c j ! k \<noteq> 0" using nth [OF k] assms(4) by auto
  qed (use at [of 80] w assms(3) in simp_all)
qed

lemma draw_walls_walls: "walls buf (draw_walls buf m)"
  using blank_at [of 0 81 buf 0 m] by (simp add: walls_def draw_walls_def)

lemma blank_other: "81 \<le> unat (a - buf) \<Longrightarrow> n \<le> 81 \<Longrightarrow> blank buf i n m a = m a"
proof (induction n)
  case (Suc n)
  then have "a \<noteq> buf + of_nat n" by auto
  then show ?case using Suc by (simp add: blank_def)
qed (simp add: blank_def)

lemma walls_apart:
  assumes "far buf 81 p 4" "cstr (view m p) cs" "length cs = 3"
  shows "cstr (view (draw_walls buf m) p) cs"
proof -
  have "draw_walls buf m (p + of_nat i) = m (p + of_nat i)" if "i < 4" for i
  proof -
    have f: "81 \<le> unat (p + of_nat i - buf)" by (rule far_at [OF assms(1) that])
    have "unat (of_nat k :: u32) = k" if "k < 81" for k :: nat by (rule unat_of_nat32) (use that in simp)
    then have "p + of_nat i \<noteq> buf + of_nat k" if "k < 81" for k using that f by (metis add_diff_cancel_left' not_less)
    from this [of 1] this [of 78] this [of 79] this [of 80] show ?thesis using blank_other [OF f] by (simp add: draw_walls_def)
  qed
  note at = this
  show ?thesis using assms(2,3) at [of 3] at unfolding cstr_def view_def by simp
qed

lemma walls_store:
  assumes "far buf 81 p 4" "walls buf m"
  shows "walls buf (store32 m p x)"
proof -
  have "store32 m p x (buf + of_nat k) = m (buf + of_nat k)" if "k < 81" for k
  proof -
    have "unat (of_nat k :: u32) = k" by (rule unat_of_nat32) (use that in simp)
    then have "buf + of_nat k \<noteq> p + of_nat i" if "i < 4" for i using far_at [OF assms(1) that] \<open>k < 81\<close>
      by (metis add_diff_cancel_left' not_less)
    from this [of 0] this [of 1] this [of 2] this [of 3] show ?thesis by (simp add: store32_def)
  qed
  from this [of 0] this [of 1] this [of 78] this [of 79] this [of 80] show ?thesis using assms(2) by (simp add: walls_def)
qed

text \<open>One way there and back.\<close>

definition sweep :: "u8 \<Rightarrow> u8 list" where
  "sweep c = concat (map (picture c) ([2..<78] @ rev [2..<78]))"

definition letter :: "nat \<Rightarrow> u8" where
  "letter i = 65 + of_nat (i mod 26)"

lemma letter_next: "(if letter i = 90 then 65 else letter i + 1) = letter (Suc i)" "letter i \<noteq> 0"
proof -
  have "i mod 26 \<in> set [0..<26]" by simp
  then have l: "(letter i = 90 \<longleftrightarrow> i mod 26 = 25) \<and> letter i \<noteq> 0" unfolding letter_def by (auto simp: upt_rec)
  then show "(if letter i = 90 then 65 else letter i + 1) = letter (Suc i)" "letter i \<noteq> 0"
    by (auto simp: letter_def mod_Suc)
qed

context clock_calls
begin

definition playing :: "i32 \<Rightarrow> addr \<Rightarrow> 's \<Rightarrow> bool" where
  "playing fd buf s \<longleftrightarrow> ok s \<and> clock fd (descr s) \<and> walls buf (os_mem os s)"

lemma draw_char_prints:
  assumes "playing fd buf s" "2 \<le> j" "j < 78" "c \<noteq> 0"
  shows "\<exists>s'. draw_char os fd buf garbage c j s = Some s' \<and> playing fd buf s' \<and> out s' = fold emit (picture c j) (out s)"
proof -
  let ?m = "(blank buf 2 78 (os_mem os s))(buf + of_nat j := c)"
  let ?s = "os_poke os ?m s"
  have p: "ok ?s" "clock fd (descr ?s)" "cstr (view (os_mem os ?s) buf) (picture c j)" "walls buf ?m" "length (picture c j) < 2147483648"
    using assms picture_string [of buf "os_mem os s" j c] by (simp_all add: playing_def poke picture_def)
  from fdputs_out [OF p(1,3,5)] obtain s1 where s1: "ece391_fdputs os 1 buf ?s = Some s1" "ok s1" "os_mem os s1 = ?m" "descr s1 = descr ?s"
    "out s1 = fold emit (picture c j) (out s)" by (auto simp: poke)
  have "clock fd (descr s1)" using p(2) s1(4) by simp
  from wait_clock [OF s1(2) this] obtain s2 where "os_read os fd garbage 4 s1 = Some (s2, 0)" "ok s2" "out s2 = out s1"
    "os_mem os s2 = os_mem os s1" "descr s2 = descr s1" by blast
  then show ?thesis using s1 p(2,4) by (simp add: draw_char_def playing_def)
qed

lemma draw_each_prints:
  "playing fd buf s \<Longrightarrow> \<forall>j \<in> set js. 2 \<le> j \<and> j < 78 \<Longrightarrow> c \<noteq> 0 \<Longrightarrow>
     \<exists>s'. draw_each js os fd buf garbage c s = Some s' \<and> playing fd buf s' \<and> out s' = fold emit (concat (map (picture c) js)) (out s)"
proof (induction js arbitrary: s)
  case (Cons j js)
  from Cons.prems draw_char_prints [of fd buf s j c garbage] obtain s1 where s1: "draw_char os fd buf garbage c j s = Some s1" "playing fd buf s1"
    "out s1 = fold emit (picture c j) (out s)" by auto
  from Cons.IH [OF s1(2)] Cons.prems(2,3) show ?case using s1(1,3) by auto
qed simp

lemma rounds_print:
  "playing fd buf s \<Longrightarrow> \<exists>s'. pingpong_rounds n os fd buf garbage (letter k, s) = Some (letter (k + n), s') \<and> playing fd buf s'
     \<and> out s' = fold emit (concat (map (\<lambda>i. sweep (letter i)) [k..<k + n])) (out s)"
proof (induction n arbitrary: k s)
  case (Suc n)
  let ?c = "letter k"
  have js: "\<forall>j \<in> set [2..<78]. 2 \<le> j \<and> j < 78" "\<forall>j \<in> set (rev [2..<78]). 2 \<le> j \<and> j < 78" by (simp_all del: upt_rec_numeral)
  from draw_each_prints [OF Suc.prems js(1) letter_next(2)] obtain s1 where s1: "draw_each [2..<78] os fd buf garbage ?c s = Some s1"
    "playing fd buf s1" "out s1 = fold emit (concat (map (picture ?c) [2..<78])) (out s)" by blast
  from draw_each_prints [OF s1(2) js(2) letter_next(2)] obtain s2 where s2: "draw_each (rev [2..<78]) os fd buf garbage ?c s1 = Some s2"
    "playing fd buf s2" "out s2 = fold emit (concat (map (picture ?c) (rev [2..<78]))) (out s1)" by blast
  have "pingpong_round os fd buf garbage (?c, s) = Some (letter (Suc k), s2)"
    using s1(1) s2(1) by (simp add: pingpong_round_def letter_next del: upt_rec_numeral)
  moreover have "out s2 = fold emit (sweep ?c) (out s)" unfolding sweep_def map_append concat_append fold_append s1(3) s2(3) comp_apply ..
  moreover have "[k..<k + Suc n] = k # [Suc k..<Suc k + n]" by (simp add: upt_conv_Cons)
  ultimately show ?case using Suc.IH [OF s2(2), of "Suc k"] by auto
qed simp

lemma pingpong_plays:
  assumes "ok s" "clock_file (bytes_of ''rtc'') (descr s)" "lits ''rtc'' \<noteq> 0" "cstr (view (os_mem os s) (lits ''rtc'')) (bytes_of ''rtc'')"
    "far buf 81 (lits ''rtc'') 4" "far buf 81 ret_val 4"
  shows "\<exists>s'. pingpong_main n os lits buf ret_val garbage s = Some (letter n, s') \<and> ok s'
     \<and> out s' = fold emit (concat (map (\<lambda>i. sweep (letter i)) [0..<n])) (out s)"
proof -
  define m1 where "m1 = draw_walls buf (os_mem os s)"
  have "cstr (view m1 (lits ''rtc'')) (bytes_of ''rtc'')"
    unfolding m1_def by (rule walls_apart [OF assms(5,4)]) simp
  then have "ok (os_poke os m1 s)" "cstr (view (os_mem os (os_poke os m1 s)) (lits ''rtc'')) (bytes_of ''rtc'')"
    "clock_file (bytes_of ''rtc'') (descr (os_poke os m1 s))"
    using assms(1,2) by (simp_all add: poke)
  from open_clock [OF this(1) assms(3) this(2,3)] obtain s1 fd where s1: "os_open os (lits ''rtc'') (os_poke os m1 s) = Some (s1, fd)" "ok s1"
    "out s1 = out s" "os_mem os s1 = m1" "clock fd (descr s1)" by (auto simp: poke)
  define m2 where "m2 = store32 m1 ret_val 32"
  have w: "walls buf m2" "walls buf (store32 m2 ret_val 4)"
    using walls_store [OF assms(6)] draw_walls_walls by (simp_all add: m1_def m2_def)
  have "load32 (os_mem os (os_poke os m2 s1)) ret_val = 2 ^ 5" by (simp add: poke m2_def load_store32)
  moreover have "ok (os_poke os m2 s1)" "clock fd (descr (os_poke os m2 s1))" using s1(2,5) by (simp_all add: poke)
  ultimately obtain s2 where s2: "os_write os fd ret_val 4 (os_poke os m2 s1) = Some (s2, 4)" "ok s2" "out s2 = out s1" "os_mem os s2 = m2" "descr s2 = descr s1"
    using set_clock [of "os_poke os m2 s1" fd ret_val 5] by (auto simp: poke)
  have "playing fd buf (os_poke os (store32 m2 ret_val 4) s2)" using s1(5) s2(2,5) w(2) by (simp add: playing_def poke)
  from rounds_print [OF this, of n garbage 0] show ?thesis
    using s1(1,3,4) s2(1,3,4) by (auto simp: pingpong_main_def m1_def m2_def poke letter_def playing_def)
qed

end

section \<open>The kernel's clock\<close>

definition clock_at :: "i32 \<Rightarrow> (nat \<Rightarrow> fd_struct) \<times> str \<Rightarrow> bool" where
  "clock_at fd d \<longleftrightarrow> \<not> fd_bad fd \<and> flags (fst d (unat fd)) = 1 \<and> file_operations (fst d (unat fd)) = Some rtc_jump_table"

definition clock_entry :: "u8 list \<Rightarrow> (nat \<Rightarrow> fd_struct) \<times> str \<Rightarrow> bool" where
  "clock_entry cs d \<longleftrightarrow> length cs \<le> 32
     \<and> (\<exists>j. find (\<lambda>j. dir_name (snd d) j = cs) [0..<unat (num_dir (snd d))] = Some j \<and> load32 (snd d) (directory_offset (of_nat j) + 32) = 0)
     \<and> (\<exists>i < 8. 2 \<le> i \<and> flags (fst d i) = 0 \<and> (\<forall>l. 2 \<le> l \<longrightarrow> l < i \<longrightarrow> flags (fst d l) \<noteq> 0))"

text \<open>While a program waits the clock ticks, and no handler writes on the screen or changes a process.\<close>

definition ticking :: "env \<Rightarrow> bool" where
  "ticking e \<longleftrightarrow> rtc_interrupt_handler \<in> set (waits e) \<and> (\<forall>f \<in> set (waits e). \<forall>k. frame (f k) = frame k \<and> scr (f k) = scr k)"

lemma frame_sel: "frame k' = frame k \<Longrightarrow> kesp k' = kesp k \<and> tss_esp0 k' = tss_esp0 k \<and> boot_block k' = boot_block k
    \<and> curr_pcb k' = curr_pcb k \<and> user_mem k' = user_mem k"
  by (simp add: frame_def fixed_def curr_pcb_def get_pcb_def user_mem_def)

lemma frame_hw [simp]:
  "frame (sti k) = frame k" "frame (set_rate prev rate k) = frame k" "frame (on_pic f k) = frame k" "frame (k\<lparr>flag := b\<rparr>) = frame k"
  "scr (sti k) = scr k" "scr (set_rate prev rate k) = scr k" "scr (on_pic f k) = scr k"
  by (simp_all add: frame_def fixed_def set_rate_def hw_defs)

lemma framed_call:
  assumes "frame k' = frame (trap_entry k)"
  shows "descriptors k' = descriptors k" "user_ok k' = user_ok k" "user_mem k' = user_mem k"
  using frame_sel [OF assms] call_state [of k' k] by simp_all

lemma clock_fd:
  assumes "clock_at fd (descriptors k)"
  shows "\<not> fd_bad fd" "flags (curr_fd (unat fd) (trap_entry k)) = 1" "file_operations (curr_fd (unat fd) (trap_entry k)) = Some rtc_jump_table"
  using assms by (simp_all add: clock_at_def descriptors_def proc_def)

lemma kernel_wait_clock:
  assumes "user_ok k" "ticking e" "clock_at fd (descriptors k)"
  shows "\<exists>k'. os_read (kernel_os e child) fd buf n k = Some (k', 0) \<and> user_ok k' \<and> scr k' = scr k \<and> user_mem k' = user_mem k
     \<and> descriptors k' = descriptors k \<and> frame k' = frame (trap_entry k)"
proof -
  define k1 where "k1 = (on_pic (disable_irq 1) (trap_entry k))\<lparr>flag := 0\<rparr>"
  have t: "rtc_interrupt_handler \<in> set (waits e)" "\<And>f k. f \<in> set (waits e) \<Longrightarrow> frame (f k) = frame k \<and> scr (f k) = scr k"
    using assms(2) by (auto simp: ticking_def)
  have "flag (rtc_interrupt_handler k) \<noteq> 0" for k :: kernel by (simp add: rtc_interrupt_handler_def)
  from spin_ends [where P = "\<lambda>h. flag h \<noteq> 0", OF this t(1), of k1] obtain k2 where k2: "spin (\<lambda>h. flag h \<noteq> 0) (waits e) k1 = Some k2" by blast
  from spin_keeps [OF k2, of "\<lambda>k. (frame k, scr k)"] t(2) have k2': "frame k2 = frame k1" "scr k2 = scr k1" by auto
  let ?k' = "sti (on_pic (enable_irq 1) k2)"
  have "sys_read e fd buf n (trap_entry k) = Some (on_pic (enable_irq 1) k2, 0)"
    using clock_fd [OF assms(3)] k2 unfolding k1_def by (simp add: sys_read_def Let_def rtc_read_def)
  then have "os_read (kernel_os e child) fd buf n k = Some (?k', 0)"
    by (simp add: kernel_os_def do_call_def sys_call_def returns_def)
  moreover have "frame ?k' = frame (trap_entry k)" "scr ?k' = scr k" using k2' by (simp_all add: k1_def)
  ultimately show ?thesis using framed_call [of ?k' k] assms(1) by blast
qed

lemma kernel_set_clock:
  assumes "user_ok k" "clock_at fd (descriptors k)" "load32 (user_mem k) buf = 2 ^ j" "j \<le> 10"
  shows "\<exists>k'. os_write (kernel_os e child) fd buf 4 k = Some (k', 4) \<and> user_ok k' \<and> scr k' = scr k \<and> user_mem k' = user_mem k
     \<and> descriptors k' = descriptors k \<and> frame k' = frame (trap_entry k)"
proof -
  let ?k1 = "set_rate (cmos_in e) (ucast (word_of_int (16 - int j) :: u32)) (trap_entry k)"
  have "sys_write e fd buf 4 (trap_entry k) = Some (?k1, 4)"
    using clock_fd [OF assms(2)] rtc_write_pow [OF assms(4), of "user_mem (trap_entry k)" buf] assms(3) by (simp add: sys_write_def Let_def)
  then have "os_write (kernel_os e child) fd buf 4 k = Some (sti ?k1, 4)"
    by (simp add: kernel_os_def do_call_def sys_call_def returns_def)
  moreover have "frame (sti ?k1) = frame (trap_entry k)" "scr (sti ?k1) = scr k" by simp_all
  ultimately show ?thesis using framed_call [of "sti ?k1" k] assms(1) by blast
qed

lemma kernel_open_clock:
  assumes "user_ok k" "p \<noteq> 0" "cstr (view (user_mem k) p) cs"
    and i: "i < 8" "2 \<le> i" "flags (fd_array (proc k) i) = 0" "\<forall>l. 2 \<le> l \<longrightarrow> l < i \<longrightarrow> flags (fd_array (proc k) l) \<noteq> 0"
    and j: "length cs \<le> 32" "find (\<lambda>j. dir_name (boot_block k) j = cs) [0..<unat (num_dir (boot_block k))] = Some j"
      "load32 (boot_block k) (directory_offset (of_nat j) + 32) = 0"
  shows "\<exists>k'. os_open (kernel_os e child) p k = Some (k', of_nat i) \<and> user_ok k' \<and> scr k' = scr k \<and> user_mem k' = user_mem k
     \<and> boot_block k' = boot_block k \<and> fd_array (proc k') = (fd_array (proc k))(i := opened 0 rtc_jump_table (fd_array (proc k) i))
     \<and> pg k' = pg k \<and> pt_addr k' = pt_addr k"
proof -
  let ?f = "opened 0 rtc_jump_table"
  let ?k1 = "after_fd i ?f (user_mem k) k"
  let ?k' = "sti (set_rate (cmos_in e) 0x0F (on_fd i ?f (trap_entry k)))"
  from dentry_found [OF assms(1,3) j(1,2)] obtain d where
    d: "read_dentry_by_name (boot_block k) (Some (view (user_mem k) p)) (Some (uninit_dentry e)) = Some (0, Some d)" "file_type d = 0"
    using j(3) by auto
  have str: "str_at (trap_entry k) p = Some (view (user_mem k) p)" using assms(2) by (simp add: str_at_def)
  have "sys_open e p (trap_entry k) = Some (set_rate (cmos_in e) 0x0F (on_fd i ?f (trap_entry k)), of_nat i)"
    using d by (simp add: sys_open_def free_fd_lowest [OF i] str Let_def opened_def [abs_def] rtc_open_def)
  then have "os_open (kernel_os e child) p k = Some (?k', of_nat i)"
    by (simp add: kernel_os_def do_call_def sys_call_def returns_def)
  moreover have "set_user_mem (user_mem k) (trap_entry k) = trap_entry k"
    by (simp add: set_user_mem_def user_mem_def trap_entry_def)
  then have fr: "frame ?k' = frame ?k1" "scr ?k' = scr k" by (simp_all add: after_fd_def on_fd_def on_pcb_def)
  note sel = frame_sel [OF fr(1)]
  have "proc ?k' = proc ?k1" using fr(1) by (simp add: proc_def trap_entry_def curr_pcb_def get_pcb_def frame_def fixed_def)
  then have fds: "fd_array (proc ?k') = (fd_array (proc k))(i := ?f (fd_array (proc k) i))" by (simp add: after_fd_sel)
  have "user_ok ?k'" by (rule user_ok_fd [OF assms(1) i(1,2) fds]) (use sel in \<open>simp_all add: after_fd_sel opened_def\<close>)
  moreover have "pg ?k' = pg k" "pt_addr ?k' = pt_addr k"
    by (simp_all add: set_rate_def hw_defs on_fd_def on_pcb_def trap_entry_def)
  ultimately show ?thesis using sel fr(2) fds by (auto simp: after_fd_sel)
qed

interpretation kc: clock_calls "kernel_os e child" "\<lambda>k. user_ok k \<and> ticking e" putc scr descriptors clock_at clock_entry for e child
proof
  show "\<exists>k'. os_write (kernel_os e child) 1 buf n k = Some (k', n) \<and> (user_ok k' \<and> ticking e)
      \<and> os_mem (kernel_os e child) k' = os_mem (kernel_os e child) k \<and> descriptors k' = descriptors k
      \<and> scr k' = fold putc (map (\<lambda>i. os_mem (kernel_os e child) k (buf + of_nat i)) [0..<unat n]) (scr k)"
    if "user_ok k \<and> ticking e" "0 \<le> sint n" for k n buf
    using kernel_write [of k n e child buf] that by auto
  show "\<exists>k' fd. os_open (kernel_os e child) p k = Some (k', fd) \<and> (user_ok k' \<and> ticking e) \<and> scr k' = scr k
      \<and> os_mem (kernel_os e child) k' = os_mem (kernel_os e child) k \<and> clock_at fd (descriptors k')"
    if "user_ok k \<and> ticking e" "p \<noteq> 0" "cstr (view (os_mem (kernel_os e child) k) p) cs" "clock_entry cs (descriptors k)" for k p cs
  proof -
    note p = that
    obtain i j where i: "i < 8" "2 \<le> i" "flags (fd_array (proc k) i) = 0" "\<forall>l. 2 \<le> l \<longrightarrow> l < i \<longrightarrow> flags (fd_array (proc k) l) \<noteq> 0"
      and j: "length cs \<le> 32" "find (\<lambda>j. dir_name (boot_block k) j = cs) [0..<unat (num_dir (boot_block k))] = Some j"
        "load32 (boot_block k) (directory_offset (of_nat j) + 32) = 0"
      using p(4) by (auto simp: clock_entry_def descriptors_def)
    have "clock_at (of_nat i) (descriptors k')" if "fd_array (proc k') = (fd_array (proc k))(i := opened 0 rtc_jump_table (fd_array (proc k) i))" for k'
      using i(1) by (simp add: clock_at_def descriptors_def that opened_def fd_bad_def FD_ARRAY_SIZE_def sint_of_nat32)
    then show ?thesis using kernel_open_clock [OF _ p(2) _ i j, of e child] p(1,3) by auto
  qed
  show "\<exists>k'. os_write (kernel_os e child) fd buf 4 k = Some (k', 4) \<and> (user_ok k' \<and> ticking e) \<and> scr k' = scr k
      \<and> os_mem (kernel_os e child) k' = os_mem (kernel_os e child) k \<and> descriptors k' = descriptors k"
    if "user_ok k \<and> ticking e" "clock_at fd (descriptors k)" "load32 (os_mem (kernel_os e child) k) buf = 2 ^ j" "1 \<le> j" "j \<le> 10" for k fd buf j
    using kernel_set_clock [of k fd buf j e child] that by auto
  show "\<exists>k'. os_read (kernel_os e child) fd buf n k = Some (k', 0) \<and> (user_ok k' \<and> ticking e) \<and> scr k' = scr k
      \<and> os_mem (kernel_os e child) k' = os_mem (kernel_os e child) k \<and> descriptors k' = descriptors k"
    if "user_ok k \<and> ticking e" "clock_at fd (descriptors k)" for k fd buf n
    using kernel_wait_clock [of k e fd child buf n] that by auto
qed (use ku.poke in auto)

section \<open>Properties\<close>

text \<open>
  C20: with a clock that ticks while the program waits and the file \<open>rtc\<close> in the directory, the program runs on for any
  number of rounds: it never gets stuck in a read, each round shows the current letter at each place from the left wall to the
  right one and back, and the letters go from A to Z and start again.
\<close>

theorem pingpong_animates:
  assumes "user_ok k" "ticking e" "clock_entry (bytes_of ''rtc'') (descriptors k)"
    "lits ''rtc'' \<noteq> 0" "cstr (view (user_mem k) (lits ''rtc'')) (bytes_of ''rtc'')"
    "far buf 81 (lits ''rtc'') 4" "far buf 81 ret_val 4"
  shows "\<exists>k'. pingpong_main n (kernel_os e child) lits buf ret_val garbage k = Some (letter n, k') \<and> user_ok k'
     \<and> scr k' = fold putc (concat (map (\<lambda>i. sweep (letter i)) [0..<n])) (scr k)"
  using kc.pingpong_plays [of k e lits child buf ret_val n garbage] assms by auto

text \<open>An image whose one entry is the clock, and the name in the program.\<close>

definition clock_image :: str where
  "clock_image = (\<lambda>_. 0)(0 := 1, 64 := 114, 65 := 116, 66 := 99)"

definition clock_kernel :: kernel where
  "clock_kernel = set_user_mem ((\<lambda>_. 0)(0x08048000 := 114, 0x08048001 := 116, 0x08048002 := 99)) (tiny_kernel\<lparr>boot_block := clock_image\<rparr>)"

definition clock_env :: env where
  "clock_env = no_wait\<lparr>waits := [rtc_interrupt_handler]\<rparr>"

lemma clock_kernel_sel:
  "boot_block clock_kernel = clock_image" "proc clock_kernel = blank_pcb" "num_dir clock_image = 1" "dir_name clock_image 0 = [114, 116, 99]"
  "user_ok clock_kernel"
proof -
  show s: "boot_block clock_kernel = clock_image" "proc clock_kernel = blank_pcb"
    by (simp_all add: clock_kernel_def tiny_kernel_def proc_def curr_pcb_def trap_entry_def set_user_mem_def)
  show n: "num_dir clock_image = 1" by (simp add: num_dir_def load32_def clock_image_def)
  have c: "cstr (directory_name clock_image 0) [114, 116, 99]"
    by (auto simp: cstr_def directory_name_def directory_offset_def view_def clock_image_def less_Suc_eq numeral_3_eq_3)
  then show "dir_name clock_image 0 = [114, 116, 99]" by (simp add: dir_name_def chars_cstr)
  have "names_end clock_image" using c by (auto simp: names_end_def n)
  then show "user_ok clock_kernel" by (simp add: user_ok_def s n fds_ok_def NUM_DIR_def)
qed

lemma clock_env_ticks: "ticking clock_env"
proof -
  have "frame (rtc_interrupt_handler k) = frame k" "scr (rtc_interrupt_handler k) = scr k" for k
    by (simp_all add: rtc_interrupt_handler_def outb_def) (simp_all add: frame_def fixed_def hw_defs)
  then show ?thesis by (simp add: ticking_def clock_env_def no_wait_def)
qed

theorem pingpong_animates_witness:
  "\<exists>k'. pingpong_main 27 (kernel_os clock_env (\<lambda>_ _ _. None)) (\<lambda>_. 0x08048000) 0x083FF000 0x083FE000 0x083FD000 clock_kernel = Some (66, k')
     \<and> user_ok k'"
proof -
  have "ticking clock_env" by (rule clock_env_ticks)
  moreover have "load32 clock_image (directory_offset 0 + 32) = 0" by (simp add: load32_def directory_offset_def clock_image_def)
  then have "clock_entry (bytes_of ''rtc'') (descriptors clock_kernel)"
    unfolding clock_entry_def descriptors_def clock_kernel_sel
    by (intro conjI exI [of _ "0 :: nat"] exI [of _ "2 :: nat"]) (simp_all add: clock_kernel_sel)
  moreover have "cstr (view (user_mem clock_kernel) 0x08048000) (bytes_of ''rtc'')"
    by (auto simp: clock_kernel_def cstr_def view_def less_Suc_eq numeral_3_eq_3)
  ultimately show ?thesis
    using pingpong_animates [OF clock_kernel_sel(5), of clock_env "\<lambda>_. 0x08048000" "0x083FF000" "0x083FE000" 27 "\<lambda>_ _ _. None" "0x083FD000"]
    by (auto simp: far_def letter_def)
qed

end
