(* ===== verification/Blink.thy ===== *)
theory Blink
  imports Prelude
begin

text \<open>
  The blinking characters of the fish animation: \<^verbatim>\<open>fish/blink.S\<close> with the allocator of \<^verbatim>\<open>fish/fish.c\<close>. The structures live in a
  static array of 2000 and are linked into a list through their \<open>next\<close> fields; a pointer to an element of the
  array is its index, and the null pointer \<open>None\<close>. \<open>video\<close> is the memory behind \<^verbatim>\<open>vmem_base_addr\<close>. The list operations
  refine functions on the sequence of structures that the chain of pointers represents, as long as no
  structure has location 0, which the allocator takes for a free slot.
\<close>

unbundle bit_operations_syntax

type_synonym u16 = "16 word"

section \<open>Model\<close>

record blink =
  location :: u16
  on_char :: u8
  off_char :: u8
  on_length :: u16
  off_length :: u16
  countdown :: u16
  status :: u16
  nxt :: "nat option"

record fish =
  blink_array :: "nat \<Rightarrow> blink"
  mp1_list_head :: "nat option"
  video :: "u32 \<Rightarrow> u8"

definition BLINKS :: nat where "BLINKS = 80 * 25"

definition no_blink :: blink where
  "no_blink = \<lparr>location = 0, on_char = 0, off_char = 0, on_length = 0, off_length = 0, countdown = 0, status = 0, nxt = None\<rparr>"

definition set_blink :: "nat \<Rightarrow> blink \<Rightarrow> fish \<Rightarrow> fish" where
  "set_blink i b s = s\<lparr>blink_array := (blink_array s)(i := b)\<rparr>"

definition mp1_poke :: "u8 \<Rightarrow> u32 \<Rightarrow> fish \<Rightarrow> fish" where
  "mp1_poke cl eax s = s\<lparr>video := (video s)(eax := cl)\<rparr>"

definition cell :: "blink \<Rightarrow> u32" where
  "cell b = push_bit 1 (ucast (location b))"

definition mp1_malloc :: "fish \<Rightarrow> nat option" where
  "mp1_malloc s = find (\<lambda>i. location (blink_array s i) = 0) [0..<BLINKS]"

definition mp1_free :: "nat \<Rightarrow> fish \<Rightarrow> fish" where
  "mp1_free i s = set_blink i no_blink s"

text \<open>One structure at a tick: its countdown, and when that has run out the change of its character.\<close>

definition tasklet_one :: "nat \<Rightarrow> fish \<Rightarrow> fish" where
  "tasklet_one i s =
     (let b = (blink_array s i)\<lparr>countdown := countdown (blink_array s i) - 1\<rparr>;
          s = set_blink i b s
      in if sint (countdown b) > 0 then s
         else if 1 AND status b \<noteq> 0
         then set_blink i (b\<lparr>countdown := off_length b, status := status b XOR 1\<rparr>) (mp1_poke (off_char b) (cell b) s)
         else set_blink i (b\<lparr>countdown := on_length b, status := status b XOR 1\<rparr>) (mp1_poke (on_char b) (cell b) s))"

partial_function (option) tasklet_loop :: "nat option \<Rightarrow> fish \<Rightarrow> fish option" where
  "tasklet_loop ebx s =
     (case ebx of None \<Rightarrow> Some s | Some i \<Rightarrow> tasklet_loop (nxt (blink_array (tasklet_one i s) i)) (tasklet_one i s))"

definition mp1_rtc_tasklet :: "fish \<Rightarrow> fish option" where
  "mp1_rtc_tasklet s = tasklet_loop (mp1_list_head s) s"

text \<open>The search for a location; the result is the pointer found, \<open>Some None\<close> when there is none.\<close>

partial_function (option) find_loop :: "u16 \<Rightarrow> nat option \<Rightarrow> fish \<Rightarrow> nat option option" where
  "find_loop ax ebx s =
     (case ebx of
        None \<Rightarrow> Some None
      | Some i \<Rightarrow> if location (blink_array s i) = ax then Some (Some i) else find_loop ax (nxt (blink_array s i)) s)"

definition mp1_find_helper :: "u32 \<Rightarrow> fish \<Rightarrow> nat option option" where
  "mp1_find_helper arg s = find_loop (ucast arg) (mp1_list_head s) s"

definition mp1_ioctl_add :: "blink \<Rightarrow> fish \<Rightarrow> fish \<times> i32" where
  "mp1_ioctl_add b s =
     (if location b \<ge> 80 * 25 then (s, -1)
      else let b = b\<lparr>status := 1, countdown := on_length b\<rparr>
        in case mp1_malloc s of
             None \<Rightarrow> (s, -1)
           | Some i \<Rightarrow> (mp1_poke (on_char b) (cell b) ((set_blink i (b\<lparr>nxt := mp1_list_head s\<rparr>) s)\<lparr>mp1_list_head := Some i\<rparr>), 0))"

text \<open>
  The pointer that leads to the structure \<open>eax\<close>: \<open>edx\<close> is \<open>None\<close> for the head of the list, or the structure whose \<open>next\<close>
  field is looked at. Following a null pointer faults.
\<close>

definition deref :: "nat option \<Rightarrow> fish \<Rightarrow> nat option" where
  "deref edx s = (case edx of None \<Rightarrow> mp1_list_head s | Some j \<Rightarrow> nxt (blink_array s j))"

definition assign :: "nat option \<Rightarrow> nat option \<Rightarrow> fish \<Rightarrow> fish" where
  "assign edx p s = (case edx of None \<Rightarrow> s\<lparr>mp1_list_head := p\<rparr> | Some j \<Rightarrow> set_blink j ((blink_array s j)\<lparr>nxt := p\<rparr>) s)"

partial_function (option) remove_find_prev :: "nat \<Rightarrow> nat option \<Rightarrow> fish \<Rightarrow> nat option option" where
  "remove_find_prev eax edx s =
     (case deref edx s of
        None \<Rightarrow> None
      | Some j \<Rightarrow> if j = eax then Some edx else remove_find_prev eax (Some j) s)"

definition mp1_ioctl_remove :: "u32 \<Rightarrow> fish \<Rightarrow> (fish \<times> i32) option" where
  "mp1_ioctl_remove arg s =
     Option.bind (mp1_find_helper arg s) (\<lambda>p.
       case p of
         None \<Rightarrow> Some (s, -1)
       | Some i \<Rightarrow> Option.bind (remove_find_prev i None s) (\<lambda>edx.
           Some (mp1_free i (assign edx (nxt (blink_array s i)) s), 0)))"

text \<open>The flags after \<^verbatim>\<open>testb\<close>: \<^verbatim>\<open>cmovl\<close> moves when sign and overflow differ, and \<^verbatim>\<open>testb\<close> clears the overflow.\<close>

definition sync_char :: "blink \<Rightarrow> u8" where
  "sync_char b = (let r = 1 AND (ucast (status b) :: u8); sf = bit r 7; ovf = False in if sf \<noteq> ovf then on_char b else off_char b)"

definition mp1_ioctl_sync :: "u32 \<Rightarrow> fish \<Rightarrow> (fish \<times> i32) option" where
  "mp1_ioctl_sync arg s =
     Option.bind (mp1_find_helper (drop_bit 16 arg) s) (\<lambda>p.
       case p of
         None \<Rightarrow> Some (s, -1)
       | Some i \<Rightarrow> Option.bind (mp1_find_helper (arg AND 0xFFFF) s) (\<lambda>q.
           case q of
             None \<Rightarrow> Some (s, -1)
           | Some j \<Rightarrow>
               let a = blink_array s i;
                   b = (blink_array s j)\<lparr>on_length := on_length a, off_length := off_length a, countdown := countdown a, status := status a\<rparr>
               in Some (mp1_poke (sync_char b) (cell b) (set_blink j b s), 0)))"

text \<open>The structure found, as it is copied back to the caller.\<close>

definition mp1_ioctl_find :: "blink \<Rightarrow> fish \<Rightarrow> (blink \<times> i32) option" where
  "mp1_ioctl_find arg s =
     Option.bind (mp1_find_helper (ucast (location arg)) s) (\<lambda>p.
       case p of None \<Rightarrow> Some (arg, -1) | Some i \<Rightarrow> Some (blink_array s i, 0))"

text \<open>
  The entry point with its table of calls; a structure passed by pointer is given by its value. The answer is the value returned and,
  for \<^verbatim>\<open>RTC_FIND\<close>, what the caller's structure holds afterwards.
\<close>

datatype ioctl = RTC_ADD blink | RTC_REMOVE u32 | RTC_FIND blink | RTC_SYNC u32

type_synonym answer = "i32 \<times> blink option"

fun mp1_ioctl :: "ioctl \<Rightarrow> fish \<Rightarrow> (fish \<times> answer) option" where
  "mp1_ioctl (RTC_ADD b) s = (let (s, r) = mp1_ioctl_add b s in Some (s, r, None))"
| "mp1_ioctl (RTC_REMOVE arg) s = map_option (\<lambda>(s, r). (s, r, None)) (mp1_ioctl_remove arg s)"
| "mp1_ioctl (RTC_FIND b) s = map_option (\<lambda>(c, r). (s, r, Some c)) (mp1_ioctl_find b s)"
| "mp1_ioctl (RTC_SYNC arg) s = map_option (\<lambda>(s, r). (s, r, None)) (mp1_ioctl_sync arg s)"

section \<open>The list that a chain of pointers represents\<close>

primrec chain :: "(nat \<Rightarrow> blink) \<Rightarrow> nat option \<Rightarrow> nat list \<Rightarrow> bool" where
  "chain h p [] \<longleftrightarrow> p = None"
| "chain h p (i # is) \<longleftrightarrow> p = Some i \<and> chain h (nxt (h i)) is"

lemma chain_cong: "(\<And>i. i \<in> set is \<Longrightarrow> nxt (h' i) = nxt (h i)) \<Longrightarrow> chain h' p is = chain h p is"
  by (induction "is" arbitrary: p) auto

lemma chain_upd: "i \<notin> set is \<or> nxt b = nxt (h i) \<Longrightarrow> chain (h(i := b)) p is = chain h p is"
  by (rule chain_cong) auto

text \<open>A structure without its link.\<close>

definition plain :: "blink \<Rightarrow> blink" where
  "plain b = b\<lparr>nxt := None\<rparr>"

definition linked :: "fish \<Rightarrow> nat list \<Rightarrow> bool" where
  "linked s is \<longleftrightarrow> chain (blink_array s) (mp1_list_head s) is \<and> distinct is \<and> set is \<subseteq> {..<BLINKS}
     \<and> (\<forall>i < BLINKS. location (blink_array s i) \<noteq> 0 \<longleftrightarrow> i \<in> set is)"

definition blinks :: "fish \<Rightarrow> nat list \<Rightarrow> blink list" where
  "blinks s is = map (\<lambda>i. plain (blink_array s i)) is"

section \<open>The operations on sequences\<close>

definition tick :: "blink \<Rightarrow> (u32 \<Rightarrow> u8) \<Rightarrow> blink \<times> (u32 \<Rightarrow> u8)" where
  "tick b v =
     (if sint (countdown b - 1) > 0 then (b\<lparr>countdown := countdown b - 1\<rparr>, v)
      else if 1 AND status b \<noteq> 0 then (b\<lparr>countdown := off_length b, status := status b XOR 1\<rparr>, v(cell b := off_char b))
      else (b\<lparr>countdown := on_length b, status := status b XOR 1\<rparr>, v(cell b := on_char b)))"

primrec ticks :: "blink list \<Rightarrow> (u32 \<Rightarrow> u8) \<Rightarrow> blink list \<times> (u32 \<Rightarrow> u8)" where
  "ticks [] v = ([], v)"
| "ticks (b # bs) v = (fst (tick b v) # fst (ticks bs (snd (tick b v))), snd (ticks bs (snd (tick b v))))"

lemmas blink_defs = set_blink_def mp1_poke_def cell_def plain_def

lemma tasklet_one_tick:
  "plain (blink_array (tasklet_one i s) i) = fst (tick (plain (blink_array s i)) (video s))"
  "video (tasklet_one i s) = snd (tick (plain (blink_array s i)) (video s))"
  "nxt (blink_array (tasklet_one i s) i) = nxt (blink_array s i)" "location (blink_array (tasklet_one i s) i) = location (blink_array s i)"
  "j \<noteq> i \<Longrightarrow> blink_array (tasklet_one i s) j = blink_array s j" "mp1_list_head (tasklet_one i s) = mp1_list_head s"
  by (simp_all add: tasklet_one_def tick_def blink_defs Let_def)

lemma tasklet_loop_ticks:
  "chain (blink_array s) p is \<Longrightarrow> distinct is \<Longrightarrow> \<exists>s'. tasklet_loop p s = Some s'
     \<and> (map (\<lambda>i. plain (blink_array s' i)) is, video s') = ticks (map (\<lambda>i. plain (blink_array s i)) is) (video s)
     \<and> (\<forall>i. nxt (blink_array s' i) = nxt (blink_array s i) \<and> location (blink_array s' i) = location (blink_array s i))
     \<and> (\<forall>i. i \<notin> set is \<longrightarrow> blink_array s' i = blink_array s i) \<and> mp1_list_head s' = mp1_list_head s"
proof (induction "is" arbitrary: p s)
  case Nil
  then show ?case by (subst tasklet_loop.simps) simp
next
  case (Cons i "is")
  define s1 where "s1 = tasklet_one i s"
  have others: "\<And>j. j \<noteq> i \<Longrightarrow> blink_array s1 j = blink_array s j" by (simp add: s1_def tasklet_one_tick)
  have p: "p = Some i" "chain (blink_array s) (nxt (blink_array s i)) is" "i \<notin> set is" "distinct is" using Cons.prems by auto
  have same: "blink_array s1 = (blink_array s)(i := blink_array s1 i)" using others by auto
  have "chain (blink_array s1) (nxt (blink_array s1 i)) is"
    using p(2) chain_upd [OF disjI1 [OF p(3)], of "blink_array s" "blink_array s1 i", folded same] by (simp add: s1_def tasklet_one_tick)
  from Cons.IH [OF this p(4)] obtain s' where s': "tasklet_loop (nxt (blink_array s1 i)) s1 = Some s'"
    "(map (\<lambda>i. plain (blink_array s' i)) is, video s') = ticks (map (\<lambda>i. plain (blink_array s1 i)) is) (video s1)"
    "\<forall>j. nxt (blink_array s' j) = nxt (blink_array s1 j) \<and> location (blink_array s' j) = location (blink_array s1 j)"
    "\<forall>j. j \<notin> set is \<longrightarrow> blink_array s' j = blink_array s1 j" "mp1_list_head s' = mp1_list_head s1" by blast
  have rest: "map (\<lambda>i. plain (blink_array s1 i)) is = map (\<lambda>i. plain (blink_array s i)) is"
    using p(3) others by (metis (mono_tags, lifting) map_cong)
  have "blink_array s' i = blink_array s1 i" using s'(4) p(3) by blast
  then have "(map (\<lambda>i. plain (blink_array s' i)) (i # is), video s') = ticks (map (\<lambda>i. plain (blink_array s i)) (i # is)) (video s)"
    using s'(2) [unfolded rest] by (simp add: s1_def tasklet_one_tick prod_eq_iff)
  moreover have "tasklet_loop p s = Some s'" using s'(1) p(1) by (subst tasklet_loop.simps) (simp add: s1_def)
  moreover have "\<forall>j. nxt (blink_array s' j) = nxt (blink_array s j) \<and> location (blink_array s' j) = location (blink_array s j)"
    using s'(3) others by (metis s1_def tasklet_one_tick(3,4))
  ultimately show ?case using s'(4,5) others by (auto simp: s1_def tasklet_one_tick)
qed

lemma find_loop_eq: "chain (blink_array s) p is \<Longrightarrow> find_loop ax p s = Some (find (\<lambda>i. location (blink_array s i) = ax) is)"
  by (induction "is" arbitrary: p) (subst find_loop.simps, auto)+

lemma remove_find_prev_eq:
  "chain (blink_array s) (deref edx s) (pre @ i # post) \<Longrightarrow> i \<notin> set pre \<Longrightarrow>
     remove_find_prev i edx s = Some (last (edx # map Some pre))"
proof (induction pre arbitrary: edx)
  case Nil
  then show ?case by (subst remove_find_prev.simps) simp
next
  case (Cons j pre)
  then have "chain (blink_array s) (deref (Some j) s) (pre @ i # post)" by (simp add: deref_def)
  then have "remove_find_prev i (Some j) s = Some (last (Some j # map Some pre))" using Cons by auto
  then show ?case using Cons.prems by (subst remove_find_prev.simps) auto
qed

type_synonym display = "blink list \<times> (u32 \<Rightarrow> u8)"

abbreviation at_location :: "u16 \<Rightarrow> blink \<Rightarrow> bool" where
  "at_location l b \<equiv> location b = l"

fun display_ioctl :: "ioctl \<Rightarrow> display \<Rightarrow> display \<times> answer" where
  "display_ioctl (RTC_ADD b) (bs, v) =
     (if location b \<ge> 80 * 25 \<or> length bs \<ge> BLINKS then ((bs, v), -1, None)
      else (((plain b)\<lparr>status := 1, countdown := on_length b\<rparr> # bs, v(cell b := on_char b)), 0, None))"
| "display_ioctl (RTC_REMOVE arg) (bs, v) =
     (if \<exists>b \<in> set bs. at_location (ucast arg) b
      then ((takeWhile (\<lambda>b. \<not> at_location (ucast arg) b) bs @ tl (dropWhile (\<lambda>b. \<not> at_location (ucast arg) b) bs), v), 0, None)
      else ((bs, v), -1, None))"
| "display_ioctl (RTC_FIND b) (bs, v) =
     (case find (at_location (location b)) bs of Some c \<Rightarrow> ((bs, v), 0, Some c) | None \<Rightarrow> ((bs, v), -1, Some (plain b)))"
| "display_ioctl (RTC_SYNC arg) (bs, v) =
     (case (find (at_location (ucast (drop_bit 16 arg))) bs, find (at_location (ucast arg)) bs) of
        (Some a, Some b) \<Rightarrow>
          ((bs[length (takeWhile (\<lambda>b. \<not> at_location (ucast arg) b) bs) :=
               b\<lparr>on_length := on_length a, off_length := off_length a, countdown := countdown a, status := status a\<rparr>],
            v(cell b := off_char b)), 0, None)
      | _ \<Rightarrow> ((bs, v), -1, None))"

lemma linked_chain: "linked s is \<Longrightarrow> chain (blink_array s) (mp1_list_head s) is" by (simp add: linked_def)

lemma find_first:
  assumes "find P is = Some i"
  obtains post where "is = takeWhile (\<lambda>j. \<not> P j) is @ i # post" "P i" "dropWhile (\<lambda>j. \<not> P j) is = i # post"
proof -
  have "dropWhile (\<lambda>j. \<not> P j) is \<noteq> []" using assms by (auto simp: dropWhile_eq_Nil_conv find_Some_iff)
  then obtain k post where k: "dropWhile (\<lambda>j. \<not> P j) is = k # post" by (meson neq_Nil_conv)
  moreover have "P k" using k by (metis hd_dropWhile list.sel(1) list.discI)
  moreover have split: "is = takeWhile (\<lambda>j. \<not> P j) is @ k # post" using takeWhile_dropWhile_id k by metis
  moreover have "find P is = Some k"
  proof -
    have "find P (xs @ k # ys) = Some k" if "\<forall>x \<in> set xs. \<not> P x" for xs ys using that \<open>P k\<close> by (induction xs) auto
    then show ?thesis using split by (metis set_takeWhileD)
  qed
  ultimately show thesis using that assms by simp
qed

lemma blinks_find:
  "find (at_location l) (blinks s is) = map_option (\<lambda>i. plain (blink_array s i)) (find (\<lambda>i. location (blink_array s i) = l) is)"
  by (induction "is") (auto simp: blinks_def plain_def)

lemma blinks_prefix:
  "takeWhile (\<lambda>b. \<not> at_location l b) (blinks s is) = blinks s (takeWhile (\<lambda>i. location (blink_array s i) \<noteq> l) is)"
  "dropWhile (\<lambda>b. \<not> at_location l b) (blinks s is) = blinks s (dropWhile (\<lambda>i. location (blink_array s i) \<noteq> l) is)"
  by (induction "is") (auto simp: blinks_def plain_def)

lemma blinks_upd: "i \<notin> set is \<Longrightarrow> blinks (set_blink i b s) is = blinks s is"
  by (simp add: blinks_def set_blink_def)

lemma add_refines:
  assumes "linked s is" "location b \<noteq> 0" "mp1_ioctl_add b s = (s', r)"
  shows "\<exists>is'. linked s' is' \<and> display_ioctl (RTC_ADD b) (blinks s is, video s) = ((blinks s' is', video s'), r, None)"
proof -
  have len: "length (blinks s is) = length is" by (simp add: blinks_def)
  show ?thesis
  proof (cases "location b \<ge> 80 * 25 \<or> mp1_malloc s = None")
    case True
    have "length is \<ge> BLINKS" if "mp1_malloc s = None"
    proof -
      have "{..<BLINKS} \<subseteq> set is" using that assms(1) by (auto simp: mp1_malloc_def find_None_iff linked_def)
      then show ?thesis by (metis card_length card_lessThan card_mono finite_set le_trans)
    qed
    then show ?thesis using True assms len by (auto simp: mp1_ioctl_add_def split: if_splits)
  next
    case False
    then obtain i where i: "mp1_malloc s = Some i" "location b < 80 * 25" by auto
    then have slot: "i < BLINKS" "location (blink_array s i) = 0"
      by (auto simp: mp1_malloc_def find_Some_iff)
    then have "i \<notin> set is" using assms(1) by (auto simp: linked_def)
    have "length is < BLINKS"
    proof -
      have "set (i # is) \<subseteq> {..<BLINKS}" using slot assms(1) by (auto simp: linked_def)
      then have "card (set (i # is)) \<le> BLINKS" by (metis card_lessThan card_mono finite_lessThan)
      then show ?thesis using \<open>i \<notin> set is\<close> assms(1) by (simp add: linked_def distinct_card)
    qed
    let ?b = "b\<lparr>status := 1, countdown := on_length b\<rparr>"
    have s': "s' = mp1_poke (on_char b) (cell b) ((set_blink i (?b\<lparr>nxt := mp1_list_head s\<rparr>) s)\<lparr>mp1_list_head := Some i\<rparr>)" "r = 0"
      using assms(3) i(1) False unfolding mp1_ioctl_add_def by (auto simp: Let_def cell_def)
    have "linked s' (i # is)"
      using assms(1,2) slot \<open>i \<notin> set is\<close> by (auto simp: s' linked_def blink_defs chain_upd)
    moreover have "blinks s' (i # is) = (plain b)\<lparr>status := 1, countdown := on_length b\<rparr> # blinks s is"
      using \<open>i \<notin> set is\<close> by (auto simp: s' blinks_def blink_defs)
    moreover have "video s' = (video s)(cell b := on_char b)" by (simp add: s' mp1_poke_def set_blink_def)
    ultimately show ?thesis using i(2) \<open>length is < BLINKS\<close> len s'(2) by (intro exI [of _ "i # is"]) (simp add: not_le)
  qed
qed

lemma chain_splice:
  "chain h p (pre @ j # i # post) \<Longrightarrow> distinct (pre @ j # i # post) \<Longrightarrow>
     chain (h(j := (h j)\<lparr>nxt := nxt (h i)\<rparr>, i := b)) p (pre @ j # post)"
proof (induction pre arbitrary: p)
  case Nil
  then have "i \<notin> set post" "j \<notin> set post" "i \<noteq> j" by auto
  moreover define h' where "h' = h(j := (h j)\<lparr>nxt := nxt (h i)\<rparr>, i := b)"
  ultimately have keep: "\<And>k. k \<in> set post \<Longrightarrow> nxt (h' k) = nxt (h k)" "nxt (h' j) = nxt (h i)" by auto
  show ?case using Nil chain_cong [of post h' h, OF keep(1)] keep(2) unfolding h'_def [symmetric] by simp
next
  case (Cons k pre)
  then show ?case by auto
qed

lemma remove_refines:
  assumes "linked s is"
  shows "\<exists>s' is' r. mp1_ioctl_remove arg s = Some (s', r) \<and> linked s' is'
     \<and> display_ioctl (RTC_REMOVE arg) (blinks s is, video s) = ((blinks s' is', video s'), r, None)"
proof -
  let ?P = "\<lambda>i. location (blink_array s i) = ucast arg"
  have f: "mp1_find_helper arg s = Some (find ?P is)"
    unfolding mp1_find_helper_def by (rule find_loop_eq [OF linked_chain [OF assms]])
  have some: "(\<exists>b \<in> set (blinks s is). at_location (ucast arg) b) \<longleftrightarrow> find ?P is \<noteq> None"
    by (auto simp: blinks_def plain_def find_None_iff)
  show ?thesis
  proof (cases "find ?P is")
    case None
    then show ?thesis using f some assms by (auto simp: mp1_ioctl_remove_def)
  next
    case (Some i)
    define pre where "pre = takeWhile (\<lambda>j. \<not> ?P j) is"
    from Some obtain post where post: "is = pre @ i # post" "dropWhile (\<lambda>j. \<not> ?P j) is = i # post"
      unfolding pre_def by (rule find_first)
    have d: "distinct (pre @ i # post)" "i \<notin> set pre" "i \<notin> set post" "chain (blink_array s) (mp1_list_head s) (pre @ i # post)"
      "set (pre @ i # post) \<subseteq> {..<BLINKS}" "\<forall>j < BLINKS. location (blink_array s j) \<noteq> 0 \<longleftrightarrow> j \<in> set (pre @ i # post)"
      using assms unfolding linked_def post(1) [symmetric] by (auto simp: post(1))
    let ?edx = "last (None # map Some pre)"
    define s' where "s' = mp1_free i (assign ?edx (nxt (blink_array s i)) s)"
    have "remove_find_prev i None s = Some ?edx"
      by (rule remove_find_prev_eq [OF _ d(2)]) (use d(4) in \<open>simp add: deref_def\<close>)
    then have call: "mp1_ioctl_remove arg s = Some (s', 0)" using f Some by (simp add: mp1_ioctl_remove_def s'_def)
    have loc: "location (blink_array s' j) = (if j = i then 0 else location (blink_array s j))"
      "j \<noteq> i \<Longrightarrow> plain (blink_array s' j) = plain (blink_array s j)" for j
      by (auto simp: s'_def mp1_free_def assign_def blink_defs no_blink_def split: option.split)
    have "chain (blink_array s') (mp1_list_head s') (pre @ post)"
    proof (cases pre rule: rev_cases)
      case Nil
      then show ?thesis using d(3,4) by (simp add: s'_def mp1_free_def assign_def set_blink_def chain_upd)
    next
      case (snoc ks j)
      then have "chain (blink_array s) (mp1_list_head s) (ks @ j # i # post)" "distinct (ks @ j # i # post)" using d by auto
      from chain_splice [OF this, of no_blink] show ?thesis by (simp add: s'_def snoc mp1_free_def assign_def set_blink_def)
    qed
    then have "linked s' (pre @ post)" using d(1,5,6) loc(1) by (auto simp: linked_def)
    moreover have "blinks s' (pre @ post) = blinks s (pre @ post)" 
    proof -
      have "plain (blink_array s' k) = plain (blink_array s k)" if "k \<in> set (pre @ post)" for k
        by (rule loc(2)) (use that d(2,3) in auto)
      then show ?thesis unfolding blinks_def by (intro map_cong) simp_all
    qed
    moreover have "blinks s (pre @ post) = takeWhile (\<lambda>b. \<not> at_location (ucast arg) b) (blinks s is) @ tl (dropWhile (\<lambda>b. \<not> at_location (ucast arg) b) (blinks s is))"
      unfolding blinks_prefix post(2) pre_def by (simp add: blinks_def)
    moreover have "video s' = video s" by (auto simp: s'_def mp1_free_def assign_def set_blink_def split: option.split)
    ultimately show ?thesis
      using call some Some by (intro exI [of _ s'] exI [of _ "pre @ post"] exI [of _ 0]) simp
  qed
qed

lemma sync_char_off: "sync_char b = off_char b"
proof -
  have "\<not> bit (1 AND (ucast (status b) :: u8)) 7" by (simp add: bit_and_iff bit_1_iff)
  then show ?thesis by (simp add: sync_char_def Let_def)
qed

lemma sync_refines:
  assumes "linked s is"
  shows "\<exists>s' r. mp1_ioctl_sync arg s = Some (s', r) \<and> linked s' is
     \<and> display_ioctl (RTC_SYNC arg) (blinks s is, video s) = ((blinks s' is, video s'), r, None)"
proof -
  let ?P = "\<lambda>l i. location (blink_array s i) = l"
  have mask: "(ucast (arg AND 0xFFFF) :: u16) = ucast arg"
  proof -
    have m: "(0xFFFF :: u32) = mask 16" by (simp add: mask_eq_exp_minus_1)
    show ?thesis unfolding m by (intro bit_word_eqI) (auto simp: bit_simps)
  qed
  have f: "mp1_find_helper a s = Some (find (?P (ucast a)) is)" for a
    unfolding mp1_find_helper_def by (rule find_loop_eq [OF linked_chain [OF assms]])
  show ?thesis
  proof (cases "find (?P (ucast (drop_bit 16 arg))) is = None \<or> find (?P (ucast arg)) is = None")
    case True
    then show ?thesis using assms f mask by (auto simp: mp1_ioctl_sync_def blinks_find split: option.split)
  next
    case False
    then obtain i j where ij: "find (?P (ucast (drop_bit 16 arg))) is = Some i" "find (?P (ucast arg)) is = Some j" by auto
    let ?n = "length (takeWhile (\<lambda>k. \<not> ?P (ucast arg) k) is)"
    from ij(2) obtain post where post: "is = takeWhile (\<lambda>k. \<not> ?P (ucast arg) k) is @ j # post" by (rule find_first)
    have d: "distinct is" "j \<in> set is" using assms post by (auto simp: linked_def) (metis in_set_conv_decomp)
    define b where "b = (blink_array s j)\<lparr>on_length := on_length (blink_array s i), off_length := off_length (blink_array s i),
      countdown := countdown (blink_array s i), status := status (blink_array s i)\<rparr>"
    define s' where "s' = mp1_poke (off_char b) (cell b) (set_blink j b s)"
    have b: "nxt b = nxt (blink_array s j)" "location b = location (blink_array s j)" "off_char b = off_char (blink_array s j)"
      by (simp_all add: b_def)
    have call: "mp1_ioctl_sync arg s = Some (s', 0)"
      using f mask ij by (simp add: mp1_ioctl_sync_def Let_def sync_char_off s'_def b_def)
    have arr: "blink_array s' = (blink_array s)(j := b)" "mp1_list_head s' = mp1_list_head s" by (simp_all add: s'_def mp1_poke_def set_blink_def)
    have "linked s' is" using assms b(1,2) unfolding linked_def arr by (auto simp: chain_upd)
    moreover have "blinks s' is = (blinks s is)[?n := plain b]"
    proof (rule nth_equalityI)
      fix k assume "k < length (blinks s' is)"
      then have k: "k < length is" by (simp add: blinks_def)
      have n: "?n < length is" "is ! ?n = j" using arg_cong [OF post, of length] arg_cong [OF post, of "\<lambda>xs. xs ! ?n"] by (simp_all add: nth_append)
      then have "is ! k = j \<longleftrightarrow> k = ?n" using d(1) k by (metis nth_eq_iff_index_eq)
      then show "blinks s' is ! k = (blinks s is)[?n := plain b] ! k" using k by (auto simp: blinks_def arr nth_list_update)
    qed (simp add: blinks_def)
    moreover have "video s' = (video s)(cell (plain (blink_array s j)) := off_char (plain (blink_array s j)))"
      by (simp add: s'_def blink_defs b)
    moreover have "plain b = (plain (blink_array s j))\<lparr>on_length := on_length (plain (blink_array s i)), off_length := off_length (plain (blink_array s i)),
      countdown := countdown (plain (blink_array s i)), status := status (plain (blink_array s i))\<rparr>" by (simp add: b_def plain_def)
    moreover have "length (takeWhile (\<lambda>b. \<not> at_location (ucast arg) b) (blinks s is)) = ?n" by (simp add: blinks_prefix) (simp add: blinks_def)
    ultimately show ?thesis using ij call by (simp add: blinks_find)
  qed
qed

lemma tasklet_refines:
  assumes "linked s is"
  shows "\<exists>s'. mp1_rtc_tasklet s = Some s' \<and> linked s' is \<and> (blinks s' is, video s') = ticks (blinks s is) (video s)"
proof -
  from tasklet_loop_ticks [OF linked_chain [OF assms]] assms obtain s' where s': "mp1_rtc_tasklet s = Some s'"
    "(blinks s' is, video s') = ticks (blinks s is) (video s)"
    "\<forall>i. nxt (blink_array s' i) = nxt (blink_array s i) \<and> location (blink_array s' i) = location (blink_array s i)"
    "mp1_list_head s' = mp1_list_head s" unfolding linked_def mp1_rtc_tasklet_def blinks_def by blast
  have "linked s' is" using assms s'(3,4) chain_cong [of "is" "blink_array s'" "blink_array s"] by (simp add: linked_def)
  then show ?thesis using s' by blast
qed

text \<open>Requests and ticks in any order. The link of a structure that is copied back means nothing to the caller and is left out.\<close>

datatype event = Ioctl ioctl | Tick

fun fish_step :: "event \<Rightarrow> fish \<Rightarrow> (fish \<times> answer) option" where
  "fish_step (Ioctl r) s = map_option (\<lambda>(s, v, c). (s, v, map_option plain c)) (mp1_ioctl r s)"
| "fish_step Tick s = map_option (\<lambda>s. (s, 0, None)) (mp1_rtc_tasklet s)"

fun display_step :: "event \<Rightarrow> display \<Rightarrow> display \<times> answer" where
  "display_step (Ioctl r) d = display_ioctl r d"
| "display_step Tick (bs, v) = (ticks bs v, 0, None)"

text \<open>A request that does not add a structure at location 0.\<close>

fun sound :: "event \<Rightarrow> bool" where
  "sound (Ioctl (RTC_ADD b)) \<longleftrightarrow> location b \<noteq> 0"
| "sound _ \<longleftrightarrow> True"

lemma step_refines:
  assumes "linked s is" "sound ev"
  shows "\<exists>s' is' r. fish_step ev s = Some (s', r) \<and> linked s' is' \<and> display_step ev (blinks s is, video s) = ((blinks s' is', video s'), r)"
proof (cases ev)
  case (Ioctl req)
  show ?thesis
  proof (cases req)
    case (RTC_ADD b)
    obtain s' r where "mp1_ioctl_add b s = (s', r)" by fastforce
    then show ?thesis using add_refines [OF assms(1), of b s' r] assms(2) by (auto simp: Ioctl RTC_ADD simp del: display_ioctl.simps)
  next
    case (RTC_REMOVE arg)
    then show ?thesis using remove_refines [OF assms(1), of arg] by (auto simp: Ioctl simp del: display_ioctl.simps)
  next
    case (RTC_FIND b)
    have "(ucast (ucast (location b) :: u32) :: u16) = location b" by (intro bit_word_eqI) (auto simp: bit_simps)
    then have "mp1_find_helper (ucast (location b)) s = Some (find (\<lambda>i. location (blink_array s i) = location b) is)"
      using find_loop_eq [OF linked_chain [OF assms(1)]] by (simp add: mp1_find_helper_def)
    then show ?thesis
      using assms(1) by (auto simp: Ioctl RTC_FIND mp1_ioctl_find_def blinks_find split: option.split)
  next
    case (RTC_SYNC arg)
    then show ?thesis using sync_refines [OF assms(1), of arg] by (auto simp: Ioctl simp del: display_ioctl.simps)
  qed
next
  case Tick
  from tasklet_refines [OF assms(1)] obtain s' where "mp1_rtc_tasklet s = Some s'" "linked s' is"
    "ticks (blinks s is) (video s) = (blinks s' is, video s')" by metis
  then show ?thesis by (intro exI [of _ s'] exI [of _ "is"] exI [of _ "(0, None)"]) (simp add: Tick)
qed

primrec fish_run :: "event list \<Rightarrow> fish \<Rightarrow> (fish \<times> answer list) option" where
  "fish_run [] s = Some (s, [])"
| "fish_run (ev # evs) s = do { (s, r) \<leftarrow> fish_step ev s; (s, rs) \<leftarrow> fish_run evs s; Some (s, r # rs) }"

primrec display_run :: "event list \<Rightarrow> display \<Rightarrow> display \<times> answer list" where
  "display_run [] d = (d, [])"
| "display_run (ev # evs) d = (let (d, r) = display_step ev d; (d, rs) = display_run evs d in (d, r # rs))"

lemma run_refines:
  "linked s is \<Longrightarrow> \<forall>ev \<in> set evs. sound ev \<Longrightarrow>
     \<exists>s' is' rs. fish_run evs s = Some (s', rs) \<and> linked s' is' \<and> display_run evs (blinks s is, video s) = ((blinks s' is', video s'), rs)"
proof (induction evs arbitrary: s "is")
  case Nil
  then show ?case by auto
next
  case (Cons ev evs)
  have "sound ev" using Cons.prems(2) by simp
  from step_refines [OF Cons.prems(1) this] obtain s1 is1 r where s1: "fish_step ev s = Some (s1, r)" "linked s1 is1"
    "display_step ev (blinks s is, video s) = ((blinks s1 is1, video s1), r)" by blast
  from Cons.IH [OF s1(2)] Cons.prems(2) obtain s' is' rs where "fish_run evs s1 = Some (s', rs)" "linked s' is'"
    "display_run evs (blinks s1 is1, video s1) = ((blinks s' is', video s'), rs)" by auto
  then show ?case using s1 by (auto simp: Let_def)
qed

definition fish_start :: "(u32 \<Rightarrow> u8) \<Rightarrow> fish" where
  "fish_start v = \<lparr>blink_array = (\<lambda>_. no_blink), mp1_list_head = None, video = v\<rparr>"

lemma start_linked: "linked (fish_start v) []" "blinks (fish_start v) [] = []" "video (fish_start v) = v"
  by (simp_all add: linked_def fish_start_def no_blink_def blinks_def)

section \<open>One structure over time\<close>

lemma sint_small: "0 < n \<Longrightarrow> n \<le> 32767 \<Longrightarrow> sint (of_nat n :: u16) = int n"
  by (simp add: sint_uint uint_nat unat_of_nat take_bit_nat_eq_self signed_take_bit_int_eq_self)

lemma countdown_less:
  assumes "0 < n" "n \<le> 32767"
  shows "(of_nat n :: u16) - 1 = of_nat (n - 1)" "0 < sint (of_nat n - 1 :: u16) \<longleftrightarrow> 1 < n"
proof -
  show eq: "(of_nat n :: u16) - 1 = of_nat (n - 1)" using assms(1) by (simp add: of_nat_diff)
  show "0 < sint (of_nat n - 1 :: u16) \<longleftrightarrow> 1 < n"
    unfolding eq using sint_small [of "n - 1"] assms by (cases "n = 1") auto
qed

text \<open>The phase of a structure \<open>t\<close> ticks after it was turned on.\<close>

definition in_phase :: "nat \<Rightarrow> nat \<Rightarrow> nat \<Rightarrow> blink \<Rightarrow> bool" where
  "in_phase a c t b \<longleftrightarrow> on_length b = of_nat a \<and> off_length b = of_nat c
     \<and> (let r = t mod (a + c) in if r < a then status b = 1 \<and> countdown b = of_nat (a - r) else status b = 0 \<and> countdown b = of_nat (a + c - r))"

lemma tick_in_phase:
  assumes "in_phase a c t b" "0 < a" "a \<le> 32767" "0 < c" "c \<le> 32767"
    "v (cell b) = (if t mod (a + c) < a then on_char b else off_char b)"
  shows "in_phase a c (Suc t) (fst (tick b v)) \<and> cell (fst (tick b v)) = cell b \<and> on_char (fst (tick b v)) = on_char b
     \<and> off_char (fst (tick b v)) = off_char b \<and> snd (tick b v) (cell b) = (if Suc t mod (a + c) < a then on_char b else off_char b)"
proof -
  define r where "r = t mod (a + c)"
  have r: "r < a + c" using assms(2) by (simp add: r_def)
  have suc: "Suc t mod (a + c) = (if Suc r = a + c then 0 else Suc r)" by (simp add: r_def mod_Suc)
  show ?thesis
  proof (cases "r < a")
    case True
    then have b: "status b = 1" "countdown b = of_nat (a - r)" "on_length b = of_nat a" "off_length b = of_nat c"
      using assms(1) by (simp_all add: in_phase_def r_def [symmetric])
    note less = countdown_less [of "a - r"]
    show ?thesis
    proof (cases "Suc r = a")
      case True
      then have "Suc t mod (a + c) = a" "\<not> 0 < sint (countdown b - 1)" using suc assms(4) less b(2) by (auto simp: assms(3))
      then show ?thesis using b assms(4) by (auto simp: tick_def in_phase_def cell_def)
    next
      case False
      then have "Suc t mod (a + c) = Suc r" "0 < sint (countdown b - 1)" "Suc r < a" "countdown b - 1 = of_nat (a - Suc r)"
        using True suc less b(2) assms(3) by auto
      then show ?thesis using b assms(6) True by (auto simp: tick_def in_phase_def cell_def r_def [symmetric])
    qed
  next
    case False
    then have b: "status b = 0" "countdown b = of_nat (a + c - r)" "on_length b = of_nat a" "off_length b = of_nat c"
      using assms(1) by (simp_all add: in_phase_def r_def [symmetric])
    have n: "0 < a + c - r" "a + c - r \<le> 32767" using r False assms(5) by auto
    note less = countdown_less [OF n]
    show ?thesis
    proof (cases "Suc r = a + c")
      case True
      then have "Suc t mod (a + c) = 0" "\<not> 0 < sint (countdown b - 1)" using suc less b(2) by auto
      then show ?thesis using b assms(2) by (auto simp: tick_def in_phase_def cell_def)
    next
      case F: False
      then have "Suc t mod (a + c) = Suc r" "0 < sint (countdown b - 1)" "\<not> Suc r < a" "countdown b - 1 = of_nat (a + c - Suc r)"
        using False suc less b(2) r by auto
      then show ?thesis using b assms(6) False by (auto simp: tick_def in_phase_def cell_def r_def [symmetric])
    qed
  qed
qed

lemma ticks_one:
  assumes "0 < a" "a \<le> 32767" "0 < c" "c \<le> 32767" "in_phase a c 0 b" "v (cell b) = on_char b"
  shows "\<exists>b' v' rs. display_run (replicate t Tick) ([b], v) = (([b'], v'), rs) \<and> v' (cell b) = (if t mod (a + c) < a then on_char b else off_char b)"
proof -
  have "\<exists>b' v' rs. display_run (replicate t Tick) ([b], v) = (([b'], v'), rs) \<and> v' (cell b) = (if (u + t) mod (a + c) < a then on_char b else off_char b)"
    if "in_phase a c u b" "v (cell b) = (if u mod (a + c) < a then on_char b else off_char b)" for u b v
    using that
  proof (induction t arbitrary: u b v)
    case (Suc t)
    note step = tick_in_phase [of a c u b v, OF Suc.prems(1) assms(1-4) Suc.prems(2)]
    from Suc.IH [of "Suc u" "fst (tick b v)" "snd (tick b v)"] step show ?case by (auto simp: Let_def split: prod.split)
  qed simp
  from this [of 0] show ?thesis using assms by simp
qed

section \<open>Location 0\<close>

text \<open>A structure that is its own successor is walked for ever.\<close>

lemma self_loop: "nxt (blink_array s i) = Some i \<Longrightarrow> tasklet_loop (Some i) s = None"
proof (rule ccontr)
  assume a: "nxt (blink_array s i) = Some i" "tasklet_loop (Some i) s \<noteq> None"
  then obtain r where "tasklet_loop (Some i) s = Some r" by auto
  have "\<forall>i. p = Some i \<longrightarrow> nxt (blink_array s i) \<noteq> Some i" if "tasklet_loop p s = Some r" for p s r
  proof (rule tasklet_loop.raw_induct [where P = "\<lambda>p s r. \<forall>i. p = Some i \<longrightarrow> nxt (blink_array s i) \<noteq> Some i", OF _ that])
    fix f :: "nat option \<Rightarrow> fish \<Rightarrow> fish option" and p s r
    assume IH: "\<And>p s r. f p s = Some r \<Longrightarrow> \<forall>i. p = Some i \<longrightarrow> nxt (blink_array s i) \<noteq> Some i"
      and body: "(case p of None \<Rightarrow> Some s | Some i \<Rightarrow> f (nxt (blink_array (tasklet_one i s) i)) (tasklet_one i s)) = Some r"
    show "\<forall>i. p = Some i \<longrightarrow> nxt (blink_array s i) \<noteq> Some i"
      using body IH by (auto simp: tasklet_one_tick) (metis tasklet_one_tick(3))
  qed
  then show False using a \<open>tasklet_loop (Some i) s = Some r\<close> by blast
qed

section \<open>Properties\<close>

text \<open>
  C11: from the cleared array, any sequence of requests and clock ticks in which no structure is added at location 0
  runs to its end, answers each request and changes the screen exactly as the same sequence on a list
  of structures does: adding puts a structure in front, on and shown, unless its location is off the screen or
  2000 are there already; removing and synchronising act on the first with the location; finding copies the first with the
  location back to the caller; a tick counts each
  structure down and toggles it at its end. The chain of pointers through the array stays a list without
  cycles, and exactly its slots are in use.
\<close>

theorem blink_list_refines:
  assumes "\<forall>ev \<in> set evs. sound ev"
  shows "\<exists>s is rs. fish_run evs (fish_start v) = Some (s, rs) \<and> linked s is \<and> display_run evs ([], v) = ((blinks s is, video s), rs)"
  using run_refines [OF start_linked(1) assms, of v] by (simp add: start_linked)

theorem blink_list_refines_witness:
  "\<exists>s is. fish_run [Ioctl (RTC_ADD (no_blink\<lparr>location := 5, on_length := 3\<rparr>)), Ioctl (RTC_FIND (no_blink\<lparr>location := 5\<rparr>)), Ioctl (RTC_REMOVE 5)]
       (fish_start (\<lambda>_. 0)) = Some (s, [(0, None), (0, Some (no_blink\<lparr>location := 5, on_length := 3, status := 1, countdown := 3\<rparr>)), (0, None)]) \<and> linked s is"
  using blink_list_refines [of "[Ioctl (RTC_ADD (no_blink\<lparr>location := 5, on_length := 3\<rparr>)), Ioctl (RTC_FIND (no_blink\<lparr>location := 5\<rparr>)), Ioctl (RTC_REMOVE 5)]" "\<lambda>_. 0"]
  by (auto simp: plain_def no_blink_def BLINKS_def simp del: fish_run.simps)

text \<open>
  a structure added with lengths from 1 to 32767 blinks with the right period: \<open>t\<close> ticks after it was added its cell shows
  the on character in the first \<open>on_length\<close> ticks of each period of \<open>on_length + off_length\<close>, and the off character in the rest. The bound
  is where the code compares the unsigned counter as signed.
\<close>

theorem blink_period:
  assumes "0 < a" "a \<le> 32767" "0 < c" "c \<le> 32767" "location b \<noteq> 0" "location b < 80 * 25" "on_length b = of_nat a" "off_length b = of_nat c"
  shows "\<exists>s rs. fish_run (Ioctl (RTC_ADD b) # replicate t Tick) (fish_start v) = Some (s, rs)
     \<and> video s (cell b) = (if t mod (a + c) < a then on_char b else off_char b)"
proof -
  let ?b = "(plain b)\<lparr>status := 1, countdown := on_length b\<rparr>"
  have "in_phase a c 0 ?b" using assms by (simp add: in_phase_def plain_def)
  from ticks_one [OF assms(1-4) this, of "v(cell b := on_char b)" t] obtain b' v' rs where
    d: "display_run (replicate t Tick) ([?b], v(cell b := on_char b)) = (([b'], v'), rs)" "v' (cell b) = (if t mod (a + c) < a then on_char b else off_char b)"
    by (auto simp: plain_def cell_def)
  have "display_run (Ioctl (RTC_ADD b) # replicate t Tick) ([], v) = (([b'], v'), (0, None) # rs)"
    using leD [of "80 * 25" "location b"] assms(6) d(1) by (auto simp: BLINKS_def)
  moreover have "\<forall>ev \<in> set (Ioctl (RTC_ADD b) # replicate t Tick). sound ev" using assms(5) by auto
  ultimately show ?thesis using run_refines [OF start_linked(1), of _ v] d(2) by (fastforce simp: start_linked)
qed

theorem blink_period_witness:
  "\<exists>s rs. fish_run (Ioctl (RTC_ADD (no_blink\<lparr>location := 540, on_char := 73, off_char := 77, on_length := 7, off_length := 6\<rparr>)) # replicate 100 Tick)
       (fish_start (\<lambda>_. 0)) = Some (s, rs) \<and> video s 1080 = 77"
  using blink_period [of 7 6 "no_blink\<lparr>location := 540, on_char := 73, off_char := 77, on_length := 7, off_length := 6\<rparr>" 100 "\<lambda>_. 0"]
  by (simp add: cell_def)

text \<open>
  C27: a structure added at location 0, the upper left corner of the screen, corrupts the list: the allocator takes its
  slot for free, the next structure added replaces it there and becomes its own successor, and the next
  clock tick never comes back.
\<close>

theorem blink_location_zero_hangs:
  assumes "location b = 0" "location b' < 80 * 25"
  shows "fish_run [Ioctl (RTC_ADD b), Ioctl (RTC_ADD b')] (fish_start v) \<noteq> None
     \<and> fish_run [Ioctl (RTC_ADD b), Ioctl (RTC_ADD b'), Tick] (fish_start v) = None"
proof -
  have m: "mp1_malloc s = Some 0" if "location (blink_array s 0) = 0" for s
  proof -
    have "[0..<BLINKS] = 0 # [1..<BLINKS]" by (simp add: BLINKS_def upt_rec [of 0 2000])
    then show ?thesis using that by (simp only: mp1_malloc_def find.simps) simp
  qed
  obtain s1 where s1: "mp1_ioctl_add b (fish_start v) = (s1, 0)" "location (blink_array s1 0) = 0" "mp1_list_head s1 = Some 0"
    using m [of "fish_start v"] assms(1) by (simp add: mp1_ioctl_add_def Let_def blink_defs fish_start_def no_blink_def)
  obtain s2 where s2: "mp1_ioctl_add b' s1 = (s2, 0)" "nxt (blink_array s2 0) = Some 0" "mp1_list_head s2 = Some 0"
    using m [OF s1(2)] assms(2) s1(3) by (simp add: mp1_ioctl_add_def Let_def blink_defs not_le)
  have "mp1_rtc_tasklet s2 = None" using self_loop [OF s2(2)] s2(3) by (simp add: mp1_rtc_tasklet_def)
  then show ?thesis using s1(1) s2(1) by simp
qed

theorem blink_location_zero_hangs_witness:
  "fish_run [Ioctl (RTC_ADD no_blink), Ioctl (RTC_ADD (no_blink\<lparr>location := 5\<rparr>)), Tick] (fish_start (\<lambda>_. 32)) = None"
  using blink_location_zero_hangs [of no_blink "no_blink\<lparr>location := 5\<rparr>" "\<lambda>_. 32"] by (simp add: no_blink_def)

end
