(* ===== verification/Fish.thy ===== *)
theory Fish
  imports Pingpong Grep Blink
begin

text \<open>
  \<^verbatim>\<open>fish/fish.c\<close>: the animation on the list of blinking characters of theory \<open>Blink\<close>. The program maps the screen into its
  memory, reads two pictures from files and shows them in turn, paced by the clock. Its state is that
  of the system together with the array of structures; the screen behind \<^verbatim>\<open>vmem_base_addr\<close> belongs to the system and
  is reached through the record \<open>vid\<close>. The result is compared with the abstract display.
\<close>

unbundle bit_operations_syntax

section \<open>Model\<close>

text \<open>
  What a program sees of video memory at an address, \<open>None\<close> when the address does not lead there, and how it
  changes it.
\<close>

record 's vid =
  vid_get :: "addr \<Rightarrow> 's \<Rightarrow> (u32 \<Rightarrow> u8) option"
  vid_put :: "addr \<Rightarrow> (u32 \<Rightarrow> u8) \<Rightarrow> 's \<Rightarrow> 's"

text \<open>The addresses of the program's variables and texts.\<close>

record fish_vars =
  vmem_base_addr :: addr
  rtc_name :: addr
  file0 :: addr
  file1 :: addr
  ret_val :: addr
  garbage :: addr
  c0 :: addr
  c1 :: addr

definition blink_call :: "'s os \<Rightarrow> 's vid \<Rightarrow> fish_vars \<Rightarrow> (fish \<Rightarrow> (fish \<times> answer) option) \<Rightarrow> 's \<times> fish \<Rightarrow> ('s \<times> fish) option" where
  "blink_call os w a f = (\<lambda>(s, b).
     let base = load32 (os_mem os s) (vmem_base_addr a)
     in do {
       v \<leftarrow> vid_get w base s;
       (b, _) \<leftarrow> f (b\<lparr>video := v\<rparr>);
       Some (vid_put w base (video b) s, b)
     })"

definition put_char :: "'s os \<Rightarrow> addr \<Rightarrow> u8 \<Rightarrow> 's \<Rightarrow> 's" where
  "put_char os p c s = os_poke os ((os_mem os s)(p := c)) s"

text \<open>The next character of one of the files, unless its line has ended; the flag is that of the file's end.\<close>

definition next_char :: "'s os \<Rightarrow> i32 \<Rightarrow> addr \<Rightarrow> bool \<Rightarrow> 's \<Rightarrow> ('s \<times> bool) option" where
  "next_char os fd p eof s =
     (if os_mem os s p \<noteq> 10
      then do {
        (s, num_bytes) \<leftarrow> os_read os fd p 1 s;
        if num_bytes = 0 then Some (put_char os p 10 s, True) else Some (s, eof)
      }
      else Some (s, eof))"

definition frame_blink :: "blink \<Rightarrow> i32 \<Rightarrow> i32 \<Rightarrow> u8 \<Rightarrow> u8 \<Rightarrow> blink" where
  "frame_blink blink_struct row col x y =
     blink_struct\<lparr>on_length := 15, off_length := 15, on_char := if x = 10 then 32 else x, off_char := if y = 10 then 32 else y,
       location := ucast (row * 80 + col + 40)\<rparr>"

partial_function (option) row_loop ::
  "'s os \<Rightarrow> 's vid \<Rightarrow> fish_vars \<Rightarrow> blink \<Rightarrow> i32 \<Rightarrow> i32 \<Rightarrow> i32 \<Rightarrow> i32 \<Rightarrow> bool \<times> bool \<Rightarrow> 's \<times> fish \<Rightarrow> ((bool \<times> bool) \<times> 's \<times> fish) option" where
  "row_loop os w a blink_struct fd0 fd1 row col eof sb =
     Option.bind (next_char os fd0 (c0 a) (fst eof) (fst sb)) (\<lambda>(s, eof0).
     Option.bind (next_char os fd1 (c1 a) (snd eof) s) (\<lambda>(s, eof1).
       let x = os_mem os s (c0 a); y = os_mem os s (c1 a)
       in if x = 10 \<and> y = 10 then Some ((eof0, eof1), s, snd sb)
          else Option.bind
            (if x \<noteq> 32 \<and> x \<noteq> 10 \<or> y \<noteq> 32 \<and> y \<noteq> 10
             then blink_call os w a (mp1_ioctl (RTC_ADD (frame_blink blink_struct row col x y))) (s, snd sb)
             else Some (s, snd sb))
            (row_loop os w a blink_struct fd0 fd1 row (col + 1) (eof0, eof1))))"

definition end_row :: "'s os \<Rightarrow> i32 \<Rightarrow> addr \<Rightarrow> bool \<Rightarrow> 's \<Rightarrow> 's option" where
  "end_row os fd p eof s =
     (if eof then do { (s, _) \<leftarrow> os_close os fd (put_char os p 10 s); Some s } else Some (put_char os p 48 s))"

partial_function (option) frames_loop ::
  "'s os \<Rightarrow> 's vid \<Rightarrow> fish_vars \<Rightarrow> blink \<Rightarrow> i32 \<Rightarrow> i32 \<Rightarrow> i32 \<Rightarrow> bool \<times> bool \<Rightarrow> 's \<times> fish \<Rightarrow> ('s \<times> fish) option" where
  "frames_loop os w a blink_struct fd0 fd1 row eof sb =
     (if fst eof \<and> snd eof then Some sb
      else Option.bind (row_loop os w a blink_struct fd0 fd1 row 0 eof sb) (\<lambda>(eof, s, b).
           Option.bind (end_row os fd0 (c0 a) (fst eof) s) (\<lambda>s.
           Option.bind (end_row os fd1 (c1 a) (snd eof) s) (\<lambda>s.
           frames_loop os w a blink_struct fd0 fd1 (row + 1) eof (s, b)))))"

text \<open>The flag beside the state is false when the function has halted the process.\<close>

definition add_frames :: "'s os \<Rightarrow> 's vid \<Rightarrow> fish_vars \<Rightarrow> blink \<Rightarrow> 's \<times> fish \<Rightarrow> (bool \<times> 's \<times> fish) option" where
  "add_frames os w a blink_struct = (\<lambda>(s, b).
     do {
       (s, fd0) \<leftarrow> os_open os (file0 a) (put_char os (c1 a) 48 (put_char os (c0 a) 48 s));
       if sint fd0 < 0 then Some (False, s, b)
       else do {
         (s, fd1) \<leftarrow> os_open os (file1 a) s;
         if sint fd1 < 0 then Some (False, s, b)
         else do {
           sb \<leftarrow> frames_loop os w a blink_struct fd0 fd1 0 (False, False) (s, b);
           Some (True, sb)
         }
       }
     })"

definition mp1_set_video_mode :: "'s os \<Rightarrow> fish_vars \<Rightarrow> 's \<Rightarrow> ('s \<times> addr) option" where
  "mp1_set_video_mode os a s =
     do {
       (s, r) \<leftarrow> os_vidmap os (vmem_base_addr a) s;
       Some (s, if r = -1 then 0 else load32 (os_mem os s) (vmem_base_addr a))
     }"

primrec tick_loop :: "nat \<Rightarrow> 's os \<Rightarrow> 's vid \<Rightarrow> fish_vars \<Rightarrow> i32 \<Rightarrow> 's \<times> fish \<Rightarrow> ('s \<times> fish) option" where
  "tick_loop 0 os w a rtc_fd sb = Some sb"
| "tick_loop (Suc n) os w a rtc_fd sb =
     do {
       (s, _) \<leftarrow> os_read os rtc_fd (garbage a) 4 (fst sb);
       sb \<leftarrow> blink_call os w a (\<lambda>b. map_option (\<lambda>b. (b, 0, None)) (mp1_rtc_tasklet b)) (s, snd sb);
       tick_loop n os w a rtc_fd sb
     }"

definition WAIT :: nat where "WAIT = 100"

text \<open>
  The structure that \<open>main\<close> adds. The two arguments \<open>blink_struct\<close> and \<open>frame_struct\<close> are the contents of the uninitialised structures of \<open>main\<close>
  and \<open>add_frames\<close>. Halting with -1 in \<open>add_frames\<close> is returning -1 from \<open>main\<close>, whose result the start code halts with.
\<close>

definition main_blink :: "blink \<Rightarrow> blink" where
  "main_blink blink_struct = blink_struct\<lparr>on_char := 73, off_char := 77, on_length := 7, off_length := 6, location := 6 * 80 + 60\<rparr>"

definition fish_main :: "'s os \<Rightarrow> 's vid \<Rightarrow> fish_vars \<Rightarrow> blink \<Rightarrow> blink \<Rightarrow> 's \<times> fish \<Rightarrow> (('s \<times> fish) \<times> i32) option" where
  "fish_main os w a blink_struct frame_struct = (\<lambda>(s, b).
     do {
       let b = b\<lparr>blink_array := (\<lambda>_. no_blink)\<rparr>;
       (s, p) \<leftarrow> mp1_set_video_mode os a s;
       if p = 0 then Some ((s, b), -1)
       else do {
         (s, rtc_fd) \<leftarrow> os_open os (rtc_name a) s;
         (going, s, b) \<leftarrow> add_frames os w a frame_struct (s, b);
         if \<not> going then Some ((s, b), -1)
         else do {
           (s, r) \<leftarrow> os_write os rtc_fd (ret_val a) 4 (os_poke os (store32 (os_mem os s) (ret_val a) 32) s);
           sb \<leftarrow> tick_loop WAIT os w a rtc_fd (os_poke os (store32 (os_mem os s) (ret_val a) r) s, b);
           sb \<leftarrow> blink_call os w a (mp1_ioctl (RTC_ADD (main_blink blink_struct))) sb;
           sb \<leftarrow> tick_loop WAIT os w a rtc_fd sb;
           sb \<leftarrow> blink_call os w a (mp1_ioctl (RTC_SYNC (push_bit 16 40 OR (6 * 80 + 60)))) sb;
           sb \<leftarrow> tick_loop WAIT os w a rtc_fd sb;
           sb \<leftarrow> blink_call os w a (mp1_ioctl (RTC_REMOVE (6 * 80 + 60))) sb;
           (s, b) \<leftarrow> tick_loop WAIT os w a rtc_fd sb;
           (s, _) \<leftarrow> os_close os rtc_fd s;
           Some ((s, b), 0)
         }
       }
     })"

section \<open>Structures in memory\<close>

text \<open>
  The byte loops that clear and copy structures, and the structure that 16 bytes of memory hold: \<open>ptr\<close> reads a pointer. In
  the model a structure is a value; clearing its bytes makes it the empty one and copying them copies it.
\<close>

definition ece391_memset :: "mem \<Rightarrow> addr \<Rightarrow> u8 \<Rightarrow> i32 \<Rightarrow> mem" where
  "ece391_memset m memory c n = fold (\<lambda>i m. m(memory + of_nat i := c)) [0..<nat (sint n)] m"

definition ece391_memcpy :: "mem \<Rightarrow> addr \<Rightarrow> addr \<Rightarrow> i32 \<Rightarrow> mem \<times> i32" where
  "ece391_memcpy m dest src n = (fold (\<lambda>i m. m(dest + of_nat i := m (src + of_nat i))) [0..<nat (sint n)] m, 0)"

definition load16 :: "mem \<Rightarrow> addr \<Rightarrow> u16" where
  "load16 m a = ucast (m a) OR push_bit 8 (ucast (m (a + 1)))"

definition blink_at :: "(u32 \<Rightarrow> nat option) \<Rightarrow> mem \<Rightarrow> addr \<Rightarrow> blink" where
  "blink_at ptr m p =
     \<lparr>location = load16 m p, on_char = m (p + 2), off_char = m (p + 3), on_length = load16 m (p + 4), off_length = load16 m (p + 6),
      countdown = load16 m (p + 8), status = load16 m (p + 10), nxt = ptr (load32 m (p + 12))\<rparr>"

lemma ece391_memset_eq: "ece391_memset m p c n = set_bytes m p c (nat (sint n))"
proof -
  have "fold (\<lambda>i m. m(p + of_nat i := c)) [0..<k] m = set_bytes m p c k" for k
  proof (induction k)
    case (Suc k)
    have "fold (\<lambda>i m. m(p + of_nat i := c)) [0..<Suc k] m = (set_bytes m p c k)(p + of_nat k := c)"
      unfolding upt_Suc_append [OF le0] fold_append comp_apply Suc by simp
    then show ?case using set_bytes_add [of m p c k 1] by (simp only: set_bytes_Suc One_nat_def set_bytes_0 add_Suc_right Nat.add_0_right)
  qed simp
  then show ?thesis by (simp add: ece391_memset_def)
qed

lemma ece391_memcpy_eq:
  assumes "up_ok d s (nat (sint n))"
  shows "ece391_memcpy m d s n = (copy_bytes m d s (nat (sint n)), 0)"
proof -
  have "fold (\<lambda>i m. m(d + of_nat i := m (s + of_nat i))) [0..<k] m = copy_bytes m d s k" if "up_ok d s k" "k \<le> 4294967296" for k
    using that
  proof (induction k)
    case (Suc k)
    have "fold (\<lambda>i m. m(d + of_nat i := m (s + of_nat i))) [0..<k] m = copy_bytes m d s k"
      using Suc.prems up_ok_mono [of d s "Suc k" k] by (intro Suc.IH) simp_all
    then have "fold (\<lambda>i m. m(d + of_nat i := m (s + of_nat i))) [0..<Suc k] m =
        (copy_bytes m d s k)(d + of_nat k := copy_bytes m d s k (s + of_nat k))"
      unfolding upt_Suc_append [OF le0] fold_append comp_apply by simp
    then show ?case using Suc.prems copy_bytes_add [of d s k 1 m] by (simp add: copy_bytes_Suc del: fun_upd_apply)
  qed simp
  moreover have "nat (sint n) \<le> 4294967296" using sint_less [of n] by simp
  ultimately show ?thesis using assms by (simp add: ece391_memcpy_def)
qed

theorem structures_cleared_and_copied:
  assumes "ptr 0 = None" "up_ok d s 16"
  shows "blink_at ptr (ece391_memset m p 0 16) p = no_blink \<and> blink_at ptr (fst (ece391_memcpy m d s 16)) d = blink_at ptr m s"
proof
  have w: "within (a + of_nat i) a 16" if "i < 16" for a i using that by (simp add: within_def)
  note w = this w [of 0, simplified] w [of 1, simplified] w [of 2, simplified] w [of 3, simplified]
  have "within (p + x) p 16" if "x < 16" for p x :: u32 using that by (simp add: within_def word_less_nat_alt)
  then have at: "within (p + x) p 16" if "unat x < 16" for p x :: u32 using that by (simp add: word_less_nat_alt)
  show "blink_at ptr (ece391_memset m p 0 16) p = no_blink"
    using assms(1) by (simp add: ece391_memset_eq set_bytes_def blink_at_def load16_def load32_def no_blink_def at add.assoc w)
  show "blink_at ptr (fst (ece391_memcpy m d s 16)) d = blink_at ptr m s"
    using assms(2) by (simp add: ece391_memcpy_eq copy_bytes_def blink_at_def load16_def load32_def at add.assoc w)
qed

section \<open>The pictures\<close>

text \<open>The rows of a text: its lines, the last one without a newline (and maybe empty).\<close>

function rows :: "u8 list \<Rightarrow> u8 list list" where
  "rows t = takeWhile (\<lambda>c. c \<noteq> 10) t # (if 10 \<in> set t then rows (tl (dropWhile (\<lambda>c. c \<noteq> 10) t)) else [])"
  by auto
termination
proof (relation "measure length")
  show "(tl (dropWhile (\<lambda>c. c \<noteq> 10) t), t) \<in> measure length" if "10 \<in> set t" for t :: "u8 list"
    using that length_dropWhile_le [of "\<lambda>c. c \<noteq> 10" t] by (cases t) (auto intro: le_less_trans)
qed simp

declare rows.simps [simp del]

text \<open>The structures of one place, of one row and of two pictures, a short row filled up with blanks.\<close>

definition mark :: "blink \<Rightarrow> nat \<Rightarrow> nat \<Rightarrow> u8 \<Rightarrow> u8 \<Rightarrow> blink list" where
  "mark z r c x y = (if x = 32 \<and> y = 32 then [] else [frame_blink z (of_nat r) (of_nat c) x y])"

fun row_blinks :: "blink \<Rightarrow> nat \<Rightarrow> nat \<Rightarrow> u8 list \<Rightarrow> u8 list \<Rightarrow> blink list" where
  "row_blinks z r c [] [] = []"
| "row_blinks z r c (x # xs) [] = mark z r c x 32 @ row_blinks z r (Suc c) xs []"
| "row_blinks z r c [] (y # ys) = mark z r c 32 y @ row_blinks z r (Suc c) [] ys"
| "row_blinks z r c (x # xs) (y # ys) = mark z r c x y @ row_blinks z r (Suc c) xs ys"

definition head_row :: "u8 list list \<Rightarrow> u8 list" where
  "head_row ls = (case ls of [] \<Rightarrow> [] | l # _ \<Rightarrow> l)"

function frame_blinks :: "blink \<Rightarrow> nat \<Rightarrow> u8 list list \<Rightarrow> u8 list list \<Rightarrow> blink list" where
  "frame_blinks z r ls0 ls1 =
     (if ls0 = [] \<and> ls1 = [] then []
      else row_blinks z r 0 (head_row ls0) (head_row ls1) @ frame_blinks z (Suc r) (tl ls0) (tl ls1))"
  by auto
termination
proof (relation "measure (\<lambda>(z, r, ls0, ls1). length ls0 + length ls1)")
  show "((z, Suc r, tl ls0, tl ls1), (z, r, ls0, ls1)) \<in> measure (\<lambda>(z, r, ls0, ls1). length ls0 + length ls1)"
    if "\<not> (ls0 = [] \<and> ls1 = [])" for z :: blink and r and ls0 ls1 :: "u8 list list"
    using that by (cases ls0; cases ls1) auto
qed simp

declare frame_blinks.simps [simp del]

abbreviation adds :: "blink list \<Rightarrow> event list" where
  "adds bs \<equiv> map (\<lambda>b. Ioctl (RTC_ADD b)) bs"

text \<open>The display after some events.\<close>

definition displayed :: "event list \<Rightarrow> display \<Rightarrow> display" where
  "displayed evs d = fst (display_run evs d)"

lemma displayed_simps [simp]:
  "displayed [] d = d" "displayed (ev # evs) d = displayed evs (fst (display_step ev d))"
  "displayed (evs @ evs') d = displayed evs' (displayed evs d)"
proof -
  show one: "displayed [] d = d" "displayed (ev # evs) d = displayed evs (fst (display_step ev d))" for ev evs d
    by (simp_all add: displayed_def Let_def split: prod.split)
  show "displayed (evs @ evs') d = displayed evs' (displayed evs d)" by (induction evs arbitrary: d) (simp_all add: one)
qed

text \<open>The display changes character bytes of the 80 by 25 cells only.\<close>

definition on_screen :: "(u32 \<Rightarrow> u8) \<Rightarrow> display \<Rightarrow> bool" where
  "on_screen v d \<longleftrightarrow> (\<forall>b \<in> set (fst d). location b < 80 * 25) \<and> (\<forall>x. odd (unat x) \<or> 4000 \<le> unat x \<longrightarrow> snd d x = v x)"

lemma unat_ucast16: "unat (ucast (x :: u16) :: u32) = unat x"
  by transfer simp

lemma cell_on_screen: "location b < 80 * 25 \<Longrightarrow> odd (unat x) \<or> 4000 \<le> unat x \<Longrightarrow> x \<noteq> cell b"
proof -
  assume l: "location b < 80 * 25" "odd (unat x) \<or> 4000 \<le> unat x"
  have "unat (location b) < 2000" using l(1) by (simp add: word_less_nat_alt)
  then have "unat (cell b) = 2 * unat (location b)"
    by (simp add: cell_def push_bit_eq_mult unat_word_ariths unat_ucast16)
  then show ?thesis using l(2) \<open>unat (location b) < 2000\<close> by auto
qed

lemma tick_on_screen:
  "location (fst (tick b v)) = location b" "location b < 80 * 25 \<Longrightarrow> odd (unat x) \<or> 4000 \<le> unat x \<Longrightarrow> snd (tick b v) x = v x"
  using cell_on_screen [of b x] by (auto simp: tick_def)

lemma ticks_on_screen: "on_screen v (bs, v') \<Longrightarrow> on_screen v (ticks bs v')"
proof (induction bs arbitrary: v')
  case (Cons b bs)
  then have "on_screen v (bs, snd (tick b v'))" using tick_on_screen(2) [of b _ v'] by (auto simp: on_screen_def)
  from Cons.IH [OF this] Cons.prems show ?case by (simp add: on_screen_def tick_on_screen(1))
qed (simp add: on_screen_def)

lemma display_step_on_screen: "on_screen v d \<Longrightarrow> on_screen v (fst (display_step ev d))"
proof (cases ev)
  case (Ioctl r)
  assume d: "on_screen v d"
  obtain bs v' where [simp]: "d = (bs, v')" by fastforce
  show ?thesis
  proof (cases r)
    case (RTC_ADD b)
    then show ?thesis using d cell_on_screen [of b] by (auto simp: Ioctl on_screen_def plain_def not_le)
  next
    case (RTC_REMOVE arg)
    have "set (tl (dropWhile P bs)) \<subseteq> set bs" for P
      by (metis append_is_Nil_conv dropWhile_append3 list.sel(2) list.set_sel(2) set_dropWhileD subsetI)
    then show ?thesis using d RTC_REMOVE by (auto simp: Ioctl on_screen_def dest: set_takeWhileD)
  next
    case (RTC_SYNC arg)
    have up: "on_screen v (bs[n := b\<lparr>on_length := p, off_length := q, countdown := r, status := t\<rparr>], v'(cell b := off_char b))"
      if "find P bs = Some b" for P b n p q r t
    proof -
      have "b \<in> set bs" using that by (auto simp: find_Some_iff)
      then have "location b < 80 * 25" using d by (simp add: on_screen_def)
      then show ?thesis using d cell_on_screen [of b] set_update_subset_insert [of bs n] by (fastforce simp: on_screen_def)
    qed
    show ?thesis using d by (auto simp: Ioctl RTC_SYNC up split: option.split)
  qed (use d in \<open>simp add: Ioctl split: option.split\<close>)
next
  case Tick
  then show "on_screen v d \<Longrightarrow> ?thesis" using ticks_on_screen by (cases d) simp
qed

lemma displayed_on_screen: "on_screen v d \<Longrightarrow> on_screen v (displayed evs d)"
  by (induction evs arbitrary: d) (simp_all add: display_step_on_screen)

text \<open>
  One file in a row: \<open>c\<close> is the last character read and \<open>t\<close> what follows it. The rest of the line, what follows it, and whether the
  file ends before it does.
\<close>

definition advance :: "u8 \<Rightarrow> u8 list \<Rightarrow> u8 \<times> u8 list" where
  "advance c t = (if c = 10 then (c, t) else case t of [] \<Rightarrow> (10, []) | x # xs \<Rightarrow> (x, xs))"

definition todo :: "u8 \<Rightarrow> u8 list \<Rightarrow> u8 list" where
  "todo c t = (if c = 10 then [] else takeWhile (\<lambda>x. x \<noteq> 10) t)"

definition left :: "u8 \<Rightarrow> u8 list \<Rightarrow> u8 list" where
  "left c t = (if c = 10 then t else tl (dropWhile (\<lambda>x. x \<noteq> 10) t))"

definition ends :: "u8 \<Rightarrow> u8 list \<Rightarrow> bool" where
  "ends c t \<longleftrightarrow> c \<noteq> 10 \<and> 10 \<notin> set t"

lemma advance_line:
  assumes "advance c t = (c', t')"
  shows "todo c t = (if c' = 10 then [] else c' # todo c' t')" "left c t = left c' t'" "ends c t \<longleftrightarrow> c \<noteq> 10 \<and> t = [] \<or> ends c' t'"
  using assms by (auto simp: advance_def todo_def left_def ends_def split: if_splits list.splits)

lemma row_blinks_step:
  assumes "advance x t0 = (x', t0')" "advance y t1 = (y', t1')" "\<not> (x' = 10 \<and> y' = 10)"
  shows "row_blinks z r c (todo x t0) (todo y t1) =
     (if x' \<noteq> 32 \<and> x' \<noteq> 10 \<or> y' \<noteq> 32 \<and> y' \<noteq> 10 then [frame_blink z (of_nat r) (of_nat c) x' y'] else [])
       @ row_blinks z r (Suc c) (todo x' t0') (todo y' t1')"
  using assms(3) unfolding advance_line(1) [OF assms(1)] advance_line(1) [OF assms(2)]
  by (auto simp: mark_def frame_blink_def todo_def)

text \<open>A file over the rows: \<open>e\<close> tells that it has ended.\<close>

definition rows_left :: "bool \<Rightarrow> u8 list \<Rightarrow> u8 list list" where
  "rows_left e t = (if e then [] else rows t)"

abbreviation start_char :: "bool \<Rightarrow> u8" where
  "start_char e \<equiv> if e then 10 else 48"

lemma rows_left_step:
  "head_row (rows_left e t) = todo (start_char e) t"
  "tl (rows_left e t) = rows_left (e \<or> ends (start_char e) t) (left (start_char e) t)"
  "rows_left e t = [] \<longleftrightarrow> e"
  by (simp_all add: rows_left_def rows.simps [of t] head_row_def todo_def ends_def left_def)

lemma fish_step_calls:
  "fish_step (Ioctl (RTC_ADD b)) = mp1_ioctl (RTC_ADD b)" "fish_step (Ioctl (RTC_REMOVE x)) = mp1_ioctl (RTC_REMOVE x)"
  "fish_step (Ioctl (RTC_SYNC x)) = mp1_ioctl (RTC_SYNC x)" "fish_step Tick = (\<lambda>b. map_option (\<lambda>b. (b, 0, None)) (mp1_rtc_tasklet b))"
  by (simp_all add: fun_eq_iff option.map_comp comp_def case_prod_unfold Let_def)

text \<open>The whole animation as a sequence of requests and ticks.\<close>

definition fish_script :: "blink \<Rightarrow> blink \<Rightarrow> u8 list \<Rightarrow> u8 list \<Rightarrow> event list" where
  "fish_script z z' t0 t1 = adds (frame_blinks z 0 (rows t0) (rows t1)) @ replicate WAIT Tick
     @ [Ioctl (RTC_ADD (main_blink z'))] @ replicate WAIT Tick @ [Ioctl (RTC_SYNC (push_bit 16 40 OR (6 * 80 + 60)))] @ replicate WAIT Tick
     @ [Ioctl (RTC_REMOVE (6 * 80 + 60))] @ replicate WAIT Tick"

text \<open>The variables do not overlap, and a name is in memory apart from the variables that change.\<close>

definition vars_ok :: "fish_vars \<Rightarrow> bool" where
  "vars_ok a \<longleftrightarrow> c0 a \<noteq> c1 a \<and> {c0 a, c1 a} \<inter> {vmem_base_addr a, vmem_base_addr a + 1, vmem_base_addr a + 2, vmem_base_addr a + 3} = {}
     \<and> far (ret_val a) 4 (vmem_base_addr a) 4"

definition name_ok :: "fish_vars \<Rightarrow> mem \<Rightarrow> addr \<Rightarrow> u8 list \<Rightarrow> bool" where
  "name_ok a m p cs \<longleftrightarrow> p \<noteq> 0 \<and> cstr (view m p) cs \<and> far (vmem_base_addr a) 4 p (Suc (length cs)) \<and> far (c0 a) 1 p (Suc (length cs))
     \<and> far (c1 a) 1 p (Suc (length cs))"

lemma store32_other: "4 \<le> unat (q - p) \<Longrightarrow> store32 m p x q = m q"
  by (auto simp: store32_def)

lemma cstr_kept:
  assumes "cstr (view m p) cs" "\<And>i. i < Suc (length cs) \<Longrightarrow> m' (p + of_nat i) = m (p + of_nat i)"
  shows "cstr (view m' p) cs"
  using assms(1) assms(2) [of "length cs"] assms(2) by (auto simp: cstr_def view_def)

lemma name_ok_kept:
  assumes "name_ok a m p cs" "\<And>q. 4 \<le> unat (q - vmem_base_addr a) \<Longrightarrow> q \<noteq> c0 a \<Longrightarrow> q \<noteq> c1 a \<Longrightarrow> m' q = m q"
  shows "name_ok a m' p cs"
proof -
  have n: "cstr (view m p) cs" "far (vmem_base_addr a) 4 p (Suc (length cs))" "far (c0 a) 1 p (Suc (length cs))" "far (c1 a) 1 p (Suc (length cs))"
    using assms(1) by (simp_all add: name_ok_def)
  have "m' (p + of_nat i) = m (p + of_nat i)" if "i < Suc (length cs)" for i
    using far_at [OF n(2) that] far_at [OF n(3) that] far_at [OF n(4) that] by (intro assms(2)) auto
  from cstr_kept [OF n(1) this] show ?thesis using assms(1) by (simp add: name_ok_def)
qed

section \<open>The interface\<close>

text \<open>What a name or a descriptor stands for: the clock, the bytes of a text still to be read, or something else.\<close>

datatype stream = Clock | Bytes "u8 list" | Other

definition unseen :: "'s os \<Rightarrow> 's vid \<Rightarrow> ('s \<Rightarrow> bool) \<Rightarrow> ('s \<Rightarrow> 'n) \<Rightarrow> 's \<Rightarrow> 's \<Rightarrow> bool" where
  "unseen os w ok disk s s' \<longleftrightarrow> ok s' \<and> disk s' = disk s \<and> (\<forall>base. vid_get w base s' = vid_get w base s)"

locale fish_calls =
  fixes os :: "'s os"
    and w :: "'s vid"
    and ok :: "'s \<Rightarrow> bool"
    and disk :: "'s \<Rightarrow> u8 list \<Rightarrow> stream option"
    and fdt :: "'s \<Rightarrow> i32 \<Rightarrow> stream option"
    and pointer :: "addr \<Rightarrow> 's \<Rightarrow> bool"
    and screen_of :: "'s \<Rightarrow> u32 \<Rightarrow> u8"
  assumes poke: "os_mem os (os_poke os m s) = m" "ok (os_poke os m s) = ok s" "disk (os_poke os m s) = disk s" "fdt (os_poke os m s) = fdt s"
      "vid_get w base (os_poke os m s) = vid_get w base s"
    and map_screen: "ok s \<Longrightarrow> pointer p s \<Longrightarrow>
      \<exists>s' base. os_vidmap os p s = Some (s', 0) \<and> ok s' \<and> disk s' = disk s \<and> fdt s' = fdt s \<and> os_mem os s' = store32 (os_mem os s) p base
        \<and> base \<noteq> 0 \<and> vid_get w base s' = Some (screen_of s)"
    and put_screen: "vid_get w base s = Some v \<Longrightarrow> s' = vid_put w base v' s \<Longrightarrow>
      os_mem os s' = os_mem os s \<and> ok s' = ok s \<and> disk s' = disk s \<and> fdt s' = fdt s \<and> vid_get w base s' = Some v'"
    and open_name: "ok s \<Longrightarrow> p \<noteq> 0 \<Longrightarrow> cstr (view (os_mem os s) p) cs \<Longrightarrow> disk s cs = Some x \<Longrightarrow> i \<in> {2..<8} \<Longrightarrow> fdt s (of_nat i) = None \<Longrightarrow>
      \<exists>s' fd. os_open os p s = Some (s', fd) \<and> 0 \<le> sint fd \<and> fdt s fd = None \<and> fdt s' = (fdt s)(fd \<mapsto> x) \<and> os_mem os s' = os_mem os s
        \<and> unseen os w ok disk s s'"
    and read_byte: "ok s \<Longrightarrow> fdt s fd = Some (Bytes bs) \<Longrightarrow>
      \<exists>s'. os_read os fd buf 1 s = Some (s', if bs = [] then 0 else 1) \<and> fdt s' = (fdt s)(fd \<mapsto> Bytes (tl bs))
        \<and> os_mem os s' = (if bs = [] then os_mem os s else (os_mem os s)(buf := hd bs)) \<and> unseen os w ok disk s s'"
    and wait_tick: "ok s \<Longrightarrow> fdt s fd = Some Clock \<Longrightarrow>
      \<exists>s'. os_read os fd buf n s = Some (s', 0) \<and> fdt s' = fdt s \<and> os_mem os s' = os_mem os s \<and> unseen os w ok disk s s'"
    and set_rate32: "ok s \<Longrightarrow> fdt s fd = Some Clock \<Longrightarrow> load32 (os_mem os s) buf = 32 \<Longrightarrow>
      \<exists>s'. os_write os fd buf 4 s = Some (s', 4) \<and> fdt s' = fdt s \<and> os_mem os s' = os_mem os s \<and> unseen os w ok disk s s'"
    and close_any: "ok s \<Longrightarrow> \<exists>s' r. os_close os fd s = Some (s', r) \<and> fdt s' = (fdt s)(fd := None) \<and> os_mem os s' = os_mem os s \<and> unseen os w ok disk s s'"
begin

lemma put_char_sel [simp]:
  "os_mem os (put_char os p c s) = (os_mem os s)(p := c)" "ok (put_char os p c s) = ok s" "disk (put_char os p c s) = disk s"
  "fdt (put_char os p c s) = fdt s" "vid_get w base (put_char os p c s) = vid_get w base s"
  by (simp_all add: put_char_def poke)

definition drawn :: "fish_vars \<Rightarrow> display \<Rightarrow> 's \<Rightarrow> fish \<Rightarrow> bool" where
  "drawn a d s b \<longleftrightarrow> ok s \<and> (\<exists>is v. vid_get w (load32 (os_mem os s) (vmem_base_addr a)) s = Some v \<and> linked b is \<and> d = (blinks b is, v))"

lemma drawn_step:
  "drawn a d s b \<Longrightarrow> unseen os w ok disk s s' \<Longrightarrow> load32 (os_mem os s') (vmem_base_addr a) = load32 (os_mem os s) (vmem_base_addr a) \<Longrightarrow> drawn a d s' b"
  by (simp add: drawn_def unseen_def)

lemma blink_call_draws:
  assumes "drawn a d s b" "sound ev"
  shows "\<exists>s' b'. blink_call os w a (fish_step ev) (s, b) = Some (s', b') \<and> drawn a (fst (display_step ev d)) s' b'
     \<and> os_mem os s' = os_mem os s \<and> fdt s' = fdt s \<and> disk s' = disk s"
proof -
  let ?base = "load32 (os_mem os s) (vmem_base_addr a)"
  obtain "is" v where v: "vid_get w ?base s = Some v" "linked b is" "d = (blinks b is, v)" "ok s" using assms(1) by (auto simp: drawn_def)
  let ?b = "b\<lparr>video := v\<rparr>"
  have "linked ?b is" "blinks ?b is = blinks b is" using v(2) by (simp_all add: linked_def blinks_def)
  from step_refines [OF this(1) assms(2), unfolded this(2)] obtain b' is' r where b': "fish_step ev ?b = Some (b', r)" "linked b' is'"
    "display_step ev d = ((blinks b' is', video b'), r)" by (auto simp: v(3))
  define s' where "s' = vid_put w ?base (video b') s"
  note p = put_screen [OF v(1) s'_def]
  have "drawn a (fst (display_step ev d)) s' b'" using p b'(2,3) v(4) by (auto simp: drawn_def)
  then show ?thesis using p b'(1) v(1) by (intro exI [of _ s'] exI [of _ b']) (simp add: blink_call_def Let_def s'_def)
qed

text \<open>A file behind a descriptor, with the character last read; \<open>g\<close> tells that it is closed.\<close>

definition held :: "i32 \<Rightarrow> addr \<Rightarrow> bool \<Rightarrow> u8 \<Rightarrow> u8 list \<Rightarrow> 's \<Rightarrow> bool" where
  "held fd p g c t s \<longleftrightarrow> os_mem os s p = c \<and> fdt s fd = (if g then None else Some (Bytes t)) \<and> (g \<longrightarrow> c = 10)"

text \<open>A step that concerns one file only.\<close>

definition only :: "i32 \<Rightarrow> addr \<Rightarrow> 's \<Rightarrow> 's \<Rightarrow> bool" where
  "only fd p s s' \<longleftrightarrow> unseen os w ok disk s s' \<and> (\<forall>q. q \<noteq> p \<longrightarrow> os_mem os s' q = os_mem os s q) \<and> (\<forall>fd'. fd' \<noteq> fd \<longrightarrow> fdt s' fd' = fdt s fd')"

lemma only_held: "only fd p s s' \<Longrightarrow> held fd' p' g c t s \<Longrightarrow> fd' \<noteq> fd \<Longrightarrow> p' \<noteq> p \<Longrightarrow> held fd' p' g c t s'"
  by (simp add: only_def held_def)

lemma only_drawn:
  "only fd p s s' \<Longrightarrow> drawn a d s b \<Longrightarrow> p \<notin> {vmem_base_addr a, vmem_base_addr a + 1, vmem_base_addr a + 2, vmem_base_addr a + 3} \<Longrightarrow> drawn a d s' b"
  by (rule drawn_step [of a d s b s']) (auto simp: only_def load32_def)

lemma next_char_advances:
  assumes "held fd p g c t s" "ok s"
  shows "\<exists>s'. next_char os fd p eof s = Some (s', eof \<or> c \<noteq> 10 \<and> t = []) \<and> held fd p g (fst (advance c t)) (snd (advance c t)) s' \<and> only fd p s s'"
proof (cases "c = 10")
  case True
  then show ?thesis using assms by (auto simp: next_char_def held_def advance_def only_def unseen_def)
next
  case False
  then have "fdt s fd = Some (Bytes t)" "\<not> g" "os_mem os s p = c" using assms(1) by (auto simp: held_def)
  moreover from read_byte [OF assms(2) this(1), of p] obtain s1 where "os_read os fd p 1 s = Some (s1, if t = [] then 0 else 1)"
    "fdt s1 = (fdt s)(fd \<mapsto> Bytes (tl t))" "os_mem os s1 = (if t = [] then os_mem os s else (os_mem os s)(p := hd t))" "unseen os w ok disk s s1" by blast
  ultimately show ?thesis using False
    by (cases t) (auto simp: next_char_def held_def advance_def only_def unseen_def)
qed

lemma row_draws:
  assumes "vars_ok a" "fd0 \<noteq> fd1"
  shows "drawn a d s b \<Longrightarrow> held fd0 (c0 a) g0 x t0 s \<Longrightarrow> held fd1 (c1 a) g1 y t1 s \<Longrightarrow>
     \<forall>b \<in> set (row_blinks z r c (todo x t0) (todo y t1)). location b \<noteq> 0 \<Longrightarrow>
     \<exists>s' b'. row_loop os w a z fd0 fd1 (of_nat r) (of_nat c) (e0, e1) (s, b) = Some ((e0 \<or> ends x t0, e1 \<or> ends y t1), s', b')
       \<and> drawn a (displayed (adds (row_blinks z r c (todo x t0) (todo y t1))) d) s' b'
       \<and> held fd0 (c0 a) g0 10 (left x t0) s' \<and> held fd1 (c1 a) g1 10 (left y t1) s'
       \<and> disk s' = disk s \<and> (\<forall>fd. fd \<notin> {fd0, fd1} \<longrightarrow> fdt s' fd = fdt s fd)"
proof (induction "length (todo x t0) + length (todo y t1)" arbitrary: c x t0 y t1 e0 e1 d s b rule: less_induct)
  case less
  obtain x' t0' y' t1' where adv: "advance x t0 = (x', t0')" "advance y t1 = (y', t1')" by fastforce
  note line = advance_line [OF adv(1)] advance_line [OF adv(2)]
  have ok: "ok s" using less.prems(1) by (simp add: drawn_def)
  from next_char_advances [OF less.prems(2) ok, of e0] obtain s1 where
    s1: "next_char os fd0 (c0 a) e0 s = Some (s1, e0 \<or> x \<noteq> 10 \<and> t0 = [])" "held fd0 (c0 a) g0 x' t0' s1" "only fd0 (c0 a) s s1" by (auto simp: adv)
  have h1: "held fd1 (c1 a) g1 y t1 s1" "drawn a d s1 b"
    using only_held [OF s1(3) less.prems(3)] only_drawn [OF s1(3) less.prems(1)] assms by (auto simp: vars_ok_def)
  have ok1: "ok s1" using h1(2) by (simp add: drawn_def)
  from next_char_advances [OF h1(1) ok1, of e1] obtain s2 where
    s2: "next_char os fd1 (c1 a) e1 s1 = Some (s2, e1 \<or> y \<noteq> 10 \<and> t1 = [])" "held fd1 (c1 a) g1 y' t1' s2" "only fd1 (c1 a) s1 s2" by (auto simp: adv)
  have h2: "held fd0 (c0 a) g0 x' t0' s2" "drawn a d s2 b"
    using only_held [OF s2(3) s1(2)] only_drawn [OF s2(3) h1(2)] assms by (auto simp: vars_ok_def)
  have m: "os_mem os s2 (c0 a) = x'" "os_mem os s2 (c1 a) = y'" using h2(1) s2(2) by (simp_all add: held_def)
  have rest: "disk s2 = disk s" "\<forall>fd. fd \<notin> {fd0, fd1} \<longrightarrow> fdt s2 fd = fdt s fd" using s1(3) s2(3) by (auto simp: only_def unseen_def)
  show ?case
  proof (cases "x' = 10 \<and> y' = 10")
    case True
    then show ?thesis
      using s1(1) s2(1,2) h2 m rest line by (subst row_loop.simps) (auto simp: Let_def left_def ends_def)
  next
    case False
    let ?add = "x' \<noteq> 32 \<and> x' \<noteq> 10 \<or> y' \<noteq> 32 \<and> y' \<noteq> 10"
    let ?ev = "Ioctl (RTC_ADD (frame_blink z (of_nat r) (of_nat c) x' y'))"
    let ?d = "if ?add then fst (display_step ?ev d) else d"
    note row = row_blinks_step [OF adv False, of z r c]
    have "\<exists>s3 b3. (if ?add then blink_call os w a (fish_step ?ev) (s2, b) else Some (s2, b)) = Some (s3, b3) \<and> drawn a ?d s3 b3
        \<and> os_mem os s3 = os_mem os s2 \<and> fdt s3 = fdt s2 \<and> disk s3 = disk s2"
      using blink_call_draws [OF h2(2), of ?ev] h2(2) less.prems(4) row by auto
    then obtain s3 b3 where s3: "(if ?add then blink_call os w a (fish_step ?ev) (s2, b) else Some (s2, b)) = Some (s3, b3)" "drawn a ?d s3 b3"
      "os_mem os s3 = os_mem os s2" "fdt s3 = fdt s2" "disk s3 = disk s2" by blast
    have h3: "held fd0 (c0 a) g0 x' t0' s3" "held fd1 (c1 a) g1 y' t1' s3" using h2(1) s2(2) s3(3,4) by (simp_all add: held_def)
    have "length (todo x' t0') + length (todo y' t1') < length (todo x t0) + length (todo y t1)" using False line(1,4) by (auto simp: todo_def)
    from less.hyps [OF this s3(2) h3, of "Suc c" "e0 \<or> x \<noteq> 10 \<and> t0 = []" "e1 \<or> y \<noteq> 10 \<and> t1 = []"] less.prems(4) obtain s' b' where
      s': "row_loop os w a z fd0 fd1 (of_nat r) (of_nat (Suc c)) (e0 \<or> x \<noteq> 10 \<and> t0 = [], e1 \<or> y \<noteq> 10 \<and> t1 = []) (s3, b3)
          = Some ((e0 \<or> ends x t0, e1 \<or> ends y t1), s', b')"
        "drawn a (displayed (adds (row_blinks z r (Suc c) (todo x' t0') (todo y' t1'))) ?d) s' b'"
        "held fd0 (c0 a) g0 10 (left x t0) s'" "held fd1 (c1 a) g1 10 (left y t1) s'"
        "disk s' = disk s3" "\<forall>fd. fd \<notin> {fd0, fd1} \<longrightarrow> fdt s' fd = fdt s3 fd"
      unfolding row line(2,3,5,6) by (auto simp: disj_ac)
    have "row_loop os w a z fd0 fd1 (of_nat r) (of_nat c) (e0, e1) (s, b) =
        Option.bind (if ?add then blink_call os w a (fish_step ?ev) (s2, b) else Some (s2, b))
          (row_loop os w a z fd0 fd1 (of_nat r) (of_nat c + 1) (e0 \<or> x \<noteq> 10 \<and> t0 = [], e1 \<or> y \<noteq> 10 \<and> t1 = []))"
      using s1(1) s2(1) m False by (subst row_loop.simps) (auto simp: Let_def fish_step_calls)
    also have "\<dots> = Some ((e0 \<or> ends x t0, e1 \<or> ends y t1), s', b')" using s3(1) s'(1) by (simp add: add.commute)
    finally show ?thesis using s'(2-) s3(4,5) rest row by auto
  qed
qed

lemma end_row_starts:
  assumes "held fd p g 10 t s" "ok s" "g \<longrightarrow> eof"
  shows "\<exists>s'. end_row os fd p eof s = Some s' \<and> held fd p eof (start_char eof) t s' \<and> only fd p s s'"
proof (cases eof)
  case True
  from close_any [of "put_char os p 10 s" fd] assms(2) obtain s1 r where "os_close os fd (put_char os p 10 s) = Some (s1, r)"
    "fdt s1 = (fdt s)(fd := None)" "os_mem os s1 = (os_mem os s)(p := 10)" "unseen os w ok disk (put_char os p 10 s) s1" by auto
  then show ?thesis using True by (auto simp: end_row_def held_def only_def unseen_def)
next
  case False
  then show ?thesis using assms by (auto simp: end_row_def held_def only_def unseen_def)
qed

lemma frames_draw:
  assumes "vars_ok a" "fd0 \<noteq> fd1"
  shows "drawn a d s b \<Longrightarrow> held fd0 (c0 a) e0 (start_char e0) t0 s \<Longrightarrow> held fd1 (c1 a) e1 (start_char e1) t1 s \<Longrightarrow>
     \<forall>b \<in> set (frame_blinks z r (rows_left e0 t0) (rows_left e1 t1)). location b \<noteq> 0 \<Longrightarrow>
     \<exists>s' b'. frames_loop os w a z fd0 fd1 (of_nat r) (e0, e1) (s, b) = Some (s', b')
       \<and> drawn a (displayed (adds (frame_blinks z r (rows_left e0 t0) (rows_left e1 t1))) d) s' b'
       \<and> fdt s' = (fdt s)(fd0 := None, fd1 := None)"
proof (induction "length (rows_left e0 t0) + length (rows_left e1 t1)" arbitrary: r e0 t0 e1 t1 d s b rule: less_induct)
  case less
  show ?case
  proof (cases "e0 \<and> e1")
    case True
    then have "fdt s = (fdt s)(fd0 := None, fd1 := None)" using less.prems(2,3) by (auto simp: held_def)
    then show ?thesis using True less.prems(1) by (subst frames_loop.simps) (simp add: rows_left_def frame_blinks.simps)
  next
    case False
    let ?e0 = "e0 \<or> ends (start_char e0) t0" and ?e1 = "e1 \<or> ends (start_char e1) t1"
    let ?t0 = "left (start_char e0) t0" and ?t1 = "left (start_char e1) t1"
    let ?row = "row_blinks z r 0 (todo (start_char e0) t0) (todo (start_char e1) t1)"
    let ?more = "frame_blinks z (Suc r) (rows_left ?e0 ?t0) (rows_left ?e1 ?t1)"
    have fb: "frame_blinks z r (rows_left e0 t0) (rows_left e1 t1) = ?row @ ?more"
      using False by (subst frame_blinks.simps) (auto simp: rows_left_step)
    have "\<forall>b \<in> set ?row. location b \<noteq> 0" "\<forall>b \<in> set ?more. location b \<noteq> 0" using less.prems(4) unfolding fb by auto
    note loc = this
    from row_draws [OF assms less.prems(1-3), of z r 0 e0 e1] loc(1) obtain s1 b1 where
      s1: "row_loop os w a z fd0 fd1 (of_nat r) 0 (e0, e1) (s, b) = Some ((?e0, ?e1), s1, b1)" "drawn a (displayed (adds ?row) d) s1 b1"
        "held fd0 (c0 a) e0 10 ?t0 s1" "held fd1 (c1 a) e1 10 ?t1 s1" "\<forall>fd. fd \<notin> {fd0, fd1} \<longrightarrow> fdt s1 fd = fdt s fd" by auto
    have ok1: "ok s1" using s1(2) by (simp add: drawn_def)
    from end_row_starts [OF s1(3) ok1, of ?e0] obtain s2 where s2: "end_row os fd0 (c0 a) ?e0 s1 = Some s2"
      "held fd0 (c0 a) ?e0 (start_char ?e0) ?t0 s2" "only fd0 (c0 a) s1 s2" by blast
    have h2: "held fd1 (c1 a) e1 10 ?t1 s2" "drawn a (displayed (adds ?row) d) s2 b1"
      using only_held [OF s2(3) s1(4)] only_drawn [OF s2(3) s1(2)] assms by (auto simp: vars_ok_def)
    have ok2: "ok s2" using h2(2) by (simp add: drawn_def)
    from end_row_starts [OF h2(1) ok2, of ?e1] obtain s3 where s3: "end_row os fd1 (c1 a) ?e1 s2 = Some s3"
      "held fd1 (c1 a) ?e1 (start_char ?e1) ?t1 s3" "only fd1 (c1 a) s2 s3" by blast
    have h3: "held fd0 (c0 a) ?e0 (start_char ?e0) ?t0 s3" "drawn a (displayed (adds ?row) d) s3 b1"
      using only_held [OF s3(3) s2(2)] only_drawn [OF s3(3) h2(2)] assms by (auto simp: vars_ok_def)
    have "length (rows_left ?e0 ?t0) + length (rows_left ?e1 ?t1) < length (rows_left e0 t0) + length (rows_left e1 t1)"
      using False rows_left_step(2,3) [of e0 t0] rows_left_step(2,3) [of e1 t1]
      by (cases "rows_left e0 t0"; cases "rows_left e1 t1") auto
    from less.hyps [OF this h3(2,1) s3(2) loc(2)] obtain s' b' where
      s': "frames_loop os w a z fd0 fd1 (of_nat (Suc r)) (?e0, ?e1) (s3, b1) = Some (s', b')"
        "drawn a (displayed (adds ?more) (displayed (adds ?row) d)) s' b'" "fdt s' = (fdt s3)(fd0 := None, fd1 := None)" by blast
    have "frames_loop os w a z fd0 fd1 (of_nat r) (e0, e1) (s, b) = frames_loop os w a z fd0 fd1 (of_nat (Suc r)) (?e0, ?e1) (s3, b1)"
      using False s1(1) s2(1) s3(1) by (subst frames_loop.simps) (auto simp: add.commute)
    moreover have "(fdt s3)(fd0 := None, fd1 := None) = (fdt s)(fd0 := None, fd1 := None)" using s1(5) s2(3) s3(3) by (auto simp: only_def)
    ultimately show ?thesis using s' unfolding fb by auto
  qed
qed

lemma tick_loop_draws:
  "drawn a d s b \<Longrightarrow> fdt s fd = Some Clock \<Longrightarrow>
     \<exists>s' b'. tick_loop n os w a fd (s, b) = Some (s', b') \<and> drawn a (displayed (replicate n Tick) d) s' b' \<and> fdt s' = fdt s"
proof (induction n arbitrary: d s b)
  case (Suc n)
  have "ok s" using Suc.prems(1) by (simp add: drawn_def)
  from wait_tick [OF this Suc.prems(2), of "garbage a" 4] obtain s1 where s1: "os_read os fd (garbage a) 4 s = Some (s1, 0)" "fdt s1 = fdt s"
    "os_mem os s1 = os_mem os s" "unseen os w ok disk s s1" by blast
  have "drawn a d s1 b" by (rule drawn_step [OF Suc.prems(1) s1(4)]) (simp add: s1(3))
  from blink_call_draws [OF this, of Tick] obtain s2 b2 where s2: "blink_call os w a (fish_step Tick) (s1, b) = Some (s2, b2)"
    "drawn a (fst (display_step Tick d)) s2 b2" "fdt s2 = fdt s1" by auto
  from Suc.IH [OF s2(2)] Suc.prems(2) show ?case using s1(1,2) s2(1,3) by (auto simp: fish_step_calls)
qed simp

lemma add_frames_draws:
  assumes "vars_ok a" "drawn a d s b" "name_ok a (os_mem os s) (file0 a) cs0" "name_ok a (os_mem os s) (file1 a) cs1"
    "disk s cs0 = Some (Bytes t0)" "disk s cs1 = Some (Bytes t1)" "fdt s = [rtc_fd \<mapsto> Clock]"
    "\<forall>b \<in> set (frame_blinks z 0 (rows t0) (rows t1)). location b \<noteq> 0"
  shows "\<exists>s' b'. add_frames os w a z (s, b) = Some (True, s', b')
     \<and> drawn a (displayed (adds (frame_blinks z 0 (rows t0) (rows t1))) d) s' b' \<and> fdt s' = [rtc_fd \<mapsto> Clock]"
proof -
  let ?m = "(os_mem os s)(c0 a := 48, c1 a := 48)"
  define s0 where "s0 = put_char os (c1 a) 48 (put_char os (c0 a) 48 s)"
  have s0: "os_mem os s0 = ?m" "disk s0 = disk s" "fdt s0 = [rtc_fd \<mapsto> Clock]" by (simp_all add: s0_def assms(7))
  have "drawn a d s0 b"
    by (rule drawn_step [OF assms(2)]) (use assms(1,2) in \<open>auto simp: s0_def unseen_def drawn_def load32_def vars_ok_def\<close>)
  have n: "name_ok a ?m (file0 a) cs0" "name_ok a ?m (file1 a) cs1" by (rule name_ok_kept [OF assms(3)] name_ok_kept [OF assms(4)]; simp)+
  have slot: "\<exists>i \<in> {2..<8}. f (of_nat i) = None" if "dom f \<subseteq> {x, y}" for f :: "i32 \<Rightarrow> stream option" and x y
  proof -
    have "(2 :: i32) \<noteq> 3" "(2 :: i32) \<noteq> 4" "(3 :: i32) \<noteq> 4" by simp_all
    then obtain fd where "fd \<in> {2, 3, 4}" "fd \<noteq> x" "fd \<noteq> y" by (metis insertI1 insertI2)
    then have "\<exists>fd \<in> {2, 3, 4}. f fd = None" using that by blast
    then show ?thesis by (elim bexE insertE) (auto intro: bexI [of _ 2] bexI [of _ 3] bexI [of _ 4])
  qed
  obtain i where i: "i \<in> {2..<8}" "fdt s0 (of_nat i) = None" using slot [of "fdt s0" rtc_fd rtc_fd] s0(3) by auto
  have "ok s0" using \<open>drawn a d s0 b\<close> by (simp add: drawn_def)
  from open_name [OF this _ _ _ i, of "file0 a" cs0] n(1) assms(5) obtain s1 fd0 where s1: "os_open os (file0 a) s0 = Some (s1, fd0)" "0 \<le> sint fd0"
    "fdt s0 fd0 = None" "fdt s1 = (fdt s0)(fd0 \<mapsto> Bytes t0)" "os_mem os s1 = ?m" "unseen os w ok disk s0 s1" by (auto simp: name_ok_def s0)
  obtain j where j: "j \<in> {2..<8}" "fdt s1 (of_nat j) = None" using slot [of "fdt s1" rtc_fd fd0] s0(3) s1(4) by auto
  have d1: "drawn a d s1 b" by (rule drawn_step [OF \<open>drawn a d s0 b\<close> s1(6)]) (simp add: s0 s1)
  have "ok s1" "disk s1 cs1 = Some (Bytes t1)" using d1 s1(6) s0(2) assms(6) by (simp_all add: drawn_def unseen_def)
  from open_name [OF this(1) _ _ this(2) j, of "file1 a"] n(2) obtain s2 fd1 where s2: "os_open os (file1 a) s1 = Some (s2, fd1)" "0 \<le> sint fd1"
    "fdt s1 fd1 = None" "fdt s2 = (fdt s1)(fd1 \<mapsto> Bytes t1)" "os_mem os s2 = ?m" "unseen os w ok disk s1 s2" by (auto simp: name_ok_def s1)
  have d2: "drawn a d s2 b" by (rule drawn_step [OF d1 s2(6)]) (simp add: s1 s2)
  have ne: "fd0 \<noteq> fd1" "fd0 \<noteq> rtc_fd" "fd1 \<noteq> rtc_fd" using s0(3) s1(3,4) s2(3) by (auto split: if_splits)
  have "held fd0 (c0 a) False 48 t0 s2" "held fd1 (c1 a) False 48 t1 s2" using ne assms(1) by (auto simp: held_def s1 s2 vars_ok_def)
  from frames_draw [OF assms(1) ne(1) d2, of False t0 False t1 z 0] this assms(8) obtain s' b' where
    "frames_loop os w a z fd0 fd1 0 (False, False) (s2, b) = Some (s', b')"
    "drawn a (displayed (adds (frame_blinks z 0 (rows t0) (rows t1))) d) s' b'" "fdt s' = (fdt s2)(fd0 := None, fd1 := None)"
    by (auto simp: rows_left_def)
  moreover have "(fdt s2)(fd0 := None, fd1 := None) = [rtc_fd \<mapsto> Clock]" using ne s0(3) s1(4) s2(4) by (auto simp: fun_eq_iff)
  ultimately show ?thesis using s1(1,2) s2(1,2) by (simp add: add_frames_def s0_def)
qed

lemma blink_then_ticks:
  assumes "drawn a d s b" "fdt s fd = Some Clock" "sound ev"
  obtains sb s' b' where "blink_call os w a (fish_step ev) (s, b) = Some sb" "tick_loop n os w a fd sb = Some (s', b')"
    "drawn a (displayed (ev # replicate n Tick) d) s' b'" "fdt s' = fdt s"
proof -
  from blink_call_draws [OF assms(1,3)] obtain s1 b1 where s1: "blink_call os w a (fish_step ev) (s, b) = Some (s1, b1)"
    "drawn a (fst (display_step ev d)) s1 b1" "fdt s1 = fdt s" by blast
  from tick_loop_draws [OF s1(2), of fd n] assms(2) show ?thesis using s1(1,3) that by auto
qed

text \<open>The part of \<open>main\<close> after the pictures were added.\<close>

lemma requests_draw:
  assumes "drawn a d s b" "fdt s = [fd \<mapsto> Clock]"
  obtains x1 x2 x3 x4 x5 x6 s' b' where
    "tick_loop WAIT os w a fd (s, b) = Some x1"
    "blink_call os w a (mp1_ioctl (RTC_ADD (main_blink z'))) x1 = Some x2" "tick_loop WAIT os w a fd x2 = Some x3"
    "blink_call os w a (mp1_ioctl (RTC_SYNC (push_bit 16 40 OR (6 * 80 + 60)))) x3 = Some x4" "tick_loop WAIT os w a fd x4 = Some x5"
    "blink_call os w a (mp1_ioctl (RTC_REMOVE (6 * 80 + 60))) x5 = Some x6" "tick_loop WAIT os w a fd x6 = Some (s', b')"
    "drawn a (displayed (replicate WAIT Tick @ [Ioctl (RTC_ADD (main_blink z'))] @ replicate WAIT Tick
       @ [Ioctl (RTC_SYNC (push_bit 16 40 OR (6 * 80 + 60)))] @ replicate WAIT Tick @ [Ioctl (RTC_REMOVE (6 * 80 + 60))] @ replicate WAIT Tick) d) s' b'"
    "fdt s' = [fd \<mapsto> Clock]"
proof -
  let ?add = "RTC_ADD (main_blink z')" and ?sync = "RTC_SYNC (push_bit 16 40 OR (6 * 80 + 60))" and ?remove = "RTC_REMOVE (6 * 80 + 60)"
  have c: "fdt s fd = Some Clock" using assms(2) by simp
  from tick_loop_draws [OF assms(1) c, of WAIT] obtain s1 b1 where
    s1: "tick_loop WAIT os w a fd (s, b) = Some (s1, b1)" "drawn a (displayed (replicate WAIT Tick) d) s1 b1" "fdt s1 = fdt s" by blast
  have "fdt s1 fd = Some Clock" "sound (Ioctl ?add)" using c s1(3) by (simp_all add: main_blink_def)
  from blink_then_ticks [OF s1(2) this] obtain x2 s3 b3 where
    s3: "blink_call os w a (fish_step (Ioctl ?add)) (s1, b1) = Some x2" "tick_loop WAIT os w a fd x2 = Some (s3, b3)"
      "drawn a (displayed (Ioctl ?add # replicate WAIT Tick) (displayed (replicate WAIT Tick) d)) s3 b3" "fdt s3 = fdt s1" by blast
  have "fdt s3 fd = Some Clock" "sound (Ioctl ?sync)" using c s1(3) s3(4) by simp_all
  from blink_then_ticks [OF s3(3) this] obtain x4 s5 b5 where
    s5: "blink_call os w a (fish_step (Ioctl ?sync)) (s3, b3) = Some x4" "tick_loop WAIT os w a fd x4 = Some (s5, b5)"
      "drawn a (displayed (Ioctl ?sync # replicate WAIT Tick) (displayed (Ioctl ?add # replicate WAIT Tick) (displayed (replicate WAIT Tick) d))) s5 b5"
      "fdt s5 = fdt s3" by blast
  have "fdt s5 fd = Some Clock" "sound (Ioctl ?remove)" using c s1(3) s3(4) s5(4) by simp_all
  from blink_then_ticks [OF s5(3) this] obtain x6 s7 b7 where
    s7: "blink_call os w a (fish_step (Ioctl ?remove)) (s5, b5) = Some x6" "tick_loop WAIT os w a fd x6 = Some (s7, b7)"
      "drawn a (displayed (Ioctl ?remove # replicate WAIT Tick) (displayed (Ioctl ?sync # replicate WAIT Tick)
         (displayed (Ioctl ?add # replicate WAIT Tick) (displayed (replicate WAIT Tick) d)))) s7 b7" "fdt s7 = fdt s5" by blast
  show ?thesis
  proof (rule that [OF s1(1) _ s3(2) _ s5(2) _ s7(2)])
    show "fdt s7 = [fd \<mapsto> Clock]" by (simp only: s7(4) s5(4) s3(4) s1(3) assms(2))
  qed (use s3(1) s5(1) s7(1,3) in \<open>simp_all only: fish_step_calls displayed_simps append_Cons append_Nil\<close>)
qed

lemma vmem_kept: "vars_ok a \<Longrightarrow> load32 (store32 m (ret_val a) x) (vmem_base_addr a) = load32 m (vmem_base_addr a)"
proof -
  assume "vars_ok a"
  then have f: "far (ret_val a) 4 (vmem_base_addr a) 4" by (simp add: vars_ok_def)
  show ?thesis using far_at [OF f, of 0] far_at [OF f, of 1] far_at [OF f, of 2] far_at [OF f, of 3] by (simp add: load32_def store32_other)
qed

lemma rate_set:
  assumes "vars_ok a" "drawn a d s b" "fdt s = [fd \<mapsto> Clock]"
  obtains s' where "os_write os fd (ret_val a) 4 (os_poke os (store32 (os_mem os s) (ret_val a) 32) s) = Some (s', 4)"
    "drawn a d (os_poke os (store32 (os_mem os s') (ret_val a) 4) s') b" "fdt s' = [fd \<mapsto> Clock]"
proof -
  let ?s = "os_poke os (store32 (os_mem os s) (ret_val a) 32) s"
  have d: "drawn a d ?s b" "ok ?s" using assms(2) by (auto simp: drawn_def poke vmem_kept [OF assms(1)])
  from set_rate32 [OF d(2), of fd "ret_val a"] obtain s' where s': "os_write os fd (ret_val a) 4 ?s = Some (s', 4)" "fdt s' = fdt s"
    "os_mem os s' = os_mem os ?s" "unseen os w ok disk ?s s'" by (auto simp: poke load_store32 assms(3))
  have "drawn a d s' b" by (rule drawn_step [OF d(1) s'(4)]) (simp add: s'(3))
  then have "drawn a d (os_poke os (store32 (os_mem os s') (ret_val a) 4) s') b" by (simp add: drawn_def poke vmem_kept [OF assms(1)])
  then show ?thesis using s'(1,2) assms(3) that by simp
qed

lemma fish_plays:
  assumes "vars_ok a" "ok s" "pointer (vmem_base_addr a) s" "fdt s = Map.empty" "mp1_list_head b = None"
    "name_ok a (os_mem os s) (rtc_name a) cs" "name_ok a (os_mem os s) (file0 a) cs0" "name_ok a (os_mem os s) (file1 a) cs1"
    "disk s cs = Some Clock" "disk s cs0 = Some (Bytes t0)" "disk s cs1 = Some (Bytes t1)"
    "\<forall>b \<in> set (frame_blinks z 0 (rows t0) (rows t1)). location b \<noteq> 0"
  shows "\<exists>s' b'. fish_main os w a z' z (s, b) = Some ((s', b'), 0) \<and> drawn a (displayed (fish_script z z' t0 t1) ([], screen_of s)) s' b'
     \<and> fdt s' = Map.empty"
proof -
  let ?b = "b\<lparr>blink_array := (\<lambda>_. no_blink)\<rparr>"
  from map_screen [OF assms(2,3)] obtain s1 base where s1: "os_vidmap os (vmem_base_addr a) s = Some (s1, 0)" "ok s1" "disk s1 = disk s" "fdt s1 = fdt s"
    "os_mem os s1 = store32 (os_mem os s) (vmem_base_addr a) base" "base \<noteq> 0" "vid_get w base s1 = Some (screen_of s)" by blast
  have base: "load32 (os_mem os s1) (vmem_base_addr a) = base" by (simp add: s1(5) load_store32)
  have "linked ?b []" using assms(5) by (simp add: linked_def no_blink_def)
  then have d1: "drawn a ([], screen_of s) s1 ?b" using s1(2,7) base by (auto simp: drawn_def blinks_def)
  have names: "name_ok a (os_mem os s1) (rtc_name a) cs" "name_ok a (os_mem os s1) (file0 a) cs0" "name_ok a (os_mem os s1) (file1 a) cs1"
    unfolding s1(5) by (rule name_ok_kept [OF assms(6)] name_ok_kept [OF assms(7)] name_ok_kept [OF assms(8)]; simp add: store32_other)+
  from open_name [OF s1(2), of "rtc_name a" cs Clock 2] names(1) assms(4,9) obtain s2 rtc_fd where s2: "os_open os (rtc_name a) s1 = Some (s2, rtc_fd)"
    "fdt s2 = [rtc_fd \<mapsto> Clock]" "os_mem os s2 = os_mem os s1" "unseen os w ok disk s1 s2" by (auto simp: s1 name_ok_def)
  have d2: "drawn a ([], screen_of s) s2 ?b" by (rule drawn_step [OF d1 s2(4)]) (simp add: s2)
  have "disk s2 = disk s" using s2(4) s1(3) by (simp add: unseen_def)
  then obtain s3 b3 where s3: "add_frames os w a z (s2, ?b) = Some (True, s3, b3)" "fdt s3 = [rtc_fd \<mapsto> Clock]"
    "drawn a (displayed (adds (frame_blinks z 0 (rows t0) (rows t1))) ([], screen_of s)) s3 b3"
    using add_frames_draws [OF assms(1) d2, of cs0 cs1 t0 t1 rtc_fd z] names(2,3) s2(2,3) assms(10-12) by auto
  from rate_set [OF assms(1) s3(3,2)] obtain s4 where s4: "os_write os rtc_fd (ret_val a) 4 (os_poke os (store32 (os_mem os s3) (ret_val a) 32) s3) = Some (s4, 4)"
    "drawn a (displayed (adds (frame_blinks z 0 (rows t0) (rows t1))) ([], screen_of s)) (os_poke os (store32 (os_mem os s4) (ret_val a) 4) s4) b3"
    "fdt s4 = [rtc_fd \<mapsto> Clock]" by blast
  have "fdt (os_poke os (store32 (os_mem os s4) (ret_val a) 4) s4) = [rtc_fd \<mapsto> Clock]" using s4(3) by (simp add: poke)
  from requests_draw [OF s4(2) this, of z'] obtain x1 x2 x3 x4 x5 x6 s8 b8 where
    x: "tick_loop WAIT os w a rtc_fd (os_poke os (store32 (os_mem os s4) (ret_val a) 4) s4, b3) = Some x1"
      "blink_call os w a (mp1_ioctl (RTC_ADD (main_blink z'))) x1 = Some x2" "tick_loop WAIT os w a rtc_fd x2 = Some x3"
      "blink_call os w a (mp1_ioctl (RTC_SYNC (push_bit 16 40 OR (6 * 80 + 60)))) x3 = Some x4" "tick_loop WAIT os w a rtc_fd x4 = Some x5"
      "blink_call os w a (mp1_ioctl (RTC_REMOVE (6 * 80 + 60))) x5 = Some x6" "tick_loop WAIT os w a rtc_fd x6 = Some (s8, b8)"
    and s8: "drawn a (displayed (fish_script z z' t0 t1) ([], screen_of s)) s8 b8" "fdt s8 = [rtc_fd \<mapsto> Clock]"
    unfolding fish_script_def displayed_simps(3) by blast
  have "ok s8" using s8(1) by (simp add: drawn_def)
  from close_any [OF this, of rtc_fd] obtain s9 r where s9: "os_close os rtc_fd s8 = Some (s9, r)" "fdt s9 = (fdt s8)(rtc_fd := None)"
    "os_mem os s9 = os_mem os s8" "unseen os w ok disk s8 s9" by blast
  have "drawn a (displayed (fish_script z z' t0 t1) ([], screen_of s)) s9 b8" by (rule drawn_step [OF s8(1) s9(4)]) (simp add: s9(3))
  moreover have "fdt s9 = Map.empty" using s9(2) s8(2) by auto
  moreover have "fish_main os w a z' z (s, b) = Some ((s9, b8), 0)"
    unfolding fish_main_def mp1_set_video_mode_def Let_def prod.case s1(1) bind.bind_lunit option.case
    using s1(6) by (simp only: bind.bind_lunit prod.case s1(1) base s2(1) s3(1) s4(1) x s9(1) simp_thms if_False if_True) simp
  ultimately show ?thesis by blast
qed

end

section \<open>The kernel\<close>

text \<open>
  Video memory behind an address that the page tables lead to the start of the video page. The program's
  offsets stay below 4000, inside that page.
\<close>

definition kernel_vid :: "kernel vid" where
  "kernel_vid =
     \<lparr>vid_get = (\<lambda>base k. if translate (pt_addr k) (pg k) True base = Some 0xB8000 then Some (\<lambda>x. video_mem (scr k) (uint x)) else None),
      vid_put = (\<lambda>base v k. k\<lparr>scr := (scr k)\<lparr>video_mem := (\<lambda>i. if 0 \<le> i \<and> i < 2 ^ 32 then v (word_of_int i) else video_mem (scr k) i)\<rparr>\<rparr>)\<rparr>"

definition stream_of :: "str \<Rightarrow> fd_struct \<Rightarrow> stream" where
  "stream_of img f =
     (if file_operations f = Some rtc_jump_table then Clock
      else if file_operations f = Some file_jump_table \<and> fd_inode_num f \<le> num_inodes img
        \<and> unat (file_pos f) \<le> length (file_bytes img (fd_inode_num f))
      then Bytes (drop (unat (file_pos f)) (file_bytes img (fd_inode_num f))) else Other)"

definition kernel_fdt :: "kernel \<Rightarrow> i32 \<Rightarrow> stream option" where
  "kernel_fdt k fd =
     (if fd_bad fd \<or> unat fd < 2 \<or> flags (fd_array (proc k) (unat fd)) = 0 then None
      else Some (stream_of (boot_block k) (fd_array (proc k) (unat fd))))"

definition kernel_disk :: "kernel \<Rightarrow> u8 list \<Rightarrow> stream option" where
  "kernel_disk k cs =
     (let img = boot_block k
      in if length cs > 32 then None
         else case find (\<lambda>j. dir_name img j = cs) [0..<unat (num_dir img)] of
           None \<Rightarrow> None
         | Some j \<Rightarrow>
             let ty = load32 img (directory_offset (of_nat j) + 32); inode = load32 img (directory_offset (of_nat j) + 36)
             in if ty = 0 then Some Clock else if ty = 2 \<and> inode \<le> num_inodes img then Some (Bytes (file_bytes img inode)) else None)"

definition kernel_pointer :: "addr \<Rightarrow> kernel \<Rightarrow> bool" where
  "kernel_pointer p k \<longleftrightarrow> 0x08000000 \<le> p \<and> p \<le> 0x083FFFFC \<and> aligned4k (pt_addr k)
     \<and> (\<exists>q v. paging_reach (pt_addr k) (pd_addr k) q v (pg k))"

lemma kernel_disk_cong: "boot_block k' = boot_block k \<Longrightarrow> kernel_disk k' = kernel_disk k"
  by (rule ext) (simp add: kernel_disk_def)

lemma unseenI:
  "user_ok k' \<Longrightarrow> ticking e \<Longrightarrow> boot_block k' = boot_block k \<Longrightarrow> scr k' = scr k \<Longrightarrow> pg k' = pg k \<Longrightarrow> pt_addr k' = pt_addr k \<Longrightarrow>
     unseen os kernel_vid (\<lambda>k. user_ok k \<and> ticking e) kernel_disk k k'"
  using kernel_disk_cong [of k' k] by (simp add: unseen_def kernel_vid_def)

lemma kernel_fdt_upd:
  assumes "boot_block k' = boot_block k" "fd_array (proc k') = (fd_array (proc k))(unat fd := f)" "\<not> fd_bad fd" "2 \<le> unat fd"
  shows "kernel_fdt k' = (kernel_fdt k)(fd := if flags f = 0 then None else Some (stream_of (boot_block k) f))"
proof (rule ext)
  fix x
  show "kernel_fdt k' x = ((kernel_fdt k)(fd := if flags f = 0 then None else Some (stream_of (boot_block k) f))) x"
    using assms word_unat_eq_iff [of x fd] by (cases "x = fd") (simp_all add: kernel_fdt_def)
qed

lemma kernel_fdt_cong: "descriptors k' = descriptors k \<Longrightarrow> kernel_fdt k' = kernel_fdt k"
  by (rule ext) (simp add: kernel_fdt_def descriptors_def)

lemma kernel_fdt_bytes:
  assumes "kernel_fdt k fd = Some (Bytes bs)"
  shows "file_open_at fd bs (descriptors k)" "\<not> fd_bad fd" "2 \<le> unat fd"
proof -
  have f: "\<not> fd_bad fd" "2 \<le> unat fd" "flags (fd_array (proc k) (unat fd)) \<noteq> 0" "stream_of (boot_block k) (fd_array (proc k) (unat fd)) = Bytes bs"
    using assms by (auto simp: kernel_fdt_def split: if_splits)
  then show "\<not> fd_bad fd" "2 \<le> unat fd" by auto
  show "file_open_at fd bs (descriptors k)"
    using f by (auto simp: file_open_at_def descriptors_def Let_def stream_of_def split: if_splits
      intro!: exI [of _ "unat (file_pos (fd_array (proc k) (unat fd)))"])
qed

lemma bytes_kernel_fdt:
  assumes "file_open_at fd bs (descriptors k)" "2 \<le> unat fd"
  shows "kernel_fdt k fd = Some (Bytes bs)"
proof -
  let ?f = "fd_array (proc k) (unat fd)"
  obtain p where p: "file_pos ?f = of_nat p" "p \<le> length (file_bytes (boot_block k) (fd_inode_num ?f))"
    "bs = drop p (file_bytes (boot_block k) (fd_inode_num ?f))" "flags ?f \<noteq> 0" "file_operations ?f = Some file_jump_table"
    "fd_inode_num ?f \<le> num_inodes (boot_block k)" "\<not> fd_bad fd" using assms(1) by (auto simp: file_open_at_def descriptors_def Let_def)
  have "unat (of_nat p :: u32) = p"
    using p(2) unat_lt32 [of "inode_length (boot_block k) (fd_inode_num ?f)"] by (intro unat_of_nat32) simp
  then show ?thesis using p assms(2) by (simp add: kernel_fdt_def stream_of_def)
qed

lemma kernel_fdt_clock: "kernel_fdt k fd = Some Clock \<Longrightarrow> user_ok k \<Longrightarrow> clock_at fd (descriptors k)"
  using fd_good [of fd]
  by (auto simp: kernel_fdt_def clock_at_def descriptors_def stream_of_def user_ok_def fds_ok_def split: if_splits)

lemma kernel_open_stream:
  assumes "user_ok k" "ticking e" "p \<noteq> 0" "cstr (view (user_mem k) p) cs" "kernel_disk k cs = Some x" "i \<in> {2..<8}" "kernel_fdt k (of_nat i) = None"
  shows "\<exists>k' fd. os_open (kernel_os e child) p k = Some (k', fd) \<and> 0 \<le> sint fd \<and> kernel_fdt k fd = None \<and> kernel_fdt k' = (kernel_fdt k)(fd \<mapsto> x)
     \<and> user_mem k' = user_mem k \<and> unseen (kernel_os e child) kernel_vid (\<lambda>k. user_ok k \<and> ticking e) kernel_disk k k'"
proof -
  obtain j where j: "length cs \<le> 32" "find (\<lambda>j. dir_name (boot_block k) j = cs) [0..<unat (num_dir (boot_block k))] = Some j"
    using assms(5) by (auto simp: kernel_disk_def Let_def split: if_splits option.splits)
  let ?ty = "load32 (boot_block k) (directory_offset (of_nat j) + 32)" and ?inode = "load32 (boot_block k) (directory_offset (of_nat j) + 36)"
  have x: "?ty = 0 \<and> x = Clock \<or> ?ty = 2 \<and> ?inode \<le> num_inodes (boot_block k) \<and> x = Bytes (file_bytes (boot_block k) ?inode)"
    using assms(5) j by (auto simp: kernel_disk_def Let_def split: if_splits)
  have "find (\<lambda>i. flags (fd_array (proc k) i) = 0) [2..<8] \<noteq> None"
    using assms(6,7) fd_number [of i] by (auto simp: kernel_fdt_def find_None_iff simp del: upt_rec_numeral split: if_splits)
  then obtain l where "find (\<lambda>i. flags (fd_array (proc k) i) = 0) [2..<8] = Some l" by blast
  from find_upt [OF this] have l: "l < 8" "2 \<le> l" "flags (fd_array (proc k) l) = 0" "\<forall>i. 2 \<le> i \<longrightarrow> i < l \<longrightarrow> flags (fd_array (proc k) i) \<noteq> 0" by auto
  note fd = fd_number [OF l(1)]
  have slot: "0 \<le> sint (of_nat l :: u32)" "kernel_fdt k (of_nat l) = None" using l fd by (simp_all add: sint_of_nat32 kernel_fdt_def)
  have "\<exists>k' f. os_open (kernel_os e child) p k = Some (k', of_nat l) \<and> user_ok k' \<and> scr k' = scr k \<and> user_mem k' = user_mem k
     \<and> boot_block k' = boot_block k \<and> fd_array (proc k') = (fd_array (proc k))(l := f) \<and> pg k' = pg k \<and> pt_addr k' = pt_addr k
     \<and> flags f = 1 \<and> stream_of (boot_block k) f = x"
  proof (cases "?ty = 0")
    case True
    then have "stream_of (boot_block k) (opened 0 rtc_jump_table (fd_array (proc k) l)) = x" using x by (auto simp: opened_def stream_of_def)
    moreover have "flags (opened 0 rtc_jump_table (fd_array (proc k) l)) = 1" by (simp add: opened_def)
    ultimately show ?thesis using kernel_open_clock [OF assms(1,3,4) l j True, of e child] by blast
  next
    case False
    then have "?ty = 2" "x = Bytes (file_bytes (boot_block k) ?inode)" "?inode \<le> num_inodes (boot_block k)" using x by auto
    moreover from this kernel_open [OF assms(1,3,4) j refl _ l, of e child] obtain k' where
      "os_open (kernel_os e child) p k = Some (k', of_nat l)" "user_ok k'" "scr k' = scr k" "user_mem k' = user_mem k" "boot_block k' = boot_block k"
      "same_rest k k'" "fd_array (proc k') = (fd_array (proc k))(l := opened ?inode file_jump_table (fd_array (proc k) l))" by auto
    ultimately show ?thesis by (intro exI [of _ k'] exI [of _ "opened ?inode file_jump_table (fd_array (proc k) l)"])
        (simp add: opened_def stream_of_def same_rest_def)
  qed
  then obtain k' f where k': "os_open (kernel_os e child) p k = Some (k', of_nat l)" "user_ok k'" "scr k' = scr k" "user_mem k' = user_mem k"
    "boot_block k' = boot_block k" "fd_array (proc k') = (fd_array (proc k))(l := f)" "pg k' = pg k" "pt_addr k' = pt_addr k" "flags f = 1"
    "stream_of (boot_block k) f = x" by blast
  have "kernel_fdt k' = (kernel_fdt k)(of_nat l \<mapsto> x)" using kernel_fdt_upd [OF k'(5), of "of_nat l" f] k'(6,9,10) fd l(2) by simp
  then show ?thesis using k' slot unseenI [OF k'(2) assms(2) k'(5,3,7,8)] by blast
qed

lemma kernel_read_byte:
  assumes "user_ok k" "ticking e" "kernel_fdt k fd = Some (Bytes bs)"
  shows "\<exists>k'. os_read (kernel_os e child) fd buf 1 k = Some (k', if bs = [] then 0 else 1) \<and> kernel_fdt k' = (kernel_fdt k)(fd \<mapsto> Bytes (tl bs))
     \<and> user_mem k' = (if bs = [] then user_mem k else (user_mem k)(buf := hd bs))
     \<and> unseen (kernel_os e child) kernel_vid (\<lambda>k. user_ok k \<and> ticking e) kernel_disk k k'"
proof -
  note b = kernel_fdt_bytes [OF assms(3)]
  define m where "m = min (unat (1 :: u32)) (length bs)"
  from kernel_read_file [OF assms(1) b(1) m_def, of e child buf] obtain k' f where
    k': "os_read (kernel_os e child) fd buf 1 k = Some (k', of_nat m)" "user_ok k'" "scr k' = scr k" "file_open_at fd (drop m bs) (descriptors k')"
      "same_rest k k'" "boot_block k' = boot_block k" "fd_array (proc k') = (fd_array (proc k))(unat fd := f)"
      "user_mem k' = (\<lambda>a. if unat (a - buf) < m then bs ! unat (a - buf) else user_mem k a)" by blast
  have m: "m = (if bs = [] then 0 else 1)" by (cases bs) (simp_all add: m_def)
  have "kernel_fdt k' fd = Some (Bytes (drop m bs))" by (rule bytes_kernel_fdt [OF k'(4) b(3)])
  moreover have "drop m bs = tl bs" by (cases bs) (simp_all add: m)
  ultimately have "kernel_fdt k' = (kernel_fdt k)(fd \<mapsto> Bytes (tl bs))"
    using kernel_fdt_upd [OF k'(6,7) b(2,3)] by auto
  moreover have "user_mem k' = (if bs = [] then user_mem k else (user_mem k)(buf := hd bs))"
    unfolding k'(8) by (cases bs) (auto simp: m fun_eq_iff unat_eq_zero)
  moreover have "unseen (kernel_os e child) kernel_vid (\<lambda>k. user_ok k \<and> ticking e) kernel_disk k k'"
    using k'(5) by (intro unseenI [OF k'(2) assms(2) k'(6,3)]) (simp_all add: same_rest_def)
  ultimately show ?thesis using k'(1) m by (intro exI [of _ k']) simp
qed

lemma frame_unseen:
  assumes "user_ok k" "ticking e" "frame k' = frame (trap_entry k)" "scr k' = scr k"
  shows "unseen (kernel_os e child) kernel_vid (\<lambda>k. user_ok k \<and> ticking e) kernel_disk k k'" "kernel_fdt k' = kernel_fdt k" "user_mem k' = user_mem k"
proof -
  note f = framed_call [OF assms(3)]
  have "boot_block k' = boot_block k" "pg k' = pg k" "pt_addr k' = pt_addr k" using assms(3) by (simp_all add: frame_def fixed_def trap_entry_def)
  then show "unseen (kernel_os e child) kernel_vid (\<lambda>k. user_ok k \<and> ticking e) kernel_disk k k'"
    using f(2) assms(1,2,4) by (intro unseenI) simp_all
  show "kernel_fdt k' = kernel_fdt k" by (rule kernel_fdt_cong [OF f(1)])
  show "user_mem k' = user_mem k" by (rule f(3))
qed

lemma kernel_close_any:
  assumes "user_ok k" "ticking e"
  shows "\<exists>k' r. os_close (kernel_os e child) fd k = Some (k', r) \<and> kernel_fdt k' = (kernel_fdt k)(fd := None) \<and> user_mem k' = user_mem k
     \<and> unseen (kernel_os e child) kernel_vid (\<lambda>k. user_ok k \<and> ticking e) kernel_disk k k'"
proof (cases "kernel_fdt k fd")
  case None
  have "sint fd < 2 \<or> sint fd \<ge> 8 \<or> flags (curr_fd (unat fd) (trap_entry k)) = 0"
  proof (cases "fd_bad fd")
    case True
    then show ?thesis by (auto simp: fd_bad_def FD_ARRAY_SIZE_def)
  next
    case False
    have "unat fd < 2 \<longrightarrow> int (unat fd) < 2" by linarith
    then show ?thesis using None False fd_good [OF False] by (auto simp only: kernel_fdt_def proc_def split: if_splits)
  qed
  then have "sys_close fd (trap_entry k) = (cli (trap_entry k), -1)" by (rule sys_close_refused)
  then have "os_close (kernel_os e child) fd k = Some (sti (cli (trap_entry k)), -1)"
    by (simp add: kernel_os_def do_call_def sys_call_def returns_def)
  moreover have "frame (sti (cli (trap_entry k))) = frame (trap_entry k)" "scr (sti (cli (trap_entry k))) = scr k"
    by (simp_all add: frame_def fixed_def cli_def sti_def)
  note frame_unseen [OF assms this]
  ultimately show ?thesis using None by (intro exI [of _ "sti (cli (trap_entry k))"] exI [of _ "-1"]) auto
next
  case (Some x)
  then have f: "\<not> fd_bad fd" "2 \<le> unat fd" "flags (fd_array (proc k) (unat fd)) \<noteq> 0" by (auto simp: kernel_fdt_def split: if_splits)
  have g: "unat fd < 8" using fd_good [OF f(1)] by simp
  then have f1: "flags (fd_array (proc k) (unat fd)) = 1" using assms(1) f(3) by (auto simp: user_ok_def fds_ok_def)
  let ?k' = "after_fd (unat fd) (\<lambda>f. f\<lparr>flags := 0\<rparr>) (user_mem k) k"
  have "os_close (kernel_os e child) fd k = Some (?k', 0)" using kernel_close [OF assms(1) f(2) g f1, of e child] by simp
  moreover have "user_ok ?k'"
    by (rule user_ok_fd [OF assms(1) g f(2) after_fd_sel(1,3)]) (use assms(1) f(2) g f1 in \<open>auto simp: user_ok_def fds_ok_def\<close>)
  moreover have "kernel_fdt ?k' = (kernel_fdt k)(fd := None)" using kernel_fdt_upd [OF after_fd_sel(3,1) f(1,2)] by simp
  moreover have "pg ?k' = pg k" "pt_addr ?k' = pt_addr k" using after_fd_sel(5) by (simp_all add: same_rest_def)
  ultimately show ?thesis using unseenI [of ?k' e k] assms(2) after_fd_sel by (intro exI [of _ ?k'] exI [of _ 0]) simp
qed

lemma kernel_map_screen:
  assumes "user_ok k" "ticking e" "kernel_pointer p k"
  shows "\<exists>k' base. os_vidmap (kernel_os e child) p k = Some (k', 0) \<and> (user_ok k' \<and> ticking e) \<and> kernel_disk k' = kernel_disk k
     \<and> kernel_fdt k' = kernel_fdt k \<and> user_mem k' = store32 (user_mem k) p base \<and> base \<noteq> 0
     \<and> vid_get kernel_vid base k' = Some (\<lambda>x. video_mem (scr k) (uint x))"
proof -
  obtain q v where r: "paging_reach (pt_addr k) (pd_addr k) q v (pg k)" "aligned4k (pt_addr k)" "0x08000000 \<le> p" "p \<le> 0x083FFFFC"
    using assms(3) by (auto simp: kernel_pointer_def)
  let ?k = "trap_entry k"
  obtain pg' where pg': "set_vidmap (pt_addr k) (pd_addr k) (pg k) = (pg', 0x21000)" by (simp add: set_vidmap_def VID_MAP_LOC_def)
  have w: "window pg' = window (pg k)" using pg' by (auto simp: set_vidmap_def window_def paging_consts)
  have t: "translate (pt_addr k) pg' True 0x21000 = Some 0xB8000"
    using translate_reach [OF paging_reach.vidmap [OF r(1)] r(2), of True "0x21000"] pg'
    by (simp add: address_map_def dir_index_def table_index_def)
  let ?k' = "sti (set_user_mem (store32 (user_mem k) p 0x21000) (?k\<lparr>pg := pg'\<rparr>))"
  have "p \<noteq> 0" "\<not> p < 0x08000000" "\<not> p > 0x08400000" using r(3,4) by (auto simp: word_less_nat_alt word_le_nat_alt)
  then have "vidmap p ?k = Some (set_user_mem (store32 (user_mem k) p 0x21000) (?k\<lparr>pg := pg'\<rparr>), 0)"
    using pg' w r(4) by (simp add: vidmap_def Let_def word_le_nat_alt USER_PROG_LOC_def FOUR_MEG_def trap_entry_def user_mem_def)
  then have "os_vidmap (kernel_os e child) p k = Some (?k', 0)"
    by (simp add: kernel_os_def do_call_def sys_call_def returns_def)
  moreover have "descriptors ?k' = descriptors k" "user_ok ?k' = user_ok k"
    by (rule call_state; simp add: sti_def set_user_mem_def trap_entry_def curr_pcb_def get_pcb_def)+
  moreover have "user_mem ?k' = store32 (user_mem k) p 0x21000" by (simp add: user_mem_def sti_def set_user_mem_def)
  moreover have "vid_get kernel_vid 0x21000 ?k' = Some (\<lambda>x. video_mem (scr k) (uint x))"
    using t by (simp add: kernel_vid_def sti_def set_user_mem_def trap_entry_def)
  moreover have "boot_block ?k' = boot_block k" by (simp add: sti_def set_user_mem_def trap_entry_def)
  ultimately show ?thesis
    using assms(1,2) kernel_disk_cong [of ?k' k] kernel_fdt_cong [of ?k' k] by (intro exI [of _ ?k'] exI [of _ "0x21000 :: u32"]) simp
qed

interpretation kfish: fish_calls "kernel_os e child" kernel_vid "\<lambda>k. user_ok k \<and> ticking e" kernel_disk kernel_fdt kernel_pointer
  "\<lambda>k x. video_mem (scr k) (uint x)" for e child
proof
  fix m :: mem and k base
  have p: "boot_block (set_user_mem m k) = boot_block k" "descriptors (set_user_mem m k) = descriptors k"
    by (simp_all add: set_user_mem_def descriptors_def proc_def trap_entry_def curr_pcb_def get_pcb_def)
  show "os_mem (kernel_os e child) (os_poke (kernel_os e child) m k) = m"
    "(user_ok (os_poke (kernel_os e child) m k) \<and> ticking e) = (user_ok k \<and> ticking e)"
    using user_ok_cong [OF p(2)] by simp_all
  show "kernel_disk (os_poke (kernel_os e child) m k) = kernel_disk k" "kernel_fdt (os_poke (kernel_os e child) m k) = kernel_fdt k"
    unfolding kernel_os_mem by (rule kernel_disk_cong [OF p(1)], rule kernel_fdt_cong [OF p(2)])
  show "vid_get kernel_vid base (os_poke (kernel_os e child) m k) = vid_get kernel_vid base k" by (simp add: kernel_vid_def set_user_mem_def)
next
  fix k p assume "user_ok k \<and> ticking e" "kernel_pointer p k"
  then show "\<exists>k' base. os_vidmap (kernel_os e child) p k = Some (k', 0) \<and> (user_ok k' \<and> ticking e) \<and> kernel_disk k' = kernel_disk k
      \<and> kernel_fdt k' = kernel_fdt k \<and> os_mem (kernel_os e child) k' = store32 (os_mem (kernel_os e child) k) p base \<and> base \<noteq> 0
      \<and> vid_get kernel_vid base k' = Some (\<lambda>x. video_mem (scr k) (uint x))"
    unfolding kernel_os_mem using kernel_map_screen by blast
next
  fix base k v k' and v' :: "u32 \<Rightarrow> u8"
  assume a: "vid_get kernel_vid base k = Some v" "k' = vid_put kernel_vid base v' k"
  have d: "boot_block k' = boot_block k" "descriptors k' = descriptors k" "user_mem k' = user_mem k"
    by (simp_all add: a(2) kernel_vid_def descriptors_def proc_def trap_entry_def curr_pcb_def get_pcb_def user_mem_def)
  have "vid_get kernel_vid base k' = Some v'"
    using a(1) uint_lt2p [where 'a = 32] by (auto simp: a(2) kernel_vid_def split: if_splits)
  then show "os_mem (kernel_os e child) k' = os_mem (kernel_os e child) k \<and> (user_ok k' \<and> ticking e) = (user_ok k \<and> ticking e)
      \<and> kernel_disk k' = kernel_disk k \<and> kernel_fdt k' = kernel_fdt k \<and> vid_get kernel_vid base k' = Some v'"
    using d user_ok_cong [OF d(2)] kernel_disk_cong [OF d(1)] kernel_fdt_cong [OF d(2)] by simp
next
  fix k fd buf n assume a: "user_ok k \<and> ticking e" "kernel_fdt k fd = Some Clock"
  then have ok: "user_ok k" "ticking e" and c: "clock_at fd (descriptors k)" using kernel_fdt_clock by blast+
  from kernel_wait_clock [OF ok c, of child buf n] frame_unseen [OF ok]
  show "\<exists>k'. os_read (kernel_os e child) fd buf n k = Some (k', 0) \<and> kernel_fdt k' = kernel_fdt k
      \<and> os_mem (kernel_os e child) k' = os_mem (kernel_os e child) k \<and> unseen (kernel_os e child) kernel_vid (\<lambda>k. user_ok k \<and> ticking e) kernel_disk k k'"
    unfolding kernel_os_mem by blast
  assume "load32 (os_mem (kernel_os e child) k) buf = 32"
  then have "load32 (user_mem k) buf = 2 ^ 5" by simp
  from kernel_set_clock [OF ok(1) c this, of e child] frame_unseen [OF ok]
  show "\<exists>k'. os_write (kernel_os e child) fd buf 4 k = Some (k', 4) \<and> kernel_fdt k' = kernel_fdt k
      \<and> os_mem (kernel_os e child) k' = os_mem (kernel_os e child) k \<and> unseen (kernel_os e child) kernel_vid (\<lambda>k. user_ok k \<and> ticking e) kernel_disk k k'"
    unfolding kernel_os_mem by auto
next
  fix k p cs x i
  assume "user_ok k \<and> ticking e" "p \<noteq> 0" "cstr (view (os_mem (kernel_os e child) k) p) cs" "kernel_disk k cs = Some x" "i \<in> {2..<8}"
    "kernel_fdt k (of_nat i) = None"
  then show "\<exists>k' fd. os_open (kernel_os e child) p k = Some (k', fd) \<and> 0 \<le> sint fd \<and> kernel_fdt k fd = None \<and> kernel_fdt k' = (kernel_fdt k)(fd \<mapsto> x)
      \<and> os_mem (kernel_os e child) k' = os_mem (kernel_os e child) k \<and> unseen (kernel_os e child) kernel_vid (\<lambda>k. user_ok k \<and> ticking e) kernel_disk k k'"
    unfolding kernel_os_mem by (elim conjE) (rule kernel_open_stream)
next
  fix k fd bs buf assume "user_ok k \<and> ticking e" "kernel_fdt k fd = Some (Bytes bs)"
  then show "\<exists>k'. os_read (kernel_os e child) fd buf 1 k = Some (k', if bs = [] then 0 else 1) \<and> kernel_fdt k' = (kernel_fdt k)(fd \<mapsto> Bytes (tl bs))
      \<and> os_mem (kernel_os e child) k' = (if bs = [] then os_mem (kernel_os e child) k else (os_mem (kernel_os e child) k)(buf := hd bs))
      \<and> unseen (kernel_os e child) kernel_vid (\<lambda>k. user_ok k \<and> ticking e) kernel_disk k k'"
    unfolding kernel_os_mem by (elim conjE) (rule kernel_read_byte)
next
  fix k fd assume "user_ok k \<and> ticking e"
  then show "\<exists>k' r. os_close (kernel_os e child) fd k = Some (k', r) \<and> kernel_fdt k' = (kernel_fdt k)(fd := None)
      \<and> os_mem (kernel_os e child) k' = os_mem (kernel_os e child) k \<and> unseen (kernel_os e child) kernel_vid (\<lambda>k. user_ok k \<and> ticking e) kernel_disk k k'"
    unfolding kernel_os_mem by (elim conjE) (rule kernel_close_any)
qed

section \<open>Properties\<close>

abbreviation shown :: "kernel \<Rightarrow> u32 \<Rightarrow> u8" where
  "shown k \<equiv> \<lambda>x. video_mem (scr k) (uint x)"

text \<open>
  C6: the fish program, from its start to its end on the kernel: it maps the screen through \<open>vidmap\<close>, reads the two pictures of any
  shape from the files, one byte at a time through their descriptors, adds a blinking character for every place
  where one of them is not blank, and lets the clock drive the display, with one more character added, synchronised and
  removed in between. It returns 0, and the screen of the kernel shows what the abstract display shows after
  that script; only character bytes of the screen have changed, and all descriptors are closed again.
\<close>

theorem fish_animates:
  assumes "user_ok k" "ticking e" "kernel_pointer (vmem_base_addr a) k" "vars_ok a" "kernel_fdt k = Map.empty" "mp1_list_head b = None"
    "name_ok a (user_mem k) (rtc_name a) (bytes_of ''rtc'')" "name_ok a (user_mem k) (file0 a) (bytes_of ''frame0.txt'')"
    "name_ok a (user_mem k) (file1 a) (bytes_of ''frame1.txt'')" "kernel_disk k (bytes_of ''rtc'') = Some Clock"
    "kernel_disk k (bytes_of ''frame0.txt'') = Some (Bytes t0)" "kernel_disk k (bytes_of ''frame1.txt'') = Some (Bytes t1)"
    "\<forall>b \<in> set (frame_blinks z 0 (rows t0) (rows t1)). location b \<noteq> 0"
  shows "\<exists>k' b'. fish_main (kernel_os e child) kernel_vid a z' z (k, b) = Some ((k', b'), 0) \<and> user_ok k' \<and> kernel_fdt k' = Map.empty
     \<and> shown k' = snd (displayed (fish_script z z' t0 t1) ([], shown k))
     \<and> (\<forall>x. odd (unat x) \<or> 4000 \<le> unat x \<longrightarrow> shown k' x = shown k x)"
proof -
  let ?d = "displayed (fish_script z z' t0 t1) ([], shown k)"
  from kfish.fish_plays [of a k e b child, OF assms(4) _ assms(3,5,6), unfolded kernel_os_mem, OF _ assms(7-13), of z'] assms(1,2)
  obtain k' b' where k': "fish_main (kernel_os e child) kernel_vid a z' z (k, b) = Some ((k', b'), 0)" "kfish.drawn e child a ?d k' b'"
    "kernel_fdt k' = Map.empty" by blast
  have "snd ?d = shown k'" "user_ok k'" using k'(2) unfolding kfish.drawn_def by (auto simp: kernel_vid_def split: if_splits)
  moreover have "on_screen (shown k) ?d" by (rule displayed_on_screen) (simp add: on_screen_def)
  ultimately show ?thesis using k'(1,3) by (auto simp: on_screen_def)
qed

text \<open>An image with the clock and two pictures of one character each.\<close>

definition fish_image :: str where
  "fish_image = (\<lambda>_. 0)(0 := 3, 4 := 2, 8 := 2, 64 := 114, 65 := 116, 66 := 99,
     128 := 102, 129 := 114, 130 := 97, 131 := 109, 132 := 101, 133 := 48, 134 := 46, 135 := 116, 136 := 120, 137 := 116, 160 := 2,
     192 := 102, 193 := 114, 194 := 97, 195 := 109, 196 := 101, 197 := 49, 198 := 46, 199 := 116, 200 := 120, 201 := 116, 224 := 2, 228 := 1,
     4096 := 1, 8192 := 1, 8196 := 1, 12288 := 65, 16384 := 66)"

definition fish_texts :: "string list" where
  "fish_texts = [''rtc'', ''frame0.txt'', ''frame1.txt'']"

definition fish_kernel :: kernel where
  "fish_kernel = set_user_mem (program_mem fish_texts) (tiny_kernel\<lparr>boot_block := fish_image\<rparr>)"

definition fish_addrs :: fish_vars where
  "fish_addrs = \<lparr>vmem_base_addr = 0x08060000, rtc_name = 0x08048000, file0 = 0x08049000, file1 = 0x0804A000, ret_val = 0x08060010,
     garbage = 0x08060020, c0 = 0x08060030, c1 = 0x08060031\<rparr>"

lemma less_list: "(\<forall>i < n. P i) \<longleftrightarrow> list_all P [0..<n]"
  by (auto simp: list_all_iff)

lemma fish_image_names:
  "num_dir fish_image = 3" "dir_name fish_image 0 = bytes_of ''rtc''" "dir_name fish_image 1 = bytes_of ''frame0.txt''"
  "dir_name fish_image 2 = bytes_of ''frame1.txt''" "names_end fish_image"
proof -
  show n: "num_dir fish_image = 3" by (simp add: num_dir_def load32_def fish_image_def)
  have c: "cstr (directory_name fish_image 0) (bytes_of ''rtc'')" "cstr (directory_name fish_image 1) (bytes_of ''frame0.txt'')"
    "cstr (directory_name fish_image 2) (bytes_of ''frame1.txt'')"
    unfolding cstr_def less_list by (simp_all add: directory_name_def directory_offset_def view_def fish_image_def)
  then show "dir_name fish_image 0 = bytes_of ''rtc''" "dir_name fish_image 1 = bytes_of ''frame0.txt''"
    "dir_name fish_image 2 = bytes_of ''frame1.txt''" by (simp_all add: dir_name_def chars_cstr)
  show "names_end fish_image"
    unfolding names_end_def
  proof (intro allI impI)
    fix i assume "i < unat (num_dir fish_image)"
    then have "i < 3" by (simp add: n)
    then consider "i = 0" | "i = 1" | "i = 2" by linarith
    then show "\<exists>ds. cstr (directory_name fish_image (of_nat i)) ds" using c by cases auto
  qed
qed

lemma fish_image_entries:
  "load32 fish_image (directory_offset 0 + 32) = 0" "load32 fish_image (directory_offset 1 + 32) = 2" "load32 fish_image (directory_offset 1 + 36) = 0"
  "load32 fish_image (directory_offset 2 + 32) = 2" "load32 fish_image (directory_offset 2 + 36) = 1" "num_inodes fish_image = 2"
  by (simp_all add: load32_def directory_offset_def fish_image_def num_inodes_def)

lemma fish_image_bytes: "file_bytes fish_image 0 = [65]" "file_bytes fish_image 1 = [66]"
proof -
  have l: "inode_length fish_image 0 = 1" "inode_length fish_image 1 = 1"
    by (simp_all add: inode_length_def inode_offset_def load32_def fish_image_def DATA_BLOCK_SIZE_def)
  show "file_bytes fish_image 0 = [65]" "file_bytes fish_image 1 = [66]"
    by (simp_all add: file_bytes_eq l data_byte_def data_block_num_def inode_offset_def load32_def DATA_BLOCK_SIZE_def Let_def fish_image_entries)
      (simp_all add: fish_image_def)
qed

lemma fish_kernel_sel:
  "boot_block fish_kernel = fish_image" "proc fish_kernel = blank_pcb" "user_mem fish_kernel = program_mem fish_texts" "user_ok fish_kernel"
  "kernel_fdt fish_kernel = Map.empty" "kernel_pointer 0x08060000 fish_kernel"
proof -
  show s: "boot_block fish_kernel = fish_image" "proc fish_kernel = blank_pcb"
    by (simp_all add: fish_kernel_def tiny_kernel_def proc_def curr_pcb_def trap_entry_def set_user_mem_def)
  show "user_mem fish_kernel = program_mem fish_texts" by (simp add: fish_kernel_def)
  show "user_ok fish_kernel" by (simp add: user_ok_def s fds_ok_def fish_image_names NUM_DIR_def)
  show "kernel_fdt fish_kernel = Map.empty"
  proof (rule ext)
    fix fd
    show "kernel_fdt fish_kernel fd = None" using fd_good [of fd] by (cases "unat fd < 2") (auto simp: kernel_fdt_def s)
  qed
  have "paging_reach 0x407000 0x408000 (Some 0) False (pg fish_kernel)"
    unfolding fish_kernel_def tiny_kernel_def set_user_mem_def
    using paging_reach.create [OF paging_reach.boot, of 0 "0x407000" "0x408000"] by simp
  then show "kernel_pointer 0x08060000 fish_kernel"
    by (auto simp: kernel_pointer_def fish_kernel_def tiny_kernel_def set_user_mem_def aligned4k_def)
qed

lemma fish_kernel_disk:
  "kernel_disk fish_kernel (bytes_of ''rtc'') = Some Clock" "kernel_disk fish_kernel (bytes_of ''frame0.txt'') = Some (Bytes [65])"
  "kernel_disk fish_kernel (bytes_of ''frame1.txt'') = Some (Bytes [66])"
proof -
  have "[0..<3] = [0, 1, 2 :: nat]" by (simp add: upt_rec)
  then show "kernel_disk fish_kernel (bytes_of ''rtc'') = Some Clock" "kernel_disk fish_kernel (bytes_of ''frame0.txt'') = Some (Bytes [65])"
    "kernel_disk fish_kernel (bytes_of ''frame1.txt'') = Some (Bytes [66])"
    by (simp_all add: kernel_disk_def fish_kernel_sel fish_image_names fish_image_names(3) [unfolded One_nat_def] fish_image_entries fish_image_bytes Let_def)
qed

lemma fish_names:
  "name_ok fish_addrs (program_mem fish_texts) 0x08048000 (bytes_of ''rtc'')" "name_ok fish_addrs (program_mem fish_texts) 0x08049000 (bytes_of ''frame0.txt'')"
  "name_ok fish_addrs (program_mem fish_texts) 0x0804A000 (bytes_of ''frame1.txt'')"
proof -
  have "cstr (view (program_mem fish_texts) (program_lits fish_texts t)) (bytes_of t)" if "t \<in> set fish_texts" for t
    using program_literal [OF that] that by (auto simp: fish_texts_def literal_def)
  from this [of "''rtc''"] this [of "''frame0.txt''"] this [of "''frame1.txt''"]
  have "cstr (view (program_mem fish_texts) 0x08048000) (bytes_of ''rtc'')" "cstr (view (program_mem fish_texts) 0x08049000) (bytes_of ''frame0.txt'')"
    "cstr (view (program_mem fish_texts) 0x0804A000) (bytes_of ''frame1.txt'')" by (simp_all add: fish_texts_def program_lits_def)
  then show "name_ok fish_addrs (program_mem fish_texts) 0x08048000 (bytes_of ''rtc'')" "name_ok fish_addrs (program_mem fish_texts) 0x08049000 (bytes_of ''frame0.txt'')"
    "name_ok fish_addrs (program_mem fish_texts) 0x0804A000 (bytes_of ''frame1.txt'')"
    by (simp_all add: name_ok_def fish_addrs_def far_def)
qed

theorem fish_animates_witness:
  "\<exists>k' b'. fish_main (kernel_os clock_env (\<lambda>_ _ _. None)) kernel_vid fish_addrs no_blink no_blink (fish_kernel, fish_start (\<lambda>_. 0)) = Some ((k', b'), 0)
     \<and> shown k' = snd (displayed (fish_script no_blink no_blink [65] [66]) ([], shown fish_kernel))"
proof -
  have t: "ticking clock_env" by (rule clock_env_ticks)
  have v: "vars_ok fish_addrs" by (simp add: vars_ok_def fish_addrs_def far_def)
  have a: "vmem_base_addr fish_addrs = 0x08060000" "rtc_name fish_addrs = 0x08048000" "file0 fish_addrs = 0x08049000" "file1 fish_addrs = 0x0804A000"
    by (simp_all add: fish_addrs_def)
  have "rows [65] = [[65]]" "rows [66] = [[66]]" by (simp_all add: rows.simps)
  then have "\<forall>b \<in> set (frame_blinks no_blink 0 (rows [65]) (rows [66])). location b \<noteq> 0"
    by (simp add: frame_blinks.simps head_row_def mark_def frame_blink_def)
  moreover have "mp1_list_head (fish_start (\<lambda>_. 0)) = None" by (simp add: fish_start_def)
  ultimately show ?thesis
    using fish_animates [OF fish_kernel_sel(4) t, of fish_addrs, unfolded a fish_kernel_sel(3),
      OF fish_kernel_sel(6) v fish_kernel_sel(5) _ fish_names fish_kernel_disk, of "fish_start (\<lambda>_. 0)" no_blink "\<lambda>_ _ _. None" no_blink]
    by blast
qed

end
