(* ===== verification/Tests.thy ===== *)
theory Tests
  imports Boot UserInput
begin

text \<open>
  The kernel's own tests, \<^verbatim>\<open>student-distrib/tests.c\<close>, over the tables, the image and the devices that they look at:
  the descriptor table, the page directory, the clock, the directory, a file and the terminal. The
  lemmas show what each test prints and that the kernel's modelled parts pass it. \<open>m\<close> is the memory that the
  tests' strings lie in, at the addresses \<open>lits\<close>.
\<close>

section \<open>Model\<close>

definition PASS :: i32 where "PASS = 1"
definition FAIL :: i32 where "FAIL = 0"

text \<open>
  A test returns its result or leaves through an exception: \<open>assertion_failure\<close> is the instruction \<^verbatim>\<open>int $15\<close>,
  and no exception handler of the kernel returns to the code that raised it, so the assignments of \<^verbatim>\<open>FAIL\<close>
  after it are never reached.
\<close>

datatype 's test_end = Finished 's i32 | Raised nat 's

definition assertion_failure :: "'s \<Rightarrow> 's test_end" where
  "assertion_failure s = Raised 15 s"

definition TEST_HEADER :: "boot_env \<Rightarrow> mem \<Rightarrow> (string \<Rightarrow> addr) \<Rightarrow> string \<Rightarrow> u32 \<Rightarrow> screen \<Rightarrow> screen option" where
  "TEST_HEADER e m lits name line_no s =
     print e m (''[TEST %s] Running %s at %s:%d'' @ nl) [lits name, lits name, lits ''tests.c'', line_no] s"

definition TEST_OUTPUT :: "boot_env \<Rightarrow> mem \<Rightarrow> (string \<Rightarrow> addr) \<Rightarrow> string \<Rightarrow> i32 \<Rightarrow> screen \<Rightarrow> screen option" where
  "TEST_OUTPUT e m lits name result s =
     print e m (''[TEST %s] Result = %s'' @ nl) [lits name, if result \<noteq> 0 then lits ''PASS'' else lits ''FAIL''] s"

primrec idt_loop :: "idt \<Rightarrow> nat list \<Rightarrow> screen \<Rightarrow> screen test_end" where
  "idt_loop t [] s = Finished s PASS"
| "idt_loop t (i # is) s =
     (if offset_15_00 (t i) = 0 \<and> offset_31_16 (t i) = 0 then assertion_failure s else idt_loop t is s)"

definition idt_test :: "boot_env \<Rightarrow> mem \<Rightarrow> (string \<Rightarrow> addr) \<Rightarrow> idt \<Rightarrow> screen \<Rightarrow> screen test_end option" where
  "idt_test e m lits t s = do { s \<leftarrow> TEST_HEADER e m lits ''idt_test'' 47 s; Some (idt_loop t [0..<10] s) }"

text \<open>The local \<open>a\<close> is read back through the pointer \<open>b\<close> to it.\<close>

definition paging_test :: "boot_env \<Rightarrow> mem \<Rightarrow> (string \<Rightarrow> addr) \<Rightarrow> addr \<Rightarrow> paging \<Rightarrow> screen \<Rightarrow> screen test_end option" where
  "paging_test e m lits b p s =
     do {
       s \<leftarrow> TEST_HEADER e m lits ''paging_test'' 72 s;
       let a = 3;
       Some (if load32 (store32 m b a) b \<noteq> a then assertion_failure s
             else if page_dir p 0 AND 1 \<noteq> 1 then assertion_failure s
             else if page_dir p 1 AND 1 \<noteq> 1 then assertion_failure s
             else Finished s PASS)
     }"

text \<open>The loops of \<open>rtc_test\<close>: twenty reads for each rate. The variable \<open>i\<close> lies at \<open>p\<close>.\<close>

primrec rtc_ones :: "nat \<Rightarrow> boot_env \<Rightarrow> mem \<Rightarrow> kernel \<Rightarrow> kernel option" where
  "rtc_ones 0 e m k = Some k"
| "rtc_ones (Suc n) e m k =
     do {
       s \<leftarrow> print e m ''1 '' [] (scr k);
       (k, _) \<leftarrow> rtc_read (waits (b_env e)) 0 (k\<lparr>scr := s\<rparr>);
       rtc_ones n e m k
     }"

partial_function (option) rtc_rates :: "boot_env \<Rightarrow> mem \<Rightarrow> addr \<Rightarrow> int \<Rightarrow> kernel \<Rightarrow> kernel option" where
  "rtc_rates e m p i k =
     (if i < 1025
      then do {
        (k, _) \<leftarrow> rtc_write (cmos_in (b_env e)) (uninit_rate (b_env e)) 0 (store32 m p (of_int i)) p 4 k;
        k \<leftarrow> rtc_ones 20 e m k;
        rtc_rates e m p (i * 2) (on_scr clear k)
      }
      else Some k)"

text \<open>\<open>freq\<close> is the byte that \<^verbatim>\<open>inb(0x71)\<close> returns.\<close>

definition rtc_test :: "boot_env \<Rightarrow> mem \<Rightarrow> addr \<Rightarrow> u8 \<Rightarrow> kernel \<Rightarrow> kernel option" where
  "rtc_test e m p freq k =
     do {
       let k = outb 0x8A 0x70 (fst (rtc_open (cmos_in (b_env e)) (on_scr clear k)));
       s \<leftarrow> (if freq AND 0x0F \<noteq> 0x0F then print e m ''RTC OPEN FAIL '' [] (scr k) else print e m ''RTC OPEN PASS '' [] (scr k));
       k \<leftarrow> rtc_rates e m p 2 (k\<lparr>scr := s\<rparr>);
       s \<leftarrow> print e m ''RTC READ/WRITE PASS'' [] (scr k);
       Some (k\<lparr>scr := s\<rparr>)
     }"

text \<open>What the two directory tests print of an entry; only the spaces before the size differ.\<close>

definition put_dentry :: "boot_env \<Rightarrow> mem \<Rightarrow> str \<Rightarrow> string \<Rightarrow> dentry \<Rightarrow> screen \<Rightarrow> screen option" where
  "put_dentry e m img size_fmt d s =
     do {
       s \<leftarrow> print e m ''  Name: '' [] s;
       let s = putc 9 (fold (\<lambda>j. putc (file_name d (of_nat j))) [0..<unat FILE_NAME_SIZE] s);
       s \<leftarrow> print e m ''Type:  %d    '' [file_type d] s;
       s \<leftarrow> print e m size_fmt [inode_length img (inode_num d)] s;
       Some (putc 10 s)
     }"

primrec index_loop :: "boot_env \<Rightarrow> mem \<Rightarrow> str \<Rightarrow> nat list \<Rightarrow> screen \<Rightarrow> screen test_end option" where
  "index_loop e m img [] s = Some (Finished s PASS)"
| "index_loop e m img (i # is) s =
     (case read_dentry_by_index img (of_nat i) (Some (uninit_dentry (b_env e))) of
        (r, d) \<Rightarrow>
          if r = -1 then Some (assertion_failure s)
          else Option.bind (put_dentry e m img ''File Size: %d'' (the d) s) (index_loop e m img is))"

definition read_dentry_by_index_test :: "boot_env \<Rightarrow> mem \<Rightarrow> (string \<Rightarrow> addr) \<Rightarrow> str \<Rightarrow> screen \<Rightarrow> screen test_end option" where
  "read_dentry_by_index_test e m lits img s =
     do {
       s \<leftarrow> TEST_HEADER e m lits ''read_dentry_by_index_test'' 158 s;
       index_loop e m img [0..<unat (num_dir img)] (putc 10 s)
     }"

primrec name_loop :: "boot_env \<Rightarrow> mem \<Rightarrow> str \<Rightarrow> nat list \<Rightarrow> screen \<Rightarrow> screen test_end option" where
  "name_loop e m img [] s = Some (Finished s PASS)"
| "name_loop e m img (i # is) s =
     (let name = (strncpy (uninit_buf (b_env e)) (directory_name img (of_nat i)) FILE_NAME_SIZE)(FILE_NAME_SIZE := 0) in
      do {
        (r, d) \<leftarrow> read_dentry_by_name img (Some name) (Some (uninit_dentry (b_env e)));
        if r = -1 then Some (assertion_failure s)
        else Option.bind (put_dentry e m img ''File Size:  %d'' (the d) s) (name_loop e m img is)
      })"

definition read_dentry_by_name_test :: "boot_env \<Rightarrow> mem \<Rightarrow> (string \<Rightarrow> addr) \<Rightarrow> str \<Rightarrow> screen \<Rightarrow> screen test_end option" where
  "read_dentry_by_name_test e m lits img s =
     do {
       s \<leftarrow> TEST_HEADER e m lits ''read_dentry_by_name_test'' 210 s;
       name_loop e m img [0..<unat (num_dir img)] (putc 10 s)
     }"

definition read_data_test :: "boot_env \<Rightarrow> mem \<Rightarrow> (string \<Rightarrow> addr) \<Rightarrow> str \<Rightarrow> screen \<Rightarrow> screen test_end option" where
  "read_data_test e m lits img s =
     do {
       s \<leftarrow> TEST_HEADER e m lits ''read_data_test'' 266 s;
       let fname = lits ''frame1.txt'';
       let s = putc 10 s;
       (r, d) \<leftarrow> read_dentry_by_name img (Some (view m fname)) (Some (uninit_dentry (b_env e)));
       if r = -1 then Some (assertion_failure s)
       else let (bytes_read, buf) = read_data img (inode_num (the d)) 0 (uninit_buf (b_env e)) 1000 in
         if bytes_read = -1 then Some (assertion_failure s)
         else do {
           let s = putc 10 (fold (\<lambda>i. putc (buf (of_nat i))) [0..<nat (sint bytes_read)] s);
           s \<leftarrow> print e m ''File name: %s'' [fname] s;
           Some (Finished (putc 10 s) PASS)
         }
     }"

text \<open>\<open>buf\<close> is an array on the stack, in the memory \<open>m\<close>.\<close>

definition terminal_test :: "env \<Rightarrow> mem \<Rightarrow> addr \<Rightarrow> kernel \<Rightarrow> kernel test_end option" where
  "terminal_test e m buf k =
     do {
       (_, s) \<leftarrow> puts (lit (''Hi, what'' @ [CHR 0x27] @ ''s your name? '')) (scr k);
       (k, m, cnt) \<leftarrow> terminal_read (waits e) 0 (\<lambda>_. m) buf 127 (k\<lparr>scr := s\<rparr>);
       if cnt = -1 then do { (_, s) \<leftarrow> puts (lit (''Can'' @ [CHR 0x27] @ ''t read from keyboard.'' @ nl)) (scr k); Some (Finished (k\<lparr>scr := s\<rparr>) FAIL) }
       else do {
         (_, s) \<leftarrow> puts (lit (nl @ '' you put:'' @ [CHR 0x09])) (scr k);
         (_, s) \<leftarrow> puts (view m buf) s;
         (_, s) \<leftarrow> puts (lit nl) s;
         Some (Finished (k\<lparr>scr := s\<rparr>) PASS)
       }
     }"

definition divide_by_zero_test :: "'s \<Rightarrow> 's test_end" where
  "divide_by_zero_test s = (let a = 2 :: i32; b = 0 :: i32 in if b = 0 then Raised 0 s else Finished s (of_int (sint a sdiv sint b)))"

definition page_fault_test :: "mem \<Rightarrow> addr \<Rightarrow> paging \<Rightarrow> 's \<Rightarrow> 's test_end" where
  "page_fault_test m pt p s = (case translate pt p False 0 of None \<Rightarrow> Raised 14 s | Some a \<Rightarrow> Finished s (load32 m a))"

definition launch_tests :: "boot_env \<Rightarrow> mem \<Rightarrow> (string \<Rightarrow> addr) \<Rightarrow> str \<Rightarrow> screen \<Rightarrow> screen test_end option" where
  "launch_tests e m lits img s =
     do {
       r \<leftarrow> read_dentry_by_name_test e m lits img s;
       (case r of
          Finished s result \<Rightarrow> map_option (\<lambda>s. Finished s 0) (TEST_OUTPUT e m lits ''read_dentry_by_name_test'' result s)
        | Raised v s \<Rightarrow> Some (Raised v s))
     }"

section \<open>What the tests print\<close>

text \<open>The strings that a test prints lie in memory.\<close>

definition strings_at :: "(string \<Rightarrow> addr) \<Rightarrow> mem \<Rightarrow> string list \<Rightarrow> bool" where
  "strings_at lits m texts \<longleftrightarrow> (\<forall>t \<in> set texts. cstr (view m (lits t)) (bytes_of t) \<and> length t < 4096)"

definition decimal :: "u32 \<Rightarrow> u8 list" where
  "decimal w = render (\<lambda>_. 0) w Signed"

definition header_text :: "string \<Rightarrow> nat \<Rightarrow> u8 list" where
  "header_text name n = bytes_of (''[TEST '' @ name @ ''] Running '' @ name @ '' at tests.c:'') @ numeral_of 10 n @ [10]"

lemma string_text: "strings_at lits m texts \<Longrightarrow> t \<in> set texts \<Longrightarrow> chars (view m (lits t)) 0 4294967295 = bytes_of t \<and> (\<exists>cs. cstr (view m (lits t)) cs)"
  by (auto simp: strings_at_def intro!: chars_cstr)

lemma print_plain: "prints fmt \<Longrightarrow> print e m fmt ws s = Some (fold putc (formatted m (arg_words ws) 0 (items_of (bytes_of fmt))) s)"
  unfolding prints_def by (intro print_eq) (auto simp: format_ok_plain)

lemma TEST_HEADER_eq:
  assumes "strings_at lits m [name, ''tests.c'']" "n < 2147483648"
  shows "TEST_HEADER e m lits name (of_nat n) s = Some (fold putc (header_text name n) s)"
proof -
  let ?f = "''[TEST %s] Running %s at %s:%d'' @ nl" and ?ws = "[lits name, lits name, lits ''tests.c'', of_nat n]"
  note t = string_text [OF assms(1), of name] string_text [OF assms(1), of "''tests.c''"]
  have "0 \<le> sint (of_nat n :: u32)" "unat (of_nat n :: u32) = n" using assms(2) by (simp_all add: sint_of_nat32)
  then have out: "formatted m (arg_words ?ws) 0 (items_of (bytes_of ?f)) = header_text name n"
    using t by (simp add: arg_words_def header_text_def)
  have "print e m ?f ?ws s = Some (fold putc (formatted m (arg_words ?ws) 0 (items_of (bytes_of ?f))) s)"
    by (rule print_eq) (use t in \<open>simp_all add: arg_words_def\<close>)
  then show ?thesis unfolding TEST_HEADER_def out .
qed

lemma TEST_OUTPUT_eq:
  assumes "strings_at lits m [name, ''PASS'']" "r \<noteq> 0"
  shows "TEST_OUTPUT e m lits name r s = Some (fold putc (bytes_of (''[TEST '' @ name @ ''] Result = PASS'' @ nl)) s)"
proof -
  let ?f = "''[TEST %s] Result = %s'' @ nl" and ?ws = "[lits name, lits ''PASS'']"
  note t = string_text [OF assms(1), of name] string_text [OF assms(1), of "''PASS''"]
  have out: "formatted m (arg_words ?ws) 0 (items_of (bytes_of ?f)) = bytes_of (''[TEST '' @ name @ ''] Result = PASS'' @ nl)"
    using t by (simp add: arg_words_def)
  have "print e m ?f ?ws s = Some (fold putc (formatted m (arg_words ?ws) 0 (items_of (bytes_of ?f))) s)"
    by (rule print_eq) (use t in \<open>simp_all add: arg_words_def\<close>)
  then show ?thesis unfolding TEST_OUTPUT_def out using assms(2) by simp
qed

text \<open>An entry: the name in 32 characters, padded with NULs, the type and the size.\<close>

definition entry_text :: "str \<Rightarrow> string \<Rightarrow> nat \<Rightarrow> u8 list" where
  "entry_text img size_label i =
     bytes_of ''  Name: '' @ take 32 (dir_name img i @ replicate 32 0) @ [9]
     @ bytes_of ''Type:  '' @ decimal (load32 img (directory_offset (of_nat i) + 32)) @ bytes_of ''    ''
     @ bytes_of size_label @ decimal (inode_length img (load32 img (directory_offset (of_nat i) + 36))) @ [10]"

lemma length_dir_name: "length (dir_name img i) \<le> 32"
  using length_chars [of "directory_name img (of_nat i)" 0 32] by (simp add: dir_name_def)

lemma strncpy_name:
  "j < 32 \<Longrightarrow> strncpy d (directory_name img (of_nat i)) FILE_NAME_SIZE (of_nat j) = (dir_name img i @ replicate 32 0) ! j"
  using nth_chars [of j "directory_name img (of_nat i)" 0 32] length_dir_name [of img i]
  by (auto simp: strncpy_eq FILE_NAME_SIZE_def fill_of_nat dir_name_def nth_append)

lemma put_dentry_eq:
  assumes "size_fmt = size_label @ ''%d''" "size_label \<in> {''File Size: '', ''File Size:  ''}"
    "read_dentry_by_index img (of_nat i) (Some d0) = (0, Some d)"
  shows "put_dentry e m img size_fmt d s = Some (fold putc (entry_text img size_label i) s)"
proof -
  have f: "prints ''  Name: ''" "prints ''Type:  %d    ''" "prints size_fmt" using assms(1,2) by (auto simp: prints_def)
  have d: "d = d0\<lparr>file_name := strncpy (file_name d0) (directory_name img (of_nat i)) FILE_NAME_SIZE,
      file_type := load32 img (directory_offset (of_nat i) + 32), inode_num := load32 img (directory_offset (of_nat i) + 36)\<rparr>"
    using assms(3) by (auto simp: read_dentry_by_index_def split: if_splits)
  have cells: "map (\<lambda>j. file_name d (of_nat j)) [0..<32] = take 32 (dir_name img i @ replicate 32 0)"
    using strncpy_name [of _ "file_name d0" img i] by (intro nth_equalityI) (auto simp: d simp del: take_append)
  have name: "fold (\<lambda>j. putc (file_name d (of_nat j))) [0..<unat FILE_NAME_SIZE] s = fold putc (take 32 (dir_name img i @ replicate 32 0)) s" for s
    unfolding cells [symmetric] by (simp only: fold_map comp_def FILE_NAME_SIZE_def) simp
  have size: "formatted m (arg_words [w]) 0 (items_of (bytes_of size_fmt)) = bytes_of size_label @ decimal w" for w
    using assms(1,2) by (auto simp: arg_words_def decimal_def)
  have type: "formatted m (arg_words [w]) 0 (items_of (bytes_of ''Type:  %d    '')) = bytes_of ''Type:  '' @ decimal w @ bytes_of ''    ''"
    "formatted m (arg_words []) 0 (items_of (bytes_of ''  Name: '')) = bytes_of ''  Name: ''" for w
    by (simp_all add: arg_words_def decimal_def)
  show ?thesis
    unfolding put_dentry_def print_plain [OF f(1)] print_plain [OF f(2)] print_plain [OF f(3)] name size type bind.bind_lunit Let_def entry_text_def
    by (simp add: d del: take_append)
qed

lemma read_index_ok:
  "i < 64 \<Longrightarrow> \<exists>d. read_dentry_by_index img (of_nat i) (Some d0) = (0, Some d)"
  by (simp add: read_dentry_by_index_def NUM_DIR_def word_less_nat_alt)

text \<open>The test by index stops at entry 64, which \<open>read_dentry_by_index\<close> refuses.\<close>

lemma index_loop_eq:
  "\<forall>i \<in> set is. i < 64 \<Longrightarrow> index_loop e m img (is @ js) s = index_loop e m img js (fold putc (concat (map (entry_text img ''File Size: '') is)) s)"
proof (induction "is" arbitrary: s)
  case (Cons i "is")
  obtain d where d: "read_dentry_by_index img (of_nat i) (Some (uninit_dentry (b_env e))) = (0, Some d)"
    using read_index_ok [of i img] Cons.prems by auto
  from put_dentry_eq [OF _ _ d, of "''File Size: %d''" "''File Size: ''" e m s] Cons show ?case by (simp add: d)
qed simp

text \<open>The entry that a search for the name of entry \<open>i\<close> finds.\<close>

definition first_named :: "str \<Rightarrow> nat \<Rightarrow> nat" where
  "first_named img i = the (find (\<lambda>j. dir_name img j = dir_name img i) [0..<unat (num_dir img)])"

lemma first_named_found:
  assumes "i < unat (num_dir img)"
  shows "find (\<lambda>j. dir_name img j = dir_name img i) [0..<unat (num_dir img)] = Some (first_named img i)"
    "first_named img i \<le> i" "dir_name img (first_named img i) = dir_name img i"
proof -
  have "find (\<lambda>j. dir_name img j = dir_name img i) [0..<unat (num_dir img)] \<noteq> None" using assms by (auto simp: find_None_iff)
  then show f: "find (\<lambda>j. dir_name img j = dir_name img i) [0..<unat (num_dir img)] = Some (first_named img i)" by (auto simp: first_named_def)
  then have "dir_name img (first_named img i) = dir_name img i \<and> (\<forall>j < first_named img i. dir_name img j \<noteq> dir_name img i)"
    by (auto simp: find_Some_iff)
  then show "dir_name img (first_named img i) = dir_name img i" "first_named img i \<le> i" by (auto simp: not_less [symmetric])
qed

lemma copied_name: "cstr ((strncpy b (directory_name img (of_nat i)) FILE_NAME_SIZE)(FILE_NAME_SIZE := 0)) (dir_name img i)"
proof -
  let ?b = "(strncpy b (directory_name img (of_nat i)) FILE_NAME_SIZE)(FILE_NAME_SIZE := 0)"
  have at: "?b (of_nat j) = (dir_name img i @ replicate 32 0) ! j" if "j < 32" for j
    using that strncpy_name [OF that] by (auto simp: FILE_NAME_SIZE_def word_unat_eq_iff)
  show ?thesis
  proof (rule cstrI)
    show "?b (of_nat j) = dir_name img i ! j" if "j < length (dir_name img i)" for j
      using at [of j] that length_dir_name [of img i] by (simp add: nth_append)
    show "?b (of_nat (length (dir_name img i))) = 0"
    proof (cases "length (dir_name img i) = 32")
      case False
      then show ?thesis using at [of "length (dir_name img i)"] length_dir_name [of img i] by (simp add: nth_append)
    qed (simp add: FILE_NAME_SIZE_def)
    show "0 \<notin> set (dir_name img i)" by (simp add: dir_name_def chars_no_NUL)
    show "length (dir_name img i) < 4294967296" using length_dir_name [of img i] by simp
  qed
qed

lemma name_loop_eq:
  assumes "names_end img" "num_dir img \<le> 64"
  shows "\<forall>i \<in> set is. i < unat (num_dir img) \<Longrightarrow>
    name_loop e m img is s = Some (Finished (fold putc (concat (map (\<lambda>i. entry_text img ''File Size:  '' (first_named img i)) is)) s) PASS)"
proof (induction "is" arbitrary: s)
  case (Cons i "is")
  then have i: "i < unat (num_dir img)" by simp
  have "first_named img i < 64" using first_named_found(2) [OF i] i assms(2) by (simp add: word_le_nat_alt)
  then obtain d where d: "read_dentry_by_index img (of_nat (first_named img i)) (Some (uninit_dentry (b_env e))) = (0, Some d)"
    using read_index_ok by blast
  have "read_dentry_by_name img (Some ((strncpy (uninit_buf (b_env e)) (directory_name img (of_nat i)) FILE_NAME_SIZE)(FILE_NAME_SIZE := 0)))
      (Some (uninit_dentry (b_env e))) = Some (0, Some d)"
    using read_dentry_by_name_eq [OF copied_name assms(1), where i1 = i and d = "uninit_dentry (b_env e)" and b1 = "uninit_buf (b_env e)"] length_dir_name [of img i]
    by (simp add: first_named_found(1) [OF i] d)
  then show ?case using put_dentry_eq [OF _ _ d, of "''File Size:  %d''" "''File Size:  ''" e m s] Cons by (simp add: Let_def)
qed simp

section \<open>The clock and the terminal\<close>

text \<open>While a test waits, the clock ticks, and no handler that runs then changes register A.\<close>

definition clock_ticks :: "env \<Rightarrow> (u8 \<Rightarrow> u8) \<Rightarrow> bool" where
  "clock_ticks e r \<longleftrightarrow> rtc_interrupt_handler \<in> set (waits e)
     \<and> (\<forall>f \<in> set (waits e). \<forall>k. cmos_regs r (dev_log (f k)) 0x0A = cmos_regs r (dev_log k) 0x0A)"

lemma rtc_ones_end:
  assumes "clock_ticks (b_env e) r"
  shows "\<exists>k'. rtc_ones n e m k = Some k' \<and> cmos_regs r (dev_log k') 0x0A = cmos_regs r (dev_log k) 0x0A"
proof (induction n arbitrary: k)
  case (Suc n)
  have "prints ''1 ''" by (simp add: prints_def)
  then obtain s where s: "print e m ''1 '' [] (scr k) = Some s" using print_prints by blast
  let ?k = "(on_pic (disable_irq 1) (k\<lparr>scr := s\<rparr>))\<lparr>flag := 0\<rparr>"
  have "flag (rtc_interrupt_handler h) \<noteq> 0" for h :: kernel by (simp add: rtc_interrupt_handler_def)
  moreover have "rtc_interrupt_handler \<in> set (waits (b_env e))" using assms by (simp add: clock_ticks_def)
  ultimately obtain k1 where k1: "spin (\<lambda>h. flag h \<noteq> 0) (waits (b_env e)) ?k = Some k1"
    using spin_ends [of "\<lambda>h. flag h \<noteq> 0" rtc_interrupt_handler] by blast
  have "cmos_regs r (dev_log k1) 0x0A = cmos_regs r (dev_log ?k) 0x0A"
    by (rule spin_keeps [OF k1]) (use assms in \<open>simp add: clock_ticks_def\<close>)
  then show ?case using Suc [of "on_pic (enable_irq 1) k1"] s k1 by (simp add: rtc_read_def on_pic_def)
qed simp

lemma rtc_rates_step:
  assumes "clock_ticks (b_env e) r" "1 \<le> j" "j \<le> 10"
  shows "\<exists>k'. rtc_rates e m p (2 ^ j) k = rtc_rates e m p (2 ^ Suc j) (on_scr clear k') \<and> rtc_frequency (cmos_regs r (dev_log k') 0x0A) = 2 ^ j"
proof -
  let ?k1 = "set_rate (cmos_in (b_env e)) (ucast (word_of_int (16 - int j) :: u32)) k"
  have "load32 (store32 m p (of_int (2 ^ j))) p = 2 ^ j" by (simp add: load_store32)
  note w = rtc_write_pow [OF assms(3) this, of "cmos_in (b_env e)" "uninit_rate (b_env e)" 0 k]
  obtain k2 where k2: "rtc_ones 20 e m ?k1 = Some k2" "cmos_regs r (dev_log k2) 0x0A = cmos_regs r (dev_log ?k1) 0x0A"
    using rtc_ones_end [OF assms(1)] by blast
  have "rtc_rates e m p (2 ^ j) k = rtc_rates e m p (2 ^ Suc j) (on_scr clear k2)"
    using w k2(1) accepted_pow(3) [OF assms(3)] by (subst rtc_rates.simps) (simp add: mult.commute)
  moreover have "rtc_frequency (cmos_regs r (dev_log k2) 0x0A) = 2 ^ j"
    using k2(2) rate_frequency [OF assms(2,3), of "cmos_in (b_env e)"] by (simp add: set_rate_regs)
  ultimately show ?thesis by blast
qed

lemma rtc_rates_end:
  assumes "clock_ticks (b_env e) r"
  shows "1 \<le> j \<Longrightarrow> j \<le> 10 \<Longrightarrow> \<exists>k' s. rtc_rates e m p (2 ^ j) k = Some k' \<and> rtc_frequency (cmos_regs r (dev_log k') 0x0A) = 1024 \<and> scr k' = clear s"
proof (induction "10 - j" arbitrary: j k)
  case (0 j)
  then have j: "j = 10" by simp
  obtain k1 where k1: "rtc_rates e m p (2 ^ j) k = rtc_rates e m p (2 ^ Suc j) (on_scr clear k1)" "rtc_frequency (cmos_regs r (dev_log k1) 0x0A) = 2 ^ j"
    using rtc_rates_step [OF assms 0(2,3)] by blast
  have "rtc_rates e m p (2 ^ Suc j) (on_scr clear k1) = Some (on_scr clear k1)" by (subst rtc_rates.simps) (simp add: j)
  then show ?case using k1 by (simp add: j on_scr_def) blast
next
  case (Suc n j)
  then have "n = 10 - Suc j" "1 \<le> Suc j" "Suc j \<le> 10" by auto
  then show ?case using Suc.hyps(1) rtc_rates_step [OF assms Suc.prems] by metis
qed

lemma terminal_read_test:
  assumes "types_line e cs k" "cs \<noteq> []" "length cs \<le> 127"
  shows "\<exists>k' m'. terminal_read (waits e) 0 (\<lambda>_. m) buf 127 k = Some (k', m', of_nat (length cs)) \<and> scr k' = fold putc (cs @ [10]) (scr k)
     \<and> (0 \<notin> set cs \<longrightarrow> cstr (view m' buf) cs)"
proof -
  let ?t = "unat (active_tty k)"
  define s where "s = fold press (cs @ [10]) k"
  have t: "8 \<notin> set cs" "10 \<notin> set cs" "waits e = map press (cs @ [10])" "enter_status k = 0" using assms(1) by (simp_all add: types_line_def)
  have sp: "spin (\<lambda>s. enter_status s \<noteq> 0) (waits e) k = Some s" unfolding t(3) s_def by (rule spin_press [OF t(4,2)])
  have l: "line ?t s = cs" "line_ok ?t s" unfolding s_def by (rule pressed_line [OF assms(1) refl])+
  have f: "scr s = fold putc (cs @ [10]) (scr k)" unfolding s_def by (rule fold_press_sel) (use t(1) in simp)
  have n: "length cs = min (nat (sint (127 :: i32))) (length (line ?t s))" using l(1) assms(3) by simp
  have "0 \<le> sint (127 :: i32)" "line ?t s \<noteq> []" using l(1) assms(2) by simp_all
  from terminal_read_taken [OF sp refl l(2) this n, of 0 "\<lambda>_. m" buf] obtain tb where
    r: "terminal_read (waits e) 0 (\<lambda>_. m) buf 127 k =
      Some (s\<lparr>enter_status := 0, terminal_buffer := tb, tail := (tail s)(?t := tail s ?t - int (length cs))\<rparr>,
        (\<lambda>a. if unat (a - buf) < length cs then cs ! unat (a - buf) else if unat (a - buf) = length cs then 0 else m a), of_nat (length cs))"
    unfolding l(1) by blast
  moreover have "cstr (view (\<lambda>a. if unat (a - buf) < length cs then cs ! unat (a - buf) else if unat (a - buf) = length cs then 0 else m a) buf) cs"
    if "0 \<notin> set cs"
    using that assms(3) by (intro cstrI) (auto simp: view_def)
  ultimately show ?thesis using f by simp
qed

section \<open>Properties\<close>

text \<open>The two halves of an entry point are 0 exactly when it is.\<close>

lemma gate_entry_0: "gate_entry d = 0 \<longleftrightarrow> offset_15_00 d = 0 \<and> offset_31_16 d = 0"
proof
  assume 0: "gate_entry d = 0"
  have entry: "bit (gate_entry d) n = (if n < 16 then bit (offset_15_00 d) n else bit (offset_31_16 d) (n - 16))" if "n < 32" for n
    using that by (auto simp: gate_entry_def bit_simps dest: bit_imp_le_length)
  have "\<not> bit (offset_15_00 d) n" "\<not> bit (offset_31_16 d) n" if "n < 16" for n
    using entry [of n] entry [of "n + 16"] that 0 by simp_all
  then show "offset_15_00 d = 0 \<and> offset_31_16 d = 0" by (intro conjI bit_word_eqI) simp_all
qed (simp add: gate_entry_def)

lemma idt_loop_eq: "idt_loop t is s = (if \<forall>i \<in> set is. gate_entry (t i) \<noteq> 0 then Finished s PASS else Raised 15 s)"
  by (induction "is") (auto simp: assertion_failure_def gate_entry_0)

lemma first_handlers:
  "(\<forall>i \<in> set [0..<10]. gate_entry (load_idt lnk t i) \<noteq> 0) \<longleftrightarrow> (\<forall>(i, h) \<in> set idt_handlers. i < 10 \<longrightarrow> lnk h \<noteq> 0)"
proof -
  have "\<exists>h. (i, h) \<in> set idt_handlers" if "i < 10" for i
  proof -
    have "i = 0 \<or> i = 1 \<or> i = 2 \<or> i = 3 \<or> i = 4 \<or> i = 5 \<or> i = 6 \<or> i = 7 \<or> i = 8 \<or> i = 9" using that by presburger
    then show ?thesis by (elim disjE) (auto simp: idt_handlers_def)
  qed
  note listed = this
  have entry: "gate_entry (load_idt lnk t i) = lnk h" if "(i, h) \<in> set idt_handlers" for i h using load_idt_entries [OF that] by simp
  show ?thesis
  proof (intro iffI ballI)
    fix i assume a: "\<forall>(i, h) \<in> set idt_handlers. i < 10 \<longrightarrow> lnk h \<noteq> 0" "i \<in> set [0..<10]"
    then obtain h where h: "(i, h) \<in> set idt_handlers" using listed by auto
    from bspec [OF a(1) h] a(2) show "gate_entry (load_idt lnk t i) \<noteq> 0" by (simp add: entry [OF h])
  next
    fix x assume a: "\<forall>i \<in> set [0..<10]. gate_entry (load_idt lnk t i) \<noteq> 0" "x \<in> set idt_handlers"
    obtain i h where x: "x = (i, h)" by fastforce
    have "lnk h \<noteq> 0" if "i < 10" using bspec [OF a(1), of i] that entry [OF a(2) [unfolded x]] by simp
    then show "case x of (i, h) \<Rightarrow> i < 10 \<longrightarrow> lnk h \<noteq> 0" by (simp add: x)
  qed
qed

text \<open>
  The tests of the tables: \<open>idt_test\<close> passes on the table that \<open>load_idt\<close> fills exactly when the first ten handlers are not
  linked at address 0; \<open>paging_test\<close> passes on every page directory that the kernel can reach, where
  \<open>page_fault_test\<close> raises the page fault.
\<close>

theorem table_tests:
  assumes "strings_at lits m [''idt_test'', ''paging_test'', ''tests.c'']" "paging_reach pt pd q v p" "aligned4k pt"
  shows "idt_test e m lits (load_idt lnk t) s =
      Some (if \<forall>(i, h) \<in> set idt_handlers. i < 10 \<longrightarrow> lnk h \<noteq> 0 then Finished (fold putc (header_text ''idt_test'' 47) s) PASS
            else Raised 15 (fold putc (header_text ''idt_test'' 47) s))
   \<and> paging_test e m lits b p s = Some (Finished (fold putc (header_text ''paging_test'' 72) s) PASS)
   \<and> page_fault_test m pt p s = Raised 14 s"
proof (intro conjI)
  have str: "strings_at lits m [''idt_test'', ''tests.c'']" "strings_at lits m [''paging_test'', ''tests.c'']"
    using assms(1) by (simp_all add: strings_at_def)
  show "idt_test e m lits (load_idt lnk t) s =
      Some (if \<forall>(i, h) \<in> set idt_handlers. i < 10 \<longrightarrow> lnk h \<noteq> 0 then Finished (fold putc (header_text ''idt_test'' 47) s) PASS
            else Raised 15 (fold putc (header_text ''idt_test'' 47) s))"
    using TEST_HEADER_eq [OF str(1), of 47 e s] unfolding idt_test_def idt_loop_eq first_handlers by simp
  have "bit (page_dir p 0) 0" "bit (page_dir p 1) 0"
    using paging_reach_inv [OF assms(2)] by (auto simp: paging_inv_def bit_or_iff)
  then have "page_dir p 0 AND 1 = 1" "page_dir p 1 AND 1 = 1" by (simp_all add: and_one_eq odd_iff_mod_2_eq_one bit_0)
  then show "paging_test e m lits b p s = Some (Finished (fold putc (header_text ''paging_test'' 72) s) PASS)"
    using TEST_HEADER_eq [OF str(2), of 72 e s] by (simp add: paging_test_def load_store32)
  show "page_fault_test m pt p s = Raised 14 s"
    by (simp add: page_fault_test_def translate_reach [OF assms(2,3)] address_map_def dir_index_def table_index_def)
qed

text \<open>
  The test by index prints the entries in order and passes for a directory of up to 64 entries; for more, the search for
  entry 64 is refused and the test ends in its assertion after printing the first 64.
\<close>

theorem index_test:
  assumes "strings_at lits m [''read_dentry_by_index_test'', ''tests.c'']" "n = unat (num_dir img)"
  shows "read_dentry_by_index_test e m lits img s =
    (let s' = fold putc (header_text ''read_dentry_by_index_test'' 158 @ [10] @ concat (map (entry_text img ''File Size: '') [0..<min n 64])) s
     in Some (if n \<le> 64 then Finished s' PASS else Raised 15 s'))"
proof -
  have 1: "read_dentry_by_index_test e m lits img s =
      index_loop e m img [0..<n] (fold putc (header_text ''read_dentry_by_index_test'' 158 @ [10]) s)"
    using TEST_HEADER_eq [OF assms(1), of 158 e s] by (simp add: read_dentry_by_index_test_def assms(2))
  have "[0..<n] = [0..<min n 64] @ [64..<n]" using upt_add_eq_append [of 0 64 "n - 64"] by (cases "n \<le> 64") (simp_all add: min_def)
  with 1 have 2: "read_dentry_by_index_test e m lits img s = index_loop e m img [64..<n]
      (fold putc (header_text ''read_dentry_by_index_test'' 158 @ [10] @ concat (map (entry_text img ''File Size: '') [0..<min n 64])) s)"
    using index_loop_eq [of "[0..<min n 64]" e m img "[64..<n]"] by simp
  show ?thesis
  proof (cases "n \<le> 64")
    case False
    then have "[64..<n] = 64 # [65..<n]" by (simp add: upt_conv_Cons)
    then show ?thesis
      using 2 False by (simp add: read_dentry_by_index_def NUM_DIR_def assertion_failure_def Let_def)
  qed (use 2 in \<open>simp add: Let_def\<close>)
qed

text \<open>
  C23: the test that \<open>launch_tests\<close> runs passes on every image of up to 64 entries, whatever their names: each name is copied out of
  the directory, cut or padded to 32 characters, found again and printed with the type and the size of
  the entry found, which is the first of that name; the last line reports \<^verbatim>\<open>PASS\<close>.
\<close>

theorem launch_tests_pass:
  assumes "names_end img" "num_dir img \<le> 64" "strings_at lits m [''read_dentry_by_name_test'', ''tests.c'', ''PASS'']"
  shows "launch_tests e m lits img s = Some (Finished (fold putc (header_text ''read_dentry_by_name_test'' 210 @ [10]
      @ concat (map (\<lambda>i. entry_text img ''File Size:  '' (first_named img i)) [0..<unat (num_dir img)])
      @ bytes_of (''[TEST read_dentry_by_name_test] Result = PASS'' @ nl)) s) 0)
   \<and> (\<forall>i < unat (num_dir img). first_named img i \<le> i \<and> dir_name img (first_named img i) = dir_name img i)"
proof
  have str: "strings_at lits m [''read_dentry_by_name_test'', ''tests.c'']" "strings_at lits m [''read_dentry_by_name_test'', ''PASS'']"
    using assms(3) by (simp_all add: strings_at_def)
  let ?s = "fold putc (concat (map (\<lambda>i. entry_text img ''File Size:  '' (first_named img i)) [0..<unat (num_dir img)]))
      (putc 10 (fold putc (header_text ''read_dentry_by_name_test'' 210) s))"
  have "read_dentry_by_name_test e m lits img s = Some (Finished ?s PASS)"
    using TEST_HEADER_eq [OF str(1), of 210 e s] name_loop_eq [OF assms(1,2), of "[0..<unat (num_dir img)]"]
    by (simp add: read_dentry_by_name_test_def)
  moreover have "TEST_OUTPUT e m lits ''read_dentry_by_name_test'' PASS ?s =
      Some (fold putc (bytes_of (''[TEST '' @ ''read_dentry_by_name_test'' @ ''] Result = PASS'' @ nl)) ?s)"
    by (rule TEST_OUTPUT_eq [OF str(2)]) (simp add: PASS_def)
  ultimately show "launch_tests e m lits img s = Some (Finished (fold putc (header_text ''read_dentry_by_name_test'' 210 @ [10]
      @ concat (map (\<lambda>i. entry_text img ''File Size:  '' (first_named img i)) [0..<unat (num_dir img)])
      @ bytes_of (''[TEST read_dentry_by_name_test] Result = PASS'' @ nl)) s) 0)"
    by (simp add: launch_tests_def)
qed (use first_named_found in blast)

theorem launch_tests_pass_witness:
  "let texts = [''read_dentry_by_name_test'', ''tests.c'', ''PASS''] in
   launch_tests tiny_boot (program_mem texts) (program_lits texts) tiny_image (scr blank_tty) =
     Some (Finished (fold putc (header_text ''read_dentry_by_name_test'' 210 @ [10] @ entry_text tiny_image ''File Size:  '' 0
        @ bytes_of (''[TEST read_dentry_by_name_test] Result = PASS'' @ nl)) (scr blank_tty)) 0)
   \<and> dir_name tiny_image 0 = [97]"
proof -
  let ?t = "[''read_dentry_by_name_test'', ''tests.c'', ''PASS'']"
  have "literal (program_lits ?t) 0x083FF000 (program_mem ?t) s" if "s \<in> set ?t" for s
    using that by (intro program_literal) auto
  then have "strings_at (program_lits ?t) (program_mem ?t) ?t" by (simp add: strings_at_def literal_def)
  moreover have "dir_name tiny_image 0 = [97]" unfolding dir_name_def using tiny_image_name by (simp add: chars_cstr)
  moreover have "first_named tiny_image 0 = 0" using first_named_found(2) [of 0 tiny_image] by (simp add: tiny_image_fields)
  ultimately show ?thesis
    using launch_tests_pass [OF tiny_image_names_end, of "program_lits ?t" "program_mem ?t" tiny_boot "scr blank_tty"]
    by (simp add: tiny_image_fields Let_def)
qed

text \<open>
  \<open>read_data_test\<close> prints the first 1000 bytes of the file \<^verbatim>\<open>frame1.txt\<close>, and ends in its assertion when the image has no such
  file.
\<close>

theorem data_test:
  assumes "names_end img" "num_dir img \<le> 64" "strings_at lits m [''read_data_test'', ''tests.c'', ''frame1.txt'']"
    "f = find (\<lambda>j. dir_name img j = bytes_of ''frame1.txt'') [0..<unat (num_dir img)]"
    "\<forall>j. f = Some j \<longrightarrow> inode j = load32 img (directory_offset (of_nat j) + 36) \<and> inode j \<le> num_inodes img"
  shows "read_data_test e m lits img s =
    (let s' = fold putc (header_text ''read_data_test'' 266 @ [10]) s in
     Some (case f of None \<Rightarrow> Raised 15 s'
       | Some j \<Rightarrow> Finished (fold putc (take 1000 (file_bytes img (inode j)) @ bytes_of (nl @ ''File name: frame1.txt'' @ nl)) s') PASS))"
proof -
  have str: "strings_at lits m [''read_data_test'', ''tests.c'']" "cstr (view m (lits ''frame1.txt'')) (bytes_of ''frame1.txt'')"
    using assms(3) by (simp_all add: strings_at_def)
  note hd = TEST_HEADER_eq [OF str(1), of 266 e s, simplified of_nat_numeral]
  note dn = read_dentry_by_name_eq [OF str(2) assms(1), of "uninit_dentry (b_env e)", folded assms(4)]
  show ?thesis
  proof (cases f)
    case None
    then show ?thesis using hd dn by (simp add: read_data_test_def assertion_failure_def Let_def)
  next
    case (Some j)
    then have "j < unat (num_dir img)" by (auto simp: assms(4) find_Some_iff)
    then have j: "j < 64" using assms(2) by (simp add: word_le_nat_alt)
    have ino: "inode j = load32 img (directory_offset (of_nat j) + 36)" "inode j \<le> num_inodes img" using assms(5) Some by auto
    from read_index_ok [OF j] obtain d where d: "read_dentry_by_index img (of_nat j) (Some (uninit_dentry (b_env e))) = (0, Some d)" by blast
    then have id: "inode_num d = inode j" by (auto simp: read_dentry_by_index_def ino split: if_splits)
    let ?n = "avail img (inode j) 0 1000"
    let ?buf = "fill (uninit_buf (b_env e)) (\<lambda>x. data_byte img (inode j) (0 + x)) 0 ?n"
    have n: "?n = min 1000 (unat (inode_length img (inode j)))" by (simp add: avail_def)
    have small: "nat (sint (of_nat ?n :: u32)) = ?n" "(of_nat ?n :: u32) \<noteq> -1"
      using small_count [of ?n] n by (auto simp: sint_of_nat32)
    have "map (\<lambda>i. ?buf (of_nat i)) [0..<?n] = take 1000 (file_bytes img (inode j))"
      using n by (intro nth_equalityI) (auto simp: fill_of_nat nth_file_bytes)
    then have bytes: "fold (\<lambda>i. putc (?buf (of_nat i))) [0..<?n] s = fold putc (take 1000 (file_bytes img (inode j))) s" for s
      using fold_map [of putc "\<lambda>i. ?buf (of_nat i)" "[0..<?n]"] by (simp add: comp_def)
    have nm: "print e m ''File name: %s'' [lits ''frame1.txt''] s = Some (fold putc (bytes_of ''File name: frame1.txt'') s)" for s
    proof -
      note t = string_text [OF assms(3), of "''frame1.txt''"]
      have "formatted m (arg_words [lits ''frame1.txt'']) 0 (items_of (bytes_of ''File name: %s'')) = bytes_of ''File name: frame1.txt''"
        using t by (simp add: arg_words_def)
      then show ?thesis
        using print_eq [of "''File name: %s''" "items_of (bytes_of ''File name: %s'')" m "[lits ''frame1.txt'']" e s] t by (simp add: arg_words_def)
    qed
    show ?thesis
      using hd dn Some small by (simp add: read_data_test_def Let_def d id read_data_eq [OF ino(2)] bytes [simplified] nm)
  qed
qed

text \<open>
  \<open>rtc_test\<close> ends, as long as the clock ticks while it waits: \<open>rtc_open\<close> leaves the clock at the lowest rate, so the byte read back passes the check,
  and after the reads at every rate the clock runs at 1024 Hz and the screen shows the last line alone.
\<close>

theorem clock_test:
  assumes "clock_ticks (b_env e) r" "freq = cmos_regs r (dev_log (fst (rtc_open (cmos_in (b_env e)) k))) 0x0A"
  shows "\<exists>k' s. rtc_test e m p freq k = Some k' \<and> scr k' = fold putc (bytes_of ''RTC READ/WRITE PASS'') (clear s)
     \<and> rtc_frequency (cmos_regs r (dev_log k') 0x0A) = 1024 \<and> freq AND 0x0F = 0x0F"
proof -
  have f: "prints ''RTC OPEN PASS ''" "prints ''RTC READ/WRITE PASS''" by (simp_all add: prints_def)
  have "freq AND 0x0F = (cmos_in (b_env e) AND 0xF0 OR 0x0F) AND 0x0F" by (simp add: assms(2) rtc_open_def set_rate_regs)
  also have "\<dots> = 0x0F" by (simp add: bit.conj_disj_distrib2 and.assoc)
  finally have low: "freq AND 0x0F = 0x0F" .
  let ?k = "outb 0x8A 0x70 (fst (rtc_open (cmos_in (b_env e)) (on_scr clear k)))"
  obtain s1 where s1: "print e m ''RTC OPEN PASS '' [] (scr ?k) = Some s1" using print_prints [OF f(1)] by blast
  obtain k2 s2 where k2: "rtc_rates e m p 2 (?k\<lparr>scr := s1\<rparr>) = Some k2" "rtc_frequency (cmos_regs r (dev_log k2) 0x0A) = 1024" "scr k2 = clear s2"
    using rtc_rates_end [OF assms(1), of 1 m p "?k\<lparr>scr := s1\<rparr>"] by auto
  have "print e m ''RTC READ/WRITE PASS'' [] (scr k2) = Some (fold putc (bytes_of ''RTC READ/WRITE PASS'') (scr k2))"
    unfolding print_plain [OF f(2)] by simp
  then have "rtc_test e m p freq k = Some (k2\<lparr>scr := fold putc (bytes_of ''RTC READ/WRITE PASS'') (clear s2)\<rparr>)"
    using low s1 k2 by (simp add: rtc_test_def Let_def)
  then show ?thesis using k2(2) low by auto
qed

text \<open>
  \<open>terminal_test\<close> echoes the line that is typed, passes and shows the line again; a line that is empty leaves the array as it was, so what it then
  shows is whatever the stack held.
\<close>

theorem keyboard_test:
  assumes "types_line e cs k" "cs \<noteq> []" "length cs \<le> 127" "0 \<notin> set cs"
  shows "\<exists>k'. terminal_test e m buf k = Some (Finished k' PASS)
     \<and> scr k' = fold putc (bytes_of (''Hi, what'' @ [CHR 0x27] @ ''s your name? '') @ cs @ [10] @ bytes_of (nl @ '' you put:'' @ [CHR 0x09]) @ cs @ [10]) (scr k)"
proof -
  have shown: "puts (lit t) s = Some (of_nat (length t), fold putc (bytes_of t) s)" if "CHR 0x00 \<notin> set t" "length t < 4294967296" for t s
    using puts_cstr [OF lit_cstr [OF that]] by simp
  let ?k = "k\<lparr>scr := fold putc (bytes_of (''Hi, what'' @ [CHR 0x27] @ ''s your name? '')) (scr k)\<rparr>"
  have "types_line e cs ?k" using assms(1) by (simp add: types_line_def line_def line_ok_def)
  from terminal_read_test [OF this assms(2,3), of m buf] assms(4) obtain k1 m1 where
    k1: "terminal_read (waits e) 0 (\<lambda>_. m) buf 127 ?k = Some (k1, m1, of_nat (length cs))" "scr k1 = fold putc (cs @ [10]) (scr ?k)"
      "cstr (view m1 buf) cs" by blast
  have cnt: "(of_nat (length cs) :: u32) \<noteq> -1" by (rule small_count) (use assms(3) in simp)
  show ?thesis
    using k1 cnt by (simp add: terminal_test_def shown puts_cstr [OF k1(3)])
qed

end
