(* ===== verification/Emulate.thy ===== *)
theory Emulate
  imports UserLib LibMem
begin

text \<open>
  The emulation \<^verbatim>\<open>syscalls/ece391emulate.c\<close> (\<^verbatim>\<open>fish/ece391emulate.c\<close> is the same file), which lets the user programs run on a
  Linux host: the calls of the operating system over those of the host. The host is the parameter \<open>lx\<close>,
  a record of the calls the code makes, over a host state of any type. The lemmas show how a command line is
  split into arguments, how \<open>getargs\<close> puts them together again, and what a directory read delivers.
\<close>

section \<open>Model\<close>

text \<open>How a child process ended, as \<open>wait\<close> reports it.\<close>

datatype wait_status = Exited u8 | Signalled nat

text \<open>
  The host's calls. \<open>lx_spawn m path args\<close> is \<open>fork\<close>, \<open>execv\<close> of the strings at the given addresses and \<open>wait\<close>, \<open>None\<close> when
  \<open>execv\<close> returns (that \<open>fork\<close> itself succeeds is part of this parameter: the code does not test it); \<open>lx_call\<close> is \<^verbatim>\<open>int $0x80\<close> with its four registers, 0 for those a call ignores; a name of a directory entry is a byte buffer.
\<close>

record 'h linux =
  lx_spawn :: "mem \<Rightarrow> addr \<Rightarrow> addr list \<Rightarrow> 'h \<Rightarrow> 'h \<times> wait_status option"
  lx_call :: "u32 \<Rightarrow> u32 \<Rightarrow> u32 \<Rightarrow> u32 \<Rightarrow> mem \<times> 'h \<Rightarrow> (mem \<times> 'h) \<times> u32"
  lx_opendir :: "string \<Rightarrow> 'h \<Rightarrow> 'h \<times> addr"
  lx_readdir :: "addr \<Rightarrow> 'h \<Rightarrow> 'h \<times> str option"
  lx_closedir :: "addr \<Rightarrow> 'h \<Rightarrow> 'h"
  lx_open :: "string \<Rightarrow> u32 \<Rightarrow> 'h \<Rightarrow> 'h \<times> i32"
  lx_close :: "i32 \<Rightarrow> 'h \<Rightarrow> 'h"
  lx_mmap :: "addr \<Rightarrow> u32 \<Rightarrow> u32 \<Rightarrow> u32 \<Rightarrow> i32 \<Rightarrow> u32 \<Rightarrow> 'h \<Rightarrow> 'h \<times> u32"
  lx_perror :: "string \<Rightarrow> 'h \<Rightarrow> 'h"

text \<open>The host's constants, from its headers.\<close>

abbreviation O_RDONLY :: u32 where "O_RDONLY \<equiv> 0"
abbreviation O_RDWR :: u32 where "O_RDWR \<equiv> 2"
abbreviation PROT_READ :: u32 where "PROT_READ \<equiv> 1"
abbreviation PROT_WRITE :: u32 where "PROT_WRITE \<equiv> 2"
abbreviation MAP_SHARED :: u32 where "MAP_SHARED \<equiv> 1"

record 'h emu =
  host :: 'h
  emem :: mem
  start_esp :: u32
  dir :: addr
  dir_fd :: i32
  mem_fd :: i32

text \<open>The wrapper of \<^verbatim>\<open>DO_CALL\<close>: error numbers become -1.\<close>

definition DO_CALL :: "'h linux \<Rightarrow> u32 \<Rightarrow> u32 \<Rightarrow> u32 \<Rightarrow> u32 \<Rightarrow> 'h emu \<Rightarrow> 'h emu \<times> i32" where
  "DO_CALL lx number ebx ecx edx s =
     (let ((m, h), eax) = lx_call lx number ebx ecx edx (emem s, host s)
      in (s\<lparr>emem := m, host := h\<rparr>, if eax \<le> 0xFFFFC000 then eax else -1))"

text \<open>The scans of \<open>ece391_execute\<close> for the end of a word and of the spaces between words, and its loop over the arguments.\<close>

partial_function (option) scan_word :: "mem \<Rightarrow> addr \<Rightarrow> addr option" where
  "scan_word m p = (if m p \<noteq> 0 \<and> m p \<noteq> 32 \<and> m p \<noteq> 10 then scan_word m (p + 1) else Some p)"

partial_function (option) skip_spaces :: "mem \<Rightarrow> addr \<Rightarrow> addr option" where
  "skip_spaces m p = (if m p = 32 then skip_spaces m (p + 1) else Some p)"

partial_function (option) parse_arguments :: "addr list \<Rightarrow> addr \<Rightarrow> mem \<Rightarrow> (addr list \<times> mem) option" where
  "parse_arguments args scan m =
     do {
       scan \<leftarrow> skip_spaces m scan;
       if m scan = 0 \<or> m scan = 10 then Some (args, m(scan := 0))
       else do {
         en \<leftarrow> scan_word m scan;
         if m en \<noteq> 0 then parse_arguments (args @ [scan]) (en + 1) (m(en := 0)) else parse_arguments (args @ [scan]) en m
       }
     }"

definition split_command :: "addr \<Rightarrow> mem \<Rightarrow> (addr list \<times> mem) option" where
  "split_command buf m =
     do {
       scan \<leftarrow> scan_word m (buf + 2);
       if m scan \<noteq> 0 then parse_arguments [buf] (scan + 1) (m(scan := 0)) else Some ([buf], m)
     }"

definition exit_value :: "wait_status option \<Rightarrow> i32" where
  "exit_value r = (case (case r of None \<Rightarrow> Signalled 9 | Some st \<Rightarrow> st) of
     Exited c \<Rightarrow> ucast c | Signalled sig \<Rightarrow> if sig = 9 then -1 else 256)"

text \<open>\<open>buf\<close> is the local array.\<close>

definition ece391_execute :: "'h linux \<Rightarrow> addr \<Rightarrow> addr \<Rightarrow> 'h emu \<Rightarrow> ('h emu \<times> i32) option" where
  "ece391_execute lx buf command s =
     do {
       n \<leftarrow> ece391_strlen (emem s) command;
       if 1023 < n then Some (s, -1)
       else do {
         m \<leftarrow> ece391_strcpy (buf + 2) command ((emem s)(buf := 46, buf + 1 := 47));
         (args, m) \<leftarrow> split_command buf m;
         let (h, r) = lx_spawn lx m buf args (host s);
         Some (s\<lparr>emem := m, host := h\<rparr>, exit_value r)
       }
     }"

definition ece391_open :: "'h linux \<Rightarrow> (string \<Rightarrow> addr) \<Rightarrow> addr \<Rightarrow> 'h emu \<Rightarrow> ('h emu \<times> i32) option" where
  "ece391_open lx lits filename s =
     do {
       c \<leftarrow> ece391_strcmp (emem s) filename (lits ''.'');
       Some (if c = 0
             then let (h, d) = lx_opendir lx ''.'' (host s); (h, fd) = lx_open lx ''/dev/null'' O_RDONLY h
                  in (s\<lparr>host := h, dir := d, dir_fd := fd\<rparr>, fd)
             else let ((m, h), rval) = lx_call lx 5 filename O_RDONLY 0 (emem s, host s)
                  in (s\<lparr>emem := m, host := h\<rparr>, if rval > 0xFFFFC000 then -1 else rval))
     }"

text \<open>The loop of \<open>ece391_getargs\<close> from argument \<open>idx\<close>, and the end mark.\<close>

definition end_args :: "addr \<Rightarrow> i32 \<Rightarrow> mem \<Rightarrow> mem \<times> i32" where
  "end_args buf nbytes m = (if sint nbytes < 1 then (m, -1) else (m(buf := 0), 0))"

partial_function (option) getargs_loop :: "u32 \<Rightarrow> int \<Rightarrow> int \<Rightarrow> addr \<Rightarrow> i32 \<Rightarrow> mem \<Rightarrow> (mem \<times> i32) option" where
  "getargs_loop argv argc idx buf nbytes m =
     (if idx < argc
      then do {
        len \<leftarrow> ece391_strlen m (load32 m (argv + 4 * of_int idx));
        if sint len > sint nbytes then Some (m, -1)
        else do {
          m \<leftarrow> ece391_strcpy buf (load32 m (argv + 4 * of_int idx)) m;
          if idx + 1 \<ge> argc then Some (end_args (buf + len) (nbytes - len) m)
          else if sint (nbytes - len) < 1 then Some (m, -1)
          else getargs_loop argv argc (idx + 1) (buf + len + 1) (nbytes - len - 1) (m(buf + len := 32))
        }
      }
      else Some (end_args buf nbytes m))"

definition ece391_getargs :: "addr \<Rightarrow> i32 \<Rightarrow> 'h emu \<Rightarrow> ('h emu \<times> i32) option" where
  "ece391_getargs buf nbytes s =
     do {
       (m, r) \<leftarrow> getargs_loop (start_esp s + 4) (sint (load32 (emem s) (start_esp s))) 1 buf nbytes (emem s);
       Some (s\<lparr>emem := m\<rparr>, r)
     }"

definition ece391_vidmap :: "'h linux \<Rightarrow> addr \<Rightarrow> 'h emu \<Rightarrow> 'h emu \<times> i32" where
  "ece391_vidmap lx screen_start s =
     (let s = (if mem_fd s = -1 then let (h, fd) = lx_open lx ''/dev/mem'' O_RDWR (host s) in s\<lparr>host := h, mem_fd := fd\<rparr> else s);
          (h, mem_image) = lx_mmap lx 0 (1024 * 1024) (PROT_READ OR PROT_WRITE) MAP_SHARED (mem_fd s) 0 (host s);
          s = s\<lparr>host := h\<rparr>
      in if mem_image = -1 then (s\<lparr>host := lx_perror lx ''mmap low memory'' (host s)\<rparr>, -1)
         else (s\<lparr>emem := store32 (emem s) screen_start (mem_image + 0xB8000)\<rparr>, 0))"

text \<open>The two loops of a directory read: the name, with its early returns, and the padding.\<close>

partial_function (option) copy_entry :: "str \<Rightarrow> u32 \<Rightarrow> addr \<Rightarrow> int \<Rightarrow> int \<Rightarrow> mem \<Rightarrow> (mem \<times> int \<times> bool) option" where
  "copy_entry from i to copied nbytes m =
     (if from i \<noteq> 0
      then (if copied + 1 = nbytes then Some (m(to := from i), nbytes, True)
            else if copied + 1 = 32 then Some (m(to := from i), 32, True)
            else copy_entry from (i + 1) (to + 1) (copied + 1) nbytes (m(to := from i)))
      else Some (m, copied, False))"

partial_function (option) pad_entry :: "addr \<Rightarrow> int \<Rightarrow> int \<Rightarrow> mem \<Rightarrow> (mem \<times> int) option" where
  "pad_entry to copied nbytes m =
     (if nbytes > copied \<and> 32 > copied then pad_entry (to + 1) (copied + 1) nbytes (m(to := 0)) else Some (m, copied))"

definition ece391_read :: "'h linux \<Rightarrow> i32 \<Rightarrow> addr \<Rightarrow> i32 \<Rightarrow> 'h emu \<Rightarrow> ('h emu \<times> i32) option" where
  "ece391_read lx fd buf nbytes s =
     (if dir s = 0 \<or> dir_fd s \<noteq> fd then Some (DO_CALL lx 3 fd buf nbytes s)
      else case lx_readdir lx (dir s) (host s) of
        (h, None) \<Rightarrow> Some (s\<lparr>host := h\<rparr>, 0)
      | (h, Some name) \<Rightarrow>
          do {
            (m, copied, fin) \<leftarrow> copy_entry name 0 buf 0 (sint nbytes) (emem s);
            (m, copied) \<leftarrow> (if fin then Some (m, copied) else pad_entry (buf + of_int copied) copied (sint nbytes) m);
            Some (s\<lparr>host := h, emem := m\<rparr>, of_int copied)
          })"

definition ece391_write :: "'h linux \<Rightarrow> i32 \<Rightarrow> addr \<Rightarrow> i32 \<Rightarrow> 'h emu \<Rightarrow> 'h emu \<times> i32" where
  "ece391_write lx fd buf nbytes s = (if dir s = 0 \<or> dir_fd s \<noteq> fd then DO_CALL lx 4 fd buf nbytes s else (s, -1))"

definition ece391_close :: "'h linux \<Rightarrow> i32 \<Rightarrow> 'h emu \<Rightarrow> 'h emu \<times> i32" where
  "ece391_close lx fd s =
     (if dir s = 0 \<or> dir_fd s \<noteq> fd then DO_CALL lx 6 fd 0 0 s
      else (s\<lparr>host := lx_close lx (dir_fd s) (lx_closedir lx (dir s) (host s)), dir := 0, dir_fd := -1\<rparr>, 0))"

definition start_emulated :: "'h linux \<Rightarrow> u32 \<Rightarrow> ('h emu \<Rightarrow> ('h emu \<times> i32) option) \<Rightarrow> 'h emu \<Rightarrow> ('h emu \<times> i32) option" where
  "start_emulated lx sp main s = do { (s, eax) \<leftarrow> main (s\<lparr>start_esp := sp\<rparr>); Some (DO_CALL lx 1 eax 0 0 s) }"

section \<open>Splitting a command\<close>

text \<open>The words of a text, as the spaces separate them.\<close>

lemma words_shorter: "dropWhile P cs = c # ds \<Longrightarrow> length (dropWhile Q ds) < length cs"
  using length_dropWhile_le [of P cs] length_dropWhile_le [of Q ds] by simp

function words :: "u8 list \<Rightarrow> u8 list list" where
  "words cs = (case dropWhile (\<lambda>c. c = 32) cs of [] \<Rightarrow> [] | c # ds \<Rightarrow> (c # takeWhile (\<lambda>c. c \<noteq> 32) ds) # words (dropWhile (\<lambda>c. c \<noteq> 32) ds))"
  by auto
termination by (relation "measure length") (auto intro: words_shorter)

declare words.simps [simp del]

lemma scan_word_eq: "cstr (view m p) cs \<Longrightarrow> 10 \<notin> set cs \<Longrightarrow> scan_word m p = Some (p + of_nat (length (takeWhile (\<lambda>c. c \<noteq> 32) cs)))"
proof (induction cs arbitrary: p)
  case Nil
  then show ?case by (subst scan_word.simps) (simp add: cstr_nil)
next
  case (Cons c cs)
  then have "m p = c" "c \<noteq> 0" "c \<noteq> 10" "cstr (view m (p + 1)) cs" by (auto simp: cstr_head)
  then show ?case using Cons.IH [of "p + 1"] Cons.prems(2) by (subst scan_word.simps) (simp add: add.assoc)
qed

lemma skip_spaces_eq: "cstr (view m p) cs \<Longrightarrow> skip_spaces m p = Some (p + of_nat (length (takeWhile (\<lambda>c. c = 32) cs)))"
proof (induction cs arbitrary: p)
  case Nil
  then show ?case by (subst skip_spaces.simps) (simp add: cstr_nil)
next
  case (Cons c cs)
  then have "m p = c" "cstr (view m (p + 1)) cs" by (auto simp: cstr_head)
  then show ?case using Cons.IH [of "p + 1"] by (subst skip_spaces.simps) (simp add: add.assoc)
qed

text \<open>A string is cut where a NUL is stored into it.\<close>

lemma cstr_cut:
  assumes "cstr (view m p) cs" "n \<le> length cs"
  shows "cstr (view (m(p + of_nat n := 0)) p) (take n cs)"
proof (rule cstrI)
  have small: "length cs < 4294967296" using assms(1) by (simp add: cstr_def)
  fix i assume "i < length (take n cs)"
  then have i: "i < n" "i < length cs" by auto
  then have "(of_nat i :: u32) \<noteq> of_nat n" using small assms(2) by (simp add: of_nat32_eq_iff)
  then show "view (m(p + of_nat n := 0)) p (of_nat i) = take n cs ! i" using assms(1) i by (simp add: view_def cstr_def)
next
  show "0 \<notin> set (take n cs)" using assms(1) by (auto simp: cstr_def in_set_conv_nth dest!: in_set_takeD)
  show "view (m(p + of_nat n := 0)) p (of_nat (length (take n cs))) = 0" using assms(2) by (simp add: view_def min_absorb2)
  show "length (take n cs) < 4294967296" using assms(1) by (auto simp: cstr_def)
qed

text \<open>The bytes of a string decide whether it is one.\<close>

lemma cstr_cong:
  assumes "cstr (view m p) cs" "\<And>i. i \<le> length cs \<Longrightarrow> m' (p + of_nat i) = m (p + of_nat i)"
  shows "cstr (view m' p) cs"
  using assms by (simp add: cstr_def view_def)

text \<open>An offset from a point further on.\<close>

lemma offset_before:
  assumes "j < n" "n < 4294967296"
  shows "unat (p + of_nat j - (p + of_nat n) :: u32) = 4294967296 - (n - j)"
proof -
  have "(of_nat (4294967296 - (n - j)) :: u32) = of_nat 4294967296 - of_nat (n - j)" using assms by (intro of_nat_diff) simp
  also have "\<dots> = p + of_nat j - (p + of_nat n)" using assms(1) by (simp add: of_nat_diff)
  finally show ?thesis using assms by (metis diff_less unat_of_nat32 zero_less_diff zero_less_numeral)
qed

lemma offset_after:
  assumes "n \<le> unat (a - p)"
  shows "unat (a - (p + of_nat n) :: u32) = unat (a - p) - n"
proof -
  have "n < 4294967296" using assms unat_lt32 [of "a - p"] by simp
  then have "(of_nat n :: u32) \<le> a - p" using assms by (simp add: word_le_nat_alt)
  from unat_sub [OF this] show ?thesis using \<open>n < 4294967296\<close> by (simp add: diff_diff_eq)
qed

lemma words_space: "words (32 # cs) = words cs"
  by (subst (1 2) words.simps) simp

lemma parse_arguments_end: "m p = 0 \<Longrightarrow> parse_arguments args p m = Some (args, m)"
proof -
  assume z: "m p = 0"
  then have "skip_spaces m p = Some p" "m(p := 0) = m" by (subst skip_spaces.simps, simp, auto)
  then show ?thesis using z by (subst parse_arguments.simps) simp
qed

text \<open>
  The loop over the arguments turns the text behind \<open>p\<close> into its words, each ended by a NUL, and changes no byte
  outside it.
\<close>

lemma parse_arguments_eq:
  "cstr (view m p) cs \<Longrightarrow> 10 \<notin> set cs \<Longrightarrow> length cs < 4096 \<Longrightarrow>
    \<exists>ps m'. parse_arguments args p m = Some (args @ ps, m') \<and> list_all2 (\<lambda>q w. cstr (view m' q) w) ps (words cs)
      \<and> (\<forall>a. length cs < unat (a - p) \<longrightarrow> m' a = m a)"
proof (induction cs arbitrary: args p m rule: length_induct)
  case (1 cs)
  let ?k = "length (takeWhile (\<lambda>c. c = 32) cs)"
  define ds where "ds = dropWhile (\<lambda>c. c = 32) cs"
  define q where "q = p + of_nat ?k"
  have ds: "ds = drop ?k cs" "?k \<le> length cs" "length ds = length cs - ?k" "set ds \<subseteq> set cs"
    by (auto simp: ds_def dropWhile_eq_drop length_takeWhile_le dest: in_set_dropD)
  have q: "cstr (view m q) ds" unfolding q_def ds(1) by (rule cstr_drop [OF "1.prems"(1) ds(2)])
  have skip: "skip_spaces m p = Some q" unfolding q_def by (rule skip_spaces_eq [OF "1.prems"(1)])
  show ?case
  proof (cases ds)
    case Nil
    then have z: "m q = 0" using q by (simp add: cstr_nil)
    then have "m(q := 0) = m" by auto
    then have "parse_arguments args p m = Some (args, m)" using skip z by (subst parse_arguments.simps) simp
    moreover have "words cs = []" using Nil by (subst words.simps) (simp add: ds_def [symmetric])
    ultimately show ?thesis by (intro exI [of _ "[]"] exI [of _ m]) simp
  next
    case (Cons c es)
    have c: "m q = c" "c \<noteq> 0" "c \<noteq> 10" "c \<noteq> 32"
      using q Cons ds(4) "1.prems"(2) hd_dropWhile [of "\<lambda>c. c = 32" cs] by (auto simp: cstr_head ds_def [symmetric])
    define n where "n = length (takeWhile (\<lambda>c. c \<noteq> 32) ds)"
    define r where "r = q + of_nat n"
    have n: "1 \<le> n" "n \<le> length ds" using Cons c(4) length_takeWhile_le [of "\<lambda>c. c \<noteq> 32" ds] by (simp_all add: n_def)
    have cut: "drop n ds = dropWhile (\<lambda>c. c \<noteq> 32) es" "take n ds = takeWhile (\<lambda>c. c \<noteq> 32) ds"
      using Cons c(4) by (simp_all add: n_def dropWhile_eq_drop takeWhile_eq_take [symmetric])
    have w: "words cs = take n ds # words (drop n ds)"
      using Cons c(4) unfolding cut by (subst words.simps) (simp add: ds_def [symmetric])
    have scan: "scan_word m q = Some r" unfolding r_def n_def by (rule scan_word_eq [OF q]) (use ds(4) "1.prems"(2) in auto)
    have step: "parse_arguments args p m =
        (if m r \<noteq> 0 then parse_arguments (args @ [q]) (r + 1) (m(r := 0)) else parse_arguments (args @ [q]) r m)"
      using skip c scan by (subst parse_arguments.simps) simp
    have rest: "cstr (view m r) (drop n ds)" unfolding r_def by (rule cstr_drop [OF q n(2)])
    show ?thesis
    proof (cases "drop n ds")
      case Nil
      then have "m r = 0" "take n ds = ds" using rest n(2) by (simp_all add: cstr_nil)
      then show ?thesis
        using step q w parse_arguments_end [of m r "args @ [q]"] Nil words.simps [of "[]"] by (intro exI [of _ "[q]"] exI [of _ m]) simp
    next
      case (Cons d fs)
      have d: "d = 32" using Cons cut(1) hd_dropWhile [of "\<lambda>c. c \<noteq> 32" es] by auto
      let ?m = "m(r := 0)"
      have "length (drop n ds) = Suc (length fs)" by (simp add: Cons)
      then have len: "?k + n + 1 + length fs = length cs" using ds(2,3) n(2) by simp
      have rm: "m r = 32" "cstr (view m (r + 1)) fs" using rest by (auto simp: Cons d cstr_head)
      have small: "length fs < 4096" using len "1.prems"(3) by simp
      have at: "r = p + of_nat (?k + n)" "r + 1 = p + of_nat (?k + n + 1)" by (simp_all add: r_def q_def)
      have tl: "cstr (view ?m (r + 1)) fs"
      proof (rule cstr_cong [OF rm(2)])
        fix i assume "i \<le> length fs"
        then have "(of_nat (1 + i) :: u32) \<noteq> of_nat 0" using small by (subst of_nat32_eq_iff) simp_all
        then show "?m (r + 1 + of_nat i) = m (r + 1 + of_nat i)" by (auto simp: add.assoc)
      qed
      have lt: "length fs < length cs" using len by simp
      have "set fs \<subseteq> set cs" using set_drop_subset [of n ds] ds(4) Cons by auto
      then have "10 \<notin> set fs" using "1.prems"(2) by blast
      from "1.IH" [rule_format, OF lt tl this small, of "args @ [q]"] obtain ps m' where IH: "parse_arguments (args @ [q]) (r + 1) ?m = Some ((args @ [q]) @ ps, m')"
        "list_all2 (\<lambda>q w. cstr (view m' q) w) ps (words fs)" "\<forall>a. length fs < unat (a - (r + 1)) \<longrightarrow> m' a = ?m a"
        by blast
      have "cstr (view m' q) (take n ds)"
      proof (rule cstr_cong [OF cstr_cut [OF q n(2), folded r_def]])
        fix i assume "i \<le> length (take n ds)"
        then have i: "?k + i < ?k + n + 1" "?k + n + 1 < 4294967296" using n(2) len "1.prems"(3) by auto
        have "q + of_nat i - (r + 1) = p + of_nat (?k + i) - (p + of_nat (?k + n + 1))" unfolding at(2) by (simp add: q_def)
        then have "unat (q + of_nat i - (r + 1)) = 4294967296 - (?k + n + 1 - (?k + i))" by (simp only: offset_before [OF i])
        then show "m' (q + of_nat i) = ?m (q + of_nat i)" using IH(3) len "1.prems"(3) i(1) by simp
      qed
      moreover have "m' a = m a" if "length cs < unat (a - p)" for a
      proof -
        have "unat (a - (r + 1)) = unat (a - p) - (?k + n + 1)" unfolding at(2) by (rule offset_after) (use that len in simp)
        moreover have "a \<noteq> r"
        proof
          assume "a = r"
          then have "unat (a - p) = ?k + n" using at(1) len "1.prems"(3) by (simp del: of_nat_add)
          then show False using that len by simp
        qed
        ultimately show ?thesis using IH(3) that len by simp
      qed
      moreover have "words (drop n ds) = words fs" by (simp add: Cons d words_space)
      ultimately show ?thesis using step rm(1) IH(1,2) w by (intro exI [of _ "q # ps"] exI [of _ m']) simp
    qed
  qed
qed

text \<open>The whole command, behind the two characters that \<open>ece391_execute\<close> puts before it.\<close>

lemma split_command_eq:
  assumes "cstr (view m (buf + 2)) cs" "m buf = 46" "m (buf + 1) = 47" "10 \<notin> set cs" "length cs \<le> 1023"
  shows "\<exists>ps m'. split_command buf m = Some (buf # ps, m') \<and> cstr (view m' buf) (46 # 47 # takeWhile (\<lambda>c. c \<noteq> 32) cs)
    \<and> list_all2 (\<lambda>q w. cstr (view m' q) w) ps (words (dropWhile (\<lambda>c. c \<noteq> 32) cs))
    \<and> (\<forall>a. 1026 \<le> unat (a - buf) \<longrightarrow> m' a = m a)"
proof -
  define n where "n = length (takeWhile (\<lambda>c. c \<noteq> 32) cs)"
  define r where "r = buf + 2 + of_nat n"
  have n: "n \<le> length cs" by (simp add: n_def length_takeWhile_le)
  have cut: "takeWhile (\<lambda>c. c \<noteq> 32) cs = take n cs" "dropWhile (\<lambda>c. c \<noteq> 32) cs = drop n cs"
    by (simp_all add: n_def takeWhile_eq_take [symmetric] dropWhile_eq_drop)
  have "buf + 1 + 1 = buf + 2" "(46 :: u8) \<noteq> 0" "(47 :: u8) \<noteq> 0" "Suc (length (47 # cs)) < 4294967296" "Suc (length cs) < 4294967296"
    using assms(5) by simp_all
  then have full: "cstr (view m buf) (46 # 47 # cs)" using assms(1-3) by (simp only: cstr_head) simp
  have scan: "scan_word m (buf + 2) = Some r" unfolding r_def n_def by (rule scan_word_eq [OF assms(1,4)])
  have rest: "cstr (view m r) (drop n cs)" unfolding r_def by (rule cstr_drop [OF assms(1) n])
  show ?thesis unfolding cut
  proof (cases "drop n cs")
    case Nil
    then have "m r = 0" "take n cs = cs" "words (drop n cs) = []" using rest by (simp_all add: cstr_nil words.simps)
    then show "\<exists>ps m'. split_command buf m = Some (buf # ps, m') \<and> cstr (view m' buf) (46 # 47 # take n cs)
        \<and> list_all2 (\<lambda>q w. cstr (view m' q) w) ps (words (drop n cs)) \<and> (\<forall>a. 1026 \<le> unat (a - buf) \<longrightarrow> m' a = m a)"
      using scan full by (intro exI [of _ "[]"] exI [of _ m]) (simp add: split_command_def)
  next
    case (Cons d fs)
    have d: "d = 32" using Cons cut(2) hd_dropWhile [of "\<lambda>c. c \<noteq> 32" cs] by auto
    have "length (drop n cs) = Suc (length fs)" by (simp add: Cons)
    then have len: "n + 1 + length fs = length cs" using n by simp
    let ?m = "m(r := 0)"
    have at: "r = buf + of_nat (n + 2)" "r + 1 = buf + of_nat (n + 3)" by (simp_all add: r_def)
    have rm: "m r = 32" "cstr (view m (r + 1)) fs" using rest by (auto simp: Cons d cstr_head)
    have tl: "cstr (view ?m (r + 1)) fs"
    proof (rule cstr_cong [OF rm(2)])
      fix i assume "i \<le> length fs"
      then have "(of_nat (1 + i) :: u32) \<noteq> of_nat 0" using len assms(5) by (subst of_nat32_eq_iff) simp_all
      then show "?m (r + 1 + of_nat i) = m (r + 1 + of_nat i)" by (auto simp: add.assoc)
    qed
    have "set fs \<subseteq> set cs" using set_drop_subset [of n cs] Cons by auto
    then have "10 \<notin> set fs" "length fs < 4096" using assms(4,5) len by auto
    from parse_arguments_eq [OF tl this, of "[buf]"] obtain ps m' where p: "parse_arguments [buf] (r + 1) ?m = Some (buf # ps, m')"
      "list_all2 (\<lambda>q w. cstr (view m' q) w) ps (words fs)" "\<forall>a. length fs < unat (a - (r + 1)) \<longrightarrow> m' a = ?m a" by auto
    have "cstr (view ?m buf) (46 # 47 # take n cs)"
      using cstr_cut [OF full, of "n + 2"] n at(1) by simp
    then have "cstr (view m' buf) (46 # 47 # take n cs)"
    proof (rule cstr_cong)
      fix i assume "i \<le> length (46 # 47 # take n cs)"
      then have i: "i < n + 3" "n + 3 < 4294967296" using n assms(5) by auto
      have "unat (buf + of_nat i - (r + 1)) = 4294967296 - (n + 3 - i)" unfolding at(2) by (rule offset_before [OF i])
      then show "m' (buf + of_nat i) = ?m (buf + of_nat i)" using p(3) i len assms(5) by simp
    qed
    moreover have "m' a = m a" if "1026 \<le> unat (a - buf)" for a
    proof -
      have "unat (a - (r + 1)) = unat (a - buf) - (n + 3)" unfolding at(2) by (rule offset_after) (use that len assms(5) in simp)
      moreover have "a \<noteq> r"
      proof
        assume "a = r"
        then have "a - buf = of_nat (n + 2)" by (simp add: at(1))
        then have "unat (a - buf) = n + 2" using len assms(5) unat_of_nat32 [of "n + 2"] by simp
        then show False using that len assms(5) by simp
      qed
      ultimately show ?thesis using p(3) that len assms(5) by simp
    qed
    moreover have "words (drop n cs) = words fs" by (simp add: Cons d words_space)
    ultimately show "\<exists>ps m'. split_command buf m = Some (buf # ps, m') \<and> cstr (view m' buf) (46 # 47 # take n cs)
        \<and> list_all2 (\<lambda>q w. cstr (view m' q) w) ps (words (drop n cs)) \<and> (\<forall>a. 1026 \<le> unat (a - buf) \<longrightarrow> m' a = m a)"
      using scan rm(1) p(1,2) by (intro exI [of _ ps] exI [of _ m']) (simp add: split_command_def)
  qed
qed

section \<open>Joining the arguments\<close>

fun joined :: "u8 list list \<Rightarrow> u8 list" where
  "joined [] = []"
| "joined [w] = w"
| "joined (w # v # ws) = w @ 32 # joined (v # ws)"

text \<open>Argument \<open>j\<close> is the string \<open>w\<close>; it and the pointer to it lie outside the \<open>n\<close> bytes at \<open>b\<close>.\<close>

definition argument :: "addr \<Rightarrow> nat \<Rightarrow> u32 \<Rightarrow> mem \<Rightarrow> int \<Rightarrow> u8 list \<Rightarrow> bool" where
  "argument b n argv m j w \<longleftrightarrow> (let p = load32 m (argv + 4 * of_int j) in
     cstr (view m p) w \<and> length w < 2147483648 \<and> (\<forall>i \<le> length w. n \<le> unat (p + of_nat i - b))
     \<and> (\<forall>i < 4. n \<le> unat (argv + 4 * of_int j + of_nat i - b)))"

lemma argument_cong:
  assumes "\<And>a. n \<le> unat (a - b) \<Longrightarrow> m' a = m a" "argument b n argv m j w"
  shows "argument b n argv m' j w"
proof -
  let ?a = "argv + 4 * of_int j"
  have "m' (?a + of_nat i) = m (?a + of_nat i)" if "i < 4" for i using assms that by (simp add: argument_def Let_def)
  from this [of 0] this [of 1] this [of 2] this [of 3] have "load32 m' ?a = load32 m ?a" by (simp add: load32_def)
  then show ?thesis using assms cstr_cong [of m _ w m'] by (simp add: argument_def Let_def)
qed

lemma copied_argument:
  assumes "argument b n argv m j w" "k + length w < n" "n \<le> 2147483648"
  shows "\<exists>m'. ece391_strcpy (b + of_nat k) (load32 m (argv + 4 * of_int j)) m = Some m'
    \<and> (\<forall>i < length w. m' (b + of_nat (k + i)) = w ! i) \<and> (\<forall>a. unat (a - b) < k \<or> n \<le> unat (a - b) \<longrightarrow> m' a = m a)"
proof -
  let ?p = "load32 m (argv + 4 * of_int j)" and ?d = "b + of_nat k"
  have w: "cstr (view m ?p) w" "\<forall>i \<le> length w. n \<le> unat (?p + of_nat i - b)" using assms(1) by (simp_all add: argument_def Let_def)
  have k: "unat (?d - b) = k" using assms(2,3) by simp
  have "length w < unat (?d - ?p)"
  proof (rule ccontr)
    assume "\<not> length w < unat (?d - ?p)"
    then have "n \<le> unat (?p + of_nat (unat (?d - ?p)) - b)" using w(2) [rule_format, of "unat (?d - ?p)"] by simp
    moreover have "?p + of_nat (unat (?d - ?p)) - b = ?d - b" by simp
    ultimately show False using k assms(2) by (simp only:)
  qed
  from ece391_strcpy_cstr [OF w(1) disjI2 [OF this]]
  have c: "ece391_strcpy ?d ?p m = Some (\<lambda>a. if unat (a - ?d) \<le> length w then (w @ [0]) ! unat (a - ?d) else m a)" .
  show ?thesis
  proof (intro exI conjI allI impI, rule c)
    show "(if unat (b + of_nat (k + i) - ?d) \<le> length w then (w @ [0]) ! unat (b + of_nat (k + i) - ?d) else m (b + of_nat (k + i))) = w ! i"
      if "i < length w" for i
    proof -
      have "b + of_nat (k + i) - ?d = of_nat i" by simp
      moreover have "unat (of_nat i :: u32) = i" using that assms(2,3) by (intro unat_of_nat32) simp
      ultimately show ?thesis using that by (simp only: nth_append) simp
    qed
    show "(if unat (a - ?d) \<le> length w then (w @ [0]) ! unat (a - ?d) else m a) = m a" if "unat (a - b) < k \<or> n \<le> unat (a - b)" for a
    proof (cases "unat (a - b) < k")
      case True
      have "k < 4294967296" using assms(2,3) by simp
      from offset_before [OF True this, of b] have "unat (a - ?d) = 4294967296 - (k - unat (a - b))" by simp
      moreover have "length w < 4294967296 - (k - unat (a - b))" using assms(2,3) by linarith
      ultimately show ?thesis by simp
    next
      case False
      then have "unat (a - ?d) = unat (a - b) - k" by (intro offset_after) simp
      moreover have "length w < unat (a - b) - k" using that False assms(2) by linarith
      ultimately show ?thesis by simp
    qed
  qed
qed

lemma length_joined: "length w \<le> length (joined (w # ws))" "ws \<noteq> [] \<Longrightarrow> length (joined (w # ws)) = length w + 1 + length (joined ws)"
  by (cases ws; simp)+

text \<open>
  The loop puts the arguments that are left together behind the \<open>k\<close> bytes that it has written of a buffer of \<open>n\<close>, or
  fails when they and the end mark do not fit. The bytes before them and behind the buffer and one more stay.
\<close>

lemma getargs_loop_eq:
  assumes "n < 2147483647"
  shows "(\<forall>i < length ws. argument b (n + 1) argv m (j + int i) (ws ! i)) \<Longrightarrow> k \<le> n \<Longrightarrow>
    \<exists>m'. getargs_loop argv (j + int (length ws)) j (b + of_nat k) (of_nat (n - k)) m = Some (m', if k + length (joined ws) < n then 0 else -1)
      \<and> (k + length (joined ws) < n \<longrightarrow> (\<forall>i \<le> length (joined ws). m' (b + of_nat (k + i)) = (joined ws @ [0]) ! i))
      \<and> (\<forall>a. unat (a - b) < k \<or> n + 1 \<le> unat (a - b) \<longrightarrow> m' a = m a)"
proof (induction ws arbitrary: j k m)
  case Nil
  have s: "sint (of_nat (n - k) :: u32) = int (n - k)" using assms by (intro sint_of_nat32) simp
  have "unat (b + of_nat k - b) = k" using Nil(2) assms by simp
  then have "a \<noteq> b + of_nat k" if "unat (a - b) < k \<or> n + 1 \<le> unat (a - b)" for a using that Nil(2) by auto
  then show ?case by (subst getargs_loop.simps) (auto simp: end_args_def s)
next
  case (Cons w ws)
  let ?r = "n - k" and ?l = "length w"
  have arg: "argument b (n + 1) argv m j w" using Cons.prems(1) [rule_format, of 0] by simp
  then have lw: "sint (of_nat ?l :: u32) = int ?l" by (intro sint_of_nat32) (simp add: argument_def Let_def)
  have r: "sint (of_nat ?r :: u32) = int ?r" using assms by (intro sint_of_nat32) simp
  have more: "j < j + int (length (w # ws))" by simp
  have strlen: "ece391_strlen m (load32 m (argv + 4 * of_int j)) = Some (of_nat ?l)"
    using arg by (simp add: argument_def Let_def ece391_strlen_view strlen_cstr)
  show ?case
  proof (cases "?r < ?l")
    case True
    have "getargs_loop argv (j + int (length (w # ws))) j (b + of_nat k) (of_nat ?r) m = Some (m, -1)"
      using True by (subst getargs_loop.simps) (simp add: strlen lw r)
    moreover have "\<not> k + length (joined (w # ws)) < n" using True length_joined(1) [of w ws] by simp
    ultimately show ?thesis by auto
  next
    case False
    then have fits: "k + ?l < n + 1" "k + ?l \<le> n" using Cons.prems(2) by simp_all
    have "n + 1 \<le> 2147483648" using assms by simp
    from copied_argument [OF arg fits(1) this] obtain m1 where m1: "ece391_strcpy (b + of_nat k) (load32 m (argv + 4 * of_int j)) m = Some m1"
      "\<forall>i < ?l. m1 (b + of_nat (k + i)) = w ! i" "\<forall>a. unat (a - b) < k \<or> n + 1 \<le> unat (a - b) \<longrightarrow> m1 a = m a"
      by blast
    have left: "of_nat ?r - of_nat ?l = (of_nat (n - (k + ?l)) :: u32)" "sint (of_nat (n - (k + ?l)) :: u32) = int (n - (k + ?l))"
    proof -
      show "of_nat ?r - of_nat ?l = (of_nat (n - (k + ?l)) :: u32)" using of_nat_diff [of ?l ?r, where 'a = "32 word"] False by simp
      show "sint (of_nat (n - (k + ?l)) :: u32) = int (n - (k + ?l))" using assms by (intro sint_of_nat32) simp
    qed
    define e where "e = b + of_nat (k + ?l)"
    have e: "unat (e - b) = k + ?l" using fits assms by (simp add: e_def del: of_nat_add)
    have step: "getargs_loop argv (j + int (length (w # ws))) j (b + of_nat k) (of_nat ?r) m =
        (if ws = [] then Some (end_args e (of_nat (n - (k + ?l))) m1) else if n - (k + ?l) < 1 then Some (m1, -1)
         else getargs_loop argv (j + int (length (w # ws))) (j + 1) (e + 1) (of_nat (n - (k + ?l)) - 1) (m1(e := 32)))"
      using False left by (subst getargs_loop.simps) (simp add: strlen lw r m1(1) e_def add.assoc diff_diff_add)
    have same: "a \<noteq> e" if "unat (a - b) < k \<or> n + 1 \<le> unat (a - b)" for a using that e fits by auto
    have word: "(m1(e := x)) (b + of_nat (k + i)) = w ! i" if "i < ?l" for i x
    proof -
      have "unat (b + of_nat (k + i) - b) = k + i" using that fits assms by (simp del: of_nat_add)
      then have "b + of_nat (k + i) \<noteq> e" using e that by auto
      then show ?thesis using m1(2) that by (simp del: of_nat_add)
    qed
    show ?thesis
    proof (cases "ws = []")
      case True
      then have "getargs_loop argv (j + int (length (w # ws))) j (b + of_nat k) (of_nat ?r) m =
          Some (if k + ?l < n then (m1(e := 0), 0) else (m1, -1))"
        using step left(2) by (simp add: end_args_def)
      moreover have "(m1(e := 0)) (b + of_nat (k + i)) = (w @ [0]) ! i" if "i \<le> ?l" for i
        using word [of i 0] that by (cases "i = ?l") (simp_all add: e_def nth_append)
      ultimately show ?thesis using True same m1(3) by (intro exI [of _ "if k + ?l < n then m1(e := 0) else m1"]) simp
    next
      case False
      note long = length_joined(2) [OF False, of w]
      show ?thesis
      proof (cases "n - (k + ?l) < 1")
        case True
        then show ?thesis using step False long m1(3) fits by (intro exI [of _ m1]) simp
      next
        case more: False
        let ?k = "k + ?l + 1" and ?m = "m1(e := 32)"
        have kept: "?m a = m a" if "n + 1 \<le> unat (a - b)" for a using same m1(3) that by simp
        have "argument b (n + 1) argv ?m (j + 1 + int i) (ws ! i)" if "i < length ws" for i
          by (rule argument_cong [OF kept]) (use Cons.prems(1) [rule_format, of "Suc i"] that in \<open>simp_all add: add.assoc\<close>)
        moreover have "?k \<le> n" using more by simp
        ultimately obtain m' where IH: "getargs_loop argv (j + 1 + int (length ws)) (j + 1) (b + of_nat ?k) (of_nat (n - ?k)) ?m =
            Some (m', if ?k + length (joined ws) < n then 0 else -1)"
          "?k + length (joined ws) < n \<longrightarrow> (\<forall>i \<le> length (joined ws). m' (b + of_nat (?k + i)) = (joined ws @ [0]) ! i)"
          "\<forall>a. unat (a - b) < ?k \<or> n + 1 \<le> unat (a - b) \<longrightarrow> m' a = ?m a"
          using Cons.IH [of ?m "j + 1" ?k] by blast
        have "of_nat (n - (k + ?l)) - 1 = (of_nat (n - ?k) :: u32)" using of_nat_diff [of 1 "n - (k + ?l)", where 'a = "32 word"] more by simp
        then have run: "getargs_loop argv (j + int (length (w # ws))) j (b + of_nat k) (of_nat ?r) m = Some (m', if ?k + length (joined ws) < n then 0 else -1)"
          using step False more IH(1) by (simp add: e_def add.assoc add.commute [of 1] diff_diff_add)
        have first: "m' (b + of_nat (k + i)) = (w @ [32]) ! i" if "i \<le> ?l" for i
        proof -
          have "unat (b + of_nat (k + i) - b) = k + i" using that fits assms by (simp del: of_nat_add)
          then have "m' (b + of_nat (k + i)) = ?m (b + of_nat (k + i))" using IH(3) that by simp
          then show ?thesis using word [of i 32] that by (cases "i = ?l") (simp_all add: e_def nth_append)
        qed
        have "m' (b + of_nat (k + i)) = (joined (w # ws) @ [0]) ! i" if "k + length (joined (w # ws)) < n" "i \<le> length (joined (w # ws))" for i
        proof (cases "i \<le> ?l")
          case True
          have "joined (w # ws) = (w @ [32]) @ joined ws" using False by (cases ws) simp_all
          then show ?thesis using first [OF True] True by (simp add: nth_append)
        next
          case i: False
          define d where "d = i - (?l + 1)"
          have d: "i = ?l + 1 + d" "d \<le> length (joined ws)" using i that(2) long by (auto simp: d_def)
          have "m' (b + of_nat (?k + d)) = (joined ws @ [0]) ! d" using IH(2) that(1) long d(2) by simp
          moreover have "joined (w # ws) = (w @ [32]) @ joined ws" using False by (cases ws) simp_all
          moreover have "k + i = ?k + d" using d(1) by simp
          ultimately show ?thesis using d(1) by (simp only:) (simp add: nth_append)
        qed
        moreover have "m' a = m a" if "unat (a - b) < k \<or> n + 1 \<le> unat (a - b)" for a using IH(3) that same [OF that] m1(3) by auto
        ultimately show ?thesis using run long by (intro exI [of _ m']) (simp add: add.assoc)
      qed
    qed
  qed
qed

text \<open>Words that are put together with single spaces come apart again.\<close>

lemma words_append: "w \<noteq> [] \<Longrightarrow> 32 \<notin> set w \<Longrightarrow> words (w @ 32 # cs) = w # words cs"
proof (cases w)
  case (Cons c ds)
  assume "32 \<notin> set w"
  then have "c \<noteq> 32" "\<forall>x \<in> set ds. x \<noteq> 32" by (auto simp: Cons)
  then have "takeWhile (\<lambda>c. c \<noteq> 32) (ds @ 32 # cs) = ds" "dropWhile (\<lambda>c. c \<noteq> 32) (ds @ 32 # cs) = 32 # cs" "dropWhile (\<lambda>c. c = 32) (w @ 32 # cs) = c # ds @ 32 # cs"
    by (simp_all add: takeWhile_append2 dropWhile_append2 Cons)
  then show ?thesis by (subst words.simps) (simp add: words_space Cons)
qed simp

lemma words_joined: "\<forall>w \<in> set ws. w \<noteq> [] \<and> 32 \<notin> set w \<Longrightarrow> words (joined ws) = ws"
proof (induction ws rule: joined.induct)
  case 1
  then show ?case by (simp add: words.simps)
next
  case (2 w)
  then obtain c ds where w: "w = c # ds" "c \<noteq> 32" "\<forall>x \<in> set ds. x \<noteq> 32" by (cases w) auto
  then have d: "dropWhile (\<lambda>c. c = 32) w = c # ds" "takeWhile (\<lambda>c. c \<noteq> 32) ds = ds" "dropWhile (\<lambda>c. c \<noteq> 32) ds = []" by simp_all
  have "words w = [w]" unfolding words.simps [of w] d list.case words.simps [of "[]"] by (simp add: w(1))
  then show ?case by simp
next
  case (3 w v ws)
  then show ?case by (simp add: words_append)
qed

section \<open>Reading the directory\<close>

lemma next_offset: "unat (a - b) = i \<longleftrightarrow> a = b + of_nat i" if "i < 4294967296" for a b :: u32
  using that by (metis add_diff_cancel_left' diff_add_cancel add.commute unat_of_nat32 unat_eq_iff32)

lemma stored_from:
  assumes "i < 4294967296" "i < t" "f i = v"
  shows "(\<lambda>a :: u32. if Suc i \<le> unat (a - b) \<and> unat (a - b) < t then f (unat (a - b)) else (m(b + of_nat i := v)) a) =
    (\<lambda>a. if i \<le> unat (a - b) \<and> unat (a - b) < t then f (unat (a - b)) else m a)"
proof
  fix a :: u32
  show "(if Suc i \<le> unat (a - b) \<and> unat (a - b) < t then f (unat (a - b)) else (m(b + of_nat i := v)) a) =
      (if i \<le> unat (a - b) \<and> unat (a - b) < t then f (unat (a - b)) else m a)"
  proof (cases "a = b + of_nat i")
    case True
    then have "unat (a - b) = i" using next_offset [OF assms(1)] by blast
    then show ?thesis using assms(2,3) True by simp
  next
    case False
    then have "unat (a - b) \<noteq> i" using next_offset [OF assms(1)] by blast
    then have "Suc i \<le> unat (a - b) \<longleftrightarrow> i \<le> unat (a - b)" by linarith
    then show ?thesis using False by (simp only: fun_upd_other not_False_eq_True)
  qed
qed

text \<open>At most \<open>t\<close> bytes are copied: the number asked for, or 32 when that is more or not positive.\<close>

lemma copy_entry_eq:
  assumes "cstr name cs" "t = (if 0 < n then min (nat n) 32 else 32)"
  shows "i < t \<Longrightarrow> i \<le> length cs \<Longrightarrow> copy_entry name (of_nat i) (b + of_nat i) (int i) n m =
    Some (\<lambda>a. if i \<le> unat (a - b) \<and> unat (a - b) < min t (length cs) then cs ! unat (a - b) else m a, int (min t (length cs)), t \<le> length cs)"
proof (induction "t - i" arbitrary: i m)
  case (Suc d)
  have t: "t \<le> 32" using assms(2) by simp
  show ?case
  proof (cases "i < length cs")
    case False
    then have "name (of_nat i) = 0" "i = length cs" using assms(1) Suc.prems(2) by (auto simp: cstr_def)
    then show ?thesis using Suc.prems(1) by (subst copy_entry.simps) (auto simp: fun_eq_iff)
  next
    case True
    then have c: "name (of_nat i) = cs ! i" "cs ! i \<noteq> 0" using assms(1) by (simp_all add: cstr_def)
    let ?m = "m(b + of_nat i := cs ! i)"
    have small: "i < 4294967296" using Suc.prems(1) t by simp
    show ?thesis
    proof (cases "Suc i = t")
      case end_: True
      then have "int i + 1 = n \<or> (int i + 1 = 32 \<and> int i + 1 \<noteq> n)" using assms(2) by (auto split: if_splits simp: min_def)
      then have "copy_entry name (of_nat i) (b + of_nat i) (int i) n m = Some (?m, int t, True)"
        using c end_ by (subst copy_entry.simps) auto
      moreover have "?m = (\<lambda>a. if i \<le> unat (a - b) \<and> unat (a - b) < min t (length cs) then cs ! unat (a - b) else m a)"
      proof -
        have "?m = (\<lambda>a. if Suc i \<le> unat (a - b) \<and> unat (a - b) < min t (length cs) then cs ! unat (a - b) else ?m a)"
          by (rule ext, rule if_not_P [symmetric]) (use end_ in linarith)
        also have "\<dots> = (\<lambda>a. if i \<le> unat (a - b) \<and> unat (a - b) < min t (length cs) then cs ! unat (a - b) else m a)"
          by (rule stored_from [OF small]) (use True end_ in simp_all)
        finally show ?thesis .
      qed
      ultimately show ?thesis using True end_ by simp
    next
      case False
      then have more: "Suc i < t" "d = t - Suc i" "Suc i \<le> length cs" using Suc.prems(1) Suc.hyps(2) True by linarith+
      then have goes: "int i + 1 \<noteq> n" "int i + 1 \<noteq> 32" using assms(2) by (auto split: if_splits)
      have "copy_entry name (of_nat i) (b + of_nat i) (int i) n m = copy_entry name (of_nat (Suc i)) (b + of_nat (Suc i)) (int (Suc i)) n ?m"
        using c goes by (subst copy_entry.simps) (simp add: ac_simps)
      also have "\<dots> = Some (\<lambda>a. if Suc i \<le> unat (a - b) \<and> unat (a - b) < min t (length cs) then cs ! unat (a - b) else ?m a, int (min t (length cs)), t \<le> length cs)"
        by (rule Suc.hyps(1) [OF more(2,1,3)])
      also have "(\<lambda>a. if Suc i \<le> unat (a - b) \<and> unat (a - b) < min t (length cs) then cs ! unat (a - b) else ?m a) =
          (\<lambda>a. if i \<le> unat (a - b) \<and> unat (a - b) < min t (length cs) then cs ! unat (a - b) else m a)"
        by (rule stored_from [OF small]) (use True more(1) in simp_all)
      finally show ?thesis .
    qed
  qed
qed simp

lemma pad_entry_eq:
  "0 < n \<Longrightarrow> t = min (nat n) 32 \<Longrightarrow> i \<le> t \<Longrightarrow>
    pad_entry (b + of_nat i) (int i) n m = Some (\<lambda>a. if i \<le> unat (a - b) \<and> unat (a - b) < t then 0 else m a, int t)"
proof (induction "t - i" arbitrary: i m)
  case 0
  then have "i = t" "\<not> (n > int i \<and> 32 > int i)" by auto
  then show ?case by (subst pad_entry.simps) (auto simp: fun_eq_iff)
next
  case (Suc d)
  then have more: "d = t - Suc i" "Suc i \<le> t" "n > int i \<and> 32 > int i" "i < 4294967296" by auto
  let ?m = "m(b + of_nat i := 0)"
  have "pad_entry (b + of_nat i) (int i) n m = pad_entry (b + of_nat (Suc i)) (int (Suc i)) n ?m"
    using more(3) by (subst pad_entry.simps) (simp add: ac_simps)
  also have "\<dots> = Some (\<lambda>a. if Suc i \<le> unat (a - b) \<and> unat (a - b) < t then 0 else ?m a, int t)"
    by (rule Suc.hyps(1) [OF more(1) Suc.prems(1,2) more(2)])
  also have "(\<lambda>a. if Suc i \<le> unat (a - b) \<and> unat (a - b) < t then 0 else ?m a) = (\<lambda>a. if i \<le> unat (a - b) \<and> unat (a - b) < t then 0 else m a)"
    by (rule stored_from [OF more(4), where f = "\<lambda>_. 0"]) (use more(2) in simp_all)
  finally show ?case .
qed

section \<open>Properties\<close>

text \<open>The number of words is bounded by the text.\<close>

lemma words_length: "length (words cs) \<le> length cs"
proof (induction cs rule: words.induct)
  case (1 cs)
  show ?case
  proof (cases "dropWhile (\<lambda>c. c = 32) cs")
    case Nil
    show ?thesis unfolding words.simps [of cs] Nil by simp
  next
    case (Cons c ds)
    show ?thesis unfolding words.simps [of cs] Cons using words_shorter [OF Cons, of "\<lambda>c. c \<noteq> 32"] "1.IH" [OF Cons] by simp
  qed
qed

lemma joined_nonzero: "\<forall>w \<in> set ws. 0 \<notin> set w \<Longrightarrow> (0 :: u8) \<notin> set (joined ws)"
  by (induction ws rule: joined.induct) auto

lemma argument_nonzero: "argument b n p m i w \<Longrightarrow> 0 \<notin> set w"
  by (auto simp: argument_def Let_def cstr_def in_set_conv_nth)

text \<open>\<open>execute\<close> up to the split: the array holds the command behind \<^verbatim>\<open>./\<close>.\<close>

lemma execute_copies:
  assumes "cstr (view m command) cs" "length cs \<le> 1023" "\<forall>i \<le> length cs. 1026 \<le> unat (command + of_nat i - buf)"
  obtains m1 where "ece391_strcpy (buf + 2) command (m(buf := 46, buf + 1 := 47)) = Some m1" "m1 buf = 46" "m1 (buf + 1) = 47"
    "cstr (view m1 (buf + 2)) cs" "\<And>a. 1026 \<le> unat (a - buf) \<Longrightarrow> m1 a = m a"
proof -
  let ?m = "m(buf := 46, buf + 1 := 47)"
  have near: "a \<noteq> buf \<and> a \<noteq> buf + 1" if "1026 \<le> unat (a - buf)" for a using that by auto
  have cmd: "cstr (view ?m command) cs" by (rule cstr_cong [OF assms(1)]) (use near assms(3) in simp)
  have "length cs < unat (buf + 2 - command)"
  proof (rule ccontr)
    assume "\<not> length cs < unat (buf + 2 - command)"
    then have "1026 \<le> unat (command + of_nat (unat (buf + 2 - command)) - buf)" using assms(3) [rule_format, of "unat (buf + 2 - command)"] by simp
    moreover have "command + of_nat (unat (buf + 2 - command)) - buf = 2" by simp
    ultimately show False by (simp only:) simp
  qed
  then obtain m1 where m1: "ece391_strcpy (buf + 2) command ?m = Some m1"
    "m1 = (\<lambda>a. if unat (a - (buf + 2)) \<le> length cs then (cs @ [0]) ! unat (a - (buf + 2)) else ?m a)"
    using ece391_strcpy_cstr [OF cmd, of "buf + 2"] by simp
  have "unat (buf - (buf + 2)) = 4294967294" "unat (buf + 1 - (buf + 2)) = 4294967295"
    using offset_before [of 0 2 buf] offset_before [of 1 2 buf] by simp_all
  then have "m1 buf = 46" "m1 (buf + 1) = 47" using assms(2) by (simp_all add: m1(2))
  moreover have "cstr (view m1 (buf + 2)) cs" using assms(1,2) by (simp add: cstr_def view_def m1(2) nth_append)
  moreover have "m1 a = m a" if "1026 \<le> unat (a - buf)" for a
  proof -
    have "length cs < unat (a - (buf + 2))" using offset_after [of 2 a buf] that assms(2) by simp
    then show ?thesis using near [OF that] by (simp add: m1(2))
  qed
  ultimately show ?thesis by (rule that [OF m1(1)])
qed

lemma execute_splits:
  assumes "cstr (view (emem s) command) cs" "length cs \<le> 1023" "10 \<notin> set cs" "\<forall>i \<le> length cs. 1026 \<le> unat (command + of_nat i - buf)"
  shows "\<exists>ps m'. (let (h, r) = lx_spawn lx m' buf (buf # ps) (host s) in
        ece391_execute lx buf command s = Some (s\<lparr>emem := m', host := h\<rparr>, exit_value r))
      \<and> cstr (view m' buf) (46 # 47 # takeWhile (\<lambda>c. c \<noteq> 32) cs) \<and> list_all2 (\<lambda>p w. cstr (view m' p) w) ps (words (dropWhile (\<lambda>c. c \<noteq> 32) cs))
      \<and> (\<forall>a. 1026 \<le> unat (a - buf) \<longrightarrow> m' a = emem s a)"
proof -
  obtain m1 where m1: "ece391_strcpy (buf + 2) command ((emem s)(buf := 46, buf + 1 := 47)) = Some m1" "m1 buf = 46" "m1 (buf + 1) = 47"
    "cstr (view m1 (buf + 2)) cs" "\<And>a. 1026 \<le> unat (a - buf) \<Longrightarrow> m1 a = emem s a"
    by (rule execute_copies [OF assms(1,2,4)]) blast
  obtain ps m' where sp: "split_command buf m1 = Some (buf # ps, m')" "cstr (view m' buf) (46 # 47 # takeWhile (\<lambda>c. c \<noteq> 32) cs)"
    "list_all2 (\<lambda>q w. cstr (view m' q) w) ps (words (dropWhile (\<lambda>c. c \<noteq> 32) cs))" "\<forall>a. 1026 \<le> unat (a - buf) \<longrightarrow> m' a = m1 a"
    using split_command_eq [of m1 buf cs] m1(2-4) assms(2,3) by blast
  obtain h r where hr: "lx_spawn lx m' buf (buf # ps) (host s) = (h, r)" by fastforce
  have "\<not> (1023 :: u32) < of_nat (length cs)" using assms(2) by (simp add: word_less_nat_alt)
  moreover have "ece391_strlen (emem s) command = Some (of_nat (length cs))" using assms(1) by (simp add: ece391_strlen_view strlen_cstr)
  ultimately have "ece391_execute lx buf command s = Some (s\<lparr>emem := m', host := h\<rparr>, exit_value r)"
    using sp(1) m1(1) hr by (simp add: ece391_execute_def)
  then show ?thesis using sp(2-4) m1(5) hr by (intro exI [of _ ps] exI [of _ m']) simp
qed

lemma getargs_joins:
  assumes "n < 2147483647" "length ws < 2147483647" "load32 (emem t) (start_esp t) = of_nat (Suc (length ws))"
    "\<forall>i < length ws. argument b (n + 1) (start_esp t + 4) (emem t) (1 + int i) (ws ! i)"
  shows "\<exists>m'. ece391_getargs b (of_nat n) t = Some (t\<lparr>emem := m'\<rparr>, if length (joined ws) < n then 0 else -1)
      \<and> (length (joined ws) < n \<longrightarrow> cstr (view m' b) (joined ws)) \<and> (\<forall>a. n + 1 \<le> unat (a - b) \<longrightarrow> m' a = emem t a)"
proof -
  have "sint (of_nat (Suc (length ws)) :: u32) = 1 + int (length ws)" using assms(2) by (subst sint_of_nat32) simp_all
  moreover from getargs_loop_eq [OF assms(1,4), of 0] obtain m' where m':
    "getargs_loop (start_esp t + 4) (1 + int (length ws)) 1 b (of_nat n) (emem t) = Some (m', if length (joined ws) < n then 0 else -1)"
    "length (joined ws) < n \<longrightarrow> (\<forall>i \<le> length (joined ws). m' (b + of_nat i) = (joined ws @ [0]) ! i)"
    "\<forall>a. n + 1 \<le> unat (a - b) \<longrightarrow> m' a = emem t a" by auto
  moreover have "0 \<notin> set (joined ws)" by (rule joined_nonzero) (use assms(4) in \<open>auto simp: in_set_conv_nth [of _ ws] dest!: argument_nonzero\<close>)
  ultimately have "ece391_getargs b (of_nat n) t = Some (t\<lparr>emem := m'\<rparr>, if length (joined ws) < n then 0 else -1)"
    using assms(3) by (simp only: ece391_getargs_def) simp
  moreover have "cstr (view m' b) (joined ws)" if "length (joined ws) < n"
    by (rule cstrI) (use m'(2) that assms(1) \<open>0 \<notin> set (joined ws)\<close> in \<open>auto simp: view_def nth_append\<close>)
  ultimately show ?thesis using m'(3) by blast
qed

text \<open>
  C34: the emulation hands the words of a command line on to the program that it starts, in the same order. \<open>execute\<close> of a
  command of up to 1023 characters on one line ends, writes only its own array, and starts the file named by the first word,
  in the current directory, with the words as its arguments, each a C string. In the program,
  whose stack holds these arguments, \<open>getargs\<close> returns 0 with the arguments put together by single spaces, when they
  and the NUL fit, and -1 when they do not; it writes at most one byte behind the array.
\<close>

theorem emulated_arguments:
  assumes "cstr (view (emem s) command) cs" "length cs \<le> 1023" "10 \<notin> set cs" "\<forall>i \<le> length cs. 1026 \<le> unat (command + of_nat i - buf)"
    "ws = words (dropWhile (\<lambda>c. c \<noteq> 32) cs)" "n < 2147483647"
    "load32 (emem t) (start_esp t) = of_nat (Suc (length ws))"
    "\<forall>i < length ws. argument b (n + 1) (start_esp t + 4) (emem t) (1 + int i) (ws ! i)"
  shows "(\<exists>ps m'. (let (h, r) = lx_spawn lx m' buf (buf # ps) (host s) in
        ece391_execute lx buf command s = Some (s\<lparr>emem := m', host := h\<rparr>, exit_value r))
      \<and> cstr (view m' buf) (46 # 47 # takeWhile (\<lambda>c. c \<noteq> 32) cs) \<and> list_all2 (\<lambda>p w. cstr (view m' p) w) ps ws
      \<and> (\<forall>a. 1026 \<le> unat (a - buf) \<longrightarrow> m' a = emem s a))
   \<and> (\<exists>m'. ece391_getargs b (of_nat n) t = Some (t\<lparr>emem := m'\<rparr>, if length (joined ws) < n then 0 else -1)
      \<and> (length (joined ws) < n \<longrightarrow> cstr (view m' b) (joined ws)) \<and> (\<forall>a. n + 1 \<le> unat (a - b) \<longrightarrow> m' a = emem t a))"
proof
  have "length ws < 2147483647"
    using assms(2,5) words_length [of "dropWhile (\<lambda>c. c \<noteq> 32) cs"] length_dropWhile_le [of "\<lambda>c. c \<noteq> 32" cs] by simp
  then show "\<exists>m'. ece391_getargs b (of_nat n) t = Some (t\<lparr>emem := m'\<rparr>, if length (joined ws) < n then 0 else -1)
      \<and> (length (joined ws) < n \<longrightarrow> cstr (view m' b) (joined ws)) \<and> (\<forall>a. n + 1 \<le> unat (a - b) \<longrightarrow> m' a = emem t a)"
    by (rule getargs_joins [OF assms(6) _ assms(7,8)])
qed (use execute_splits [OF assms(1-4)] assms(5) in blast)

theorem emulated_arguments_witness:
  "\<exists>ps m'. ece391_execute \<lparr>lx_spawn = \<lambda>_ _ _ h. (h, Some (Exited 7)), lx_call = \<lambda>_ _ _ _ x. (x, 0), lx_opendir = \<lambda>_ h. (h, 0),
        lx_readdir = \<lambda>_ h. (h, None), lx_closedir = \<lambda>_ h. h, lx_open = \<lambda>_ _ h. (h, 0), lx_close = \<lambda>_ h. h, lx_mmap = \<lambda>_ _ _ _ _ _ h. (h, 0),
        lx_perror = \<lambda>_ h. h\<rparr> 0x1000 0x100
        \<lparr>host = (), emem = (\<lambda>_. 0)(0x100 := 97, 0x101 := 32, 0x102 := 98), start_esp = 0, dir = 0, dir_fd = -1, mem_fd = -1\<rparr>
      = Some (\<lparr>host = (), emem = m', start_esp = 0, dir = 0, dir_fd = -1, mem_fd = -1\<rparr>, 7)
    \<and> cstr (view m' 0x1000) [46, 47, 97] \<and> list_all2 (\<lambda>p w. cstr (view m' p) w) ps [[98]]"
proof -
  let ?lx = "\<lparr>lx_spawn = \<lambda>_ _ _ h. (h, Some (Exited 7)), lx_call = \<lambda>_ _ _ _ x. (x, 0), lx_opendir = \<lambda>_ h. (h, 0),
        lx_readdir = \<lambda>_ h. (h, None), lx_closedir = \<lambda>_ h. h, lx_open = \<lambda>_ _ h. (h, 0), lx_close = \<lambda>_ h. h, lx_mmap = \<lambda>_ _ _ _ _ _ h. (h, 0),
        lx_perror = \<lambda>_ h. h\<rparr>"
  let ?m = "(\<lambda>_. 0)(0x100 := 97, 0x101 := 32, 0x102 := 98) :: mem" and ?m' = "(\<lambda>_. 0)(0 := 2, 8 := 0x50, 0x50 := 98) :: mem"
  let ?s = "\<lparr>host = (), emem = ?m, start_esp = 0, dir = 0, dir_fd = -1, mem_fd = -1\<rparr>"
  let ?t = "\<lparr>host = (), emem = ?m', start_esp = 0, dir = 0, dir_fd = -1, mem_fd = -1\<rparr>"
  have three: "i < Suc (Suc (Suc 0)) \<longleftrightarrow> i = 0 \<or> i = 1 \<or> i = 2" "i \<le> Suc (Suc (Suc 0)) \<longleftrightarrow> i = 0 \<or> i = 1 \<or> i = 2 \<or> i = 3" for i :: nat by auto
  have four: "i < 4 \<longleftrightarrow> i = 0 \<or> i = 1 \<or> i = 2 \<or> i = 3" for i :: nat by auto
  have "cstr (view ?m 0x100) [97, 32, 98]" by (rule cstrI) (auto simp: view_def three)
  then have cmd: "cstr (view (emem ?s) 0x100) [97, 32, 98]" by (simp only: emu.simps)
  have far: "\<forall>i \<le> length [97 :: u8, 32, 98]. 1026 \<le> unat (0x100 + of_nat i - 0x1000 :: u32)" by (auto simp: three)
  have ws: "[[98]] = words (dropWhile (\<lambda>c. c \<noteq> 32) [97, 32, 98])" by (simp add: words.simps)
  have one: "load32 ?m' (0 + 4 + 4 * of_int 1) = 0x50" "load32 ?m' 0 = 2" by (simp_all add: load32_def)
  have argc: "load32 (emem ?t) (start_esp ?t) = of_nat (Suc (length [[98 :: u8]]))" unfolding emu.simps one(2) by simp
  have "cstr (view ?m' 0x50) [98]" by (rule cstrI) (auto simp: view_def)
  then have "\<forall>i < length [[98 :: u8]]. argument 0x2000 (10 + 1) (0 + 4) ?m' (1 + int i) ([[98]] ! i)"
    using one(1) by (auto simp: argument_def Let_def four le_Suc_eq)
  then have arg: "\<forall>i < length [[98 :: u8]]. argument 0x2000 (10 + 1) (start_esp ?t + 4) (emem ?t) (1 + int i) ([[98]] ! i)" by (simp only: emu.simps)
  obtain ps m' where "let (h, r) = lx_spawn ?lx m' 0x1000 (0x1000 # ps) (host ?s) in
      ece391_execute ?lx 0x1000 0x100 ?s = Some (?s\<lparr>emem := m', host := h\<rparr>, exit_value r)"
    "cstr (view m' 0x1000) (46 # 47 # takeWhile (\<lambda>c. c \<noteq> 32) [97, 32, 98])" "list_all2 (\<lambda>p w. cstr (view m' p) w) ps [[98]]"
    using conjunct1 [OF emulated_arguments [OF cmd _ _ far ws _ argc arg, of ?lx]] by auto
  then show ?thesis by (intro exI [of _ ps] exI [of _ m']) (simp add: exit_value_def)
qed

text \<open>
  A directory read that asks for at least one byte delivers the next name in the bytes asked for, at most 32, padded with NULs,
  and returns their number; the kernel returns the length of the name instead. One that asks for none copies up to 32 bytes of
  the name all the same.
\<close>

lemma emulated_directory_read:
  assumes "dir s \<noteq> 0" "dir_fd s = fd" "lx_readdir lx (dir s) (host s) = (h, Some name)" "cstr name cs"
  shows "if 0 < sint nbytes
     then \<exists>m'. ece391_read lx fd buf nbytes s = Some (s\<lparr>host := h, emem := m'\<rparr>, of_nat (min (nat (sint nbytes)) 32))
       \<and> m' = (\<lambda>a. if unat (a - buf) < min (nat (sint nbytes)) 32 then (cs @ replicate 32 0) ! unat (a - buf) else emem s a)
     else \<exists>m'. ece391_read lx fd buf nbytes s = Some (s\<lparr>host := h, emem := m'\<rparr>, of_nat (min 32 (length cs)))
       \<and> m' = (\<lambda>a. if unat (a - buf) < min 32 (length cs) then cs ! unat (a - buf) else emem s a)"
proof -
  let ?n = "sint nbytes"
  define t where "t = (if 0 < ?n then min (nat ?n) 32 else 32)"
  let ?m = "\<lambda>a. if unat (a - buf) < min t (length cs) then cs ! unat (a - buf) else emem s a"
  have t: "0 < t" "t \<le> 32" by (simp_all add: t_def)
  have c: "copy_entry name 0 buf 0 ?n (emem s) = Some (?m, int (min t (length cs)), t \<le> length cs)"
    using copy_entry_eq [OF assms(4) t_def t(1), of buf "emem s"] by (simp cong: if_cong)
  show ?thesis
  proof (cases "0 < ?n")
    case True
    then have tn: "t = min (nat ?n) 32" by (simp add: t_def)
    let ?f = "\<lambda>a. if unat (a - buf) < t then (cs @ replicate 32 0) ! unat (a - buf) else emem s a"
    have "ece391_read lx fd buf nbytes s = Some (s\<lparr>host := h, emem := ?f\<rparr>, of_nat t)"
    proof (cases "t \<le> length cs")
      case full: True
      then have "?m = ?f" by (intro ext) (simp add: nth_append)
      then show ?thesis using assms(1-3) c full by (simp add: ece391_read_def)
    next
      case False
      then have l: "min t (length cs) = length cs" "length cs \<le> t" by simp_all
      have "(\<lambda>a. if length cs \<le> unat (a - buf) \<and> unat (a - buf) < t then 0 else ?m a) = ?f"
        unfolding l(1) using l(2) t(2) by (intro ext) (simp add: nth_append)
      then show ?thesis using assms(1-3) c False pad_entry_eq [OF True tn l(2), of buf ?m] l(1) by (simp add: ece391_read_def)
    qed
    then show ?thesis using True by (simp only: tn if_True) blast
  next
    case False
    then have tn: "t = 32" by (simp add: t_def)
    have "pad_entry (buf + of_nat (length cs)) (int (length cs)) ?n ?m = Some (?m, int (length cs))"
      using False by (subst pad_entry.simps) simp
    then have "ece391_read lx fd buf nbytes s = Some (s\<lparr>host := h, emem := ?m\<rparr>, of_int (int (min t (length cs))))"
      using assms(1-3) c by (simp only: ece391_read_def) simp
    then show ?thesis using False by (simp only: tn if_False of_int_of_nat_eq) blast
  qed
qed

end
