(* ===== verification/Spec2Isabelle.thy ===== *)
theory Spec2Isabelle
  imports Prelude LibString LibMem Screen Filesys I8259 Rtc Idt Paging Terminal Pcb FileOps Printf System Tasks Keyboard Boot
    UserLib UserCalls UserProgs UserInput SysErr Session Sigtest Nesting Grep Pingpong Blink Fish Tests Emulate
begin

text \<open>
  A verified model of the Illinix operating system: the kernel under \<^verbatim>\<open>src/student-distrib\<close>, a small Unix-like system for
  the 32-bit x86 with three text terminals and at most six processes, and the user programs under
  \<^verbatim>\<open>src/syscalls\<close>.

  \<^bold>\<open>The parts and how they interact.\<close> The boot loader enters \<open>entry\<close> (\<^verbatim>\<open>kernel.c\<close>), which fills the descriptor tables,
  initialises the interrupt controllers, the clock, the timer, paging and the terminals and executes the
  first shell. A user program raises interrupt 0x80; the entry code of \<^verbatim>\<open>handlers.S\<close> dispatches to the calls of
  \<^verbatim>\<open>system.c\<close>, which find the control block of the caller from the kernel stack pointer (\<^verbatim>\<open>pcb.c\<close>) and go through the
  jump table of a descriptor to the drivers: terminal (\<^verbatim>\<open>dev/terminal.c\<close>), clock (\<^verbatim>\<open>rtc.c\<close>), directory and files
  (\<^verbatim>\<open>filesys.c\<close>). Interrupts change the same state: the keyboard (\<^verbatim>\<open>idt.c\<close>) edits the line of the active terminal or
  switches terminals (\<^verbatim>\<open>task_switch.c\<close>), the clock raises a flag, the timer (\<^verbatim>\<open>pit.c\<close>) runs the scheduler
  (\<^verbatim>\<open>scheduling.c\<close>).

  \<^bold>\<open>How the model is built.\<close> C integers are words of their width, so arithmetic wraps as it does in the code; a buffer is
  a function of the 32-bit offset and memory a function of addresses. The cursor and the index of the last character of a terminal's line are \<open>int\<close>, which is
  exact because \<open>Screen\<close> and \<open>Terminal\<close> prove them bounded (rows to 25, lines to 1025). The state of each driver is a
  record, and each record extends the one below it, from the hardware log and interrupt flag (\<open>hw\<close>) over the
  terminals (\<open>tty_dev\<close>) to the whole kernel (\<open>kernel\<close>), so a driver's function runs on the kernel's state as it is.
  A C function is a HOL function of its arguments and the state. Loops that end by a counter are
  structural or \<open>function\<close> definitions with a measure; loops that end only on suitable data (a missing
  NUL, a scheduler with no open terminal, a shell) are \<open>partial_function (option)\<close>, where \<open>None\<close> is the
  run that never returns, so no fuel is used anywhere. \<open>None\<close> also stands for a run that C leaves undefined or that faults in the
  kernel: a first word that overruns the array of \<open>parse_args\<close>, a copy of \<open>load_file\<close> or a store of \<open>vidmap\<close> behind the window. A wait for an interrupt takes the list of handlers that run
  meanwhile. Reads of uninitialised variables, of ports and of addresses fixed by the linker are arguments
  (records \<open>env\<close> and \<open>boot_env\<close>). Leaving the kernel is a value: \<open>outcome\<close> for the return to the caller or the entry into a
  program, \<open>resumption\<close> for the switch to another process's stack.

  \<^bold>\<open>The scope of the memory model.\<close> The memory of a process (\<open>umem\<close>, \<open>user_mem\<close>, \<open>set_user_mem\<close>) is a function of addresses, one for each frame,
  apart from the kernel's data. It is faithful for pointers into the 4 MB window from 0x08000000, where \<open>Paging\<close> shows that an
  address of a process leads to its own frame only. \<open>read\<close>, \<open>getargs\<close> and \<open>open\<close> do not test their pointers, and with one into the kernel's page the
  real kernel overwrites its own data; that is outside the model, and the theorems on arbitrary calls (\<open>FileOps\<close>, \<open>Nesting\<close>)
  have the buffers in the window as a hypothesis. The image (\<open>boot_block\<close>) is a function of offsets; the boot loader is taken to have put it into the
  kernel's 4 MB page, the only place where the kernel can read it once paging is on.

  \<^bold>\<open>The theories.\<close>
  \<^item> \<open>Prelude\<close>: C types, buffers and views of memory, shared lemmas on words and waiting loops.
  \<^item> \<open>LibString\<close>, \<open>LibMem\<close>, \<open>Screen\<close>, \<open>Printf\<close>: \<^verbatim>\<open>lib.c\<close>. What the string functions compute on C strings, that \<open>itoa\<close>
    reads back; that the optimised copies equal byte copies; that printing never leaves video memory
    (locale \<open>console\<close>); the output of every conversion of \<open>printf\<close>.
  \<^item> \<open>Filesys\<close>: \<^verbatim>\<open>filesys.c\<close> on the image. Lookup by name and reading refine the list of names and of bytes
    (locale \<open>byte_source\<close>).
  \<^item> \<open>I8259\<close>, \<open>Rtc\<close>, \<open>Idt\<close>: \<^verbatim>\<open>i8259.c\<close>, \<^verbatim>\<open>rtc.c\<close>, \<open>pit_init\<close>, \<open>load_idt\<close>. Masks and acknowledgements at the
    controllers' ports (locale \<open>irq_controller\<close>), programmed rates, gates and their privileges from the zeroed table of \<^verbatim>\<open>x86_desc.S\<close> on.
  \<^item> \<open>Paging\<close>: \<^verbatim>\<open>paging.c\<close> with the processor's translation; in every reachable table user code sees its own
    frame and, after \<open>vidmap\<close>, the video page only.
  \<^item> \<open>Terminal\<close>, \<open>Keyboard\<close>: \<^verbatim>\<open>dev/terminal.c\<close>, \<open>kb_interrupt_do\<close>. Scan codes edit the line as an abstract line editor does
    (locale \<open>line_editor\<close>), and reads deliver it.
  \<^item> \<open>Pcb\<close>, \<open>FileOps\<close>: \<^verbatim>\<open>pcb.c\<close>, the file operations and \<open>read\<close>, \<open>write\<close>, \<open>open\<close>, \<open>close\<close> of \<^verbatim>\<open>system.c\<close>. The descriptor table
    stays well formed (locale \<open>call_interface\<close>); what each call does and refuses.
  \<^item> \<open>System\<close>: \<open>execute\<close>, \<open>halt\<close>, the other calls, the entry code and the exception handlers. Programs are loaded and
    started as they should be. \<open>Nesting\<close>: what a process can do between its entry and its end, children of its own included, as an inductive
    relation; by rule induction none of it disturbs another process, and \<open>halt\<close> or a page fault gives its parent back the machine.
  \<^item> \<open>Tasks\<close>, \<open>Boot\<close>: \<^verbatim>\<open>scheduling.c\<close>, \<^verbatim>\<open>task_switch.c\<close>, \<open>pit_handler\<close>; \<^verbatim>\<open>kernel.c\<close> with the structures of \<^verbatim>\<open>multiboot.h\<close> and \<^verbatim>\<open>x86_desc.h\<close>.
  \<^item> \<open>UserLib\<close>: \<^verbatim>\<open>ece391support.c\<close>, equal to the kernel's routines where both exist.
  \<^item> \<open>UserCalls\<close>: the calls as programs see them, with the locales \<open>user_system\<close>, \<open>file_calls\<close> and \<open>dir_calls\<close> interpreted
    on the kernel. \<open>UserProgs\<close>: \<open>cat\<close>, \<open>ls\<close>, \<open>hello\<close>, \<open>testprint\<close>, \<open>counter\<close> and \<open>shell\<close>. \<open>UserInput\<close>: programs that read the keyboard (locale
    \<open>line_calls\<close>). \<open>SysErr\<close>: the error test \<^verbatim>\<open>ece391syserr.c\<close>, which the kernel passes (locale \<open>error_calls\<close>). \<open>Grep\<close>: \<^verbatim>\<open>ece391grep.c\<close>, whose
    buffered search equals the search in the whole text of each file without NUL bytes (locales \<open>name_calls\<close>, \<open>grep_calls\<close>). \<open>Pingpong\<close>:
    \<^verbatim>\<open>ece391pingpong.c\<close>, paced by the clock (locale \<open>clock_calls\<close>). These theorems go from a program's \<open>main\<close> through the system
    call entry and the drivers to the screen.
  \<^item> \<open>Session\<close>: the start code of \<^verbatim>\<open>ece391syscall.S\<close>, and a session in which the shell executes \<open>cat\<close>: from the typed command
    through \<open>execute\<close>, the program and \<open>halt\<close> back to the shell's next prompt. \<open>Sigtest\<close>: \<^verbatim>\<open>ece391sigtest.c\<close>, which stores through a null pointer
    (locale \<open>fault_calls\<close>): the page tables make it fault, and the exception handler gives the machine back to its parent.
  \<^item> \<open>Blink\<close>: \<^verbatim>\<open>fish/blink.S\<close> with the allocator of \<^verbatim>\<open>fish/fish.c\<close>. The linked list in the static array refines a sequence of
    structures, and each blinks with the right period. \<open>Fish\<close>: \<^verbatim>\<open>fish.c\<close>, which reads two pictures from files and shows them
    through the page that \<open>vidmap\<close> gives it (locale \<open>fish_calls\<close>); the kernel's screen ends up as the abstract display.
  \<^item> \<open>Emulate\<close>: \<^verbatim>\<open>ece391emulate.c\<close>, which runs the programs on a Linux host whose calls are a parameter (record \<open>linux\<close>). \<open>execute\<close> splits a
    command into its words, \<open>getargs\<close> puts them together again, and directory reads deliver padded names.
  \<^item> \<open>Tests\<close>: \<^verbatim>\<open>tests.c\<close>, the kernel's own tests: what each prints, and that the kernel's tables, the file system, the clock and the
    terminal pass them.

  \<^bold>\<open>What the proofs showed.\<close> The scheduler looks up the current terminal and never switches; bounds checks on directory
  and inode indices, the terminal line and the pointer given to \<open>vidmap\<close> are off by one; \<open>memmove\<close> leaves the direction
  flag set; \<open>halt\<close> drops the status; a character in the last cell parks the cursor below the screen; \<open>open\<close> answers 0 for an entry of unknown
  type; programs too big for the window are loaded until the copy faults; the extended-key prefix sticks as control; \<open>parse_args\<close> and \<open>dir_read\<close> write or read past
  their buffers; a blinking character in the upper left corner makes the list of the animation a cycle;
  \<open>grep\<close> looks at a byte behind its buffer that it never wrote and garbles files with NUL bytes; a program that an exception ends looks to its parent like one that
  succeeded; the emulation's \<open>getargs\<close> stores a NUL behind an array that an argument fills, and its directory read ignores
  a count that is not positive. The theorems state the behaviour as it is.

  \<^bold>\<open>Not modelled.\<close> The start-up assembly \<^verbatim>\<open>boot.S\<close> and, its zeroed interrupt table apart, \<^verbatim>\<open>x86_desc.S\<close>; the compiler's output \<^verbatim>\<open>idt.s\<close> and \<^verbatim>\<open>idt.i\<close>. Machine code of user programs is not executed: a program is the function of its
  C source, its stack frames below its arrays are not in memory, and what a child does between
  \<open>execute\<close> and \<open>halt\<close> is a parameter, which \<open>Session\<close> and \<open>Sigtest\<close> instantiate with a modelled program, or any run of the relation of \<open>Nesting\<close>. Interrupts come only at waits and
  between calls, and the only exception that a modelled program raises is the page fault of the signal test.
\<close>

end
